(* ===== verification/Cpp_Prelude.thy ===== *)
theory Cpp_Prelude
  imports Main "HOL-Library.Sublist" "HOL-Library.Word"
begin

text \<open>
  Shared vocabulary of the development: C++ failures as values, the part of the C++ string and
  stream library that the modelled code calls, and generic lemmas on lists.  Bytes are
  \<^typ>\<open>char\<close>, a \<^verbatim>\<open>std::string\<close> is a list of them, \<^verbatim>\<open>size_t\<close> is
  \<^typ>\<open>nat\<close> with \<^verbatim>\<open>std::string::npos\<close> as \<^term>\<open>None\<close>; where the code
  subtracts from a \<^verbatim>\<open>size_t\<close> the wrap-around is written out with \<open>size_sub\<close>.
\<close>

named_theorems str_simps \<open>facts about the string library\<close>
named_theorems cpp_defs \<open>definitions to unfold when a modelled operation is evaluated\<close>

section \<open>Failures\<close>

datatype cpp_failure =
    Out_Of_Range           \<comment> \<open>\<^verbatim>\<open>std::out_of_range\<close>\<close>
  | Runtime_Error string   \<comment> \<open>\<^verbatim>\<open>std::runtime_error\<close>\<close>
  | Ios_Failure            \<comment> \<open>\<^verbatim>\<open>std::ios_base::failure\<close>\<close>
  | Json_Parse_Error       \<comment> \<open>\<^verbatim>\<open>nlohmann::json::parse_error\<close>\<close>
  | Json_Type_Error        \<comment> \<open>\<^verbatim>\<open>nlohmann::json::type_error\<close>\<close>
  | Invalid_Argument       \<comment> \<open>\<^verbatim>\<open>std::invalid_argument\<close>, \<^verbatim>\<open>HBT_ARG_CHECK\<close>\<close>
  | Assert_Failure         \<comment> \<open>\<^verbatim>\<open>GGML_ASSERT\<close>, \<^verbatim>\<open>assert\<close>\<close>
  | Undefined_Behaviour    \<comment> \<open>an index or iterator out of range\<close>

type_synonym 'a result = "cpp_failure + 'a"

definition rbind :: "'e + 'a \<Rightarrow> ('a \<Rightarrow> 'e + 'b) \<Rightarrow> 'e + 'b" where
  "rbind m f = (case m of Inl e \<Rightarrow> Inl e | Inr x \<Rightarrow> f x)"

lemma rbind_simps [simp]:
  "rbind (Inl e) f = Inl e"
  "rbind (Inr x) f = f x"
  by (simp_all add: rbind_def)

lemma rbind_eq_Inr_iff: "rbind m f = Inr y \<longleftrightarrow> (\<exists>x. m = Inr x \<and> f x = Inr y)"
  by (cases m) auto

lemma rbind_assoc: "rbind (rbind m f) g = rbind m (\<lambda>x. rbind (f x) g)"
  by (cases m) auto

text \<open>Reading a vector: past its end is undefined behaviour.\<close>

definition vec_at :: "'a list \<Rightarrow> nat \<Rightarrow> 'a result" where
  "vec_at xs i = (if i < length xs then Inr (xs ! i) else Inl Undefined_Behaviour)"

lemma vec_at_Inr_iff [simp]: "vec_at xs i = Inr x \<longleftrightarrow> i < length xs \<and> x = xs ! i"
  by (auto simp: vec_at_def)

lemma vec_at_in_range [simp]: "i < length xs \<Longrightarrow> vec_at xs i = Inr (xs ! i)"
  by (simp add: vec_at_def)

lemma vec_at_out [simp]: "\<not> i < length xs \<Longrightarrow> vec_at xs i = Inl Undefined_Behaviour"
  by (simp add: vec_at_def)

text \<open>\<^verbatim>\<open>a - b\<close> on a 64-bit \<^verbatim>\<open>size_t\<close>.\<close>

definition size_sub :: "nat \<Rightarrow> nat \<Rightarrow> nat" where
  "size_sub a b = (if b \<le> a then a - b else a + 2 ^ 64 - b)"

lemma size_sub_le [simp]: "b \<le> a \<Longrightarrow> size_sub a b = a - b"
  by (simp add: size_sub_def)

section \<open>Characters\<close>

abbreviation newline :: char where "newline \<equiv> CHR 0x0A"

definition char_code :: "char \<Rightarrow> nat" where
  "char_code c = of_char c"

text \<open>\<^verbatim>\<open>isspace\<close>, \<^verbatim>\<open>isalnum\<close>, \<^verbatim>\<open>tolower\<close> in the C locale.\<close>

definition is_space :: "char \<Rightarrow> bool" where
  "is_space c \<longleftrightarrow> c \<in> {CHR '' '', CHR 0x09, CHR 0x0A, CHR 0x0B, CHR 0x0C, CHR 0x0D}"

definition is_digit :: "char \<Rightarrow> bool" where
  "is_digit c \<longleftrightarrow> 48 \<le> char_code c \<and> char_code c \<le> 57"

definition is_upper :: "char \<Rightarrow> bool" where
  "is_upper c \<longleftrightarrow> 65 \<le> char_code c \<and> char_code c \<le> 90"

definition is_lower :: "char \<Rightarrow> bool" where
  "is_lower c \<longleftrightarrow> 97 \<le> char_code c \<and> char_code c \<le> 122"

definition is_alnum :: "char \<Rightarrow> bool" where
  "is_alnum c \<longleftrightarrow> is_digit c \<or> is_upper c \<or> is_lower c"

definition to_lower :: "char \<Rightarrow> char" where
  "to_lower c = (if is_upper c then char_of (char_code c + 32) else c)"

lemma char_code_less [simp]: "char_code c < 256"
  by (simp add: char_code_def)

lemma to_lower_not_upper: "\<not> is_upper (to_lower c)"
  by (auto simp: to_lower_def is_upper_def char_code_def)

lemma to_lower_idem [simp]: "to_lower (to_lower c) = to_lower c"
  by (simp add: to_lower_def [of "to_lower c"] to_lower_not_upper)

section \<open>Searching a string\<close>

text \<open>
  \<open>find_sub s p\<close> is the first position of \<open>p\<close> in \<open>s\<close>; \<open>str_find s p pos\<close>
  is \<^verbatim>\<open>s.find(p, pos)\<close>.
\<close>

fun find_sub :: "'a list \<Rightarrow> 'a list \<Rightarrow> nat option" where
  "find_sub [] p = (if p = [] then Some 0 else None)"
| "find_sub (c # s) p = (if prefix p (c # s) then Some 0 else map_option Suc (find_sub s p))"

definition str_find :: "'a list \<Rightarrow> 'a list \<Rightarrow> nat \<Rightarrow> nat option" where
  "str_find s p pos =
     (if pos \<le> length s then map_option ((+) pos) (find_sub (drop pos s) p) else None)"

lemma find_sub_Some:
  "find_sub s p = Some k \<Longrightarrow> prefix p (drop k s) \<and> k + length p \<le> length s"
proof (induction s arbitrary: k)
  case Nil
  then show ?case by (auto split: if_splits)
next
  case (Cons c s)
  show ?case
  proof (cases "prefix p (c # s)")
    case True
    with Cons.prems prefix_length_le [OF True] show ?thesis by simp
  next
    case False
    with Cons.prems obtain j where "find_sub s p = Some j" "k = Suc j" by auto
    with Cons.IH show ?thesis by auto
  qed
qed

lemma find_sub_least:
  "find_sub s p = Some k \<Longrightarrow> j < k \<Longrightarrow> \<not> prefix p (drop j s)"
proof (induction s arbitrary: k j)
  case Nil
  then show ?case by (auto split: if_splits)
next
  case (Cons c s)
  then show ?case by (cases j) (auto split: if_splits)
qed

lemma find_sub_None: "find_sub s p = None \<Longrightarrow> \<not> prefix p (drop j s)"
proof (induction s arbitrary: j)
  case Nil
  then show ?case by (auto split: if_splits)
next
  case (Cons c s)
  then show ?case by (cases j) (auto split: if_splits)
qed

lemma find_sub_Nil [simp]: "find_sub s [] = Some 0"
  by (cases s) auto

lemma str_find_Some:
  assumes "str_find s p pos = Some k"
  shows "pos \<le> k" "prefix p (drop k s)" "k + length p \<le> length s"
proof -
  from assms obtain j where j: "pos \<le> length s" "find_sub (drop pos s) p = Some j" "k = pos + j"
    by (auto simp: str_find_def split: if_splits)
  from find_sub_Some [OF j(2)] j(1,3)
  show "pos \<le> k" "prefix p (drop k s)" "k + length p \<le> length s"
    by (auto simp: add.commute)
qed

lemma str_find_least:
  assumes "str_find s p pos = Some k" "pos \<le> j" "j < k"
  shows "\<not> prefix p (drop j s)"
proof -
  from assms obtain i where i: "find_sub (drop pos s) p = Some i" "k = pos + i"
    by (auto simp: str_find_def split: if_splits)
  from assms(2,3) i(2) have "j - pos < i" by simp
  from find_sub_least [OF i(1) this] assms(2) show ?thesis by simp
qed

lemma str_find_None:
  assumes "str_find s p pos = None" "pos \<le> j" "j \<le> length s"
  shows "\<not> prefix p (drop j s)"
proof -
  from assms have "find_sub (drop pos s) p = None"
    by (auto simp: str_find_def split: if_splits)
  from find_sub_None [OF this, of "j - pos"] assms(2) show ?thesis by simp
qed

lemma prefix_drop_sublist: "prefix p (drop k s) \<Longrightarrow> sublist p s"
  by (meson sublist_drop sublist_order.order.trans prefix_imp_sublist)

section \<open>Editing a string\<close>

text \<open>\<^verbatim>\<open>s.substr(pos, n)\<close> throws when \<open>pos\<close> is past the end.\<close>

definition substr_from :: "'a list \<Rightarrow> nat \<Rightarrow> ('a list) result" where
  "substr_from s pos = (if pos \<le> length s then Inr (drop pos s) else Inl Out_Of_Range)"

definition substr :: "'a list \<Rightarrow> nat \<Rightarrow> nat \<Rightarrow> ('a list) result" where
  "substr s pos n = rbind (substr_from s pos) (\<lambda>t. Inr (take n t))"

text \<open>Signed 64-bit integers, beyond which an operation is undefined behaviour.\<close>

definition in_int64 :: "int \<Rightarrow> bool" where
  "in_int64 i \<longleftrightarrow> - (2 ^ 63) \<le> i \<and> i < 2 ^ 63"

text \<open>\<^verbatim>\<open>s.erase(pos, 1)\<close> and \<^verbatim>\<open>s.insert(pos, 1, c)\<close>.\<close>

definition str_erase1 :: "'a list \<Rightarrow> nat \<Rightarrow> 'a list" where
  "str_erase1 s pos = take pos s @ drop (Suc pos) s"

definition str_insert1 :: "'a list \<Rightarrow> nat \<Rightarrow> 'a \<Rightarrow> 'a list" where
  "str_insert1 s pos c = take pos s @ c # drop pos s"

lemma length_str_erase1 [simp]: "pos < length s \<Longrightarrow> length (str_erase1 s pos) = length s - 1"
  by (simp add: str_erase1_def)

lemma length_str_insert1 [simp]: "pos \<le> length s \<Longrightarrow> length (str_insert1 s pos c) = Suc (length s)"
  by (simp add: str_insert1_def)

lemma erase_insert [simp]: "pos \<le> length s \<Longrightarrow> str_erase1 (str_insert1 s pos c) pos = s"
  by (simp add: str_erase1_def str_insert1_def min_def)

lemma take_str_insert1:
  "pos \<le> length s \<Longrightarrow> take (Suc pos) (str_insert1 s pos c) = take pos s @ [c]"
  by (simp add: str_insert1_def take_Cons')

section \<open>Streams of lines\<close>

text \<open>
  The lines \<^verbatim>\<open>std::getline\<close> delivers: a final empty piece is not a line.
\<close>

fun getlines_acc :: "string \<Rightarrow> string \<Rightarrow> string list" where
  "getlines_acc acc [] = (if acc = [] then [] else [rev acc])"
| "getlines_acc acc (c # s) =
     (if c = newline then rev acc # getlines_acc [] s else getlines_acc (c # acc) s)"

definition getlines :: "string \<Rightarrow> string list" where
  "getlines s = getlines_acc [] s"

lemma getlines_acc_no_newline:
  "newline \<notin> set acc \<Longrightarrow> l \<in> set (getlines_acc acc s) \<Longrightarrow> newline \<notin> set l"
  by (induction acc s rule: getlines_acc.induct) (auto split: if_splits)

lemma getlines_no_newline: "l \<in> set (getlines s) \<Longrightarrow> newline \<notin> set l"
  by (auto simp: getlines_def dest: getlines_acc_no_newline [rotated])

lemma getlines_acc_line:
  "newline \<notin> set l \<Longrightarrow> getlines_acc acc (l @ newline # s) = (rev acc @ l) # getlines_acc [] s"
  by (induction l arbitrary: acc) auto

lemma getlines_unlines:
  "\<forall>l \<in> set ls. newline \<notin> set l \<Longrightarrow> getlines (concat (map (\<lambda>l. l @ [newline]) ls)) = ls"
  unfolding getlines_def by (induction ls) (simp_all add: getlines_acc_line)

section \<open>Trimming\<close>

text \<open>
  \<^verbatim>\<open>find_first_not_of\<close> and \<^verbatim>\<open>find_last_not_of\<close> for a set of characters given
  as a predicate.
\<close>

fun find_first_not :: "('a \<Rightarrow> bool) \<Rightarrow> 'a list \<Rightarrow> nat option" where
  "find_first_not P [] = None"
| "find_first_not P (c # s) = (if P c then map_option Suc (find_first_not P s) else Some 0)"

definition find_last_not :: "('a \<Rightarrow> bool) \<Rightarrow> 'a list \<Rightarrow> nat option" where
  "find_last_not P s = map_option (\<lambda>k. length s - 1 - k) (find_first_not P (rev s))"

lemma find_first_not_None: "find_first_not P s = None \<longleftrightarrow> (\<forall>c \<in> set s. P c)"
  by (induction s) auto

lemma find_first_not_Some:
  "find_first_not P s = Some k \<Longrightarrow> k < length s \<and> \<not> P (s ! k) \<and> (\<forall>j < k. P (s ! j))"
proof (induction s arbitrary: k)
  case (Cons c s)
  then show ?case by (fastforce split: if_splits simp: less_Suc_eq_0_disj)
qed simp

lemma find_last_not_Some:
  assumes "find_last_not P s = Some k"
  shows "k < length s" "\<not> P (s ! k)" "\<forall>j. k < j \<and> j < length s \<longrightarrow> P (s ! j)"
proof -
  from assms obtain i where i: "find_first_not P (rev s) = Some i" "k = length s - 1 - i"
    by (auto simp: find_last_not_def)
  note f = find_first_not_Some [OF i(1)]
  from f i(2) show "k < length s" by auto
  from f i(2) show "\<not> P (s ! k)" by (auto simp: rev_nth)
  show "\<forall>j. k < j \<and> j < length s \<longrightarrow> P (s ! j)"
  proof (intro allI impI)
    fix j assume j: "k < j \<and> j < length s"
    with i(2) f have "length s - 1 - j < i" by auto
    with f have "P (rev s ! (length s - 1 - j))" by blast
    moreover have "rev s ! (length s - 1 - j) = s ! j" using j by (auto simp: rev_nth)
    ultimately show "P (s ! j)" by simp
  qed
qed

text \<open>A string handed over as a C string ends at its first NUL byte.\<close>

definition c_str :: "string \<Rightarrow> string" where
  "c_str s = takeWhile (\<lambda>c. c \<noteq> CHR 0x00) s"

section \<open>Numbers as text\<close>

text \<open>What \<^verbatim>\<open>std::cout << n\<close> prints for an integer.\<close>

definition digit_char :: "nat \<Rightarrow> char" where
  "digit_char d = char_of (48 + d)"

fun show_nat :: "nat \<Rightarrow> string" where
  "show_nat n = (if n < 10 then [digit_char n] else show_nat (n div 10) @ [digit_char (n mod 10)])"

declare show_nat.simps [simp del]

definition show_int :: "int \<Rightarrow> string" where
  "show_int i = (if i < 0 then CHR ''-'' # show_nat (nat (- i)) else show_nat (nat i))"

lemma show_nat_nonempty [simp]: "show_nat n \<noteq> []"
  by (subst show_nat.simps) simp

lemma digit_char_not_newline: "d < 10 \<Longrightarrow> digit_char d \<noteq> newline"
proof
  assume d: "d < 10" and "digit_char d = newline"
  then have "of_char (digit_char d) = (of_char newline :: nat)" by simp
  with d show False by (simp add: digit_char_def)
qed

lemma newline_show_nat [simp]: "newline \<notin> set (show_nat n)"
proof (induction n rule: show_nat.induct)
  case (1 n)
  then show ?case
    by (subst show_nat.simps) (use digit_char_not_newline in \<open>auto simp: eq_commute\<close>)
qed

lemma newline_show_int [simp]: "newline \<notin> set (show_int i)"
  by (simp add: show_int_def)

end
