(* ===== verification/StrParser.thy ===== *)
theory StrParser
  imports Cpp_Prelude
begin

text \<open>
  \<^verbatim>\<open>lang-cli-src/str_parser.cpp\<close>: regular-expression extraction, splitting, counting of
  delimiters and lower-casing.  The regular expressions the program compiles are sequences of
  literals, look-aheads and repetitions of a character class; \<open>rx_match\<close> is the backtracking
  match of ECMAScript on that fragment, with the captured groups in order.
\<close>

section \<open>Regular expressions\<close>

datatype rx_item =
    RLit string                                  \<comment> \<open>literal text\<close>
  | RLook string                                 \<comment> \<open>\<^verbatim>\<open>(?=text)\<close>\<close>
  | RRep bool nat "char \<Rightarrow> bool" bool             \<comment> \<open>greedy, least count, class, captured\<close>

fun rx_match :: "rx_item list \<Rightarrow> string \<Rightarrow> string \<Rightarrow> (nat \<times> string list) option" where
  "rx_match [] acc s = Some (0, [])"
| "rx_match (RLit l # r) acc s =
     (if prefix l s
      then map_option (\<lambda>(n, cs). (length l + n, cs)) (rx_match r [] (drop (length l) s))
      else None)"
| "rx_match (RLook l # r) acc s = (if prefix l s then rx_match r [] s else None)"
| "rx_match (RRep g m p cap # r) acc [] =
     (if m \<le> length acc
      then map_option (\<lambda>(n, cs). (n, if cap then rev acc # cs else cs)) (rx_match r [] [])
      else None)"
| "rx_match (RRep g m p cap # r) acc (x # s) =
     (if g then
        (case (if p x then rx_match (RRep g m p cap # r) (x # acc) s else None) of
           Some (n, cs) \<Rightarrow> Some (Suc n, cs)
         | None \<Rightarrow>
             (if m \<le> length acc
              then map_option (\<lambda>(n, cs). (n, if cap then rev acc # cs else cs))
                     (rx_match r [] (x # s))
              else None))
      else
        (case (if m \<le> length acc then rx_match r [] (x # s) else None) of
           Some (n, cs) \<Rightarrow> Some (n, if cap then rev acc # cs else cs)
         | None \<Rightarrow>
             (if p x
              then map_option (\<lambda>(n, cs). (Suc n, cs)) (rx_match (RRep g m p cap # r) (x # acc) s)
              else None)))"

text \<open>\<^verbatim>\<open>std::regex_search\<close>: the leftmost match, as its start, length and captures.\<close>

fun rx_search :: "rx_item list \<Rightarrow> string \<Rightarrow> (nat \<times> nat \<times> string list) option" where
  "rx_search r [] = map_option (\<lambda>(n, cs). (0, n, cs)) (rx_match r [] [])"
| "rx_search r (x # s) =
     (case rx_match r [] (x # s) of
        Some (n, cs) \<Rightarrow> Some (0, n, cs)
      | None \<Rightarrow> map_option (\<lambda>(k, n, cs). (Suc k, n, cs)) (rx_search r s))"

text \<open>
  \<^verbatim>\<open>std::sregex_iterator\<close> over the patterns of this program, whose matches are never empty
  (\<open>rx_search_pos\<close> below): the search goes on where the last match ended.
\<close>

function rx_iter :: "rx_item list \<Rightarrow> string \<Rightarrow> (string \<times> string list) list" where
  "rx_iter r s =
     (case rx_search r s of
        None \<Rightarrow> []
      | Some (k, n, cs) \<Rightarrow>
          (take n (drop k s), cs) # (if n = 0 \<or> s = [] then [] else rx_iter r (drop (k + n) s)))"
  by pat_completeness auto
termination
  by (relation "measure (\<lambda>(r, s). length s)") auto

declare rx_iter.simps [simp del]

text \<open>\<^verbatim>\<open>match[1]\<close>.\<close>

definition group1 :: "string list \<Rightarrow> string" where
  "group1 cs = (case cs of [] \<Rightarrow> [] | c # _ \<Rightarrow> c)"

definition extract_strs :: "string \<Rightarrow> rx_item list \<Rightarrow> string list" where
  "extract_strs input r =
     filter (\<lambda>b. length b \<le> 10000) (map (\<lambda>(m, cs). group1 cs) (rx_iter r input))"

definition extract_str :: "string \<Rightarrow> rx_item list \<Rightarrow> string" where
  "extract_str input r =
     (case rx_search r input of None \<Rightarrow> [] | Some (k, n, cs) \<Rightarrow> take n (drop k input))"

section \<open>Splitting, counting, lower case\<close>

fun split_acc :: "string \<Rightarrow> string \<Rightarrow> char \<Rightarrow> string list" where
  "split_acc temp [] d = (if temp = [] then [] else [temp])"
| "split_acc temp (ch # s) d =
     (if ch = d then (if temp = [] then split_acc temp s d else temp # split_acc [] s d)
      else split_acc (temp @ [ch]) s d)"

definition split_str :: "string \<Rightarrow> char \<Rightarrow> string list" where
  "split_str str delimiter = split_acc [] str delimiter"

text \<open>
  The two counting loops.  With an empty delimiter \<^verbatim>\<open>find\<close> succeeds at the same position
  for ever, so the loops are partial: \<^term>\<open>None\<close> is a loop that does not end.
\<close>

partial_function (option) count_from :: "string \<Rightarrow> string \<Rightarrow> nat \<Rightarrow> nat \<Rightarrow> nat option" where
  "count_from input d pos n =
     (case str_find input d pos of
        None \<Rightarrow> Some n
      | Some p \<Rightarrow> count_from input d (p + length d) (n + 1))"

definition get_num_delimiters :: "string \<Rightarrow> string \<Rightarrow> nat option" where
  "get_num_delimiters input d = count_from input d 0 0"

partial_function (option) nth_from ::
  "string \<Rightarrow> string \<Rightarrow> nat \<Rightarrow> nat \<Rightarrow> nat \<Rightarrow> nat option option" where
  "nth_from input d n pos k =
     (case str_find input d pos of
        None \<Rightarrow> Some None
      | Some p \<Rightarrow> if k + 1 = n then Some (Some p) else nth_from input d n (p + length d) (k + 1))"

definition get_nth_delimiters :: "string \<Rightarrow> string \<Rightarrow> nat \<Rightarrow> nat option option" where
  "get_nth_delimiters input d n = nth_from input d n 0 0"

definition to_lower_case :: "string \<Rightarrow> string" where
  "to_lower_case input = map to_lower input"

section \<open>Facts about matching\<close>

lemma rx_rep_cases:
  assumes "rx_match (RRep g m p cap # r) acc (x # s) = Some (n, cs)"
  obtains (stop) cs' where "m \<le> length acc" "rx_match r [] (x # s) = Some (n, cs')"
      "cs = (if cap then rev acc # cs' else cs')"
    | (more) n' where "p x" "n = Suc n'" "rx_match (RRep g m p cap # r) (x # acc) s = Some (n', cs)"
  using assms by (cases g) (auto split: if_splits option.splits)

text \<open>Induction over a successful match, one case per way the match can go on.\<close>

lemma rx_match_success_induct [consumes 1, case_names Nil Lit Look Stop More]:
  assumes "rx_match r acc s = Some (n, cs)"
    and nil: "\<And>acc s. P [] acc s 0 []"
    and lit: "\<And>l r acc s n cs. prefix l s \<Longrightarrow> P r [] (drop (length l) s) n cs \<Longrightarrow>
          P (RLit l # r) acc s (length l + n) cs"
    and look: "\<And>l r acc s n cs. prefix l s \<Longrightarrow> P r [] s n cs \<Longrightarrow> P (RLook l # r) acc s n cs"
    and stop: "\<And>g m p cap r acc s n cs. m \<le> length acc \<Longrightarrow> P r [] s n cs \<Longrightarrow>
          P (RRep g m p cap # r) acc s n (if cap then rev acc # cs else cs)"
    and more: "\<And>g m p cap r acc x s n cs. p x \<Longrightarrow> P (RRep g m p cap # r) (x # acc) s n cs \<Longrightarrow>
          P (RRep g m p cap # r) acc (x # s) (Suc n) cs"
  shows "P r acc s n cs"
  using assms(1)
proof (induction r arbitrary: acc s n cs)
  case Nil
  then show ?case by (simp add: nil)
next
  case (Cons i r)
  show ?case
  proof (cases i)
    case (RLit l)
    with Cons.prems Cons.IH show ?thesis by (fastforce split: if_splits intro: lit)
  next
    case (RLook l)
    with Cons.prems Cons.IH show ?thesis by (auto split: if_splits intro: look)
  next
    case (RRep g m p cap)
    have "rx_match (RRep g m p cap # r) acc s = Some (n, cs) \<Longrightarrow> P (RRep g m p cap # r) acc s n cs"
    proof (induction s arbitrary: acc n)
      case Nil
      then obtain cs' where "m \<le> length acc" "rx_match r [] [] = Some (n, cs')"
        "cs = (if cap then rev acc # cs' else cs')" by (auto simp: split: if_splits)
      with Cons.IH stop [of m acc r "[]" n cs' g p cap] show ?case by blast
    next
      case (Cons x s)
      from Cons.prems show ?case
      proof (cases rule: rx_rep_cases)
        case (stop cs')
        with \<open>\<And>acc s n cs. rx_match r acc s = Some (n, cs) \<Longrightarrow> P r acc s n cs\<close>
        have "P r [] (x # s) n cs'" by blast
        with stop assms(5) show ?thesis by blast
      next
        case (more n')
        with Cons.IH assms(6) show ?thesis by blast
      qed
    qed
    with Cons.prems RRep show ?thesis by simp
  qed
qed

lemma rx_match_bounds: "rx_match r acc s = Some (n, cs) \<Longrightarrow> n \<le> length s"
  by (induction rule: rx_match_success_induct) (auto dest: prefix_length_le)

lemma rx_match_capture:
  assumes "rx_match r acc s = Some (n, cs)" "c \<in> set cs"
  shows "sublist c (rev acc @ s)"
  using assms
proof (induction rule: rx_match_success_induct)
  case (Lit l r acc s n cs)
  then have "sublist c (drop (length l) s)" by simp
  then show ?case by (meson sublist_append_leftI sublist_drop sublist_order.order.trans)
next
  case (Stop g m p cap r acc s n cs)
  then show ?case
    by (auto split: if_splits intro: sublist_order.order.trans [OF _ sublist_append_leftI])
qed (auto intro: sublist_order.order.trans [OF _ sublist_append_leftI])

lemma rx_search_bounds: "rx_search r s = Some (k, n, cs) \<Longrightarrow> k + n \<le> length s"
proof (induction s arbitrary: k n cs)
  case Nil
  then show ?case by (auto dest: rx_match_bounds)
next
  case (Cons x s)
  then show ?case by (auto split: option.splits dest: rx_match_bounds)
qed

lemma rx_search_match: "rx_search r s = Some (k, n, cs) \<Longrightarrow> rx_match r [] (drop k s) = Some (n, cs)"
proof (induction s arbitrary: k n cs)
  case Nil
  then show ?case by auto
next
  case (Cons x s)
  then show ?case by (auto split: option.splits)
qed

lemma rx_search_leftmost:
  "rx_search r s = Some (k, n, cs) \<Longrightarrow> j < k \<Longrightarrow> rx_match r [] (drop j s) = None"
proof (induction s arbitrary: k n cs j)
  case Nil
  then show ?case by auto
next
  case (Cons x s)
  then show ?case by (cases j) (auto split: option.splits)
qed

lemma rx_searchI:
  assumes "rx_match r [] (drop k s) = Some (n, cs)" "k \<le> length s"
    and "\<And>i. i < k \<Longrightarrow> rx_match r [] (drop i s) = None"
  shows "rx_search r s = Some (k, n, cs)"
  using assms
proof (induction s arbitrary: k)
  case Nil
  then show ?case by auto
next
  case (Cons x s)
  show ?case
  proof (cases k)
    case 0
    with Cons.prems show ?thesis by simp
  next
    case (Suc k')
    have "rx_search r s = Some (k', n, cs)"
      using Cons.prems Suc Cons.prems(3) [of "Suc i" for i] by (intro Cons.IH) auto
    moreover have "rx_match r [] (x # s) = None" using Cons.prems(3) [of 0] Suc by simp
    ultimately show ?thesis using Suc by simp
  qed
qed

lemma rx_search_capture:
  assumes "rx_search r s = Some (k, n, cs)" "c \<in> set cs"
  shows "sublist c s"
proof -
  from rx_match_capture [OF rx_search_match [OF assms(1)] assms(2)]
  have "sublist c (drop k s)" by simp
  then show ?thesis by (meson sublist_drop sublist_order.order.trans)
qed

text \<open>A pattern that starts with a non-empty literal never matches the empty string.\<close>

lemma rx_search_pos:
  assumes "rx_search (RLit l # r) s = Some (k, n, cs)" "l \<noteq> []"
  shows "0 < n"
  using rx_search_match [OF assms(1)] assms(2) by (auto split: if_splits)

lemma rx_iter_capture:
  "(m, cs) \<in> set (rx_iter r s) \<Longrightarrow> c \<in> set cs \<Longrightarrow> sublist c s"
proof (induction r s rule: rx_iter.induct)
  case (1 r s)
  show ?case
  proof (cases "rx_search r s")
    case None
    with "1.prems" show ?thesis by (simp add: rx_iter.simps [of r s])
  next
    case (Some q)
    obtain k n cs' where q: "q = (k, n, cs')" by (cases q)
    from "1.prems"(1) Some q consider "cs = cs'"
      | "\<not> (n = 0 \<or> s = [])" "(m, cs) \<in> set (rx_iter r (drop (k + n) s))"
      by (auto simp: rx_iter.simps [of r s] split: if_splits)
    then show ?thesis
    proof cases
      case 1
      with Some q rx_search_capture "1.prems"(2) show ?thesis by blast
    next
      case 2
      with "1.IH" Some q "1.prems"(2) have "sublist c (drop (k + n) s)" by blast
      then show ?thesis by (meson sublist_drop sublist_order.order.trans)
    qed
  qed
qed

lemma group1_sublist: "(\<And>c. c \<in> set cs \<Longrightarrow> sublist c s) \<Longrightarrow> sublist (group1 cs) s"
  by (cases cs) (auto simp: group1_def)

lemma extract_strs_sublist: "b \<in> set (extract_strs input r) \<Longrightarrow> sublist b input"
  by (auto simp: extract_strs_def intro!: group1_sublist dest: rx_iter_capture)

lemma extract_strs_length: "b \<in> set (extract_strs input r) \<Longrightarrow> length b \<le> 10000"
  by (auto simp: extract_strs_def)

text \<open>
  The fenced-block pattern \<^verbatim>\<open>OPEN([\s\S]*?)CLOSE\<close>: at an opening fence the match runs to the
  first closing fence behind it.
\<close>

abbreviation fence_rx :: "string \<Rightarrow> string \<Rightarrow> rx_item list" where
  "fence_rx opn cls \<equiv> [RLit opn, RRep False 0 (\<lambda>_. True) True, RLit cls]"

lemma rx_lazy_any:
  "rx_match [RRep False 0 (\<lambda>_. True) True, RLit cls] acc s =
     map_option (\<lambda>k. (k + length cls, [rev acc @ take k s])) (find_sub s cls)"
proof (induction s arbitrary: acc)
  case Nil
  then show ?case by auto
next
  case (Cons x s)
  then show ?case by (auto simp: option.map_comp comp_def split: option.split)
qed

lemma rx_fence:
  "rx_match (fence_rx opn cls) acc s =
     (if prefix opn s
      then map_option (\<lambda>k. (length opn + k + length cls, [take k (drop (length opn) s)]))
             (find_sub (drop (length opn) s) cls)
      else None)"
  by (simp only: rx_match.simps(2) rx_lazy_any)
     (auto simp: option.map_comp comp_def add.assoc)

section \<open>Facts about splitting\<close>

lemma split_acc_parts:
  "d \<notin> set temp \<Longrightarrow> p \<in> set (split_acc temp s d) \<Longrightarrow> p \<noteq> [] \<and> d \<notin> set p"
  by (induction temp s d rule: split_acc.induct) (auto split: if_splits)

lemma split_str_parts: "p \<in> set (split_str s d) \<Longrightarrow> p \<noteq> [] \<and> d \<notin> set p"
  by (auto simp: split_str_def dest: split_acc_parts [rotated])

lemma concat_split_acc: "concat (split_acc temp s d) = temp @ filter (\<lambda>c. c \<noteq> d) s"
  by (induction temp s d rule: split_acc.induct) auto

lemma concat_split_str: "concat (split_str s d) = filter (\<lambda>c. c \<noteq> d) s"
  by (simp add: split_str_def concat_split_acc)

lemma split_acc_part:
  "d \<notin> set p \<Longrightarrow> temp @ p \<noteq> [] \<Longrightarrow> split_acc temp (p @ d # s) d = (temp @ p) # split_acc [] s d"
  by (induction p arbitrary: temp) auto

lemma split_acc_last: "d \<notin> set p \<Longrightarrow> temp @ p \<noteq> [] \<Longrightarrow> split_acc temp p d = [temp @ p]"
  by (induction p arbitrary: temp) auto

lemma split_str_join:
  "\<forall>p \<in> set ps. p \<noteq> [] \<and> d \<notin> set p \<Longrightarrow>
     split_str (concat (map (\<lambda>p. p @ [d]) ps)) d = ps"
  unfolding split_str_def by (induction ps) (simp_all add: split_acc_part)

lemma split_str_Nil_iff: "split_str s d = [] \<longleftrightarrow> set s \<subseteq> {d}"
proof
  assume "split_str s d = []"
  with concat_split_str [of s d] have "filter (\<lambda>c. c \<noteq> d) s = []" by simp
  then show "set s \<subseteq> {d}" by (auto simp: filter_empty_conv)
next
  assume *: "set s \<subseteq> {d}"
  then have "split_acc [] s d = []" by (induction s) auto
  then show "split_str s d = []" by (simp add: split_str_def)
qed

section \<open>Facts about the counting loops\<close>

text \<open>The non-overlapping occurrences of a non-empty delimiter from a position on.\<close>

function occurrences :: "string \<Rightarrow> string \<Rightarrow> nat \<Rightarrow> nat list" where
  "occurrences s d pos =
     (case str_find s d pos of
        None \<Rightarrow> []
      | Some p \<Rightarrow> if d = [] then [] else p # occurrences s d (p + length d))"
  by pat_completeness auto
termination
proof (relation "measure (\<lambda>(s, d, pos). Suc (length s) - pos)", goal_cases)
  case (2 s d pos p)
  then show ?case using str_find_Some [of s d pos p] by (cases d) auto
qed simp

declare occurrences.simps [simp del]

lemma occurrences_at: "p \<in> set (occurrences s d pos) \<Longrightarrow> pos \<le> p \<and> prefix d (drop p s) \<and> p + length d \<le> length s"
proof (induction s d pos rule: occurrences.induct)
  case (1 s d pos)
  from "1.prems" obtain q where q: "str_find s d pos = Some q" "d \<noteq> []"
    by (cases "str_find s d pos") (auto simp: occurrences.simps [of s d pos] split: if_splits)
  note f = str_find_Some [OF q(1)]
  from "1.prems" q consider "p = q" | "p \<in> set (occurrences s d (q + length d))"
    by (auto simp: occurrences.simps [of s d pos])
  then show ?case
  proof cases
    case 1
    with f show ?thesis by simp
  next
    case 2
    from "1.IH" [OF q(1) q(2) 2] f show ?thesis by simp
  qed
qed

lemma occurrences_sorted: "sorted_wrt (\<lambda>p q. p + length d \<le> q) (occurrences s d pos)"
proof (induction s d pos rule: occurrences.induct)
  case (1 s d pos)
  show ?case
  proof (cases "str_find s d pos")
    case None
    then show ?thesis by (simp add: occurrences.simps [of s d pos])
  next
    case (Some q)
    with "1.IH" [OF Some] show ?thesis
      by (auto simp: occurrences.simps [of s d pos] dest: occurrences_at)
  qed
qed

lemma count_from_eq: "d \<noteq> [] \<Longrightarrow> count_from s d pos n = Some (n + length (occurrences s d pos))"
proof (induction s d pos arbitrary: n rule: occurrences.induct)
  case (1 s d pos)
  then show ?case
    by (subst count_from.simps) (auto simp: occurrences.simps [of s d pos] split: option.splits)
qed

lemma nth_from_eq:
  "d \<noteq> [] \<Longrightarrow> nth_from s d n pos k =
     Some (let os = occurrences s d pos in
           if k < n \<and> n - k \<le> length os then Some (os ! (n - k - 1)) else None)"
proof (induction s d pos arbitrary: k rule: occurrences.induct)
  case (1 s d pos)
  show ?case
  proof (cases "str_find s d pos")
    case None
    then show ?thesis by (simp add: nth_from.simps [of s d n pos k] occurrences.simps [of s d pos] Let_def)
  next
    case (Some q)
    have o: "occurrences s d pos = q # occurrences s d (q + length d)"
      using Some "1.prems" by (simp add: occurrences.simps [of s d pos])
    have IH: "nth_from s d n (q + length d) (k + 1) =
       Some (let os = occurrences s d (q + length d) in
           if k + 1 < n \<and> n - (k + 1) \<le> length os then Some (os ! (n - (k + 1) - 1)) else None)"
      by (rule "1.IH" [OF Some "1.prems" "1.prems"])
    show ?thesis
    proof (cases "k + 1 = n")
      case True
      with Some o show ?thesis by (simp add: nth_from.simps [of s d n pos k] Let_def)
    next
      case False
      with Some o IH show ?thesis
        by (auto simp: nth_from.simps [of s d n pos k] Let_def nth_Cons' Suc_diff_Suc)
    qed
  qed
qed

text \<open>With an empty delimiter the loop finds the same position again and never returns.\<close>

lemma str_find_Nil [simp]: "pos \<le> length s \<Longrightarrow> str_find s [] pos = Some pos"
  by (simp add: str_find_def)

lemma count_from_empty: "pos \<le> length s \<Longrightarrow> count_from s [] pos n = None"
proof (rule ccontr)
  assume pos: "pos \<le> length s" and "count_from s [] pos n \<noteq> None"
  then obtain r where r: "count_from s [] pos n = Some r" by auto
  have "pos \<le> length s \<longrightarrow> ([] :: string) \<noteq> []"
  proof (rule count_from.raw_induct [where P = "\<lambda>s d pos n r. pos \<le> length s \<longrightarrow> d \<noteq> []", OF _ r])
    fix f :: "string \<Rightarrow> string \<Rightarrow> nat \<Rightarrow> nat \<Rightarrow> nat option" and s d pos n r
    assume IH: "\<And>s d pos n r. f s d pos n = Some r \<Longrightarrow> pos \<le> length s \<longrightarrow> d \<noteq> []"
      and eq: "(case str_find s d pos of None \<Rightarrow> Some n
                | Some p \<Rightarrow> f s d (p + length d) (n + 1)) = Some r"
    show "pos \<le> length s \<longrightarrow> d \<noteq> []"
    proof (intro impI notI)
      assume "pos \<le> length s" "d = []"
      with eq IH [of s d pos "n + 1" r] show False by simp
    qed
  qed
  with pos show False by simp
qed

end
