(* ===== verification/Console.thy ===== *)
theory Console
  imports StrParser
begin

text \<open>
  \<^verbatim>\<open>lang-cli-src/console_manager.cpp\<close> and \<^verbatim>\<open>print_centered_message\<close> of
  \<^verbatim>\<open>common/log.cpp\<close>: the line editors and menus of the command-line tool.  The keyboard is a
  list of code points, read by \<^verbatim>\<open>console::getchar32\<close>, which returns \<open>WEOF\<close> at its end for
  ever; what a function prints is a string.
\<close>

section \<open>Keyboard and screen\<close>

type_synonym keys = "nat list"

definition WEOF :: nat where
  "WEOF = 0xFFFFFFFF"

fun getchar32 :: "keys \<Rightarrow> nat \<times> keys" where
  "getchar32 [] = (WEOF, [])"
| "getchar32 (c # ks) = (c, ks)"

lemma getchar32_length [simp]: "length (snd (getchar32 ks)) = length ks - 1"
  by (cases ks) auto

definition ESC :: char where "ESC = CHR 0x1B"

definition csi :: "string \<Rightarrow> string" where
  "csi s = ESC # CHR ''['' # s"

definition LOG_COL_DEFAULT :: string where "LOG_COL_DEFAULT = csi ''0m''"
definition LOG_COL_RED :: string where "LOG_COL_RED = csi ''31m''"
definition LOG_COL_GREEN :: string where "LOG_COL_GREEN = csi ''32m''"
definition LOG_COL_YELLOW :: string where "LOG_COL_YELLOW = csi ''33m''"
definition LOG_COL_BLUE :: string where "LOG_COL_BLUE = csi ''34m''"
definition LOG_COL_WHITE :: string where "LOG_COL_WHITE = csi ''37m''"
definition LOG_COL_AQUA :: string where "LOG_COL_AQUA = csi ''38;5;14m''"

lemmas log_col_defs = LOG_COL_DEFAULT_def LOG_COL_RED_def LOG_COL_GREEN_def LOG_COL_YELLOW_def
  LOG_COL_BLUE_def LOG_COL_WHITE_def LOG_COL_AQUA_def csi_def ESC_def

definition move_cursor_up :: "nat \<Rightarrow> string" where
  "move_cursor_up n = csi (show_nat n @ ''A'')"

definition clear_line :: string where
  "clear_line = csi ''2K'' @ [CHR 0x0D]"

definition print_error :: "string \<Rightarrow> string" where
  "print_error m = LOG_COL_RED @ m @ [newline] @ LOG_COL_DEFAULT"

definition print_warning :: "string \<Rightarrow> string" where
  "print_warning m = LOG_COL_YELLOW @ m @ [newline] @ LOG_COL_DEFAULT"

definition print_info :: "string \<Rightarrow> string" where
  "print_info m = LOG_COL_AQUA @ m @ [newline] @ LOG_COL_DEFAULT"

definition print_success :: "string \<Rightarrow> string" where
  "print_success m = LOG_COL_GREEN @ m @ [newline] @ LOG_COL_DEFAULT"

text \<open>
  \<^verbatim>\<open>padding\<close> is an \<^verbatim>\<open>int\<close>: for a message one short of the width it is \<open>-1\<close>, and
  C++ division rounds its half to \<open>0\<close>.
\<close>

definition print_centered_message :: "string \<Rightarrow> int \<Rightarrow> string" where
  "print_centered_message message total_length =
     (let message_length = int (length message) in
      if message_length \<ge> total_length then LOG_COL_BLUE @ message @ [newline] @ LOG_COL_DEFAULT
      else
        let padding = total_length - message_length - 2;
            half_padding = (if padding < 0 then 0 else padding div 2)
        in LOG_COL_BLUE @ replicate (nat half_padding) (CHR ''-'')
           @ '' '' @ message @ '' ''
           @ replicate (nat (padding - half_padding)) (CHR ''-'')
           @ LOG_COL_DEFAULT @ [newline])"

definition trim :: "string \<Rightarrow> string" where
  "trim str =
     (case find_first_not is_space str of
        None \<Rightarrow> []
      | Some start \<Rightarrow>
          (case find_last_not is_space str of
             None \<Rightarrow> []
           | Some en \<Rightarrow> take (en - start + 1) (drop start str)))"

definition count_lines :: "string \<Rightarrow> nat" where
  "count_lines str = length (getlines str)"

section \<open>Escape sequences and word motion\<close>

definition handle_escape_sequence :: "keys \<Rightarrow> nat \<times> keys" where
  "handle_escape_sequence ks =
     (let (ch, ks1) = getchar32 ks in
      if ch = char_code (CHR ''['') then
        let (ch, ks2) = getchar32 ks1 in
        (if ch = char_code (CHR ''A'') \<or> ch = char_code (CHR ''B'')
            \<or> ch = char_code (CHR ''C'') \<or> ch = char_code (CHR ''D'')
         then ch else 0, ks2)
      else if ch = char_code (CHR ''b'') then (ch, ks1)
      else if ch = char_code (CHR ''f'') then (ch, ks1)
      else (0, ks1))"

definition refresh_line :: "string \<Rightarrow> nat \<Rightarrow> string" where
  "refresh_line input pos =
     [CHR 0x0D] @ csi ''K'' @ input @ csi (show_nat (size_sub (length input) pos) @ ''D'')"

text \<open>The two scanning loops: \<^verbatim>\<open>while (pos > 0 && P(input[pos-1])) pos--\<close> and its mirror.\<close>

fun back_while :: "(char \<Rightarrow> bool) \<Rightarrow> string \<Rightarrow> nat \<Rightarrow> nat" where
  "back_while P s 0 = 0"
| "back_while P s (Suc p) = (if P (s ! p) then back_while P s p else Suc p)"

function fwd_while :: "(char \<Rightarrow> bool) \<Rightarrow> string \<Rightarrow> nat \<Rightarrow> nat" where
  "fwd_while P s pos = (if pos < length s \<and> P (s ! pos) then fwd_while P s (Suc pos) else pos)"
  by pat_completeness auto
termination
  by (relation "measure (\<lambda>(P, s, pos). length s - pos)") auto

declare fwd_while.simps [simp del]

definition move_back_one_word :: "string \<Rightarrow> nat \<Rightarrow> nat \<times> string" where
  "move_back_one_word input pos =
     (let pos = back_while is_space input pos;
          pos = back_while is_alnum input pos
      in (pos, refresh_line input pos))"

definition move_forward_one_word :: "string \<Rightarrow> nat \<Rightarrow> nat \<times> string" where
  "move_forward_one_word input pos =
     (let pos = fwd_while is_space input pos;
          pos = fwd_while is_alnum input pos
      in (pos, refresh_line input pos))"

lemma handle_escape_sequence_length: "length (snd (handle_escape_sequence ks)) \<le> length ks"
  by (cases ks; cases "tl ks") (auto simp: handle_escape_sequence_def Let_def)

lemma back_while_le: "back_while P s pos \<le> pos"
  by (induction pos) (auto intro: le_SucI)

lemma back_while_stop: "back_while P s pos = Suc p \<Longrightarrow> \<not> P (s ! p)"
  by (induction pos) (auto split: if_splits)

lemma back_while_skipped: "back_while P s pos \<le> i \<Longrightarrow> i < pos \<Longrightarrow> P (s ! i)"
  by (induction pos) (auto split: if_splits simp: less_Suc_eq)

lemma fwd_while_bounds: "pos \<le> length s \<Longrightarrow> pos \<le> fwd_while P s pos \<and> fwd_while P s pos \<le> length s"
proof (induction P s pos rule: fwd_while.induct)
  case (1 P s pos)
  then show ?case by (auto simp: fwd_while.simps [of P s pos])
qed

lemma move_back_le: "fst (move_back_one_word s pos) \<le> pos"
  by (auto simp: move_back_one_word_def Let_def intro: back_while_le order.trans)

lemma move_forward_bounds:
  assumes "pos \<le> length s"
  shows "pos \<le> fst (move_forward_one_word s pos)" "fst (move_forward_one_word s pos) \<le> length s"
  using fwd_while_bounds [OF assms, of is_space]
    fwd_while_bounds [of "fwd_while is_space s pos" s is_alnum]
  by (auto simp: move_forward_one_word_def Let_def)

section \<open>The single-line editor\<close>

record line_edit =
  le_input :: string
  le_pos :: nat
  le_out :: string

text \<open>
  One turn of the loop of \<^verbatim>\<open>edit_prefilled_input\<close>, for a key that is not Enter: backspace,
  an escape sequence, or another key.
\<close>

definition edit_backspace :: "line_edit \<Rightarrow> line_edit" where
  "edit_backspace st =
     (let input = le_input st; pos = le_pos st in
      if pos > 0 then
        (let input' = str_erase1 input (pos - 1) in
         \<lparr>le_input = input', le_pos = pos - 1, le_out = le_out st @ refresh_line input' (pos - 1)\<rparr>)
      else st)"

definition edit_escape :: "line_edit \<Rightarrow> nat \<Rightarrow> line_edit" where
  "edit_escape st key =
     (let input = le_input st; pos = le_pos st; out = le_out st in
      if key = char_code (CHR ''C'') \<and> pos < length input then
        st\<lparr>le_out := out @ csi ''C'', le_pos := pos + 1\<rparr>
      else if key = char_code (CHR ''D'') \<and> pos > 0 then
        st\<lparr>le_out := out @ csi ''D'', le_pos := pos - 1\<rparr>
      else if key = char_code (CHR ''b'') \<and> pos > 0 then
        (let (pos', o') = move_back_one_word input pos in st\<lparr>le_pos := pos', le_out := out @ o'\<rparr>)
      else if key = char_code (CHR ''f'') \<and> pos < length input then
        (let (pos', o') = move_forward_one_word input pos in st\<lparr>le_pos := pos', le_out := out @ o'\<rparr>)
      else st)"

definition edit_insert :: "line_edit \<Rightarrow> nat \<Rightarrow> line_edit" where
  "edit_insert st ch =
     (let input' = str_insert1 (le_input st) (le_pos st) (char_of ch); pos' = le_pos st + 1 in
      \<lparr>le_input = input', le_pos = pos', le_out = le_out st @ refresh_line input' pos'\<rparr>)"

definition edit_key :: "line_edit \<Rightarrow> nat \<Rightarrow> keys \<Rightarrow> line_edit \<times> keys" where
  "edit_key st ch ks =
     (if ch = 127 \<or> ch = 8 then (edit_backspace st, ks)
      else if ch = 27 then
        (let (key, ks') = handle_escape_sequence ks in (edit_escape st key, ks'))
      else if ch = 1 then
        (st\<lparr>le_pos := 0, le_out := le_out st @ refresh_line (le_input st) 0\<rparr>, ks)
      else if ch = 5 then
        (st\<lparr>le_pos := length (le_input st),
            le_out := le_out st @ refresh_line (le_input st) (length (le_input st))\<rparr>, ks)
      else if ch \<ge> 32 \<and> ch \<le> 126 then (edit_insert st ch, ks)
      else (st, ks))"

lemma edit_key_length: "length (snd (edit_key st ch ks)) \<le> length ks"
  using handle_escape_sequence_length [of ks]
  by (auto simp: edit_key_def Let_def split: prod.splits)

text \<open>
  The loop runs until Enter.  At the end of the input \<^verbatim>\<open>getchar32\<close> returns \<open>WEOF\<close>, which
  no branch handles, and the loop spins for ever: \<^term>\<open>None\<close>.
\<close>

function edit_loop :: "line_edit \<Rightarrow> keys \<Rightarrow> (line_edit \<times> keys) option" where
  "edit_loop st [] = None"
| "edit_loop st (ch # ks) =
     (if ch = 10 then Some (st, ks)
      else edit_loop (fst (edit_key st ch ks)) (snd (edit_key st ch ks)))"
  by pat_completeness auto
termination
  by (relation "measure (\<lambda>(st, ks). length ks)") (simp_all add: less_Suc_eq_le edit_key_length case_prod_unfold)

definition edit_prefilled_input :: "string \<Rightarrow> keys \<Rightarrow> (string \<times> string \<times> keys) option" where
  "edit_prefilled_input prefilled ks =
     map_option (\<lambda>(st, ks'). (le_input st, le_out st @ [newline], ks'))
       (edit_loop \<lparr>le_input = prefilled, le_pos = length prefilled, le_out = prefilled\<rparr> ks)"

definition edit_inv :: "line_edit \<Rightarrow> bool" where
  "edit_inv st \<longleftrightarrow> le_pos st \<le> length (le_input st)"

lemma edit_backspace_inv: "edit_inv st \<Longrightarrow> edit_inv (edit_backspace st)"
  by (simp add: edit_backspace_def edit_inv_def Let_def diff_le_mono)

lemma edit_insert_inv: "edit_inv st \<Longrightarrow> edit_inv (edit_insert st ch)"
  by (simp add: edit_insert_def edit_inv_def Let_def)

lemma edit_escape_inv:
  assumes "edit_inv st"
  shows "edit_inv (edit_escape st key)"
  using assms move_back_le [of "le_input st" "le_pos st"]
    move_forward_bounds(2) [of "le_pos st" "le_input st"]
  by (simp add: edit_escape_def edit_inv_def Let_def case_prod_unfold char_code_def
        le_trans [OF diff_le_self])

lemma edit_key_inv: "edit_inv st \<Longrightarrow> edit_inv (fst (edit_key st ch ks))"
  by (simp add: edit_key_def Let_def case_prod_unfold edit_backspace_inv edit_insert_inv edit_escape_inv)
     (simp add: edit_inv_def)

lemma edit_loop_inv: "edit_loop st ks = Some (st', ks') \<Longrightarrow> edit_inv st \<Longrightarrow> edit_inv st'"
  by (induction st ks rule: edit_loop.induct) (auto split: if_splits intro: edit_key_inv)

text \<open>Typing printable text inserts it at the cursor.\<close>

definition printable :: "char \<Rightarrow> bool" where
  "printable c \<longleftrightarrow> 32 \<le> char_code c \<and> char_code c \<le> 126"

lemma edit_loop_type:
  assumes "\<forall>c \<in> set s. printable c" "edit_inv st"
  shows "\<exists>out. edit_loop st (map char_code s @ ks) =
      edit_loop \<lparr>le_input = take (le_pos st) (le_input st) @ s @ drop (le_pos st) (le_input st),
                 le_pos = le_pos st + length s, le_out = out\<rparr> ks"
  using assms
proof (induction s arbitrary: st)
  case Nil
  have "\<lparr>le_input = le_input st, le_pos = le_pos st, le_out = le_out st\<rparr> = st" by simp
  then show ?case by (metis append_Nil append_take_drop_id add_0_right list.size(3) list.map(1))
next
  case (Cons c s)
  let ?st' = "edit_insert st (char_code c)"
  from Cons.prems have c: "32 \<le> char_code c" "char_code c \<le> 126" by (auto simp: printable_def)
  then have key: "edit_key st (char_code c) ks' = (?st', ks')" for ks' by (simp add: edit_key_def)
  have ins: "le_input ?st' = take (le_pos st) (le_input st) @ c # drop (le_pos st) (le_input st)"
    "le_pos ?st' = le_pos st + 1"
    by (simp_all add: edit_insert_def str_insert1_def char_code_def Let_def)
  have le: "le_pos st \<le> length (le_input st)" using Cons.prems(2) by (simp add: edit_inv_def)
  have "edit_inv ?st'" using Cons.prems(2) by (rule edit_insert_inv)
  with Cons.IH [of ?st'] Cons.prems(1) obtain out where
    "edit_loop ?st' (map char_code s @ ks) =
      edit_loop \<lparr>le_input = take (le_pos ?st') (le_input ?st') @ s @ drop (le_pos ?st') (le_input ?st'),
                 le_pos = le_pos ?st' + length s, le_out = out\<rparr> ks" by auto
  with c key le show ?case by (simp add: ins min_def del: One_nat_def) auto
qed

text \<open>Typing a printable text into the line editor and confirming it returns the prefilled text
  with the typed text behind it, and leaves the rest of the keyboard input unread.\<close>

theorem edit_types_text:
  assumes "\<forall>c \<in> set s. printable c"
  shows "\<exists>out. edit_prefilled_input prefilled (map char_code s @ 10 # ks) = Some (prefilled @ s, out, ks)"
  using edit_loop_type [OF assms, of "\<lparr>le_input = prefilled, le_pos = length prefilled, le_out = prefilled\<rparr>" "10 # ks"]
  by (auto simp: edit_prefilled_input_def edit_inv_def)

theorem edit_types_text_witness:
  "\<exists>out. edit_prefilled_input ''ls'' (map char_code '' -l'' @ 10 # [113]) = Some (''ls'' @ '' -l'', out, [113])"
  by (rule edit_types_text) (simp add: printable_def char_code_def)

text \<open>Whatever keys are pressed, the cursor of the line editor stays within the text: from a valid
  state each key leads to a valid state, and backspace undoes an insertion.\<close>

theorem edit_cursor_valid:
  assumes "edit_inv st"
  shows "edit_inv (fst (edit_key st ch ks))
    \<and> le_input (edit_backspace (edit_insert st ch)) = le_input st
    \<and> le_pos (edit_backspace (edit_insert st ch)) = le_pos st"
  using assms edit_key_inv [OF assms]
  by (simp add: edit_backspace_def edit_insert_def edit_inv_def Let_def)

theorem edit_cursor_valid_witness:
  "edit_inv (fst (edit_key \<lparr>le_input = ''ls'', le_pos = 1, le_out = []\<rparr> 27 [98]))"
  using edit_cursor_valid [of "\<lparr>le_input = ''ls'', le_pos = 1, le_out = []\<rparr>" 27 "[98]"]
  by (simp add: edit_inv_def)

end
