(* ===== verification/MultiEdit.thy ===== *)
theory MultiEdit
  imports Console
begin

text \<open>
  The multi-line editor of \<^verbatim>\<open>lang-cli-src/console_manager.cpp\<close>, which opens a suggested
  command for editing: \<^verbatim>\<open>refresh_multiline\<close> and \<^verbatim>\<open>edit_prefilled_input_multiline\<close>.
  \<^verbatim>\<open>lines[i]\<close> out of range is \<^const>\<open>Undefined_Behaviour\<close>.
\<close>

section \<open>The editor\<close>

record multi_edit =
  me_lines :: "string list"
  me_x :: nat
  me_y :: nat
  me_out :: string

definition refresh_multiline ::
  "string list \<Rightarrow> int \<Rightarrow> nat \<Rightarrow> nat \<Rightarrow> nat \<Rightarrow> string result" where
  "refresh_multiline lines terminal_height pos_y pos_x max_visible_lines =
     (let mapped_y = terminal_height - (int max_visible_lines - int pos_y) in
      rbind (vec_at lines pos_y) (\<lambda>line.
        let pos_x' = min pos_x (length line) in
        Inr (csi (show_int mapped_y @ '';1H'')
             @ concat (map (\<lambda>l. csi ''K'' @ l @ [newline]) (drop pos_y lines))
             @ csi (show_int mapped_y @ '';'' @ show_nat (pos_x' + 1) @ ''H''))))"

definition me_refresh :: "int \<Rightarrow> nat \<Rightarrow> multi_edit \<Rightarrow> multi_edit result" where
  "me_refresh h maxv st =
     rbind (refresh_multiline (me_lines st) h (me_y st) (me_x st) maxv)
       (\<lambda>o'. Inr (st\<lparr>me_out := me_out st @ o'\<rparr>))"

text \<open>Backspace removes a character, or at the start of a line joins it to the one above.\<close>

definition me_backspace :: "int \<Rightarrow> nat \<Rightarrow> multi_edit \<Rightarrow> multi_edit result" where
  "me_backspace h maxv st =
     (let lines = me_lines st; x = me_x st; y = me_y st in
      if x > 0 then
        rbind (vec_at lines y) (\<lambda>line.
          me_refresh h maxv (st\<lparr>me_lines := lines[y := str_erase1 line (x - 1)], me_x := x - 1\<rparr>))
      else if y > 0 then
        rbind (vec_at lines (y - 1)) (\<lambda>above.
        rbind (vec_at lines y) (\<lambda>line.
          me_refresh h maxv
            (st\<lparr>me_x := length above,
                me_lines := take y (lines[y - 1 := above @ line]) @ drop (Suc y) lines,
                me_y := y - 1\<rparr>)))
      else Inr st)"

definition me_escape :: "int \<Rightarrow> nat \<Rightarrow> multi_edit \<Rightarrow> nat \<Rightarrow> multi_edit result" where
  "me_escape h maxv st key =
     (let lines = me_lines st; x = me_x st; y = me_y st in
      rbind (if key = char_code (CHR ''C'') then
               rbind (vec_at lines y) (\<lambda>line. Inr (x < length line)) else Inr False) (\<lambda>right.
      if right then
        Inr (st\<lparr>me_out := me_out st @ csi ''C'', me_x := x + 1\<rparr>)
      else if key = char_code (CHR ''D'') \<and> x > 0 then
        Inr (st\<lparr>me_out := me_out st @ csi ''D'', me_x := x - 1\<rparr>)
      else if key = char_code (CHR ''A'') \<and> y > 0 then
        rbind (vec_at lines (y - 1)) (\<lambda>line.
          me_refresh h maxv (st\<lparr>me_y := y - 1, me_x := min x (length line)\<rparr>))
      else if key = char_code (CHR ''B'') \<and> y < size_sub (length lines) 1 then
        rbind (vec_at lines (y + 1)) (\<lambda>line.
          me_refresh h maxv (st\<lparr>me_y := y + 1, me_x := min x (length line)\<rparr>))
      else Inr st))"

definition me_insert :: "int \<Rightarrow> nat \<Rightarrow> multi_edit \<Rightarrow> nat \<Rightarrow> multi_edit result" where
  "me_insert h maxv st ch =
     rbind (vec_at (me_lines st) (me_y st)) (\<lambda>line.
       me_refresh h maxv
         (st\<lparr>me_lines := (me_lines st)[me_y st := str_insert1 line (me_x st) (char_of ch)],
             me_x := me_x st + 1\<rparr>))"

definition me_key :: "int \<Rightarrow> nat \<Rightarrow> multi_edit \<Rightarrow> nat \<Rightarrow> keys \<Rightarrow> (multi_edit \<times> keys) result" where
  "me_key h maxv st ch ks =
     (if ch = 127 \<or> ch = 8 then rbind (me_backspace h maxv st) (\<lambda>st'. Inr (st', ks))
      else if ch = 27 then
        (let (key, ks') = handle_escape_sequence ks in
         rbind (me_escape h maxv st key) (\<lambda>st'. Inr (st', ks')))
      else if ch \<ge> 32 \<and> ch \<le> 126 then rbind (me_insert h maxv st ch) (\<lambda>st'. Inr (st', ks))
      else Inr (st, ks))"

lemma me_key_length: "me_key h maxv st ch ks = Inr (st', ks') \<Longrightarrow> length ks' \<le> length ks"
  using handle_escape_sequence_length [of ks]
  by (auto simp: me_key_def rbind_eq_Inr_iff Let_def case_prod_unfold split: if_splits)

text \<open>The read loop; at the end of the input it spins (\<^term>\<open>None\<close>).\<close>

function me_loop ::
  "int \<Rightarrow> nat \<Rightarrow> multi_edit \<Rightarrow> keys \<Rightarrow> (multi_edit \<times> keys) result option" where
  "me_loop h maxv st [] = None"
| "me_loop h maxv st (ch # ks) =
     (if ch = 10 then Some (Inr (st, ks))
      else (case me_key h maxv st ch ks of
              Inl e \<Rightarrow> Some (Inl e)
            | Inr (st', ks') \<Rightarrow> me_loop h maxv st' ks'))"
  by pat_completeness auto
termination
proof (relation "measure (\<lambda>(h, maxv, st, ks). length ks)", goal_cases)
  case (2 h maxv st ch ks p st' ks')
  then show ?case using me_key_length [of h maxv st ch ks st' ks'] by auto
qed simp

definition me_start :: "int \<Rightarrow> nat \<Rightarrow> string list \<Rightarrow> multi_edit result" where
  "me_start h maxv lines =
     (if lines = [] then Inl Undefined_Behaviour
      else
        let st = \<lparr>me_lines = lines, me_x = length (last lines), me_y = maxv - 1,
                  me_out = replicate (length lines) newline\<rparr> in
        rbind (refresh_multiline lines h 0 0 maxv) (\<lambda>o1.
          me_refresh h maxv (st\<lparr>me_out := me_out st @ o1\<rparr>)))"

text \<open>After Enter: the screen is drawn from the last visible line and the lines are joined.\<close>

definition me_finish :: "int \<Rightarrow> nat \<Rightarrow> multi_edit \<Rightarrow> (string \<times> string) result" where
  "me_finish h maxv st =
     rbind (vec_at (me_lines st) (size_sub maxv 1)) (\<lambda>line.
     rbind (refresh_multiline (me_lines st) h (size_sub maxv 1) (length line) maxv) (\<lambda>o1.
       Inr (concat (map (\<lambda>l. l @ [newline]) (me_lines st)), me_out st @ o1 @ [newline])))"

definition edit_prefilled_input_multiline ::
  "int \<Rightarrow> string \<Rightarrow> keys \<Rightarrow> (string \<times> string \<times> keys) result option" where
  "edit_prefilled_input_multiline h prefilled ks =
     (let lines = split_str prefilled newline; maxv = length lines in
      case me_start h maxv lines of
        Inl e \<Rightarrow> Some (Inl e)
      | Inr st \<Rightarrow>
          (case me_loop h maxv st ks of
             None \<Rightarrow> None
           | Some r \<Rightarrow>
               Some (rbind r (\<lambda>(st', ks').
                 rbind (me_finish h maxv st') (\<lambda>(txt, o'). Inr (txt, o', ks'))))))"

section \<open>The cursor stays on the text\<close>

definition me_inv :: "nat \<Rightarrow> multi_edit \<Rightarrow> bool" where
  "me_inv maxv st \<longleftrightarrow>
     me_y st < length (me_lines st) \<and> me_x st \<le> length (me_lines st ! me_y st)
     \<and> length (me_lines st) \<le> maxv"

lemma me_refresh_ok:
  "me_y st < length (me_lines st) \<Longrightarrow>
     \<exists>o'. me_refresh h maxv st = Inr (st\<lparr>me_out := me_out st @ o'\<rparr>)"
  by (auto simp: me_refresh_def refresh_multiline_def Let_def)

lemma me_inv_out [simp]: "me_inv maxv (st\<lparr>me_out := o'\<rparr>) = me_inv maxv st"
  by (simp add: me_inv_def)

lemma me_refresh_inv:
  assumes "me_inv maxv st"
  shows "\<exists>st'. me_refresh h maxv st = Inr st' \<and> me_inv maxv st' \<and> me_lines st' = me_lines st"
  using me_refresh_ok [of st h maxv] assms by (auto simp: me_inv_def)

lemma me_backspace_inv:
  assumes inv: "me_inv maxv st"
  shows "\<exists>st'. me_backspace h maxv st = Inr st' \<and> me_inv maxv st'
           \<and> length (me_lines st') \<le> length (me_lines st)"
proof -
  define lines x y where d: "lines = me_lines st" "x = me_x st" "y = me_y st"
  from inv have y: "y < length lines" and x: "x \<le> length (lines ! y)" and m: "length lines \<le> maxv"
    by (simp_all add: me_inv_def d)
  consider "x > 0" | "x = 0" "y > 0" | "x = 0" "y = 0" by auto
  then show ?thesis
  proof cases
    case 1
    let ?s = "st\<lparr>me_lines := lines[y := str_erase1 (lines ! y) (x - 1)], me_x := x - 1\<rparr>"
    have "me_inv maxv ?s" using 1 x y m by (auto simp: me_inv_def d)
    with me_refresh_inv [OF this, of h] 1 y show ?thesis
      by (auto simp: me_backspace_def Let_def d)
  next
    case 2
    let ?s = "st\<lparr>me_x := length (lines ! (y - 1)),
                me_lines := take y (lines[y - 1 := lines ! (y - 1) @ lines ! y]) @ drop (Suc y) lines,
                me_y := y - 1\<rparr>"
    have "me_inv maxv ?s" using 2 y m by (auto simp: me_inv_def d nth_append)
    with me_refresh_inv [OF this, of h] 2 y show ?thesis
      by (auto simp: me_backspace_def Let_def d)
  next
    case 3
    with inv show ?thesis by (auto simp: me_backspace_def Let_def d)
  qed
qed

lemma me_escape_inv:
  assumes inv: "me_inv maxv st"
  shows "\<exists>st'. me_escape h maxv st key = Inr st' \<and> me_inv maxv st' \<and> me_lines st' = me_lines st"
proof -
  define lines x y where d: "lines = me_lines st" "x = me_x st" "y = me_y st"
  from inv have y: "y < length lines" and x: "x \<le> length (lines ! y)" and m: "length lines \<le> maxv"
    by (simp_all add: me_inv_def d)
  have up: "me_inv maxv (st\<lparr>me_y := y - 1, me_x := min x (length (lines ! (y - 1)))\<rparr>)" if "y > 0"
    using that y m by (auto simp: me_inv_def d)
  have down: "me_inv maxv (st\<lparr>me_y := y + 1, me_x := min x (length (lines ! (y + 1)))\<rparr>)"
    if "y < length lines - 1"
    using that m by (auto simp: me_inv_def d)
  have sz: "size_sub (length lines) 1 = length lines - 1" using y by (cases lines) auto
  show ?thesis
    using y x m sz me_refresh_inv [OF up, of h] me_refresh_inv [OF down, of h] inv
    by (auto simp: me_escape_def Let_def d [symmetric] char_code_def me_inv_def)
qed

lemma me_insert_inv:
  assumes inv: "me_inv maxv st"
  shows "\<exists>st'. me_insert h maxv st ch = Inr st' \<and> me_inv maxv st'
           \<and> length (me_lines st') = length (me_lines st)"
proof -
  let ?s = "st\<lparr>me_lines := (me_lines st)[me_y st := str_insert1 (me_lines st ! me_y st) (me_x st) (char_of ch)],
             me_x := me_x st + 1\<rparr>"
  have "me_inv maxv ?s" using inv by (auto simp: me_inv_def)
  with me_refresh_inv [OF this, of h] inv show ?thesis
    by (auto simp: me_insert_def me_inv_def)
qed

lemma me_key_inv:
  assumes inv: "me_inv maxv st"
  shows "\<exists>st' ks'. me_key h maxv st ch ks = Inr (st', ks') \<and> me_inv maxv st'
           \<and> length (me_lines st') \<le> length (me_lines st)"
proof -
  obtain key ks' where k: "handle_escape_sequence ks = (key, ks')" by fastforce
  from me_backspace_inv [OF inv, of h] me_escape_inv [OF inv, of h key] me_insert_inv [OF inv, of h ch]
  show ?thesis using inv by (auto simp: me_key_def k)
qed

lemma me_loop_inv:
  assumes "me_inv maxv st" "me_loop h maxv st ks = Some r"
  shows "\<exists>st' ks'. r = Inr (st', ks') \<and> me_inv maxv st' \<and> length (me_lines st') \<le> length (me_lines st)"
  using assms
proof (induction h maxv st ks rule: me_loop.induct)
  case (2 h maxv st ch ks)
  show ?case
  proof (cases "ch = 10")
    case True
    with 2 show ?thesis by auto
  next
    case False
    from me_key_inv [OF "2.prems"(1)] obtain st1 ks1 where k: "me_key h maxv st ch ks = Inr (st1, ks1)"
      "me_inv maxv st1" "length (me_lines st1) \<le> length (me_lines st)" by blast
    with "2.IH" [OF False k(1) refl k(2)] "2.prems"(2) False show ?thesis by fastforce
  qed
qed simp

lemma me_start_inv:
  assumes "lines \<noteq> []"
  shows "\<exists>st. me_start h (length lines) lines = Inr st \<and> me_inv (length lines) st \<and> me_lines st = lines"
proof -
  obtain o1 where o1: "refresh_multiline lines h 0 0 (length lines) = Inr o1"
    using assms by (auto simp: refresh_multiline_def Let_def)
  let ?s = "\<lparr>me_lines = lines, me_x = length (last lines), me_y = length lines - 1,
                  me_out = replicate (length lines) newline @ o1\<rparr>"
  have "me_inv (length lines) ?s" using assms by (simp add: me_inv_def last_conv_nth)
  from me_refresh_inv [OF this, of h] o1 assms show ?thesis
    by (auto simp: me_start_def Let_def)
qed

lemma me_finish_eq:
  assumes "me_inv maxv st"
  shows "me_finish h maxv st =
    (if length (me_lines st) = maxv
     then Inr (concat (map (\<lambda>l. l @ [newline]) (me_lines st)),
               me_out st
               @ projr (refresh_multiline (me_lines st) h (maxv - 1) (length (me_lines st ! (maxv - 1))) maxv)
               @ [newline])
     else Inl Undefined_Behaviour)"
proof -
  from assms have m: "maxv > 0" "length (me_lines st) \<le> maxv" by (auto simp: me_inv_def)
  show ?thesis
  proof (cases "length (me_lines st) = maxv")
    case True
    with m show ?thesis by (auto simp: me_finish_def refresh_multiline_def Let_def)
  next
    case False
    with m show ?thesis by (simp add: me_finish_def)
  qed
qed

section \<open>Joining lines\<close>

text \<open>A run of backspaces over a line and once more joins it to the line above.\<close>

lemma me_backspaces:
  assumes "me_inv maxv st" "me_x st = k"
  shows "\<exists>st'. me_loop h maxv st (replicate k 127 @ ks) = me_loop h maxv st' ks \<and> me_inv maxv st'
           \<and> me_x st' = 0 \<and> me_y st' = me_y st \<and> length (me_lines st') = length (me_lines st)"
  using assms
proof (induction k arbitrary: st)
  case 0
  then show ?case by auto
next
  case (Suc k)
  let ?l = "(me_lines st)[me_y st := str_erase1 (me_lines st ! me_y st) k]"
  let ?s = "st\<lparr>me_lines := ?l, me_x := k\<rparr>"
  have inv: "me_inv maxv ?s" using Suc.prems by (auto simp: me_inv_def)
  obtain o' where o': "me_refresh h maxv ?s = Inr (?s\<lparr>me_out := me_out ?s @ o'\<rparr>)"
    using me_refresh_ok [of ?s h maxv] inv by (auto simp: me_inv_def)
  have "me_backspace h maxv st = Inr (?s\<lparr>me_out := me_out ?s @ o'\<rparr>)"
    using Suc.prems o' by (simp add: me_backspace_def Let_def me_inv_def)
  then have step: "me_loop h maxv st (replicate (Suc k) 127 @ ks)
      = me_loop h maxv (?s\<lparr>me_out := me_out ?s @ o'\<rparr>) (replicate k 127 @ ks)"
    by (simp add: me_key_def)
  from Suc.IH [of "?s\<lparr>me_out := me_out ?s @ o'\<rparr>"] inv Suc.prems(2)
  show ?case unfolding step by auto
qed

text \<open>Any two-line command that the user joins into one line and confirms makes the editor read
  past the end of its line vector.\<close>

theorem edit_multiline_join_ub:
  assumes "a \<noteq> []" "b \<noteq> []" "newline \<notin> set a" "newline \<notin> set b"
  shows "edit_prefilled_input_multiline h (a @ newline # b) (replicate (length b + 1) 127 @ [10])
           = Some (Inl Undefined_Behaviour)"
proof -
  have sp: "split_str (a @ newline # b) newline = [a, b]"
    using assms by (simp add: split_str_def split_acc_part split_acc_last)
  obtain st where st: "me_start h 2 [a, b] = Inr st" "me_inv 2 st" "me_lines st = [a, b]"
    using me_start_inv [of "[a, b]" h] by (auto simp: numeral_2_eq_2)
  have x: "me_x st = length b" "me_y st = 1"
    using st(1) by (auto simp: me_start_def me_refresh_def refresh_multiline_def Let_def rbind_eq_Inr_iff)
  obtain s1 where s1: "me_loop h 2 st (replicate (length b) 127 @ [127, 10]) = me_loop h 2 s1 [127, 10]"
    "me_inv 2 s1" "me_x s1 = 0" "me_y s1 = 1" "length (me_lines s1) = 2"
    using me_backspaces [OF st(2) x(1), of h "[127, 10]"] x(2) st(3) by auto
  then obtain p q where pq: "me_lines s1 = [p, q]"
    by (metis (no_types, lifting) One_nat_def Suc_1 length_0_conv length_Suc_conv)
  obtain o' where bs: "me_backspace h 2 s1
      = Inr (s1\<lparr>me_x := length p, me_lines := [p @ q], me_y := 0, me_out := me_out s1 @ o'\<rparr>)"
    using s1(3,4) pq
    by (simp add: me_backspace_def Let_def me_refresh_def refresh_multiline_def)
  have "me_loop h 2 s1 [127, 10]
      = Some (Inr (s1\<lparr>me_x := length p, me_lines := [p @ q], me_y := 0, me_out := me_out s1 @ o'\<rparr>, []))"
    by (simp add: me_key_def bs)
  with s1(1) have lp: "me_loop h 2 st (replicate (length b + 1) 127 @ [10])
      = Some (Inr (s1\<lparr>me_x := length p, me_lines := [p @ q], me_y := 0, me_out := me_out s1 @ o'\<rparr>, []))"
    by (simp add: replicate_append_same [symmetric])
  have two: "length [a, b] = 2" by simp
  show ?thesis
    unfolding edit_prefilled_input_multiline_def sp Let_def two st(1)
    by (simp only: sum.case lp option.case) (simp add: me_finish_def)
qed

theorem edit_multiline_join_ub_witness:
  "edit_prefilled_input_multiline 24 (''cd /'' @ newline # ''ls'') (replicate (length ''ls'' + 1) 127 @ [10])
     = Some (Inl Undefined_Behaviour)"
  by (rule edit_multiline_join_ub) simp_all

end
