(* ===== verification/MultiEditText.thy ===== *)
theory MultiEditText
  imports MultiEdit
begin

text \<open>
  The multi-line editor as an editor of one text with a cursor: what every key does to the text before and
  behind the cursor, and that the editor over a vector of lines implements it, up to the final redraw, which
  reads out of range when lines have been joined.
\<close>

section \<open>A text with a cursor\<close>

type_synonym flat = "string \<times> string"

text \<open>The part of the line of the cursor before it.\<close>

definition cur_line :: "string \<Rightarrow> string" where
  "cur_line b = rev (takeWhile (\<lambda>c. c \<noteq> newline) (rev b))"

definition at_pos :: "nat \<Rightarrow> string \<Rightarrow> flat" where
  "at_pos p t = (take p t, drop p t)"

text \<open>Up and down keep the column, as far as the other line reaches.\<close>

fun flat_up :: "flat \<Rightarrow> flat" where
  "flat_up (b, a) =
     (if newline \<in> set b then
        let col = length (cur_line b);
            p = take (length b - col - 1) b;
            above = cur_line p
        in at_pos (length p - length above + min col (length above)) (b @ a)
      else (b, a))"

fun flat_down :: "flat \<Rightarrow> flat" where
  "flat_down (b, a) =
     (if newline \<in> set a then
        let rest = takeWhile (\<lambda>c. c \<noteq> newline) a;
            below = takeWhile (\<lambda>c. c \<noteq> newline) (drop (length rest + 1) a)
        in at_pos (length b + length rest + 1 + min (length (cur_line b)) (length below)) (b @ a)
      else (b, a))"

fun flat_move :: "nat \<Rightarrow> flat \<Rightarrow> flat" where
  "flat_move key (b, a) =
     (if key = char_code (CHR ''C'') \<and> a \<noteq> [] \<and> hd a \<noteq> newline then (b @ [hd a], tl a)
      else if key = char_code (CHR ''D'') \<and> b \<noteq> [] \<and> last b \<noteq> newline then (butlast b, last b # a)
      else if key = char_code (CHR ''A'') then flat_up (b, a)
      else if key = char_code (CHR ''B'') then flat_down (b, a)
      else (b, a))"

text \<open>Backspace takes away the character before the cursor, a line end like any other.\<close>

definition flat_key :: "flat \<Rightarrow> nat \<Rightarrow> keys \<Rightarrow> flat \<times> keys" where
  "flat_key f ch ks =
     (if ch = 127 \<or> ch = 8 then ((butlast (fst f), snd f), ks)
      else if ch = 27 then (let (key, ks') = handle_escape_sequence ks in (flat_move key f, ks'))
      else if 32 \<le> ch \<and> ch \<le> 126 then ((fst f @ [char_of ch], snd f), ks)
      else (f, ks))"

lemma flat_key_length: "length (snd (flat_key f ch ks)) \<le> length ks"
  using handle_escape_sequence_length [of ks] by (auto simp: flat_key_def Let_def case_prod_unfold)

function flat_loop :: "flat \<Rightarrow> keys \<Rightarrow> (flat \<times> keys) option" where
  "flat_loop f [] = None"
| "flat_loop f (ch # ks) =
     (if ch = 10 then Some (f, ks) else flat_loop (fst (flat_key f ch ks)) (snd (flat_key f ch ks)))"
  by pat_completeness auto
termination
  by (relation "measure (\<lambda>(f, ks). length ks)") (use flat_key_length in \<open>auto simp: less_Suc_eq_le snd_def\<close>)

text \<open>The lines of the suggested command, as one text; empty lines are gone.\<close>

definition start_text :: "string \<Rightarrow> string" where
  "start_text prefilled =
     (case split_str prefilled newline of
        [] \<Rightarrow> []
      | l # ls \<Rightarrow> l @ concat (map (\<lambda>l. newline # l) ls))"

definition flat_edit :: "string \<Rightarrow> keys \<Rightarrow> (string \<times> keys) result option" where
  "flat_edit prefilled ks =
     map_option (\<lambda>((b, a), ks').
         if count_list (b @ a) newline = count_list (start_text prefilled) newline
         then Inr (b @ a @ [newline], ks') else Inl Undefined_Behaviour)
       (flat_loop (start_text prefilled, []) ks)"

section \<open>The lines as a text\<close>

abbreviation ended :: "string list \<Rightarrow> string" where
  "ended ls \<equiv> concat (map (\<lambda>l. l @ [newline]) ls)"

abbreviation begun :: "string list \<Rightarrow> string" where
  "begun ls \<equiv> concat (map (\<lambda>l. newline # l) ls)"

definition me_text :: "multi_edit \<Rightarrow> flat" where
  "me_text st =
     (ended (take (me_y st) (me_lines st)) @ take (me_x st) (me_lines st ! me_y st),
      drop (me_x st) (me_lines st ! me_y st) @ begun (drop (Suc (me_y st)) (me_lines st)))"

definition me_text_inv :: "nat \<Rightarrow> multi_edit \<Rightarrow> bool" where
  "me_text_inv maxv st \<longleftrightarrow> me_inv maxv st \<and> (\<forall>l \<in> set (me_lines st). newline \<notin> set l)"

lemma me_text_out [simp]: "me_text (st\<lparr>me_out := o'\<rparr>) = me_text st" "me_text_inv n (st\<lparr>me_out := o'\<rparr>) = me_text_inv n st"
  by (simp_all add: me_text_def me_text_inv_def)

lemma me_text_split:
  assumes "me_text_inv maxv st"
  obtains front l rear where "me_lines st = front @ l # rear" "me_y st = length front" "me_x st \<le> length l"
    "me_text st = (ended front @ take (me_x st) l, drop (me_x st) l @ begun rear)"
    "newline \<notin> set l" "\<forall>l \<in> set (front @ rear). newline \<notin> set l" "length front + length rear < maxv"
proof -
  have y: "me_y st < length (me_lines st)" using assms by (simp add: me_text_inv_def me_inv_def)
  define front l rear where d: "front = take (me_y st) (me_lines st)" "l = me_lines st ! me_y st"
    "rear = drop (Suc (me_y st)) (me_lines st)"
  have eq: "me_lines st = front @ l # rear" using id_take_nth_drop [OF y] by (simp add: d)
  have n: "me_y st = length front" using y by (simp add: d)
  show ?thesis
    by (rule that [OF eq n]) (use assms eq n in \<open>auto simp: me_text_inv_def me_inv_def me_text_def nth_append\<close>)
qed

lemma ended_begun: "ended (l # ls) = l @ begun ls @ [newline]"
  by (induction ls arbitrary: l) auto

lemma ended_cases: "ended ls = [] \<or> last (ended ls) = newline"
  by (cases ls rule: rev_cases) auto

lemma begun_cases: "begun ls = [] \<or> hd (begun ls) = newline"
  by (cases ls) auto

lemma newline_in_ended: "newline \<in> set (ended ls) \<longleftrightarrow> ls \<noteq> []"
  by (cases ls) auto

lemma newline_in_begun: "newline \<in> set (begun ls) \<longleftrightarrow> ls \<noteq> []"
  by (cases ls) auto

lemma cur_line_ended: "newline \<notin> set w \<Longrightarrow> cur_line (ended ls @ w) = w"
proof -
  assume w: "newline \<notin> set w"
  have "takeWhile (\<lambda>c. c \<noteq> newline) (rev (ended ls)) = []"
    by (cases ls rule: rev_cases) simp_all
  moreover have "takeWhile (\<lambda>c. c \<noteq> newline) (rev w @ rev (ended ls)) = rev w @ takeWhile (\<lambda>c. c \<noteq> newline) (rev (ended ls))"
    by (rule takeWhile_append2) (use w in auto)
  ultimately show ?thesis by (simp add: cur_line_def)
qed

lemma take_line_begun: "newline \<notin> set w \<Longrightarrow> takeWhile (\<lambda>c. c \<noteq> newline) (w @ begun ls) = w"
proof -
  assume w: "newline \<notin> set w"
  have "takeWhile (\<lambda>c. c \<noteq> newline) (w @ begun ls) = w @ takeWhile (\<lambda>c. c \<noteq> newline) (begun ls)"
    by (rule takeWhile_append2) (use w in auto)
  then show ?thesis by (cases ls) simp_all
qed

lemma count_newlines:
  "\<forall>l \<in> set ls. newline \<notin> set l \<Longrightarrow> count_list (ended ls) newline = length ls"
  "\<forall>l \<in> set ls. newline \<notin> set l \<Longrightarrow> count_list (begun ls) newline = length ls"
  by (induction ls) auto

lemma me_text_invI:
  assumes "me_lines st = front @ l # rear" "me_y st = length front" "me_x st \<le> length l"
    "newline \<notin> set l" "\<forall>l \<in> set (front @ rear). newline \<notin> set l" "length front + length rear < maxv"
  shows "me_text_inv maxv st" "me_text st = (ended front @ take (me_x st) l, drop (me_x st) l @ begun rear)"
  using assms by (auto simp: me_text_inv_def me_inv_def me_text_def nth_append)

section \<open>Every key\<close>

lemma me_refresh_text:
  assumes "me_text_inv maxv st"
  shows "\<exists>st'. me_refresh h maxv st = Inr st' \<and> me_text_inv maxv st' \<and> me_text st' = me_text st"
  using me_refresh_ok [of st h maxv] assms by (auto simp: me_text_inv_def me_inv_def)

lemma me_backspace_text:
  assumes "me_text_inv maxv st"
  shows "\<exists>st'. me_backspace h maxv st = Inr st' \<and> me_text_inv maxv st'
    \<and> me_text st' = (butlast (fst (me_text st)), snd (me_text st))"
proof -
  obtain front l rear where s: "me_lines st = front @ l # rear" "me_y st = length front" "me_x st \<le> length l"
    "me_text st = (ended front @ take (me_x st) l, drop (me_x st) l @ begun rear)"
    "newline \<notin> set l" "\<forall>l \<in> set (front @ rear). newline \<notin> set l" "length front + length rear < maxv"
    by (rule me_text_split [OF assms])
  show ?thesis
  proof (cases "me_x st")
    case (Suc x)
    define st1 where "st1 = st\<lparr>me_lines := front @ str_erase1 l x # rear, me_x := x\<rparr>"
    have "me_backspace h maxv st = me_refresh h maxv st1"
      using Suc s(1,2) by (simp add: me_backspace_def Let_def st1_def)
    moreover have "me_text_inv maxv st1"
      by (rule me_text_invI(1) [of _ front "str_erase1 l x" rear])
        (use s Suc in \<open>auto simp: st1_def str_erase1_def dest: in_set_takeD in_set_dropD\<close>)
    moreover have "me_text st1 = (butlast (fst (me_text st)), snd (me_text st))"
      using s Suc by (simp add: st1_def me_text_def nth_append str_erase1_def butlast_append butlast_take take_Suc_conv_app_nth)
    ultimately show ?thesis using me_refresh_text [of maxv st1 h] by auto
  next
    case 0
    show ?thesis
    proof (cases front rule: rev_cases)
      case Nil
      with 0 s assms show ?thesis by (simp add: me_backspace_def Let_def)
    next
      case (snoc us u)
      define st1 where "st1 = st\<lparr>me_x := length u, me_lines := us @ (u @ l) # rear, me_y := length us\<rparr>"
      have "me_backspace h maxv st = me_refresh h maxv st1"
        using 0 snoc s(1,2) by (simp add: me_backspace_def Let_def st1_def nth_append list_update_append)
      moreover have "me_text_inv maxv st1"
        by (rule me_text_invI(1) [of _ us "u @ l" rear]) (use s snoc in \<open>auto simp: st1_def\<close>)
      moreover have "me_text st1 = (butlast (fst (me_text st)), snd (me_text st))"
        using s 0 snoc by (simp add: st1_def me_text_def nth_append butlast_append)
      ultimately show ?thesis using me_refresh_text [of maxv st1 h] by auto
    qed
  qed
qed

lemma me_insert_text:
  assumes "me_text_inv maxv st" "char_of ch \<noteq> newline"
  shows "\<exists>st'. me_insert h maxv st ch = Inr st' \<and> me_text_inv maxv st'
    \<and> me_text st' = (fst (me_text st) @ [char_of ch], snd (me_text st))"
proof -
  obtain front l rear where s: "me_lines st = front @ l # rear" "me_y st = length front" "me_x st \<le> length l"
    "me_text st = (ended front @ take (me_x st) l, drop (me_x st) l @ begun rear)"
    "newline \<notin> set l" "\<forall>l \<in> set (front @ rear). newline \<notin> set l" "length front + length rear < maxv"
    by (rule me_text_split [OF assms(1)])
  define st1 where "st1 = st\<lparr>me_lines := front @ str_insert1 l (me_x st) (char_of ch) # rear, me_x := me_x st + 1\<rparr>"
  have "me_insert h maxv st ch = me_refresh h maxv st1" using s(1,2) by (simp add: me_insert_def st1_def)
  moreover have "me_text_inv maxv st1"
    by (rule me_text_invI(1) [of _ front "str_insert1 l (me_x st) (char_of ch)" rear])
      (use s assms(2) in \<open>auto simp: st1_def str_insert1_def dest: in_set_takeD in_set_dropD\<close>)
  moreover have "me_text st1 = (fst (me_text st) @ [char_of ch], snd (me_text st))"
    using s by (simp add: st1_def me_text_def nth_append str_insert1_def)
  ultimately show ?thesis using me_refresh_text [of maxv st1 h] by auto
qed

text \<open>The four arrows.\<close>

lemma flat_up_text:
  assumes "newline \<notin> set u" "newline \<notin> set l" "x \<le> length l"
  shows "flat_up (ended (us @ [u]) @ take x l, drop x l @ rest)
    = (ended us @ take (min x (length u)) u, drop (min x (length u)) u @ newline # l @ rest)"
proof -
  let ?b = "ended (us @ [u]) @ take x l"
  have col: "cur_line ?b = take x l" by (rule cur_line_ended) (use assms(2) in \<open>auto dest: in_set_takeD\<close>)
  have p: "take (length ?b - length (take x l) - 1) ?b = ended us @ u" by simp
  have cut: "at_pos (length (ended us @ u) - length u + n) (?b @ drop x l @ rest)
      = (ended us @ take n u, drop n u @ newline # l @ rest)" if "n \<le> length u" for n
    using that by (simp add: at_pos_def)
  show ?thesis
    unfolding flat_up.simps col Let_def p cur_line_ended [OF assms(1)]
    using cut [of "min x (length u)"] assms(3) by (simp add: min_absorb2)
qed

lemma flat_down_text:
  assumes "newline \<notin> set v" "newline \<notin> set l" "x \<le> length l"
  shows "flat_down (ended us @ take x l, drop x l @ begun (v # vs))
    = (ended (us @ [l]) @ take (min x (length v)) v, drop (min x (length v)) v @ begun vs)"
proof -
  let ?a = "drop x l @ begun (v # vs)"
  have col: "cur_line (ended us @ take x l) = take x l"
    by (rule cur_line_ended) (use assms(2) in \<open>auto dest: in_set_takeD\<close>)
  have rest: "takeWhile (\<lambda>c. c \<noteq> newline) ?a = drop x l"
    by (rule take_line_begun) (use assms(2) in \<open>auto dest: in_set_dropD\<close>)
  have next_line: "takeWhile (\<lambda>c. c \<noteq> newline) (drop (length (drop x l) + 1) ?a) = v"
    using take_line_begun [OF assms(1), of vs] by simp
  have cut: "at_pos (length (ended us @ take x l) + length (drop x l) + 1 + n) ((ended us @ take x l) @ ?a)
      = (ended (us @ [l]) @ take n v, drop n v @ begun vs)" if "n \<le> length v" for n
    using that assms(3) by (simp add: at_pos_def)
  show ?thesis
    unfolding flat_down.simps col Let_def rest next_line
    using cut [of "min x (length v)"] assms(3) by (simp add: min_absorb2)
qed

lemma flat_move_none:
  assumes "\<not> (key = char_code (CHR ''C'') \<and> a \<noteq> [] \<and> hd a \<noteq> newline)"
    "\<not> (key = char_code (CHR ''D'') \<and> b \<noteq> [] \<and> last b \<noteq> newline)"
    "key = char_code (CHR ''A'') \<Longrightarrow> newline \<notin> set b" "key = char_code (CHR ''B'') \<Longrightarrow> newline \<notin> set a"
  shows "flat_move key (b, a) = (b, a)"
  unfolding flat_move.simps if_not_P [OF assms(1)] if_not_P [OF assms(2)] using assms(3,4) by simp

lemma size_sub_lines: "ls \<noteq> [] \<Longrightarrow> size_sub (length ls) 1 = length ls - 1"
  by (cases ls) auto

lemma me_escape_text:
  assumes "me_text_inv maxv st"
  shows "\<exists>st'. me_escape h maxv st key = Inr st' \<and> me_text_inv maxv st' \<and> me_text st' = flat_move key (me_text st)"
proof -
  obtain front l rear where s: "me_lines st = front @ l # rear" "me_y st = length front" "me_x st \<le> length l"
    "me_text st = (ended front @ take (me_x st) l, drop (me_x st) l @ begun rear)"
    "newline \<notin> set l" "\<forall>l \<in> set (front @ rear). newline \<notin> set l" "length front + length rear < maxv"
    by (rule me_text_split [OF assms])
  let ?x = "me_x st"
  have right: "drop ?x l @ begun rear \<noteq> [] \<and> hd (drop ?x l @ begun rear) \<noteq> newline \<longleftrightarrow> ?x < length l"
  proof (cases "?x < length l")
    case True
    then have "l ! ?x \<noteq> newline" using s(5) nth_mem by metis
    with True show ?thesis by (simp add: hd_append hd_drop_conv_nth)
  next
    case False
    with s(3) begun_cases [of rear] show ?thesis by simp
  qed
  have left: "ended front @ take ?x l \<noteq> [] \<and> last (ended front @ take ?x l) \<noteq> newline \<longleftrightarrow> 0 < ?x"
  proof (cases "?x = 0")
    case True
    with ended_cases [of front] show ?thesis by simp
  next
    case False
    with s(3) have ne: "take ?x l \<noteq> []" by auto
    then have "last (take ?x l) \<in> set l" by (metis in_set_takeD last_in_set)
    with s(5) have "last (take ?x l) \<noteq> newline" by metis
    with False ne show ?thesis by (simp add: last_append)
  qed
  have keys: "char_code (CHR ''A'') = 65" "char_code (CHR ''B'') = 66" "char_code (CHR ''C'') = 67"
    "char_code (CHR ''D'') = 68" by (simp_all add: char_code_def)
  consider (right) "key = 67" "?x < length l" | (left) "key = 68" "0 < ?x" | (up) "key = 65" "front \<noteq> []"
    | (down) "key = 66" "rear \<noteq> []"
    | (none) "\<not> (key = 67 \<and> ?x < length l)" "\<not> (key = 68 \<and> 0 < ?x)" "\<not> (key = 65 \<and> front \<noteq> [])" "\<not> (key = 66 \<and> rear \<noteq> [])"
    by argo
  then show ?thesis
  proof cases
    case up
    then obtain us u where u: "front = us @ [u]" by (cases front rule: rev_cases) auto
    define st1 where "st1 = st\<lparr>me_y := length us, me_x := min ?x (length u)\<rparr>"
    have "me_escape h maxv st key = me_refresh h maxv st1"
      using up s(1,2) by (simp add: me_escape_def Let_def keys u nth_append st1_def)
    moreover have "me_text_inv maxv st1"
      by (rule me_text_invI(1) [of _ us u "l # rear"]) (use s u in \<open>auto simp: st1_def\<close>)
    moreover have "me_text st1 = flat_up (me_text st)"
      using flat_up_text [of u l ?x us "begun rear"] s u by (simp add: st1_def me_text_def nth_append)
    ultimately show ?thesis using me_refresh_text [of maxv st1 h] up by (auto simp: s(4) keys)
  next
    case down
    then obtain v vs where v: "rear = v # vs" by (cases rear) auto
    define st1 where "st1 = st\<lparr>me_y := length front + 1, me_x := min ?x (length v)\<rparr>"
    have "me_escape h maxv st key = me_refresh h maxv st1"
      using down s(1,2) size_sub_lines [of "me_lines st"] by (simp add: me_escape_def Let_def keys v nth_append st1_def)
    moreover have "me_text_inv maxv st1"
      by (rule me_text_invI(1) [of _ "front @ [l]" v vs]) (use s v in \<open>auto simp: st1_def\<close>)
    moreover have "me_text st1 = flat_down (me_text st)"
      using flat_down_text [of v l ?x front vs] s v by (simp add: st1_def me_text_def nth_append)
    ultimately show ?thesis using me_refresh_text [of maxv st1 h] down by (auto simp: s(4) keys)
  next
    case right': right
    define st1 where "st1 = st\<lparr>me_out := me_out st @ csi ''C'', me_x := ?x + 1\<rparr>"
    have "me_text_inv maxv st1" "me_text st1 = flat_move key (me_text st)"
      using right' s right me_text_invI [of st1 front l rear maxv]
      by (simp_all add: st1_def keys take_Suc_conv_app_nth hd_append hd_drop_conv_nth drop_Suc tl_drop)
    then show ?thesis using right' s(1,2) by (simp add: me_escape_def Let_def keys st1_def)
  next
    case left': left
    then obtain x where x: "?x = Suc x" by (cases ?x) auto
    define st1 where "st1 = st\<lparr>me_out := me_out st @ csi ''D'', me_x := ?x - 1\<rparr>"
    have "take ?x l = take x l @ [l ! x]" "drop x l = l ! x # drop ?x l"
      using s(3) x by (auto simp: take_Suc_conv_app_nth Cons_nth_drop_Suc)
    then have "me_text_inv maxv st1" "me_text st1 = flat_move key (me_text st)"
      using left' s left x me_text_invI [of st1 front l rear maxv]
      by (simp_all add: st1_def keys butlast_append)
    then show ?thesis using left' s(1,2) by (simp add: me_escape_def Let_def keys st1_def)
  next
    case none
    have "newline \<notin> set (take ?x l)" "newline \<notin> set (drop ?x l)"
      using s(5) by (auto dest: in_set_takeD in_set_dropD)
    then have "front = [] \<Longrightarrow> newline \<notin> set (ended front @ take ?x l)" "rear = [] \<Longrightarrow> newline \<notin> set (drop ?x l @ begun rear)"
      by simp_all
    with none right left have "flat_move key (me_text st) = me_text st"
      unfolding s(4) by (intro flat_move_none) (simp_all only: keys, blast+)
    moreover have "me_escape h maxv st key = Inr st"
      using none s(1,2) size_sub_lines [of "me_lines st"] by (auto simp: me_escape_def Let_def keys)
    ultimately show ?thesis using assms by simp
  qed
qed

lemma me_key_text:
  assumes "me_text_inv maxv st"
  shows "\<exists>st'. me_key h maxv st ch ks = Inr (st', snd (flat_key (me_text st) ch ks)) \<and> me_text_inv maxv st'
    \<and> me_text st' = fst (flat_key (me_text st) ch ks)"
proof -
  obtain key ks' where k: "handle_escape_sequence ks = (key, ks')" by fastforce
  have "char_of ch \<noteq> newline" if "32 \<le> ch" "ch \<le> 126"
  proof
    assume "char_of ch = newline"
    then have "(of_char (char_of ch :: char) :: nat) = of_char newline" by simp
    with that show False by (simp add: of_char_of)
  qed
  with me_backspace_text [OF assms, of h] me_escape_text [OF assms, of h key] me_insert_text [OF assms, of ch h] assms
  show ?thesis by (auto simp: me_key_def flat_key_def k)
qed

lemma me_loop_text:
  assumes "me_text_inv maxv st"
  shows "case flat_loop (me_text st) ks of
      None \<Rightarrow> me_loop h maxv st ks = None
    | Some (f, ks') \<Rightarrow> \<exists>st'. me_loop h maxv st ks = Some (Inr (st', ks')) \<and> me_text_inv maxv st' \<and> me_text st' = f"
  using assms
proof (induction "me_text st" ks arbitrary: st rule: flat_loop.induct)
  case (2 ch ks)
  show ?case
  proof (cases "ch = 10")
    case True
    with 2 show ?thesis by simp
  next
    case False
    from me_key_text [OF "2.prems", of h ch ks] obtain st1 where
      k: "me_key h maxv st ch ks = Inr (st1, snd (flat_key (me_text st) ch ks))" "me_text_inv maxv st1"
        "me_text st1 = fst (flat_key (me_text st) ch ks)" by blast
    from "2.hyps" [OF False k(3) [symmetric] k(2)] k show ?thesis
      using False by (auto split: option.splits prod.splits)
  qed
qed simp

lemma me_start_text:
  assumes "split_str prefilled newline = lines" "lines \<noteq> []"
  obtains st where "me_start h (length lines) lines = Inr st" "me_text_inv (length lines) st"
    "me_text st = (start_text prefilled, [])"
proof -
  have parts: "\<forall>l \<in> set lines. newline \<notin> set l" using split_str_parts [of _ prefilled newline] assms(1) by blast
  obtain ls l where l: "lines = ls @ [l]" using assms(2) by (cases lines rule: rev_cases) auto
  define st where "st = \<lparr>me_lines = lines, me_x = length l, me_y = length ls, me_out = replicate (length lines) newline\<rparr>"
  have inv: "me_text_inv (length lines) st"
    by (rule me_text_invI(1) [of _ ls l "[]"]) (use parts l in \<open>auto simp: st_def\<close>)
  obtain o1 where o1: "refresh_multiline lines h 0 0 (length lines) = Inr o1"
    using assms(2) by (auto simp: refresh_multiline_def Let_def)
  from inv have "me_text_inv (length lines) (st\<lparr>me_out := me_out st @ o1\<rparr>)" by simp
  from me_refresh_text [OF this, of h] obtain st1 where
    "me_refresh h (length lines) (st\<lparr>me_out := me_out st @ o1\<rparr>) = Inr st1" "me_text_inv (length lines) st1"
    "me_text st1 = me_text st" by auto
  moreover have "me_text st = (start_text prefilled, [])"
  proof -
    have "ended ls @ l = (case lines of [] \<Rightarrow> [] | l # ls \<Rightarrow> l @ begun ls)"
    proof (cases ls)
      case (Cons a as)
      with ended_begun [of a as] l show ?thesis by simp
    qed (simp add: l)
    then show ?thesis using l assms(1) by (simp add: me_text_def st_def start_text_def nth_append)
  qed
  ultimately show thesis using that o1 assms(2) l by (simp add: me_start_def Let_def st_def)
qed

lemma start_text_newlines:
  "split_str prefilled newline \<noteq> [] \<Longrightarrow> Suc (count_list (start_text prefilled) newline) = length (split_str prefilled newline)"
  using split_str_parts [of _ prefilled newline]
  by (cases "split_str prefilled newline") (auto simp: start_text_def count_newlines)

lemma me_text_lines:
  assumes "me_text_inv maxv st" "me_text st = (b, a)"
  shows "ended (me_lines st) = b @ a @ [newline]" "Suc (count_list (b @ a) newline) = length (me_lines st)"
proof -
  obtain front l rear where s: "me_lines st = front @ l # rear" "me_x st \<le> length l"
    "me_text st = (ended front @ take (me_x st) l, drop (me_x st) l @ begun rear)"
    "newline \<notin> set l" "\<forall>l \<in> set (front @ rear). newline \<notin> set l"
    by (rule me_text_split [OF assms(1)])
  have ba: "b @ a = ended front @ l @ begun rear" using s(3) assms(2) by (metis append.assoc append_take_drop_id fst_conv snd_conv)
  have "ended (me_lines st) = ended front @ ended (l # rear)" unfolding s(1) by simp
  with ba show "ended (me_lines st) = b @ a @ [newline]" unfolding ended_begun by (metis append.assoc)
  show "Suc (count_list (b @ a) newline) = length (me_lines st)"
    unfolding ba using s(1,4,5) by (simp add: count_newlines)
qed

text \<open>C32: The multi-line editor edits its text as one text with a cursor: the keys insert a character, take away the
  character before the cursor or move the cursor, and Enter returns the text with a newline, leaving the keys
  behind it.  Backspace at the beginning of a line joins it to the one above; when the text has lost a line end
  in this way the editor does not return it, but reads past the end of its lines.  A command of line ends only
  is undefined behaviour at the start.\<close>

theorem multi_edit_refines_text:
  "map_option (map_sum id (\<lambda>(text, out, ks'). (text, ks'))) (edit_prefilled_input_multiline h prefilled ks)
    = (if set prefilled \<subseteq> {newline} then Some (Inl Undefined_Behaviour) else flat_edit prefilled ks)"
proof (cases "split_str prefilled newline = []")
  case True
  then show ?thesis by (simp add: split_str_Nil_iff [symmetric] edit_prefilled_input_multiline_def me_start_def)
next
  case False
  let ?lines = "split_str prefilled newline" let ?n = "length ?lines"
  obtain st where st: "me_start h ?n ?lines = Inr st" "me_text_inv ?n st" "me_text st = (start_text prefilled, [])"
    by (rule me_start_text [OF refl False])
  note run = me_loop_text [OF st(2), where ks = ks and h = h, unfolded st(3)]
  show ?thesis
  proof (cases "flat_loop (start_text prefilled, []) ks")
    case None
    with run st(1) False show ?thesis
      by (simp add: split_str_Nil_iff [symmetric] edit_prefilled_input_multiline_def flat_edit_def)
  next
    case (Some r)
    obtain b a ks' where r: "r = ((b, a), ks')" by (metis prod.exhaust)
    with run Some obtain st' where s: "me_loop h ?n st ks = Some (Inr (st', ks'))" "me_text_inv ?n st'"
      "me_text st' = (b, a)" by auto
    have "me_inv ?n st'" using s(2) by (simp add: me_text_inv_def)
    note fin = me_finish_eq [OF this, of h]
    have "length (me_lines st') = ?n \<longleftrightarrow> count_list (b @ a) newline = count_list (start_text prefilled) newline"
      using me_text_lines(2) [OF s(2,3)] start_text_newlines [OF False] by arith
    with me_text_lines(1) [OF s(2,3)] fin st(1) s(1) Some r False show ?thesis
      by (simp add: split_str_Nil_iff [symmetric] edit_prefilled_input_multiline_def flat_edit_def Let_def)
  qed
qed

end
