(* ===== verification/Menu.thy ===== *)
theory Menu
  imports Console
begin

text \<open>
  The menus of \<^verbatim>\<open>lang-cli-src/console_manager.cpp\<close>: \<^verbatim>\<open>print_vector\<close>,
  \<^verbatim>\<open>choose_from_vector\<close> and \<^verbatim>\<open>choose_from_vector_with_eq\<close>.
\<close>

section \<open>The menu\<close>

definition lines_up :: "string list \<Rightarrow> nat" where
  "lines_up to_choose = sum_list (map count_lines to_choose)"

definition menu_item :: "string \<Rightarrow> bool \<Rightarrow> string" where
  "menu_item s current =
     (if current then LOG_COL_YELLOW @ ''[>] '' @ s @ LOG_COL_DEFAULT @ [newline]
      else ''    '' @ s @ [newline])"

definition print_vector :: "string list \<Rightarrow> nat \<Rightarrow> bool \<Rightarrow> string" where
  "print_vector to_choose current_choice first_call_print =
     (if first_call_print then []
      else concat (replicate (lines_up to_choose) (csi ''F'' @ csi ''K'')))
     @ concat (map (\<lambda>i. menu_item (to_choose ! i) (i = current_choice)) [0..<length to_choose])"

definition menu_arrow :: "nat \<Rightarrow> nat \<Rightarrow> nat \<Rightarrow> nat" where
  "menu_arrow n choice key =
     (if key = char_code (CHR ''A'') then (if choice > 0 then choice - 1 else choice)
      else if key = char_code (CHR ''B'') then
        (if choice < size_sub n 1 then choice + 1 else choice)
      else choice)"

text \<open>\<^verbatim>\<open>menu_echo\<close> is the terminal's \<^verbatim>\<open>ECHO\<close> flag.\<close>

record menu_result =
  menu_choice :: nat
  menu_key :: nat
  menu_echo :: bool
  menu_out :: string
  menu_rest :: keys

function choose_loop :: "string list \<Rightarrow> nat \<Rightarrow> string \<Rightarrow> keys \<Rightarrow> menu_result option" where
  "choose_loop v choice out [] = None"
| "choose_loop v choice out (key # ks) =
     (if key = 27 then
        (let ks1 = snd (getchar32 ks);
             arrow = fst (getchar32 ks1);
             ks2 = snd (getchar32 ks1);
             choice' = menu_arrow (length v) choice arrow
         in choose_loop v choice' (out @ print_vector v choice' False) ks2)
      else if key = 10 then
        Some \<lparr>menu_choice = choice, menu_key = key, menu_echo = True, menu_out = out, menu_rest = ks\<rparr>
      else choose_loop v choice (out @ print_vector v choice False) ks)"
  by pat_completeness auto
termination
proof (relation "measure (\<lambda>(v, choice, out, ks). length ks)", goal_cases)
  case (2 v choice out key ks)
  then show ?case by simp
qed simp_all

definition choose_from_vector :: "string list \<Rightarrow> keys \<Rightarrow> menu_result option" where
  "choose_from_vector to_choose ks = choose_loop to_choose 0 (print_vector to_choose 0 True) ks"

function choose_loop_eq :: "string list \<Rightarrow> nat \<Rightarrow> string \<Rightarrow> keys \<Rightarrow> menu_result option" where
  "choose_loop_eq v choice out [] = None"
| "choose_loop_eq v choice out (key # ks) =
     (if key = 27 then
        (let ks1 = snd (getchar32 ks);
             arrow = fst (getchar32 ks1);
             ks2 = snd (getchar32 ks1);
             choice' = menu_arrow (length v) choice arrow
         in choose_loop_eq v choice' (out @ print_vector v choice' False) ks2)
      else if key = 10 then
        Some \<lparr>menu_choice = choice, menu_key = key, menu_echo = True, menu_out = out, menu_rest = ks\<rparr>
      else if key = char_code (CHR ''e'') then
        Some \<lparr>menu_choice = choice, menu_key = key, menu_echo = True, menu_out = out, menu_rest = ks\<rparr>
      else if key = char_code (CHR ''q'') then
        Some \<lparr>menu_choice = choice, menu_key = key, menu_echo = True, menu_out = out, menu_rest = ks\<rparr>
      else choose_loop_eq v choice (out @ print_vector v choice False) ks)"
  by pat_completeness auto
termination
proof (relation "measure (\<lambda>(v, choice, out, ks). length ks)", goal_cases)
  case (2 v choice out key ks)
  then show ?case by simp
qed simp_all

definition choose_from_vector_with_eq :: "string list \<Rightarrow> keys \<Rightarrow> menu_result option" where
  "choose_from_vector_with_eq to_choose ks =
     choose_loop_eq to_choose 0 (print_vector to_choose 0 True) ks"

section \<open>Facts\<close>

lemma menu_arrow_less:
  assumes "choice < n"
  shows "menu_arrow n choice key < n"
proof -
  from assms have "size_sub n 1 = n - 1" by (cases n) auto
  with assms show ?thesis by (auto simp: menu_arrow_def)
qed

lemma choose_loop_less:
  "choose_loop v choice out ks = Some r \<Longrightarrow> choice < length v \<Longrightarrow>
     menu_choice r < length v \<and> menu_echo r \<and> menu_key r = 10"
  by (induction v choice out ks rule: choose_loop.induct)
     (auto simp: Let_def menu_arrow_less split: if_splits)

lemma choose_loop_eq_less:
  "choose_loop_eq v choice out ks = Some r \<Longrightarrow> choice < length v \<Longrightarrow>
     menu_choice r < length v \<and> menu_echo r \<and> menu_key r \<in> {10, 101, 113}"
  by (induction v choice out ks rule: choose_loop_eq.induct)
     (auto simp: Let_def menu_arrow_less char_code_def split: if_splits)

text \<open>Newlines printed by a menu against the lines it moves up to redraw it.\<close>

abbreviation newlines :: "string \<Rightarrow> nat" where
  "newlines s \<equiv> count_list s newline"

lemma length_getlines_acc:
  "length (getlines_acc acc s) =
     newlines s + (if s = [] then (if acc = [] then 0 else 1) else if last s = newline then 0 else 1)"
  by (induction acc s rule: getlines_acc.induct) auto

lemma count_lines_eq: "s \<noteq> [] \<Longrightarrow> last s \<noteq> newline \<Longrightarrow> count_lines s = newlines s + 1"
  by (simp add: count_lines_def getlines_def length_getlines_acc)

lemma newlines_log [simp]: "newlines LOG_COL_YELLOW = 0" "newlines LOG_COL_DEFAULT = 0"
  by (simp_all add: log_col_defs)

lemma newlines_menu_item: "newlines (menu_item s b) = newlines s + 1"
  by (simp add: menu_item_def)

lemma newlines_concat: "newlines (concat xs) = sum_list (map newlines xs)"
  by (induction xs) auto

lemma newlines_items:
  "newlines (concat (map (\<lambda>i. menu_item (v ! i) (f i)) [0..<length v]))
     = sum_list (map (\<lambda>s. newlines s + 1) v)"
proof -
  have "map (\<lambda>i. newlines (v ! i) + 1) [0..<length v] = map (\<lambda>s. newlines s + 1) v"
    by (rule nth_equalityI) auto
  then show ?thesis by (simp add: newlines_concat comp_def newlines_menu_item)
qed

text \<open>The command menu returns only with an index of the list and the key Enter, \<open>e\<close> or
  \<open>q\<close>, with the terminal's echo switched back on.\<close>

theorem menu_choice_valid:
  assumes "v \<noteq> []" "choose_from_vector_with_eq v ks = Some r"
  shows "menu_choice r < length v \<and> menu_echo r
    \<and> menu_key r \<in> {10, char_code (CHR ''e''), char_code (CHR ''q'')}"
  using choose_loop_eq_less [of v 0 _ ks r] assms
  by (auto simp: choose_from_vector_with_eq_def char_code_def)

theorem menu_choice_valid_witness:
  "\<exists>r. choose_from_vector_with_eq [''ls'', ''pwd''] [27, 91, 66, 27, 91, 66, 101] = Some r
      \<and> menu_choice r < length [''ls'', ''pwd'']"
proof -
  have "choose_from_vector_with_eq [''ls'', ''pwd''] [27, 91, 66, 27, 91, 66, 101] \<noteq> None"
    by (simp add: choose_from_vector_with_eq_def char_code_def Let_def)
  then obtain r where r: "choose_from_vector_with_eq [''ls'', ''pwd''] [27, 91, 66, 27, 91, 66, 101] = Some r"
    by auto
  from menu_choice_valid [OF _ r] r show ?thesis by auto
qed

text \<open>Before a redraw the menu moves the cursor up by exactly the number of lines it printed,
  when no item is empty or ends in a newline.\<close>

theorem menu_redraw_lines:
  assumes "\<forall>s \<in> set v. s \<noteq> [] \<and> last s \<noteq> newline"
  shows "lines_up v = newlines (print_vector v c True)
    \<and> print_vector v c False
        = concat (replicate (newlines (print_vector v c True)) (csi ''F'' @ csi ''K''))
          @ print_vector v c True"
proof -
  have "map count_lines v = map (\<lambda>s. newlines s + 1) v"
    using assms by (auto simp: count_lines_eq)
  then have "lines_up v = newlines (print_vector v c True)"
    by (simp only: lines_up_def print_vector_def if_True append_Nil newlines_items)
  then show ?thesis by (simp add: print_vector_def)
qed

theorem menu_redraw_lines_witness:
  "lines_up [''ls'', ''cd /'' @ newline # ''ls''] = newlines (print_vector [''ls'', ''cd /'' @ newline # ''ls''] 1 True)"
  using menu_redraw_lines [of "[''ls'', ''cd /'' @ newline # ''ls'']" 1] by simp

end
