(* ===== verification/OutputParser.thy ===== *)
theory OutputParser
  imports Menu
begin

text \<open>
  \<^verbatim>\<open>lang-cli-src/output_parser.cpp\<close>: extraction of the suggested commands from the model's
  output, the early-stop test run on each new token, and colouring of the explanation.
\<close>

section \<open>Extraction of the suggestions\<close>

text \<open>ECMAScript \<^verbatim>\<open>.\<close> does not match a line terminator.\<close>

definition rx_dot :: "char \<Rightarrow> bool" where
  "rx_dot c \<longleftrightarrow> c \<noteq> newline \<and> c \<noteq> CHR 0x0D"

definition section_rx :: "string \<Rightarrow> rx_item list" where
  "section_rx title = [RLit title, RRep False 0 rx_dot False, RLook ''### '']"

definition BACKTICKS :: string where "BACKTICKS = ''```''"

definition first_output :: "string \<Rightarrow> string" where
  "first_output input =
     (case str_find input ''### Instruction'' 0 of
        Some p \<Rightarrow> take p input
      | None \<Rightarrow> (case str_find input ''### Example'' 0 of
                   Some p \<Rightarrow> take p input
                 | None \<Rightarrow> []))"

definition potential_suggestion :: "string \<Rightarrow> string" where
  "potential_suggestion input =
     (let example = extract_str input (section_rx ''### Example'');
          instruction = extract_str input (section_rx ''### Instruction'');
          potential = first_output input @ example @ instruction
      in if potential = [] then input else potential)"

text \<open>
  The fence languages are tried in turn.  The last fallback, for a fence without a language, only
  builds a pattern and never applies it.
\<close>

definition command_blocks :: "string \<Rightarrow> string list" where
  "command_blocks potential =
     (let blocks = extract_strs potential (fence_rx ''```bash'' BACKTICKS);
          blocks = (if blocks = [] then extract_strs potential (fence_rx ''```shell'' BACKTICKS) else blocks);
          blocks = (if blocks = [] then extract_strs potential (fence_rx ''```sh'' BACKTICKS) else blocks)
      in blocks)"

fun collect_suggestions :: "string list \<Rightarrow> string list \<Rightarrow> string list" where
  "collect_suggestions suggestions [] = suggestions"
| "collect_suggestions suggestions (block # bs) =
     (let clean = trim block in
      collect_suggestions
        (if clean \<noteq> [] \<and> clean \<notin> set suggestions then suggestions @ [clean] else suggestions) bs)"

definition extract_suggestions :: "string \<Rightarrow> string list" where
  "extract_suggestions input =
     collect_suggestions [] (command_blocks (potential_suggestion input))"

section \<open>Early stop\<close>

text \<open>The outer option is the termination of the counting loops; \<^term>\<open>Some None\<close> is \<^verbatim>\<open>-1\<close>.\<close>

definition check_early_stop :: "string \<Rightarrow> nat option option" where
  "check_early_stop b =
     Option.bind (get_num_delimiters b ''###'') (\<lambda>n1.
       if n1 \<ge> 6 then get_nth_delimiters b ''###'' 6 else
     Option.bind (get_num_delimiters b ''### Instruction'') (\<lambda>n2.
       if n2 \<ge> 2 then get_nth_delimiters b ''### Instruction'' 2 else
     Option.bind (get_num_delimiters b ''### Example'') (\<lambda>n3.
       if n3 \<ge> 2 then get_nth_delimiters b ''### Example'' 2 else
       if str_find b ''### References'' 0 \<noteq> None then Some (str_find b ''### References'' 0) else
       if str_find b ''####'' 0 \<noteq> None then Some (str_find b ''####'' 0) else
     Option.bind (get_num_delimiters b ''**'') (\<lambda>n4.
       if n4 \<ge> 7 then get_nth_delimiters b ''**'' 7 else Some None))))"

section \<open>Colouring\<close>

definition header_rx :: "rx_item list" where
  "header_rx = [RLit ''###'', RRep True 1 is_space False, RRep True 1 (\<lambda>c. c \<noteq> newline) True]"

definition explanation_rx :: "rx_item list" where
  "explanation_rx =
     [RLit ''- `'', RRep False 0 rx_dot True, RLit ''`:'', RRep True 0 rx_dot True]"

definition group2 :: "string list \<Rightarrow> string" where
  "group2 cs = (case cs of _ # c # _ \<Rightarrow> c | _ \<Rightarrow> [])"

definition colorize_line :: "bool \<Rightarrow> string \<Rightarrow> bool \<times> string" where
  "colorize_line in_code_block line =
     (case rx_search header_rx line of
        Some (k, n, cs) \<Rightarrow>
          (in_code_block, LOG_COL_GREEN @ ''### '' @ group1 cs @ LOG_COL_DEFAULT @ [newline])
      | None \<Rightarrow>
          (case rx_search explanation_rx line of
             Some (k, n, cs) \<Rightarrow>
               (in_code_block,
                LOG_COL_WHITE @ ''- '' @ LOG_COL_AQUA @ group1 cs @ LOG_COL_DEFAULT @ '':''
                @ LOG_COL_WHITE @ group2 cs @ LOG_COL_DEFAULT @ [newline])
           | None \<Rightarrow>
               if str_find line BACKTICKS 0 \<noteq> None then
                 (\<not> in_code_block, LOG_COL_YELLOW @ line @ LOG_COL_DEFAULT @ [newline])
               else if in_code_block then
                 (in_code_block, LOG_COL_YELLOW @ line @ LOG_COL_DEFAULT @ [newline])
               else (in_code_block, line @ [newline])))"

fun colorize_lines :: "bool \<Rightarrow> string list \<Rightarrow> string" where
  "colorize_lines b [] = []"
| "colorize_lines b (l # ls) =
     (let (b', o') = colorize_line b l in o' @ colorize_lines b' ls)"

definition colorize_text :: "string \<Rightarrow> string" where
  "colorize_text input = colorize_lines False (getlines input)"

section \<open>Facts about trimming\<close>

lemma trim_sublist: "sublist (trim s) s"
  by (auto simp: trim_def split: option.splits
      intro: sublist_order.order.trans [OF sublist_take sublist_drop])

lemma trim_Nil_iff: "trim s = [] \<longleftrightarrow> (\<forall>c \<in> set s. is_space c)"
proof (cases "find_first_not is_space s")
  case None
  with find_first_not_None [of is_space s] show ?thesis by (simp add: trim_def)
next
  case (Some k)
  note f = find_first_not_Some [OF Some]
  have "find_first_not is_space (rev s) \<noteq> None"
    using f by (metis find_first_not_None nth_mem set_rev)
  then obtain e where e: "find_last_not is_space s = Some e" by (auto simp: find_last_not_def)
  with Some f show ?thesis by (auto simp: trim_def)
qed

lemma trim_ends:
  assumes "trim s \<noteq> []"
  shows "\<not> is_space (hd (trim s))" "\<not> is_space (last (trim s))"
proof -
  from assms obtain k e where ke: "find_first_not is_space s = Some k" "find_last_not is_space s = Some e"
    by (auto simp: trim_def split: option.splits)
  note f = find_first_not_Some [OF ke(1)] and l = find_last_not_Some [OF ke(2)]
  have "k \<le> e" using f l by (metis leI)
  with ke l(1) have t: "trim s = take (e - k + 1) (drop k s)" "e - k + 1 \<le> length (drop k s)"
    by (auto simp: trim_def)
  then have "hd (trim s) = s ! k" using f by (simp add: hd_conv_nth)
  with f show "\<not> is_space (hd (trim s))" by simp
  have "length (trim s) = e - k + 1" using t by simp
  then have "last (trim s) = s ! e" using t \<open>k \<le> e\<close> assms by (simp add: last_conv_nth)
  with l show "\<not> is_space (last (trim s))" by simp
qed

lemma trim_id: "s = [] \<or> (\<not> is_space (hd s) \<and> \<not> is_space (last s)) \<Longrightarrow> trim s = s"
proof (cases "s = []")
  case False
  assume "s = [] \<or> (\<not> is_space (hd s) \<and> \<not> is_space (last s))"
  with False have h: "\<not> is_space (hd s)" "\<not> is_space (hd (rev s))" by (auto simp: hd_rev)
  from False h(1) have "find_first_not is_space s = Some 0" by (cases s) auto
  moreover from False h(2) have "find_last_not is_space s = Some (length s - 1)"
    by (cases "rev s") (auto simp: find_last_not_def)
  ultimately show ?thesis using False by (simp add: trim_def)
qed (simp add: trim_def)

lemma trim_trim [simp]: "trim (trim s) = trim s"
  by (cases "trim s = []") (auto intro: trim_id dest: trim_ends)

section \<open>Facts about extraction\<close>

lemma collect_suggestions_props:
  "distinct ss \<Longrightarrow> distinct (collect_suggestions ss bs)"
  "set (collect_suggestions ss bs) = set ss \<union> {trim b | b. b \<in> set bs \<and> trim b \<noteq> []}"
  by (induction ss bs rule: collect_suggestions.induct) (auto simp: Let_def)

lemma command_blocks_sublist: "b \<in> set (command_blocks p) \<Longrightarrow> sublist b p"
  by (auto simp: command_blocks_def Let_def dest: extract_strs_sublist split: if_splits)

lemma command_blocks_length: "b \<in> set (command_blocks p) \<Longrightarrow> length b \<le> 10000"
  by (auto simp: command_blocks_def Let_def dest: extract_strs_length split: if_splits)

lemma potential_suggestion_input:
  "str_find input ''### Instruction'' 0 = None \<Longrightarrow> str_find input ''### Example'' 0 = None \<Longrightarrow>
     potential_suggestion input = input"
proof -
  assume n: "str_find input ''### Instruction'' 0 = None" "str_find input ''### Example'' 0 = None"
  have *: "rx_search (section_rx l) input = None" if "str_find input l 0 = None" for l
  proof (rule ccontr)
    assume "rx_search (section_rx l) input \<noteq> None"
    then obtain k m cs where s: "rx_search (section_rx l) input = Some (k, m, cs)" by (metis not_None_eq surj_pair)
    then have "prefix l (drop k input)"
      using rx_search_match [OF s] by (auto simp: section_rx_def split: if_splits)
    moreover have "k \<le> length input" using rx_search_bounds [OF s] by simp
    ultimately show False using str_find_None [OF that, of k] by simp
  qed
  with n show ?thesis by (simp add: potential_suggestion_def first_output_def extract_str_def)
qed

lemma rx_search_fence_None:
  "str_find s opn 0 = None \<Longrightarrow> rx_search (fence_rx opn cls) s = None"
proof (rule ccontr)
  assume n: "str_find s opn 0 = None" and "rx_search (fence_rx opn cls) s \<noteq> None"
  then obtain k m cs where q: "rx_search (fence_rx opn cls) s = Some (k, m, cs)"
    by (metis not_None_eq surj_pair)
  from rx_search_match [OF q] have "prefix opn (drop k s)" by (simp add: rx_fence split: if_splits)
  moreover have "k \<le> length s" using rx_search_bounds [OF q] by simp
  ultimately show False using str_find_None [OF n, of k] by simp
qed

lemma extract_strs_fence_None: "str_find s opn 0 = None \<Longrightarrow> extract_strs s (fence_rx opn cls) = []"
  by (simp add: extract_strs_def rx_iter.simps [of "fence_rx opn cls" s] rx_search_fence_None)

section \<open>The suggestions that reach the user\<close>

text \<open>C13: The suggestions offered for execution are pairwise different, never empty, carry no blanks
  at their ends, are at most 10000 characters long, and each is literally a piece of the text that
  the fences were looked for in, which is put together from the first, example and instruction parts of the output.\<close>

theorem suggestions_wellformed:
  "distinct (extract_suggestions input) \<and>
   (\<forall>s \<in> set (extract_suggestions input).
      s \<noteq> [] \<and> trim s = s \<and> length s \<le> 10000 \<and> sublist s (potential_suggestion input))"
proof -
  let ?bs = "command_blocks (potential_suggestion input)"
  have set: "set (extract_suggestions input) = {trim b | b. b \<in> set ?bs \<and> trim b \<noteq> []}"
    using collect_suggestions_props(2) [of "[]" ?bs] by (simp add: extract_suggestions_def)
  have len: "length (trim b) \<le> 10000" if "b \<in> set ?bs" for b
    using command_blocks_length [OF that] sublist_length_le [OF trim_sublist [of b]] by simp
  have sub: "sublist (trim b) (potential_suggestion input)" if "b \<in> set ?bs" for b
    using command_blocks_sublist [OF that] trim_sublist [of b] by (rule sublist_order.order.trans [rotated])
  from collect_suggestions_props(1) [of "[]" ?bs] set len sub show ?thesis
    by (auto simp: extract_suggestions_def)
qed

theorem suggestions_wellformed_witness:
  "\<exists>s. s \<in> set (extract_suggestions ''```bash ls ```'') \<and> trim s = s"
proof -
  have e: "extract_suggestions ''```bash ls ```'' = [''ls'']" by code_simp
  from suggestions_wellformed [of "''```bash ls ```''"] e show ?thesis by auto
qed

text \<open>When the output has no further \<^verbatim>\<open>### Instruction\<close> or \<^verbatim>\<open>### Example\<close> section and
  exactly one complete \<^verbatim>\<open>bash\<close> block of at most 10000 characters, its trimmed body is the one
  suggestion.\<close>

theorem single_block_suggestion:
  assumes "str_find input ''### Instruction'' 0 = None" "str_find input ''### Example'' 0 = None"
    and k: "str_find input ''```bash'' 0 = Some k"
    and e: "str_find input BACKTICKS (k + 7) = Some e"
    and last: "str_find input ''```bash'' (e + 3) = None"
    and body: "body = take (e - (k + 7)) (drop (k + 7) input)" "length body \<le> 10000" "trim body \<noteq> []"
  shows "extract_suggestions input = [trim body]"
proof -
  let ?r = "fence_rx ''```bash'' BACKTICKS"
  have len3: "length BACKTICKS = 3" by (simp add: BACKTICKS_def)
  note fk = str_find_Some [OF k] and fe = str_find_Some [OF e]
  have ek: "find_sub (drop (k + 7) input) BACKTICKS = Some (e - (k + 7))"
    using e by (auto simp: str_find_def split: if_splits)
  have m: "rx_match ?r [] (drop k input) = Some (7 + (e - (k + 7)) + 3, [body])"
  proof -
    define opn :: string where "opn = ''```bash''"
    have o7: "length opn = 7" by (simp add: opn_def)
    have "rx_match (fence_rx opn BACKTICKS) [] (drop k input) = Some (7 + (e - (k + 7)) + 3, [body])"
      using fk(2) ek body(1) unfolding opn_def [symmetric]
      by (simp only: rx_fence o7 len3 drop_drop add.commute [of 7 k]) simp
    then show ?thesis by (simp only: opn_def)
  qed
  have search: "rx_search ?r input = Some (k, 7 + (e - (k + 7)) + 3, [body])"
  proof (rule rx_searchI [OF m])
    show "k \<le> length input" using fk(3) by simp
    show "rx_match ?r [] (drop i input) = None" if "i < k" for i
      using str_find_least [OF k _ that] by (simp only: rx_fence) simp
  qed
  have pos: "k + (7 + (e - (k + 7)) + 3) = e + 3" using fe(1) by simp
  have "str_find (drop (e + 3) input) ''```bash'' 0 = None"
    using last fe(3) len3 by (simp add: str_find_def)
  then have "rx_iter ?r (drop (e + 3) input) = []"
    by (simp add: rx_iter.simps [of ?r "drop (e + 3) input"] rx_search_fence_None)
  moreover have "input \<noteq> []" using fk(3) by auto
  ultimately have "rx_iter ?r input
      = [(take (7 + (e - (k + 7)) + 3) (drop k input), [body])]"
    by (simp only: rx_iter.simps [of ?r input] search option.case prod.case pos) auto
  then have "extract_strs input ?r = [body]"
    using body(2) by (simp add: extract_strs_def group1_def)
  then have "command_blocks input = [body]" by (simp add: command_blocks_def)
  with body(3) potential_suggestion_input [OF assms(1,2)] show ?thesis
    by (simp add: extract_suggestions_def)
qed

theorem single_block_suggestion_witness:
  "extract_suggestions ''do ```bash ls -l ``` now'' = [trim '' ls -l '']"
proof (rule single_block_suggestion [where k = 3 and e = 17])
  show "str_find ''do ```bash ls -l ``` now'' ''### Instruction'' 0 = None" by code_simp
  show "str_find ''do ```bash ls -l ``` now'' ''### Example'' 0 = None" by code_simp
  show "str_find ''do ```bash ls -l ``` now'' ''```bash'' 0 = Some 3" by code_simp
  show "str_find ''do ```bash ls -l ``` now'' BACKTICKS (3 + 7) = Some 17" by code_simp
  show "str_find ''do ```bash ls -l ``` now'' ''```bash'' (17 + 3) = None" by code_simp
  show "'' ls -l '' = take (17 - (3 + 7)) (drop (3 + 7) ''do ```bash ls -l ``` now'')" by code_simp
  show "length '' ls -l '' \<le> 10000" by simp
  show "trim '' ls -l '' \<noteq> []" by code_simp
qed

text \<open>A command in a fence without a language is never suggested: with no \<^verbatim>\<open>bash\<close>,
  \<^verbatim>\<open>shell\<close> or \<^verbatim>\<open>sh\<close> fence in the output the list is empty, whatever else the output
  holds.\<close>

theorem plain_fence_ignored:
  assumes "str_find input ''### Instruction'' 0 = None" "str_find input ''### Example'' 0 = None"
    and "str_find input ''```bash'' 0 = None" "str_find input ''```shell'' 0 = None"
    and "str_find input ''```sh'' 0 = None"
  shows "extract_suggestions input = []"
  using assms
  by (simp add: extract_suggestions_def potential_suggestion_input command_blocks_def
      extract_strs_fence_None)

theorem plain_fence_ignored_witness:
  "extract_suggestions ''``` ls ```'' = []"
  by (rule plain_fence_ignored; code_simp)

section \<open>When generation is stopped\<close>

text \<open>The counting loops against the list of occurrences.\<close>

text \<open>Both delimiter loops compute on the list of non-overlapping occurrences: the count is its
  length and the n-th position its n-th element (\<^verbatim>\<open>npos\<close> when there are fewer); with an empty
  delimiter the counting loop never ends.\<close>

theorem delimiter_loops:
  "get_num_delimiters s d = (if d = [] then None else Some (length (occurrences s d 0))) \<and>
   (d = [] \<or> get_nth_delimiters s d n =
      Some (if n = 0 \<or> length (occurrences s d 0) < n then None else Some (occurrences s d 0 ! (n - 1))))"
  by (auto simp: get_num_delimiters_def get_nth_delimiters_def count_from_eq count_from_empty
      nth_from_eq Let_def)

lemma num_delimiters_eq: "d \<noteq> [] \<Longrightarrow> get_num_delimiters s d = Some (length (occurrences s d 0))"
  by (simp add: get_num_delimiters_def count_from_eq)

lemma nth_delimiters_eq:
  "d \<noteq> [] \<Longrightarrow> 0 < n \<Longrightarrow> n \<le> length (occurrences s d 0) \<Longrightarrow>
     get_nth_delimiters s d n = Some (Some (occurrences s d 0 ! (n - 1)))"
  by (simp add: get_nth_delimiters_def nth_from_eq Let_def)

lemma nth_occurrence_at:
  "i < length (occurrences s d 0) \<Longrightarrow> prefix d (drop (occurrences s d 0 ! i) s)"
  using occurrences_at [of "occurrences s d 0 ! i" s d 0] by simp

lemmas early_stop_simps = check_early_stop_def num_delimiters_eq nth_delimiters_eq nth_occurrence_at

text \<open>The early-stop test always returns; a position it returns is the start of one of its
  markers in the buffer; and when it lets generation go on, the buffer holds no
  \<^verbatim>\<open>### References\<close>, no \<^verbatim>\<open>####\<close>, fewer than six \<^verbatim>\<open>###\<close> and fewer than seven
  \<^verbatim>\<open>**\<close>.\<close>

theorem early_stop_spec:
  "\<exists>r. check_early_stop b = Some r \<and>
     (case r of
        Some p \<Rightarrow> \<exists>m \<in> {''###'', ''### Instruction'', ''### Example'', ''### References'', ''####'', ''**''}.
                   prefix m (drop p b)
      | None \<Rightarrow> str_find b ''### References'' 0 = None \<and> str_find b ''####'' 0 = None
                \<and> length (occurrences b ''###'' 0) < 6 \<and> length (occurrences b ''**'' 0) < 7)"
  by (auto simp: early_stop_simps dest: str_find_Some(2))

section \<open>Colouring keeps the lines\<close>

lemma rx_search_no_newline:
  assumes "rx_search r s = Some (k, n, cs)" "newline \<notin> set s"
  shows "newline \<notin> set (group1 cs)" "newline \<notin> set (group2 cs)"
proof -
  have "newline \<notin> set c" if "c \<in> set cs" for c
    using rx_search_capture [OF assms(1) that] assms(2) by (meson set_mono_sublist subsetD)
  then show "newline \<notin> set (group1 cs)" "newline \<notin> set (group2 cs)"
    by (auto simp: group1_def group2_def split: list.splits)
qed

lemma newlines_colorize_line: "newline \<notin> set l \<Longrightarrow> newlines (snd (colorize_line b l)) = 1"
  using rx_search_no_newline [of header_rx l] rx_search_no_newline [of explanation_rx l]
  by (auto simp: colorize_line_def log_col_defs count_notin split: option.splits)

lemma newlines_colorize_lines:
  "\<forall>l \<in> set ls. newline \<notin> set l \<Longrightarrow> newlines (colorize_lines b ls) = length ls"
proof (induction b ls rule: colorize_lines.induct)
  case (2 b l ls)
  then show ?case using newlines_colorize_line [of l b] by (cases "colorize_line b l") simp
qed simp

text \<open>Colouring an explanation prints exactly one line for each of its lines.\<close>

theorem colorize_line_count: "newlines (colorize_text s) = count_lines s"
  by (simp add: colorize_text_def count_lines_def newlines_colorize_lines getlines_no_newline)

end
