(* ===== verification/Readline.thy ===== *)
theory Readline
  imports Console
begin

text \<open>
  The line reader of \<^verbatim>\<open>common/console.cpp\<close> (POSIX branches): UTF-8 assembly of the typed
  code points, erasing of the last character, and the two \<^verbatim>\<open>readline\<close> functions.  What the
  terminal decides is a parameter: the column width of a code point (\<^verbatim>\<open>wcwidth\<close>) and, where
  that is unknown, the width measured by asking for the cursor position.
\<close>

section \<open>The console\<close>

datatype display_t = Display_Reset | Display_Prompt | Display_User_Input | Display_Error

record console_env =
  advanced_display :: bool
  has_tty :: bool
  wcwidth :: "nat \<Rightarrow> int"
  cursor_probe :: "string \<Rightarrow> int"

record rl_state =
  rl_line :: string
  rl_widths :: "int list"        \<comment> \<open>the last character's width first\<close>
  rl_special :: bool
  rl_display :: display_t
  rl_out :: string

fun display_code :: "display_t \<Rightarrow> string" where
  "display_code Display_Reset = csi ''0m''"
| "display_code Display_Prompt = csi ''33m''"
| "display_code Display_User_Input = csi ''1m'' @ csi ''32m''"
| "display_code Display_Error = csi ''1m'' @ csi ''31m''"

definition set_display :: "console_env \<Rightarrow> display_t \<Rightarrow> rl_state \<Rightarrow> rl_state" where
  "set_display env d st =
     (if advanced_display env \<and> rl_display st \<noteq> d
      then st\<lparr>rl_out := rl_out st @ display_code d, rl_display := d\<rparr>
      else st)"

abbreviation BS :: char where "BS \<equiv> CHR 0x08"

definition pop_cursor :: string where "pop_cursor = [BS]"

definition replace_last :: "char \<Rightarrow> string" where
  "replace_last ch = [BS, ch]"

section \<open>UTF-8\<close>

definition byte :: "nat \<Rightarrow> char" where "byte n = char_of n"

definition append_utf8 :: "nat \<Rightarrow> string" where
  "append_utf8 ch =
     (if ch \<le> 0x7F then [byte ch]
      else if ch \<le> 0x7FF then
        [byte (0xC0 + (ch div 2 ^ 6) mod 0x20), byte (0x80 + ch mod 0x40)]
      else if ch \<le> 0xFFFF then
        [byte (0xE0 + (ch div 2 ^ 12) mod 0x10), byte (0x80 + (ch div 2 ^ 6) mod 0x40),
         byte (0x80 + ch mod 0x40)]
      else if ch \<le> 0x10FFFF then
        [byte (0xF0 + (ch div 2 ^ 18) mod 0x08), byte (0x80 + (ch div 2 ^ 12) mod 0x40),
         byte (0x80 + (ch div 2 ^ 6) mod 0x40), byte (0x80 + ch mod 0x40)]
      else [])"

text \<open>\<^verbatim>\<open>(c & 0xC0) == 0x80\<close>: a continuation byte.\<close>

definition is_cont :: "char \<Rightarrow> bool" where
  "is_cont c \<longleftrightarrow> char_code c div 64 = 2"

fun utf8_start :: "nat \<Rightarrow> string \<Rightarrow> nat \<Rightarrow> nat" where
  "utf8_start 0 line pos = pos"
| "utf8_start (Suc i) line pos =
     (if pos = 0 then pos else if \<not> is_cont (line ! pos) then pos else utf8_start i line (pos - 1))"

definition pop_back_utf8_char :: "string \<Rightarrow> string" where
  "pop_back_utf8_char line =
     (if line = [] then line else take (utf8_start 3 line (length line - 1)) line)"

lemma char_code_byte [simp]: "char_code (byte n) = n mod 256"
  by (simp add: char_code_def byte_def of_char_of)

lemma pop_back_one: "pop_back_utf8_char (line @ [a]) = line" if "\<not> is_cont a"
  using that by (simp add: pop_back_utf8_char_def numeral_3_eq_3)

lemma pop_back_two: "pop_back_utf8_char (line @ [a, b]) = line"
  if "\<not> is_cont a" "is_cont b"
  using that by (simp add: pop_back_utf8_char_def numeral_3_eq_3 nth_append)

lemma pop_back_three: "pop_back_utf8_char (line @ [a, b, c]) = line"
  if "\<not> is_cont a" "is_cont b" "is_cont c"
  using that by (simp add: pop_back_utf8_char_def numeral_3_eq_3 nth_append)

lemma pop_back_four: "pop_back_utf8_char (line @ [a, b, c, d]) = line"
  if "is_cont b" "is_cont c" "is_cont d"
  using that by (simp add: pop_back_utf8_char_def numeral_3_eq_3 nth_append)

lemma is_cont_byte: "m < 0x40 \<Longrightarrow> is_cont (byte (0x80 + m))"
  by (simp add: is_cont_def)

lemma not_cont_lead:
  "m < 0x20 \<Longrightarrow> \<not> is_cont (byte (0xC0 + m))"
  "m < 0x10 \<Longrightarrow> \<not> is_cont (byte (0xE0 + m))"
  "n \<le> 0x7F \<Longrightarrow> \<not> is_cont (byte n)"
  by (simp_all add: is_cont_def)

lemma pop_append_utf8:
  assumes "ch \<le> 0x10FFFF"
  shows "pop_back_utf8_char (line @ append_utf8 ch) = line"
proof -
  have c: "is_cont (byte (0x80 + n mod 0x40))" for n by (rule is_cont_byte) simp
  have l: "\<not> is_cont (byte (0xC0 + n mod 0x20))" "\<not> is_cont (byte (0xE0 + n mod 0x10))" for n
    by (rule not_cont_lead; simp)+
  consider "ch \<le> 0x7F" | "\<not> ch \<le> 0x7F" "ch \<le> 0x7FF" | "\<not> ch \<le> 0x7FF" "ch \<le> 0xFFFF" | "\<not> ch \<le> 0xFFFF"
    by linarith
  then show ?thesis
  proof cases
    case 1
    then show ?thesis unfolding append_utf8_def using not_cont_lead(3) pop_back_one by simp
  next
    case 2
    then have "\<not> ch \<le> 0x7F" "ch \<le> 0x7FF" by simp_all
    then show ?thesis by (simp only: append_utf8_def if_True if_False pop_back_two [OF l(1) c])
  next
    case 3
    then have "\<not> ch \<le> 0x7F" "\<not> ch \<le> 0x7FF" "ch \<le> 0xFFFF" by simp_all
    then show ?thesis by (simp only: append_utf8_def if_True if_False pop_back_three [OF l(2) c c])
  next
    case 4
    then have "\<not> ch \<le> 0x7F" "\<not> ch \<le> 0x7FF" "\<not> ch \<le> 0xFFFF" by simp_all
    with assms show ?thesis by (simp only: append_utf8_def if_True if_False pop_back_four [OF c c c])
  qed
qed

lemma append_utf8_nonempty: "ch \<le> 0x10FFFF \<Longrightarrow> append_utf8 ch \<noteq> []"
  by (simp add: append_utf8_def)

section \<open>The advanced reader\<close>

text \<open>\<^verbatim>\<open>estimateWidth\<close> and \<^verbatim>\<open>put_codepoint\<close>: the width used is never asked for twice.  A width that
  \<^verbatim>\<open>wcwidth\<close> does not give is measured by the cursor; the measured width is taken to depend on the character only, not
  on the column it is written at.\<close>

definition put_codepoint :: "console_env \<Rightarrow> string \<Rightarrow> int \<Rightarrow> int" where
  "put_codepoint env bytes expectedWidth =
     (if expectedWidth \<ge> 0 \<or> \<not> has_tty env then expectedWidth else cursor_probe env bytes)"

definition char_width :: "console_env \<Rightarrow> nat \<Rightarrow> int" where
  "char_width env ch = max 0 (put_codepoint env (append_utf8 ch) (wcwidth env ch))"

text \<open>After \<^verbatim>\<open>ESC [\<close> everything up to a letter or \<open>~\<close> is discarded.\<close>

fun discard_escape :: "keys \<Rightarrow> keys" where
  "discard_escape [] = []"
| "discard_escape (c # ks) =
     (if c = WEOF then ks
      else if (65 \<le> c \<and> c \<le> 90) \<or> (97 \<le> c \<and> c \<le> 122) \<or> c = 126 then ks
      else discard_escape ks)"

definition rl_escape :: "keys \<Rightarrow> keys" where
  "rl_escape ks =
     (let (code, ks') = getchar32 ks in
      if code = 91 \<or> code = 0x1B then discard_escape ks' else ks')"

text \<open>Backspace takes off the last character and, while the one taken off has no width, the next.\<close>

fun rl_erase :: "int list \<Rightarrow> string \<Rightarrow> string \<Rightarrow> int list \<times> string \<times> string" where
  "rl_erase [] line out = ([], line, out)"
| "rl_erase (count # ws) line out =
     (let out' = out @ concat (replicate (nat count) (replace_last (CHR '' '') @ pop_cursor));
          line' = pop_back_utf8_char line
      in if count = 0 then rl_erase ws line' out' else (ws, line', out'))"

definition rl_leave_special :: "console_env \<Rightarrow> rl_state \<Rightarrow> rl_state" where
  "rl_leave_special env st =
     (if rl_special st then
        (let st1 = set_display env Display_User_Input st in
         st1\<lparr>rl_out := rl_out st1 @ replace_last (last (rl_line st1)), rl_special := False\<rparr>)
      else st)"

definition rl_enter_special :: "console_env \<Rightarrow> rl_state \<Rightarrow> rl_state" where
  "rl_enter_special env st =
     (if rl_line st \<noteq> [] \<and> (last (rl_line st) = CHR 0x5C \<or> last (rl_line st) = CHR ''/'') then
        (let st1 = set_display env Display_Prompt st in
         st1\<lparr>rl_out := rl_out st1 @ replace_last (last (rl_line st1)), rl_special := True\<rparr>)
      else st)"

definition rl_char :: "console_env \<Rightarrow> nat \<Rightarrow> rl_state \<Rightarrow> rl_state" where
  "rl_char env c st =
     st\<lparr>rl_line := rl_line st @ append_utf8 c,
        rl_widths := char_width env c # rl_widths st,
        rl_out := rl_out st @ append_utf8 c\<rparr>"

definition rl_backspace :: "rl_state \<Rightarrow> rl_state" where
  "rl_backspace st =
     (let (ws, line', out') = rl_erase (rl_widths st) (rl_line st) (rl_out st)
      in st\<lparr>rl_widths := ws, rl_line := line', rl_out := out'\<rparr>)"

definition rl_key :: "console_env \<Rightarrow> rl_state \<Rightarrow> nat \<Rightarrow> keys \<Rightarrow> rl_state \<times> keys" where
  "rl_key env st c ks =
     (let st1 = rl_leave_special env st;
          (st2, ks2) =
            (if c = 0x1B then (st1, rl_escape ks)
             else if c = 0x08 \<or> c = 0x7F then (rl_backspace st1, ks)
             else (rl_char env c st1, ks))
      in (rl_enter_special env st2, ks2))"

lemma discard_escape_length: "length (discard_escape ks) \<le> length ks"
  by (induction ks) auto

lemma rl_escape_length: "length (rl_escape ks) \<le> length ks"
  using discard_escape_length [of "tl ks"] by (cases ks) (auto simp: rl_escape_def)

lemma rl_key_length: "length (snd (rl_key env st c ks)) \<le> length ks"
  using rl_escape_length [of ks] by (auto simp: rl_key_def Let_def)

text \<open>The read loop: the state, whether the stream ended, and the unread keys.\<close>

function rl_loop :: "console_env \<Rightarrow> rl_state \<Rightarrow> keys \<Rightarrow> rl_state \<times> bool \<times> keys" where
  "rl_loop env st [] = (st, True, [])"
| "rl_loop env st (c # ks) =
     (if c = 0x0D \<or> c = 0x0A then (st, False, ks)
      else if c = WEOF \<or> c = 0x04 then (st, True, ks)
      else rl_loop env (fst (rl_key env st c ks)) (snd (rl_key env st c ks)))"
  by pat_completeness auto
termination
  by (relation "measure (\<lambda>(env, st, ks). length ks)") (simp_all add: less_Suc_eq_le rl_key_length case_prod_unfold)

definition rl_init :: "display_t \<Rightarrow> rl_state" where
  "rl_init d = \<lparr>rl_line = [], rl_widths = [], rl_special = False, rl_display = d, rl_out = []\<rparr>"

definition rl_finish :: "rl_state \<Rightarrow> bool \<Rightarrow> bool \<Rightarrow> bool \<times> string \<times> string" where
  "rl_finish st end_of_stream multiline_input =
     (let line = rl_line st; out = rl_out st in
      if rl_special st then
        (let out1 = out @ replace_last (CHR '' '') @ pop_cursor;
             lst = last line; line1 = butlast line
         in if lst = CHR 0x5C then (\<not> multiline_input, line1 @ [newline], out1 @ [newline])
            else if length line1 = 1 \<and> last line1 = CHR '' '' then (False, [], out1 @ pop_cursor)
            else (False, line1, out1))
      else if end_of_stream then (False, line, out)
      else (multiline_input, line @ [newline], out @ [newline]))"

definition readline_advanced ::
  "console_env \<Rightarrow> display_t \<Rightarrow> bool \<Rightarrow> keys \<Rightarrow> bool \<times> string \<times> string \<times> keys" where
  "readline_advanced env d multiline_input ks =
     (let (st, eos, ks') = rl_loop env (rl_init d) ks;
          (more, line, out) = rl_finish st eos multiline_input
      in (more, line, out, ks'))"

text \<open>\<^verbatim>\<open>readline_simple\<close> on the bytes of standard input: whether another line follows, the
  line, and the unread bytes.\<close>

fun take_line :: "string \<Rightarrow> string \<times> string" where
  "take_line [] = ([], [])"
| "take_line (c # s) = (if c = newline then ([], s) else (let (l, r) = take_line s in (c # l, r)))"

definition readline_simple :: "bool \<Rightarrow> string \<Rightarrow> bool \<times> string \<times> string" where
  "readline_simple multiline_input inp =
     (if inp = [] then (False, [], [])
      else
        let (line, rest) = take_line inp in
        if line \<noteq> [] \<and> last line = CHR ''/'' then (False, butlast line, rest)
        else if line \<noteq> [] \<and> last line = CHR 0x5C then
          (\<not> multiline_input, butlast line @ [newline], rest)
        else (multiline_input, line @ [newline], rest))"

section \<open>The reader against a list of characters\<close>

text \<open>
  The specification of editing: the typed code points, the last one first.  Backspace removes the
  last character that has a width, with the zero-width characters typed after it.
\<close>

fun type_erase :: "(nat \<Rightarrow> int) \<Rightarrow> nat list \<Rightarrow> nat list" where
  "type_erase w [] = []"
| "type_erase w (c # cs) = (if w c = 0 then type_erase w cs else cs)"

definition type_key :: "(nat \<Rightarrow> int) \<Rightarrow> nat list \<Rightarrow> nat \<Rightarrow> keys \<Rightarrow> nat list \<times> keys" where
  "type_key w cps c ks =
     (if c = 0x1B then (cps, rl_escape ks)
      else if c = 0x08 \<or> c = 0x7F then (type_erase w cps, ks)
      else (c # cps, ks))"

lemma type_key_length: "length (snd (type_key w cps c ks)) \<le> length ks"
  using rl_escape_length [of ks] by (auto simp: type_key_def)

function type_loop :: "(nat \<Rightarrow> int) \<Rightarrow> nat list \<Rightarrow> keys \<Rightarrow> nat list \<times> bool \<times> keys" where
  "type_loop w cps [] = (cps, True, [])"
| "type_loop w cps (c # ks) =
     (if c = 0x0D \<or> c = 0x0A then (cps, False, ks)
      else if c = WEOF \<or> c = 0x04 then (cps, True, ks)
      else type_loop w (fst (type_key w cps c ks)) (snd (type_key w cps c ks)))"
  by pat_completeness auto
termination
  by (relation "measure (\<lambda>(w, cps, ks). length ks)")
     (simp_all add: less_Suc_eq_le type_key_length case_prod_unfold)

definition rl_rel :: "console_env \<Rightarrow> rl_state \<Rightarrow> nat list \<Rightarrow> bool" where
  "rl_rel env st cps \<longleftrightarrow>
     rl_line st = concat (map append_utf8 (rev cps)) \<and> rl_widths st = map (char_width env) cps
     \<and> (\<forall>c \<in> set cps. c \<le> 0x10FFFF)"

lemma rl_rel_frame [simp]:
  "rl_rel env (rl_enter_special env st) cps = rl_rel env st cps"
  "rl_rel env (rl_leave_special env st) cps = rl_rel env st cps"
  by (simp_all add: rl_rel_def rl_enter_special_def rl_leave_special_def set_display_def Let_def)

lemma rl_erase_rel:
  "\<forall>c \<in> set cps. c \<le> 0x10FFFF \<Longrightarrow>
   \<exists>out'. rl_erase (map (char_width env) cps) (concat (map append_utf8 (rev cps))) out
     = (map (char_width env) (type_erase (char_width env) cps),
        concat (map append_utf8 (rev (type_erase (char_width env) cps))), out')"
  by (induction cps arbitrary: out) (auto simp: pop_append_utf8 Let_def)

lemma type_erase_subset: "set (type_erase w cps) \<subseteq> set cps"
  by (induction cps) auto

lemma rl_backspace_rel:
  assumes "rl_rel env st cps"
  shows "rl_rel env (rl_backspace st) (type_erase (char_width env) cps)"
proof -
  from assms have v: "\<forall>c \<in> set cps. c \<le> 0x10FFFF" by (simp add: rl_rel_def)
  obtain out' where "rl_erase (rl_widths st) (rl_line st) (rl_out st)
     = (map (char_width env) (type_erase (char_width env) cps),
        concat (map append_utf8 (rev (type_erase (char_width env) cps))), out')"
    using rl_erase_rel [OF v] assms by (metis rl_rel_def)
  with v type_erase_subset [of "char_width env" cps] show ?thesis
    by (auto simp: rl_backspace_def rl_rel_def)
qed

lemma rl_key_rel:
  assumes "rl_rel env st cps" "c \<le> 0x10FFFF"
  shows "rl_rel env (fst (rl_key env st c ks)) (fst (type_key (char_width env) cps c ks))
    \<and> snd (rl_key env st c ks) = snd (type_key (char_width env) cps c ks)"
proof -
  have l: "rl_rel env (rl_leave_special env st) cps" using assms(1) by simp
  have "rl_rel env (rl_char env c (rl_leave_special env st)) (c # cps)"
    using l assms(2) by (simp add: rl_rel_def rl_char_def)
  with l rl_backspace_rel [OF l] show ?thesis
    by (simp add: rl_key_def type_key_def Let_def)
qed

lemma discard_escape_subset: "set (discard_escape ks) \<subseteq> set ks"
  by (induction ks) auto

lemma type_key_subset: "set (snd (type_key w cps c ks)) \<subseteq> set ks"
  using discard_escape_subset [of "tl ks"]
  by (cases ks) (auto simp: type_key_def rl_escape_def split: if_splits)

lemma rl_loop_rel:
  "rl_rel env st cps \<Longrightarrow> \<forall>c \<in> set ks. c \<le> 0x10FFFF \<Longrightarrow>
   (case (rl_loop env st ks, type_loop (char_width env) cps ks) of
      ((st', eos, rest), (cps', eos', rest')) \<Rightarrow> rl_rel env st' cps' \<and> eos = eos' \<and> rest = rest')"
proof (induction env st ks arbitrary: cps rule: rl_loop.induct)
  case (2 env st c ks)
  show ?case
  proof (cases "c = 0x0D \<or> c = 0x0A \<or> c = WEOF \<or> c = 0x04")
    case True
    with "2.prems" show ?thesis by auto
  next
    case False
    note k = rl_key_rel [OF "2.prems"(1), of c ks]
    have v: "\<forall>k \<in> set (snd (rl_key env st c ks)). k \<le> 0x10FFFF"
      using k "2.prems"(2) type_key_subset [of "char_width env" cps c ks] by auto
    from "2.IH" [OF _ _ conjunct1 [OF k] v] False "2.prems"(2) k show ?thesis by simp
  qed
qed simp

lemma rl_special_iff:
  "rl_special (rl_enter_special env (st\<lparr>rl_special := False\<rparr>)) \<longleftrightarrow>
     rl_line st \<noteq> [] \<and> (last (rl_line st) = CHR 0x5C \<or> last (rl_line st) = CHR ''/'')"
  by (simp add: rl_enter_special_def Let_def set_display_def)

definition special_ok :: "rl_state \<Rightarrow> bool" where
  "special_ok st \<longleftrightarrow>
     (rl_special st \<longleftrightarrow> rl_line st \<noteq> [] \<and> (last (rl_line st) = CHR 0x5C \<or> last (rl_line st) = CHR ''/''))"

lemma rl_enter_special_ok: "\<not> rl_special st \<Longrightarrow> special_ok (rl_enter_special env st)"
  by (simp add: special_ok_def rl_enter_special_def Let_def set_display_def)

lemma rl_key_special_ok: "special_ok (fst (rl_key env st c ks))"
proof -
  have "\<not> rl_special (rl_leave_special env st)" by (simp add: rl_leave_special_def Let_def set_display_def)
  then show ?thesis
    by (auto simp: rl_key_def Let_def rl_char_def rl_backspace_def case_prod_unfold
        intro!: rl_enter_special_ok)
qed

lemma rl_loop_special_ok: "special_ok st \<Longrightarrow> special_ok (fst (rl_loop env st ks))"
proof (induction env st ks rule: rl_loop.induct)
  case (2 env st c ks)
  then show ?case using rl_key_special_ok by simp
qed simp

text \<open>C14: Line input is the UTF-8 text of what was typed: with the specification editor arriving at
  the code points \<open>cps\<close>, the line read is their encoding, with a newline when Enter ended it, and
  a trailing backslash or slash is taken as the continuation switch instead.\<close>

theorem readline_refines_typing:
  assumes "\<forall>c \<in> set ks. c \<le> 0x10FFFF"
    and "type_loop (char_width env) [] ks = (cps, eos, rest)"
    and "u = concat (map append_utf8 (rev cps))"
  shows "\<exists>out. readline_advanced env d multiline ks =
    (if u \<noteq> [] \<and> last u = CHR 0x5C then (\<not> multiline, butlast u @ [newline], out, rest)
     else if u \<noteq> [] \<and> last u = CHR ''/'' then
       (False, if butlast u = '' '' then [] else butlast u, out, rest)
     else (\<not> eos \<and> multiline, if eos then u else u @ [newline], out, rest))"
proof -
  obtain st e r where l: "rl_loop env (rl_init d) ks = (st, e, r)" by (cases "rl_loop env (rl_init d) ks")
  have "rl_rel env (rl_init d) []" by (simp add: rl_rel_def rl_init_def)
  from rl_loop_rel [OF this assms(1)] l assms(2) have s: "rl_rel env st cps" "e = eos" "r = rest" by simp_all
  then have u: "rl_line st = u" using assms(3) by (simp add: rl_rel_def)
  have "special_ok (rl_init d)" by (simp add: special_ok_def rl_init_def)
  from rl_loop_special_ok [OF this, of env ks] l u
  have sp: "rl_special st \<longleftrightarrow> u \<noteq> [] \<and> (last u = CHR 0x5C \<or> last u = CHR ''/'')"
    by (simp add: special_ok_def)
  have one: "length v = 1 \<and> last v = CHR '' '' \<longleftrightarrow> v = '' ''" for v :: string
    by (cases v) auto
  show ?thesis
    using one [of "butlast u"]
    by (auto simp: readline_advanced_def l s u sp rl_finish_def Let_def simp del: length_butlast)
qed

theorem readline_refines_typing_witness:
  "\<exists>out. readline_advanced \<lparr>advanced_display = True, has_tty = False, wcwidth = (\<lambda>_. 1), cursor_probe = (\<lambda>_. 0)\<rparr>
      Display_Reset False [108, 115, 0xE9, 0x7F, 10, 99] = (False, ''ls'' @ [newline], out, [99])"
proof -
  let ?env = "\<lparr>advanced_display = True, has_tty = False, wcwidth = (\<lambda>_. 1), cursor_probe = (\<lambda>_. 0)\<rparr>"
  have t: "type_loop (char_width ?env) [] [108, 115, 0xE9, 0x7F, 10, 99] = ([115, 108], False, [99])"
    by (simp add: type_key_def char_width_def put_codepoint_def WEOF_def)
  have u: "''ls'' = concat (map append_utf8 (rev [115, 108]))" by code_simp
  from readline_refines_typing [OF _ t u, of Display_Reset False] show ?thesis by simp
qed

text \<open>Erasing the last UTF-8 character undoes the appending of any code point.\<close>

theorem utf8_append_pop:
  assumes "ch \<le> 0x10FFFF"
  shows "pop_back_utf8_char (line @ append_utf8 ch) = line"
  using assms by (rule pop_append_utf8)

theorem utf8_append_pop_witness:
  "pop_back_utf8_char (''ls'' @ append_utf8 0x1F600) = ''ls''"
  by (rule utf8_append_pop) simp

end
