(* ===== verification/World.thy ===== *)
theory World
  imports Readline
begin

text \<open>
  The world the command-line tool runs in: files, directories, environment variables, the keyboard
  and the screen, and a monad for code that reads and changes it.  \<^term>\<open>None\<close> is code that never
  returns, \<^term>\<open>Inl\<close> an exception.  Models \<^verbatim>\<open>lang-cli-src/file_manager.cpp\<close> and the cache
  directory functions of \<^verbatim>\<open>common/common.cpp\<close> (Linux branches).
\<close>

section \<open>State and monad\<close>

text \<open>
  What is outside the program is given by fields that no operation changes: which files may be
  written, which directories may be made, what libcurl delivers, and what a shell command prints
  after the commands run before it (\<open>w_ran\<close>).
\<close>

record world =
  w_files :: "string \<Rightarrow> string option"
  w_dirs :: "string set"
  w_env :: "string \<Rightarrow> string option"
  w_writable :: "string \<Rightarrow> bool"
  w_mkdir_ok :: "string \<Rightarrow> bool"
  w_curl_init :: bool
  w_curl :: "string \<Rightarrow> bool \<times> string"
  w_popen :: "string list \<Rightarrow> string \<Rightarrow> string option"
  w_ran :: "string list"
  w_console :: console_env
  w_term_height :: int
  w_keys :: keys
  w_out :: string

type_synonym 'a io = "world \<Rightarrow> ('a \<times> world) result option"

definition io_ret :: "'a \<Rightarrow> 'a io" where
  "io_ret x w = Some (Inr (x, w))"

definition io_fail :: "cpp_failure \<Rightarrow> 'a io" where
  "io_fail e w = Some (Inl e)"

definition io_bind :: "'a io \<Rightarrow> ('a \<Rightarrow> 'b io) \<Rightarrow> 'b io" where
  "io_bind m f w =
     (case m w of
        None \<Rightarrow> None
      | Some (Inl e) \<Rightarrow> Some (Inl e)
      | Some (Inr (x, w')) \<Rightarrow> f x w')"

definition io_get :: "(world \<Rightarrow> 'a) \<Rightarrow> 'a io" where
  "io_get f w = Some (Inr (f w, w))"

definition io_modify :: "(world \<Rightarrow> world) \<Rightarrow> unit io" where
  "io_modify f w = Some (Inr ((), f w))"

definition io_lift :: "'a result \<Rightarrow> 'a io" where
  "io_lift r w = Some (rbind r (\<lambda>x. Inr (x, w)))"

definition io_print :: "string \<Rightarrow> unit io" where
  "io_print s = io_modify (\<lambda>w. w\<lparr>w_out := w_out w @ s\<rparr>)"

named_theorems io_simps \<open>evaluation of the monad\<close>

lemma io_bind_simps [io_simps, simp]:
  "io_bind (io_ret x) f = f x"
  "io_bind (io_fail e) f = io_fail e"
  "io_bind (io_lift (Inr x)) f = f x"
  "io_bind (io_lift (Inl e)) f = io_fail e"
  by (auto simp: io_bind_def io_ret_def io_fail_def io_lift_def fun_eq_iff)

lemma io_bind_get [io_simps, simp]: "io_bind (io_get g) f w = f (g w) w"
  by (simp add: io_bind_def io_get_def)

lemma io_bind_modify [io_simps, simp]: "io_bind (io_modify g) f w = f () (g w)"
  by (simp add: io_bind_def io_modify_def)

lemma io_bind_print [io_simps, simp]:
  "io_bind (io_print s) f w = f () (w\<lparr>w_out := w_out w @ s\<rparr>)"
  by (simp add: io_print_def)

lemma io_bind_assoc [io_simps, simp]: "io_bind (io_bind m f) g = io_bind m (\<lambda>x. io_bind (f x) g)"
  by (auto simp: io_bind_def fun_eq_iff split: option.splits sum.splits)

lemma io_ret_app [io_simps, simp]: "io_ret x w = Some (Inr (x, w))"
  by (simp add: io_ret_def)

lemma io_fail_app [io_simps, simp]: "io_fail e w = Some (Inl e)"
  by (simp add: io_fail_def)

lemma io_bind_lift [io_simps, simp]:
  "io_bind (io_lift r) f w = (case r of Inl e \<Rightarrow> Some (Inl e) | Inr x \<Rightarrow> f x w)"
  by (simp add: io_bind_def io_lift_def split: sum.splits)

lemma io_lift_app [io_simps, simp]: "io_lift r w = Some (rbind r (\<lambda>x. Inr (x, w)))"
  by (simp add: io_lift_def)

lemma io_print_app [io_simps, simp]: "io_print s w = Some (Inr ((), w\<lparr>w_out := w_out w @ s\<rparr>))"
  by (simp add: io_print_def io_modify_def)

lemma io_bind_if [io_simps, simp]: "io_bind (if b then m else n) f = (if b then io_bind m f else io_bind n f)"
  by simp

lemma io_bind_SomeE:
  assumes "io_bind m f w = Some (Inr (y, w2))"
  obtains x w1 where "m w = Some (Inr (x, w1))" "f x w1 = Some (Inr (y, w2))"
  using assms by (auto simp: io_bind_def split: option.splits sum.splits)

lemma io_bind_step: "m w = Some (Inr (x, w1)) \<Longrightarrow> io_bind m f w = f x w1"
  by (simp add: io_bind_def)

section \<open>Files\<close>

text \<open>\<^verbatim>\<open>file_manager.cpp\<close>: a file that exists can be opened for reading.\<close>

definition file_exists :: "string \<Rightarrow> bool io" where
  "file_exists path = io_get (\<lambda>w. w_files w path \<noteq> None)"

definition file_is_empty :: "string \<Rightarrow> bool io" where
  "file_is_empty path =
     io_bind (io_get (\<lambda>w. w_files w path)) (\<lambda>c.
       case c of None \<Rightarrow> io_fail Ios_Failure | Some t \<Rightarrow> io_ret (t = []))"

text \<open>Opening may fail; what is written to an open file arrives in full (the code does not look at the state of the
  stream after writing).\<close>

definition write_file :: "string \<Rightarrow> string \<Rightarrow> bool io" where
  "write_file path contents =
     io_bind (io_get (\<lambda>w. w_writable w path)) (\<lambda>ok.
       if ok then io_bind (io_modify (\<lambda>w. w\<lparr>w_files := (w_files w)(path \<mapsto> contents)\<rparr>)) (\<lambda>_. io_ret True)
       else io_ret False)"

definition file_create :: "string \<Rightarrow> bool io" where
  "file_create path = write_file path []"

definition json_file_create :: "string \<Rightarrow> bool io" where
  "json_file_create path = write_file path ''{}''"

text \<open>
  \<^verbatim>\<open>download_file\<close>: the target is opened, and so emptied, before the transfer, and holds
  whatever arrived also when the transfer fails.  Error text goes to \<^verbatim>\<open>std::cerr\<close>.
\<close>

definition download_file :: "string \<Rightarrow> string \<Rightarrow> bool io" where
  "download_file url path =
     io_bind (write_file path []) (\<lambda>opened.
       if \<not> opened then
         io_bind (io_print (print_error (''Could not open file '' @ path @ '' for writing.''))) (\<lambda>_. io_ret False)
       else
         io_bind (io_get w_curl_init) (\<lambda>curl.
           if \<not> curl then io_ret False
           else
             io_bind (io_get (\<lambda>w. w_curl w url)) (\<lambda>(ok, bytes).
             io_bind (write_file path bytes) (\<lambda>_.
               if \<not> ok then io_ret False
               else
                 io_bind (io_print (newline # ''Download successful: '' @ path @ [newline]))
                   (\<lambda>_. io_ret True)))))"

section \<open>The cache directory\<close>

definition ensure_trailing_slash :: "string \<Rightarrow> string result" where
  "ensure_trailing_slash p =
     (if p = [] then Inl Undefined_Behaviour
      else Inr (if last p \<noteq> CHR ''/'' then p @ ''/'' else p))"

definition fs_get_cache_directory :: "(string \<Rightarrow> string option) \<Rightarrow> string result" where
  "fs_get_cache_directory env =
     (case env ''LLAMA_CACHE'' of
        Some d \<Rightarrow> ensure_trailing_slash d
      | None \<Rightarrow>
          rbind (case env ''XDG_CACHE_HOME'' of
                   Some d \<Rightarrow> Inr d
                 | None \<Rightarrow> (case env ''HOME'' of
                              Some h \<Rightarrow> Inr (h @ ''/.cache/'')
                            | None \<Rightarrow> Inl Undefined_Behaviour)) (\<lambda>d.
          rbind (ensure_trailing_slash d) (\<lambda>d'. ensure_trailing_slash (d' @ ''LangCommand''))))"

text \<open>\<^verbatim>\<open>stat\<close>: trailing slashes of a path do not count.\<close>

definition strip_slash :: "string \<Rightarrow> string" where
  "strip_slash p =
     (let q = rev (dropWhile (\<lambda>c. c = CHR ''/'') (rev p)) in if q = [] then take 1 p else q)"

definition stat_is_dir :: "world \<Rightarrow> string \<Rightarrow> bool option" where
  "stat_is_dir w p =
     (if strip_slash p \<in> w_dirs w then Some True
      else if w_files w p \<noteq> None then Some False else None)"

function make_dirs :: "string \<Rightarrow> nat \<Rightarrow> bool io" where
  "make_dirs path pos =
     (case str_find path ''/'' pos of
        None \<Rightarrow> io_ret True
      | Some p \<Rightarrow>
          io_bind (io_get (\<lambda>w. stat_is_dir w (take p path))) (\<lambda>st.
            case st of
              Some True \<Rightarrow> make_dirs path (p + 1)
            | Some False \<Rightarrow> io_ret False
            | None \<Rightarrow>
                io_bind (io_get (\<lambda>w. w_mkdir_ok w (take p path))) (\<lambda>ok.
                  if ok then
                    io_bind (io_modify (\<lambda>w. w\<lparr>w_dirs := insert (strip_slash (take p path)) (w_dirs w)\<rparr>))
                      (\<lambda>_. make_dirs path (p + 1))
                  else io_ret False)))"
  by pat_completeness auto
termination
proof (relation "measure (\<lambda>(path, pos). Suc (length path) - pos)", goal_cases)
  case (2 path pos p)
  then show ?case using str_find_Some [of path "''/''" pos p] by simp
next
  case (3 path pos p)
  then show ?case using str_find_Some [of path "''/''" pos p] by simp
qed simp

declare make_dirs.simps [simp del]

definition fs_create_directory_with_parents :: "string \<Rightarrow> bool io" where
  "fs_create_directory_with_parents path =
     io_bind (io_get (\<lambda>w. stat_is_dir w path)) (\<lambda>st.
       case st of Some d \<Rightarrow> io_ret d | None \<Rightarrow> make_dirs path 1)"

definition fs_get_cache_file :: "string \<Rightarrow> string io" where
  "fs_get_cache_file filename =
     (if CHR ''/'' \<in> set filename then io_fail Assert_Failure
      else
        io_bind (io_get (\<lambda>w. fs_get_cache_directory (w_env w))) (\<lambda>d.
        io_bind (io_lift d) (\<lambda>cache_directory.
        io_bind (fs_create_directory_with_parents cache_directory) (\<lambda>success.
          if \<not> success then
            io_fail (Runtime_Error (''failed to create cache directory: '' @ cache_directory))
          else io_ret (cache_directory @ filename)))))"

section \<open>The cache path is stable\<close>

lemma make_dirs_True:
  "make_dirs path pos w = Some (Inr (True, w1)) \<Longrightarrow>
     w1 = w\<lparr>w_dirs := w_dirs w1\<rparr> \<and> w_dirs w \<subseteq> w_dirs w1 \<and>
     (\<forall>w2. w_dirs w1 \<subseteq> w_dirs w2 \<longrightarrow> make_dirs path pos w2 = Some (Inr (True, w2)))"
proof (induction path pos arbitrary: w rule: make_dirs.induct)
  case (1 path pos)
  show ?case
  proof (cases "str_find path ''/'' pos")
    case None
    with "1.prems" show ?thesis by (simp add: make_dirs.simps [of path pos])
  next
    case (Some p)
    note u = make_dirs.simps [of path pos, simplified Some option.case]
    let ?d = "strip_slash (take p path)"
    consider "stat_is_dir w (take p path) = Some True"
      | "stat_is_dir w (take p path) = Some False" | "stat_is_dir w (take p path) = None"
      by (metis (full_types) not_None_eq)
    then show ?thesis
    proof cases
      case 1
      with "1.prems" u have "make_dirs path (p + 1) w = Some (Inr (True, w1))" by simp
      from "1.IH"(1) [OF Some TrueI this] have ih: "w1 = w\<lparr>w_dirs := w_dirs w1\<rparr>" "w_dirs w \<subseteq> w_dirs w1"
        "\<forall>w2. w_dirs w1 \<subseteq> w_dirs w2 \<longrightarrow> make_dirs path (p + 1) w2 = Some (Inr (True, w2))" by blast+
      from 1 have "?d \<in> w_dirs w" by (simp add: stat_is_dir_def split: if_splits)
      with ih(2) have "stat_is_dir w2 (take p path) = Some True" if "w_dirs w1 \<subseteq> w_dirs w2" for w2
        using that by (auto simp: stat_is_dir_def)
      with ih u show ?thesis by simp
    next
      case 2
      with "1.prems" u show ?thesis by simp
    next
      case 3
      let ?w = "w\<lparr>w_dirs := insert ?d (w_dirs w)\<rparr>"
      from 3 "1.prems" u have "make_dirs path (p + 1) ?w = Some (Inr (True, w1))"
        by (simp split: if_splits)
      from 3 "1.prems" u have ok: "w_mkdir_ok w (take p path)" by (simp split: if_splits)
      have IH: "make_dirs path (p + 1) v = Some (Inr (True, w1)) \<Longrightarrow>
          w1 = v\<lparr>w_dirs := w_dirs w1\<rparr> \<and> w_dirs v \<subseteq> w_dirs w1 \<and>
          (\<forall>w2. w_dirs w1 \<subseteq> w_dirs w2 \<longrightarrow> make_dirs path (p + 1) w2 = Some (Inr (True, w2)))" for v
        using "1.IH"(2) [OF Some] by blast
      have ih: "w1 = ?w\<lparr>w_dirs := w_dirs w1\<rparr>" "w_dirs ?w \<subseteq> w_dirs w1"
        "\<forall>w2. w_dirs w1 \<subseteq> w_dirs w2 \<longrightarrow> make_dirs path (p + 1) w2 = Some (Inr (True, w2))"
        using IH [OF \<open>make_dirs path (p + 1) ?w = Some (Inr (True, w1))\<close>] by blast+
      from ih(2) have "stat_is_dir w2 (take p path) = Some True" if "w_dirs w1 \<subseteq> w_dirs w2" for w2
        using that by (auto simp: stat_is_dir_def)
      with ih u show ?thesis by auto
    qed
  qed
qed

lemma fs_create_True:
  assumes "fs_create_directory_with_parents path w = Some (Inr (True, w1))"
  shows "w1 = w\<lparr>w_dirs := w_dirs w1\<rparr>"
    "w_dirs w1 \<subseteq> w_dirs w2 \<Longrightarrow> w_files w2 path = w_files w path \<Longrightarrow>
       fs_create_directory_with_parents path w2 = Some (Inr (True, w2))"
proof -
  consider "stat_is_dir w path = Some True" "w1 = w" | "stat_is_dir w path = None" "make_dirs path 1 w = Some (Inr (True, w1))"
    using assms by (auto simp: fs_create_directory_with_parents_def split: option.splits)
  then have "w1 = w\<lparr>w_dirs := w_dirs w1\<rparr> \<and>
    (w_dirs w1 \<subseteq> w_dirs w2 \<and> w_files w2 path = w_files w path \<longrightarrow> fs_create_directory_with_parents path w2 = Some (Inr (True, w2)))"
  proof cases
    case 1
    then show ?thesis
      by (auto simp: fs_create_directory_with_parents_def stat_is_dir_def split: if_splits)
  next
    case 2
    note m = make_dirs_True [OF 2(2)]
    show ?thesis
    proof (intro conjI impI)
      assume s: "w_dirs w1 \<subseteq> w_dirs w2 \<and> w_files w2 path = w_files w path"
      show "fs_create_directory_with_parents path w2 = Some (Inr (True, w2))"
      proof (cases "stat_is_dir w2 path")
        case None
        with m s show ?thesis by (simp add: fs_create_directory_with_parents_def)
      next
        case (Some d)
        with 2(1) s have d by (auto simp: stat_is_dir_def split: if_splits)
        with Some show ?thesis by (simp add: fs_create_directory_with_parents_def)
      qed
    qed (use m in blast)
  qed
  then show "w1 = w\<lparr>w_dirs := w_dirs w1\<rparr>"
    "w_dirs w1 \<subseteq> w_dirs w2 \<Longrightarrow> w_files w2 path = w_files w path \<Longrightarrow>
       fs_create_directory_with_parents path w2 = Some (Inr (True, w2))"
    by blast+
qed

lemma cache_file_stable:
  assumes "fs_get_cache_file f w = Some (Inr (p, w1))" "f \<noteq> []"
  shows "w1 = w\<lparr>w_dirs := w_dirs w1\<rparr>"
    "w_env w2 = w_env w \<Longrightarrow> w_dirs w1 \<subseteq> w_dirs w2 \<Longrightarrow> \<forall>q. q \<noteq> p \<longrightarrow> w_files w2 q = w_files w q \<Longrightarrow> fs_get_cache_file f w2 = Some (Inr (p, w2))"
proof -
  from assms obtain dir where d: "CHR ''/'' \<notin> set f" "fs_get_cache_directory (w_env w) = Inr dir"
    "fs_create_directory_with_parents dir w = Some (Inr (True, w1))" "p = dir @ f"
    by (auto simp: fs_get_cache_file_def io_lift_def rbind_def split: if_splits sum.splits
        elim!: io_bind_SomeE)
  note c = fs_create_True [OF d(3)]
  show "w1 = w\<lparr>w_dirs := w_dirs w1\<rparr>" by (rule c)
  assume "w_env w2 = w_env w" "w_dirs w1 \<subseteq> w_dirs w2" "\<forall>q. q \<noteq> p \<longrightarrow> w_files w2 q = w_files w q"
  with d c(2) [of w2] assms(2) show "fs_get_cache_file f w2 = Some (Inr (p, w2))"
    by (simp add: fs_get_cache_file_def io_bind_step [of _ w2 True w2])
qed

end
