(* ===== verification/ModelManager.thy ===== *)
theory ModelManager
  imports World Menu "HOL-Library.List_Lexorder" "HOL-Library.Char_ord"
begin

text \<open>
  \<^verbatim>\<open>lang-cli-src/model_manager.cpp\<close> and its header: the persistent configuration (a JSON file in
  the cache directory) and the choice of a model.  The JSON library is a parameter: its parser and
  its two printers, on the values \<^verbatim>\<open>nlohmann::json\<close> distinguishes here.
\<close>

section \<open>Configuration values\<close>

datatype json =
    JNull
  | JString string
  | JObject "(string \<times> json) list"    \<comment> \<open>in the order of the keys, as \<^verbatim>\<open>std::map\<close>\<close>
  | JArray "json list"
  | JPrim string                        \<comment> \<open>a number or boolean\<close>

record json_lib =
  j_parse :: "string \<Rightarrow> json option"
  j_dump :: "json \<Rightarrow> string result"      \<comment> \<open>\<^verbatim>\<open>dump(4)\<close>, which throws on invalid UTF-8\<close>
  j_print :: "json \<Rightarrow> string result"     \<comment> \<open>\<^verbatim>\<open>operator<<\<close>\<close>

text \<open>What is relied on: printing and parsing are inverse, \<^verbatim>\<open>{}\<close> is the empty object, and an
  empty input is an error.\<close>

definition json_ok :: "json_lib \<Rightarrow> bool" where
  "json_ok lib \<longleftrightarrow>
     (\<forall>j t. j_dump lib j = Inr t \<longrightarrow> j_parse lib t = Some j)
     \<and> j_parse lib ''{}'' = Some (JObject []) \<and> j_parse lib [] = None"

text \<open>A keyed store, and the object's find and insert as one.\<close>

locale kv_store =
  fixes lookup :: "'m \<Rightarrow> 'k \<Rightarrow> 'v option"
    and store :: "'k \<Rightarrow> 'v \<Rightarrow> 'm \<Rightarrow> 'm"
  assumes lookup_store: "lookup (store k v m) = (lookup m)(k \<mapsto> v)"
begin

lemma lookup_store_same [simp]: "lookup (store k v m) k = Some v"
  by (simp add: lookup_store)

lemma lookup_store_other [simp]: "k' \<noteq> k \<Longrightarrow> lookup (store k v m) k' = lookup m k'"
  by (simp add: lookup_store)

lemma lookup_store_twice: "lookup (store k v (store k v' m)) = lookup (store k v m)"
  by (simp add: lookup_store)

lemma dom_store: "dom (lookup (store k v m)) = insert k (dom (lookup m))"
  by (simp add: lookup_store)

end

definition obj_find :: "(string \<times> json) list \<Rightarrow> string \<Rightarrow> json option" where
  "obj_find kvs k = map_of kvs k"

fun obj_set :: "string \<Rightarrow> json \<Rightarrow> (string \<times> json) list \<Rightarrow> (string \<times> json) list" where
  "obj_set k v [] = [(k, v)]"
| "obj_set k v ((k', v') # r) =
     (if k = k' then (k, v) # r
      else if k < k' then (k, v) # (k', v') # r
      else (k', v') # obj_set k v r)"

lemma map_of_obj_set: "map_of (obj_set k v kvs) = (map_of kvs)(k \<mapsto> v)"
  by (induction kvs) (auto simp: fun_eq_iff)

interpretation cfg: kv_store obj_find obj_set
  by unfold_locales (simp add: obj_find_def map_of_obj_set fun_eq_iff)

lemma dom_obj_set: "fst ` set (obj_set k v kvs) = insert k (fst ` set kvs)"
  using cfg.dom_store [of k v kvs] by (simp add: obj_find_def [abs_def] dom_map_of_conv_image_fst)

lemma sorted_obj_set:
  "sorted_wrt (<) (map fst kvs) \<Longrightarrow> sorted_wrt (<) (map fst (obj_set k v kvs))"
proof (induction kvs)
  case (Cons p r)
  obtain k' v' where p: "p = (k', v')" by (cases p)
  have "\<forall>x \<in> set (obj_set k v r). fst x = k \<or> fst x \<in> fst ` set r"
    using dom_obj_set [of k v r] by auto
  with Cons p show ?case by (fastforce dest: order.strict_trans)
qed simp

text \<open>\<^verbatim>\<open>config_dict[key] = value\<close> and reading \<^verbatim>\<open>config_dict[key]\<close> as a string.\<close>

definition json_set :: "json \<Rightarrow> string \<Rightarrow> string \<Rightarrow> json result" where
  "json_set j k v =
     (case j of
        JObject kvs \<Rightarrow> Inr (JObject (obj_set k (JString v) kvs))
      | JNull \<Rightarrow> Inr (JObject [(k, JString v)])
      | _ \<Rightarrow> Inl Json_Type_Error)"

definition json_get :: "json \<Rightarrow> string \<Rightarrow> string result" where
  "json_get j k =
     (case j of
        JObject kvs \<Rightarrow>
          (case obj_find kvs k of
             None \<Rightarrow> Inr []
           | Some (JString s) \<Rightarrow> Inr s
           | Some _ \<Rightarrow> Inl Json_Type_Error)
      | _ \<Rightarrow> Inr [])"

lemma json_get_set:
  "json_set j k v = Inr j' \<Longrightarrow> json_get j' k = Inr v"
  "json_set j k v = Inr j' \<Longrightarrow> k' \<noteq> k \<Longrightarrow> json_get j' k' = json_get j k'"
  by (auto simp: json_set_def json_get_def obj_find_def map_of_obj_set split: json.splits)

section \<open>Reading and writing the configuration\<close>

definition CONFIG_FILE :: string where
  "CONFIG_FILE = ''langcommand_config.json''"

definition read_config :: "json_lib \<Rightarrow> string \<Rightarrow> json io" where
  "read_config lib path =
     io_bind (io_get (\<lambda>w. w_files w path)) (\<lambda>c.
       case c of
         None \<Rightarrow> io_fail Json_Parse_Error
       | Some t \<Rightarrow> (case j_parse lib t of None \<Rightarrow> io_fail Json_Parse_Error | Some j \<Rightarrow> io_ret j))"

definition show_args :: "json_lib \<Rightarrow> unit io" where
  "show_args lib =
     io_bind (fs_get_cache_file CONFIG_FILE) (\<lambda>config_path.
     io_bind (file_exists config_path) (\<lambda>is_open.
     io_bind (if is_open then io_ret True else json_file_create config_path) (\<lambda>_.
     io_bind (read_config lib config_path) (\<lambda>config_dict.
       case config_dict of
         JObject kvs \<Rightarrow>
           foldr (\<lambda>(k, v) rest.
               io_bind (io_lift (j_print lib v)) (\<lambda>t.
               io_bind (io_print (LOG_COL_AQUA @ k @ LOG_COL_DEFAULT @ '': '' @ t @ [newline])) (\<lambda>_. rest)))
             kvs (io_ret ())
       | JNull \<Rightarrow> io_ret ()
       | JArray [] \<Rightarrow> io_ret ()
       | _ \<Rightarrow> io_fail Json_Type_Error))))"

definition save_args :: "json_lib \<Rightarrow> string \<Rightarrow> string \<Rightarrow> bool io" where
  "save_args lib args_key args_value =
     io_bind (fs_get_cache_file CONFIG_FILE) (\<lambda>config_path.
     io_bind (file_exists config_path) (\<lambda>is_open.
     io_bind (if is_open then io_ret True else json_file_create config_path) (\<lambda>_.
     io_bind (read_config lib config_path) (\<lambda>config_dict.
     io_bind (io_lift (json_set config_dict args_key args_value)) (\<lambda>config_dict'.
     io_bind (write_file config_path []) (\<lambda>opened.
       if opened then
         io_bind (io_lift (j_dump lib config_dict')) (\<lambda>t.
         io_bind (write_file config_path t) (\<lambda>_. io_ret True))
       else
         io_bind (io_print (print_error (''Unable to open the config file '' @ config_path)))
           (\<lambda>_. io_ret False)))))))"

definition get_args :: "json_lib \<Rightarrow> string \<Rightarrow> string io" where
  "get_args lib args_key =
     io_bind (fs_get_cache_file CONFIG_FILE) (\<lambda>config_path.
     io_bind (file_exists config_path) (\<lambda>is_open.
       if \<not> is_open then io_bind (json_file_create config_path) (\<lambda>_. io_ret [])
       else
         io_bind (file_is_empty config_path) (\<lambda>empty.
           if empty then io_ret []
           else
             io_bind (read_config lib config_path) (\<lambda>config_dict.
               io_lift (json_get config_dict args_key)))))"

section \<open>Choosing a model\<close>

definition models_to_choose :: "string list" where
  "models_to_choose =
     [''Qwen2.5-Coder-7B'', ''Qwen2.5-7B'', ''Llama-3.2-3B'', ''Llama-3.2-1B'', ''Codellama-13B'',
      ''custom'']"

definition model_urls :: "string list" where
  "model_urls =
     map (\<lambda>f. ''https://huggingface.co/MingfeiGuo/LangCommand/resolve/main/'' @ f)
       [''qwen2.5-coder-7b-instruct-q8_0.gguf'', ''qwen2.5-7b-instruct-q8_0.gguf'',
        ''Llama-3.2-3B-Instruct-Q8_0.gguf'', ''Llama-3.2-1B-Instruct-Q8_0.gguf'',
        ''codellama-13b.Q8_0.gguf'']"

definition after_last_slash :: "string \<Rightarrow> string" where
  "after_last_slash url = rev (takeWhile (\<lambda>c. c \<noteq> CHR ''/'') (rev url))"

definition io_menu :: "string list \<Rightarrow> nat io" where
  "io_menu v w =
     map_option (\<lambda>r. Inr (menu_choice r,
         w\<lparr>w_keys := menu_rest r, w_out := w_out w @ menu_out r\<rparr>))
       (choose_from_vector v (w_keys w))"

text \<open>\<^verbatim>\<open>get_input\<close> of \<^verbatim>\<open>console_manager.cpp\<close>: one line read by \<^verbatim>\<open>console::readline\<close>.\<close>

definition get_input :: "string io" where
  "get_input w =
     (let st0 = set_display (w_console w) Display_User_Input (rl_init Display_Reset);
          (more, line, out, ks) = readline_advanced (w_console w) Display_User_Input False (w_keys w)
      in Some (Inr (line, w\<lparr>w_keys := ks, w_out := w_out w @ rl_out st0 @ out\<rparr>)))"

text \<open>The overwrite question is asked until \<open>y\<close> or \<open>n\<close> is typed; \<^verbatim>\<open>char\<close> keeps the low byte.\<close>

fun await_yn :: "keys \<Rightarrow> (bool \<times> keys) option" where
  "await_yn [] = None"
| "await_yn (c # ks) =
     (if c mod 256 = char_code (CHR ''y'') then Some (True, ks)
      else if c mod 256 = char_code (CHR ''n'') then Some (False, ks)
      else await_yn ks)"

definition io_yn :: "bool io" where
  "io_yn w = map_option (\<lambda>(b, ks). Inr (b, w\<lparr>w_keys := ks\<rparr>)) (await_yn (w_keys w))"

definition set_custom_model :: "json_lib \<Rightarrow> string io" where
  "set_custom_model lib =
     io_bind (io_print (print_info ''Please enter the file path (in .gguf format): '')) (\<lambda>_.
     io_bind get_input (\<lambda>line.
       let custom_model_path = trim line in
       io_bind (save_args lib ''model'' custom_model_path) (\<lambda>_.
       io_bind (io_print (print_success (''Model set to '' @ custom_model_path))) (\<lambda>_.
         io_ret custom_model_path))))"

definition fetch_model :: "json_lib \<Rightarrow> string \<Rightarrow> string \<Rightarrow> string io" where
  "fetch_model lib url path =
     io_bind (download_file url path) (\<lambda>ok.
       if \<not> ok then
         io_bind (io_print (print_error ''Could not download the model.'')) (\<lambda>_. io_ret [])
       else io_bind (save_args lib ''model'' path) (\<lambda>_. io_ret path))"

definition set_listed_model :: "json_lib \<Rightarrow> string \<Rightarrow> string io" where
  "set_listed_model lib url =
     io_bind (fs_get_cache_file (after_last_slash url)) (\<lambda>path.
     io_bind (file_exists path) (\<lambda>exists.
       if \<not> exists then
         io_bind (io_print (print_warning (''model does not exist'' @ [newline]))) (\<lambda>_.
           fetch_model lib url path)
       else
         io_bind (io_print (print_info
           ''There is already a file at this path. Do you want to overwrite it? (y/n) '')) (\<lambda>_.
         io_bind io_yn (\<lambda>yes.
         io_bind (io_print [newline]) (\<lambda>_.
           if yes then fetch_model lib url path
           else io_bind (save_args lib ''model'' path) (\<lambda>_. io_ret path))))))"

definition set_model :: "json_lib \<Rightarrow> string io" where
  "set_model lib =
     io_bind (io_menu models_to_choose) (\<lambda>chosen.
     io_bind (io_lift (vec_at models_to_choose chosen)) (\<lambda>chosen_model.
       if chosen_model = ''custom'' then set_custom_model lib
       else io_bind (io_lift (vec_at model_urls chosen)) (\<lambda>url. set_listed_model lib url)))"

section \<open>What is saved is read back\<close>

lemma write_file_True:
  "write_file p c w = Some (Inr (True, w1)) \<longleftrightarrow>
     w_writable w p \<and> w1 = w\<lparr>w_files := (w_files w)(p \<mapsto> c)\<rparr>"
  by (auto simp: write_file_def)

lemma read_config_eq:
  "read_config lib p w = Some (Inr (j, w1)) \<longleftrightarrow>
     w1 = w \<and> (\<exists>t. w_files w p = Some t \<and> j_parse lib t = Some j)"
  by (auto simp: read_config_def split: option.splits)

text \<open>The steps of a successful \<open>save_args\<close>.\<close>

lemma save_argsE:
  assumes "save_args lib k v w = Some (Inr (True, w'))"
  obtains p w1 t0 j j' t where
    "fs_get_cache_file CONFIG_FILE w = Some (Inr (p, w1))"
    "t0 = (case w_files w1 p of Some c \<Rightarrow> c | None \<Rightarrow> ''{}'')"
    "j_parse lib t0 = Some j" "json_set j k v = Inr j'" "j_dump lib j' = Inr t"
    "w' = w1\<lparr>w_files := (w_files w1)(p \<mapsto> t)\<rparr>"
proof -
  from assms obtain p w1 where p: "fs_get_cache_file CONFIG_FILE w = Some (Inr (p, w1))"
    unfolding save_args_def by (rule io_bind_SomeE)
  note rest = assms [unfolded save_args_def io_bind_step [of "fs_get_cache_file CONFIG_FILE", OF p]
      file_exists_def io_bind_get]
  have "\<exists>j j' t. j_parse lib (case w_files w1 p of Some c \<Rightarrow> c | None \<Rightarrow> ''{}'') = Some j
      \<and> json_set j k v = Inr j' \<and> j_dump lib j' = Inr t \<and> w' = w1\<lparr>w_files := (w_files w1)(p \<mapsto> t)\<rparr>"
    using rest
    by (cases "w_files w1 p")
       (auto simp: json_file_create_def write_file_def read_config_def
          split: if_splits option.splits sum.splits)
  then show ?thesis using that [OF p refl] by blast
qed

lemma CONFIG_FILE_ne [simp]: "CONFIG_FILE \<noteq> []"
  by (simp add: CONFIG_FILE_def)

text \<open>C29: A saved argument is read back: after \<^verbatim>\<open>save_args\<close> has succeeded,
  \<^verbatim>\<open>get_args\<close> of the same key returns the saved value, and of any other key what it returned
  before, without changing anything.\<close>

theorem config_roundtrip:
  assumes "json_ok lib" "save_args lib k v w = Some (Inr (True, w'))"
  shows "get_args lib k w' = Some (Inr (v, w'))
    \<and> (\<forall>k' v' w''. k' \<noteq> k \<longrightarrow> get_args lib k' w = Some (Inr (v', w'')) \<longrightarrow>
         get_args lib k' w' = Some (Inr (v', w')))"
proof -
  obtain p w1 t0 j j' t where s: "fs_get_cache_file CONFIG_FILE w = Some (Inr (p, w1))"
    "t0 = (case w_files w1 p of Some c \<Rightarrow> c | None \<Rightarrow> ''{}'')" "j_parse lib t0 = Some j"
    "json_set j k v = Inr j'" "j_dump lib j' = Inr t" "w' = w1\<lparr>w_files := (w_files w1)(p \<mapsto> t)\<rparr>"
    using save_argsE [OF assms(2)] by blast
  note st = cache_file_stable [OF s(1) CONFIG_FILE_ne]
  have w1: "w_env w1 = w_env w" "w_files w1 = w_files w" by (subst st(1); simp)+
  have c: "fs_get_cache_file CONFIG_FILE w' = Some (Inr (p, w'))"
    by (rule st(2)) (simp_all add: s(6) w1)
  from assms(1) s(5) have pt: "j_parse lib t = Some j'" "t \<noteq> []" by (auto simp: json_ok_def)
  have get': "get_args lib q w' = Some (rbind (json_get j' q) (\<lambda>x. Inr (x, w')))" for q
    unfolding get_args_def io_bind_step [of "fs_get_cache_file CONFIG_FILE", OF c]
    using pt by (simp add: file_exists_def file_is_empty_def read_config_def io_lift_def s(6))
  have "get_args lib k' w' = Some (Inr (v', w'))"
    if "k' \<noteq> k" "get_args lib k' w = Some (Inr (v', w''))" for k' v' w''
  proof (cases "w_files w1 p")
    case None
    have "v' = []"
      using that(2) None unfolding get_args_def io_bind_step [of "fs_get_cache_file CONFIG_FILE", OF s(1)]
      by (auto simp: file_exists_def json_file_create_def write_file_def split: if_splits)
    moreover have "j = JObject []" using None s(2,3) assms(1) by (simp add: json_ok_def)
    ultimately show ?thesis
      using get' [of k'] json_get_set(2) [OF s(4) that(1)] by (simp add: json_get_def obj_find_def)
  next
    case (Some c0)
    with s(2,3) assms(1) have "c0 \<noteq> []" "j_parse lib c0 = Some j" by (auto simp: json_ok_def)
    with that(2) Some have "json_get j k' = Inr v'"
      unfolding get_args_def io_bind_step [of "fs_get_cache_file CONFIG_FILE", OF s(1)]
      by (auto simp: file_exists_def file_is_empty_def read_config_def io_lift_def rbind_def split: sum.splits)
    with get' [of k'] json_get_set(2) [OF s(4) that(1)] show ?thesis by simp
  qed
  with get' [of k] json_get_set(1) [OF s(4)] show ?thesis by auto
qed

text \<open>A one-entry JSON printer and parser that satisfies the contract, for concrete runs.\<close>

definition one_entry_lib :: json_lib where
  "one_entry_lib =
     \<lparr>j_parse = (\<lambda>t. case t of
          [] \<Rightarrow> None
        | c # r \<Rightarrow>
            if t = ''{}'' then Some (JObject [])
            else if c = CHR 0x01 then
              Some (JObject [(takeWhile (\<lambda>c. c \<noteq> CHR 0x00) r, JString (tl (dropWhile (\<lambda>c. c \<noteq> CHR 0x00) r)))])
            else None),
      j_dump = (\<lambda>j. case j of
          JObject [(k, JString v)] \<Rightarrow>
            if CHR 0x00 \<in> set k then Inl Json_Type_Error else Inr (CHR 0x01 # k @ CHR 0x00 # v)
        | _ \<Rightarrow> Inl Json_Type_Error),
      j_print = (\<lambda>_. Inl Json_Type_Error)\<rparr>"

lemma one_entry_lib_ok: "json_ok one_entry_lib"
proof -
  have "j_parse one_entry_lib t = Some j" if "j_dump one_entry_lib j = Inr t" for j t
  proof -
    from that obtain k v where j: "j = JObject [(k, JString v)]" "CHR 0x00 \<notin> set k"
      "t = CHR 0x01 # k @ CHR 0x00 # v"
      by (auto simp: one_entry_lib_def split: json.splits list.splits prod.splits if_splits)
    have tw: "takeWhile (\<lambda>c. c \<noteq> CHR 0x00) (k @ CHR 0x00 # v) = k"
      "dropWhile (\<lambda>c. c \<noteq> CHR 0x00) (k @ CHR 0x00 # v) = CHR 0x00 # v"
      using j(2) by (induction k) auto
    show ?thesis unfolding j(1,3) one_entry_lib_def by (simp add: tw)
  qed
  then show ?thesis by (simp add: json_ok_def one_entry_lib_def)
qed

definition sample_world :: "keys \<Rightarrow> world" where
  "sample_world ks =
     \<lparr>w_files = (\<lambda>_. None), w_dirs = {''/c''},
      w_env = (\<lambda>v. if v = ''LLAMA_CACHE'' then Some ''/c/'' else None),
      w_writable = (\<lambda>_. True), w_mkdir_ok = (\<lambda>_. True), w_curl_init = True,
      w_curl = (\<lambda>_. (True, ''gguf'')), w_popen = (\<lambda>_ _. Some ''out''), w_ran = [],
      w_console = \<lparr>advanced_display = False, has_tty = False, wcwidth = (\<lambda>_. 1), cursor_probe = (\<lambda>_. 0)\<rparr>,
      w_term_height = 24, w_keys = ks, w_out = []\<rparr>"

lemma sample_cache_file:
  "w_env w = w_env (sample_world ks) \<Longrightarrow> w_dirs w = w_dirs (sample_world ks) \<Longrightarrow> CHR ''/'' \<notin> set f \<Longrightarrow>
     fs_get_cache_file f w = Some (Inr (''/c/'' @ f, w))"
  by (simp add: fs_get_cache_file_def sample_world_def fs_get_cache_directory_def
      ensure_trailing_slash_def fs_create_directory_with_parents_def stat_is_dir_def strip_slash_def)

lemma sample_save:
  assumes "w_env w = w_env (sample_world ks)" "w_dirs w = w_dirs (sample_world ks)"
    "w_writable w = (\<lambda>_. True)" "w_files w (''/c/'' @ CONFIG_FILE) = None"
  shows "\<exists>w'. save_args one_entry_lib ''model'' v w = Some (Inr (True, w'))"
proof -
  have c: "fs_get_cache_file CONFIG_FILE w = Some (Inr (''/c/'' @ CONFIG_FILE, w))"
    by (rule sample_cache_file [OF assms(1,2)]) (simp add: CONFIG_FILE_def)
  show ?thesis
    unfolding save_args_def io_bind_step [of "fs_get_cache_file CONFIG_FILE", OF c]
    using assms(3,4)
    by (simp add: file_exists_def json_file_create_def write_file_def read_config_def json_set_def one_entry_lib_def)
qed

theorem config_roundtrip_witness:
  "\<exists>w'. save_args one_entry_lib ''model'' ''m.gguf'' (sample_world []) = Some (Inr (True, w'))
      \<and> get_args one_entry_lib ''model'' w' = Some (Inr (''m.gguf'', w'))"
  using config_roundtrip [OF one_entry_lib_ok]
    sample_save [of "sample_world []" "[]" "''m.gguf''"] by (fastforce simp: sample_world_def)

section \<open>The chosen model is the saved one\<close>

lemma save_args_writable:
  assumes "save_args lib k v w = Some (Inr (b, w'))" "\<forall>q. w_writable w q"
  shows "b"
proof -
  from assms(1) obtain p w1 where p: "fs_get_cache_file CONFIG_FILE w = Some (Inr (p, w1))"
    unfolding save_args_def by (rule io_bind_SomeE)
  have "w_writable w1 = w_writable w" by (subst cache_file_stable(1) [OF p CONFIG_FILE_ne]) simp
  with assms show ?thesis
    unfolding save_args_def io_bind_step [of "fs_get_cache_file CONFIG_FILE", OF p]
    by (cases "w_files w1 p")
       (auto simp: file_exists_def json_file_create_def write_file_def read_config_def
          split: if_splits option.splits sum.splits)
qed

lemma get_args_after_save:
  assumes "json_ok lib" "save_args lib k v w = Some (Inr (True, w'))"
  shows "get_args lib k (w'\<lparr>w_out := out\<rparr>) = Some (Inr (v, w'\<lparr>w_out := out\<rparr>))"
proof -
  obtain p w1 t0 j j' t where s: "fs_get_cache_file CONFIG_FILE w = Some (Inr (p, w1))"
    "t0 = (case w_files w1 p of Some c \<Rightarrow> c | None \<Rightarrow> ''{}'')" "j_parse lib t0 = Some j"
    "json_set j k v = Inr j'" "j_dump lib j' = Inr t" "w' = w1\<lparr>w_files := (w_files w1)(p \<mapsto> t)\<rparr>"
    using save_argsE [OF assms(2)] by blast
  note st = cache_file_stable [OF s(1) CONFIG_FILE_ne]
  have w1: "w_env w1 = w_env w" "w_files w1 = w_files w" by (subst st(1); simp)+
  let ?w = "w'\<lparr>w_out := out\<rparr>"
  have c: "fs_get_cache_file CONFIG_FILE ?w = Some (Inr (p, ?w))"
    by (rule st(2)) (simp_all add: s(6) w1)
  from assms(1) s(5) have pt: "j_parse lib t = Some j'" "t \<noteq> []" by (auto simp: json_ok_def)
  show ?thesis
    unfolding get_args_def io_bind_step [of "fs_get_cache_file CONFIG_FILE", OF c]
    using pt json_get_set(1) [OF s(4)]
    by (simp add: file_exists_def file_is_empty_def read_config_def s(6))
qed

lemma io_menu_writable: "io_menu v w = Some (Inr (c, w1)) \<Longrightarrow> w_writable w1 = w_writable w"
  by (auto simp: io_menu_def)

lemma get_input_writable: "get_input w = Some (Inr (l, w1)) \<Longrightarrow> w_writable w1 = w_writable w"
  by (auto simp: get_input_def Let_def split: prod.splits)

lemma io_yn_writable: "io_yn w = Some (Inr (y, w1)) \<Longrightarrow> w_writable w1 = w_writable w"
  by (auto simp: io_yn_def)

lemma cache_file_writable:
  assumes "fs_get_cache_file f w = Some (Inr (p, w1))" "f \<noteq> []"
  shows "w_writable w1 = w_writable w"
  by (subst cache_file_stable(1) [OF assms]) simp

lemma download_writable: "download_file url p w = Some (Inr (ok, w1)) \<Longrightarrow> w_writable w1 = w_writable w"
  by (auto simp: download_file_def write_file_def case_prod_unfold split: if_splits)

lemmas keeps_writable = io_menu_writable get_input_writable io_yn_writable cache_file_writable
  download_writable

lemma save_then_return:
  assumes "json_ok lib" "\<forall>q. w_writable w q"
    and "io_bind (save_args lib k v) (\<lambda>_. io_bind (io_print t) (\<lambda>_. io_ret v)) w = Some (Inr (p, w'))"
  shows "get_args lib k w' = Some (Inr (p, w'))"
proof -
  from assms(3) obtain b w1 where s: "save_args lib k v w = Some (Inr (b, w1))"
    "w' = w1\<lparr>w_out := w_out w1 @ t\<rparr>" "p = v"
    by (auto elim!: io_bind_SomeE)
  from save_args_writable [OF s(1) assms(2)] s(1) have "save_args lib k v w = Some (Inr (True, w1))" by simp
  from get_args_after_save [OF assms(1) this] s show ?thesis by simp
qed

lemma save_then_return_quiet:
  assumes "json_ok lib" "\<forall>q. w_writable w q"
    and "io_bind (save_args lib k v) (\<lambda>_. io_ret v) w = Some (Inr (p, w'))"
  shows "get_args lib k w' = Some (Inr (p, w'))"
proof -
  have "io_bind (io_print []) (\<lambda>_. io_ret v) w1 = io_ret v w1" for w1 by simp
  then have "io_bind (io_print []) (\<lambda>_. io_ret v) = io_ret v" by (simp add: fun_eq_iff)
  with save_then_return [OF assms(1,2), of k v "[]" p w'] assms(3) show ?thesis by simp
qed

lemma fetch_then_return:
  assumes "json_ok lib" "\<forall>q. w_writable w q" "p \<noteq> []"
    and "fetch_model lib url path w = Some (Inr (p, w'))"
  shows "get_args lib ''model'' w' = Some (Inr (p, w'))"
proof -
  from assms(4) obtain ok w1 where d: "download_file url path w = Some (Inr (ok, w1))"
    "(if \<not> ok then io_bind (io_print (print_error ''Could not download the model.'')) (\<lambda>_. io_ret [])
      else io_bind (save_args lib ''model'' path) (\<lambda>_. io_ret path)) w1 = Some (Inr (p, w'))"
    unfolding fetch_model_def by (rule io_bind_SomeE)
  with assms(3) have "io_bind (save_args lib ''model'' path) (\<lambda>_. io_ret path) w1 = Some (Inr (p, w'))"
    by (auto split: if_splits)
  moreover have "\<forall>q. w_writable w1 q" using download_writable [OF d(1)] assms(2) by simp
  ultimately show ?thesis using save_then_return_quiet [OF assms(1)] by blast
qed

lemma custom_then_return:
  assumes "json_ok lib" "\<forall>q. w_writable w q" "set_custom_model lib w = Some (Inr (p, w'))"
  shows "get_args lib ''model'' w' = Some (Inr (p, w'))"
proof -
  from assms(3) obtain line w1 where g: "get_input (w\<lparr>w_out := w_out w
        @ print_info ''Please enter the file path (in .gguf format): ''\<rparr>) = Some (Inr (line, w1))"
    and s: "io_bind (save_args lib ''model'' (trim line)) (\<lambda>_.
         io_bind (io_print (print_success (''Model set to '' @ trim line))) (\<lambda>_. io_ret (trim line))) w1
       = Some (Inr (p, w'))"
    unfolding set_custom_model_def Let_def io_bind_print by (rule io_bind_SomeE)
  have "\<forall>q. w_writable w1 q" using get_input_writable [OF g] assms(2) by simp
  from save_then_return [OF assms(1) this s] show ?thesis .
qed

lemma listed_then_return:
  assumes "json_ok lib" "\<forall>q. w_writable w q" "p \<noteq> []" "after_last_slash url \<noteq> []"
    and "set_listed_model lib url w = Some (Inr (p, w'))"
  shows "get_args lib ''model'' w' = Some (Inr (p, w'))"
proof -
  from assms(5) obtain path w1 where c: "fs_get_cache_file (after_last_slash url) w = Some (Inr (path, w1))"
    unfolding set_listed_model_def by (rule io_bind_SomeE)
  note rest = assms(5) [unfolded set_listed_model_def io_bind_step [of "fs_get_cache_file _", OF c]
      file_exists_def io_bind_get]
  have wr: "\<forall>q. w_writable w1 q" using cache_file_writable [OF c assms(4)] assms(2) by simp
  show ?thesis
  proof (cases "w_files w1 path")
    case None
    with rest have "fetch_model lib url path (w1\<lparr>w_out := w_out w1
        @ print_warning (''model does not exist'' @ [newline])\<rparr>) = Some (Inr (p, w'))" by simp
    from fetch_then_return [OF assms(1) _ assms(3) this] wr show ?thesis by simp
  next
    case (Some f)
    let ?wp = "w1\<lparr>w_out := w_out w1 @ print_info
        ''There is already a file at this path. Do you want to overwrite it? (y/n) ''\<rparr>"
    from Some rest obtain yes w2 where y: "io_yn ?wp = Some (Inr (yes, w2))"
      "(if yes then fetch_model lib url path
        else io_bind (save_args lib ''model'' path) (\<lambda>_. io_ret path)) (w2\<lparr>w_out := w_out w2 @ [newline]\<rparr>)
       = Some (Inr (p, w'))"
      by (auto elim!: io_bind_SomeE)
    have wr2: "\<forall>q. w_writable (w2\<lparr>w_out := w_out w2 @ [newline]\<rparr>) q"
      using io_yn_writable [OF y(1)] wr by simp
    show ?thesis
      using y(2) fetch_then_return [OF assms(1) wr2 assms(3)] save_then_return_quiet [OF assms(1) wr2]
      by (auto split: if_splits)
  qed
qed

lemma model_file_name_ne: "url \<in> set model_urls \<Longrightarrow> after_last_slash url \<noteq> []"
  by (auto simp: model_urls_def after_last_slash_def)

text \<open>When choosing a model returns a path (and not the empty string that reports a failed
  download) the configuration holds exactly that path under \<^verbatim>\<open>model\<close>, so the next run finds it;
  this needs files that can be written.\<close>

theorem set_model_saved:
  assumes "json_ok lib" "\<forall>q. w_writable w q"
    and "set_model lib w = Some (Inr (p, w'))" "p \<noteq> []"
  shows "get_args lib ''model'' w' = Some (Inr (p, w'))"
proof -
  from assms(3) obtain chosen w1 where m: "io_menu models_to_choose w = Some (Inr (chosen, w1))"
    unfolding set_model_def by (rule io_bind_SomeE)
  note rest = assms(3) [unfolded set_model_def io_bind_step [of "io_menu _", OF m]]
  have wr: "\<forall>q. w_writable w1 q" using io_menu_writable [OF m] assms(2) by simp
  from rest consider "set_custom_model lib w1 = Some (Inr (p, w'))"
    | "chosen < length model_urls" "set_listed_model lib (model_urls ! chosen) w1 = Some (Inr (p, w'))"
    by (auto simp: vec_at_def split: if_splits)
  then show ?thesis
  proof cases
    case 1
    with custom_then_return [OF assms(1) wr] show ?thesis by blast
  next
    case 2
    show ?thesis by (rule listed_then_return [OF assms(1) wr assms(4) model_file_name_ne [OF nth_mem [OF 2(1)]] 2(2)])
  qed
qed

theorem set_model_saved_witness:
  "\<exists>w'. set_model one_entry_lib (sample_world [10]) = Some (Inr (''/c/qwen2.5-coder-7b-instruct-q8_0.gguf'', w'))
      \<and> get_args one_entry_lib ''model'' w' = Some (Inr (''/c/qwen2.5-coder-7b-instruct-q8_0.gguf'', w'))"
proof -
  let ?f = "''qwen2.5-coder-7b-instruct-q8_0.gguf''"
  have n: "after_last_slash (model_urls ! 0) = ?f" by code_simp
  define w1 where "w1 = (sample_world [10])\<lparr>w_keys := [], w_out := print_vector models_to_choose 0 True\<rparr>"
  define w2 where "w2 = w1\<lparr>w_out := w_out w1 @ print_warning (''model does not exist'' @ [newline])\<rparr>"
  have m: "io_menu models_to_choose (sample_world [10]) = Some (Inr (0, w1))"
    by (simp add: io_menu_def choose_from_vector_def sample_world_def w1_def)
  have c1: "fs_get_cache_file ?f w1 = Some (Inr (''/c/'' @ ?f, w1))"
    by (rule sample_cache_file [of _ "[10]"]) (simp_all add: w1_def)
  define w3 where "w3 = w2\<lparr>w_files := (w_files w2)(''/c/'' @ ?f \<mapsto> ''gguf''),
      w_out := w_out w2 @ newline # ''Download successful: '' @ (''/c/'' @ ?f) @ [newline]\<rparr>"
  have w2: "w_writable w2 p" "w_curl_init w2" "w_curl w2 u = (True, ''gguf'')" for p u
    by (simp_all add: w2_def w1_def sample_world_def)
  have d: "download_file u (''/c/'' @ ?f) w2 = Some (Inr (True, w3))" for u
    by (simp add: download_file_def write_file_def w2 w3_def del: append.simps)
  have e: "w_env w3 = w_env (sample_world [])" "w_dirs w3 = w_dirs (sample_world [])"
    "w_writable w3 = (\<lambda>_. True)" by (simp_all add: w3_def w2_def w1_def sample_world_def)
  have "w_files w3 (''/c/'' @ CONFIG_FILE) = w_files w2 (''/c/'' @ CONFIG_FILE)"
    unfolding w3_def CONFIG_FILE_def by simp
  also have "\<dots> = None" by (simp add: w2_def w1_def sample_world_def)
  finally have e4: "w_files w3 (''/c/'' @ CONFIG_FILE) = None" .
  obtain w4 where s: "save_args one_entry_lib ''model'' (''/c/'' @ ?f) w3 = Some (Inr (True, w4))"
    using sample_save [OF e e4] by blast
  have "fetch_model one_entry_lib (model_urls ! 0) (''/c/'' @ ?f) w2 = Some (Inr (''/c/'' @ ?f, w4))"
    unfolding fetch_model_def io_bind_step [of "download_file _ _", OF d]
    by (simp only: not_True_eq_False if_False io_bind_step [of "save_args _ _ _", OF s] io_ret_app)
  moreover have "w_files w1 (''/c/'' @ ?f) = None" by (simp add: w1_def sample_world_def)
  ultimately have "set_listed_model one_entry_lib (model_urls ! 0) w1 = Some (Inr (''/c/'' @ ?f, w4))"
    unfolding set_listed_model_def n io_bind_step [of "fs_get_cache_file _", OF c1]
    by (simp only: file_exists_def io_bind_get simp_thms if_True io_bind_print w2_def [symmetric])
  moreover have "vec_at models_to_choose 0 = Inr (models_to_choose ! 0)"
    "vec_at model_urls 0 = Inr (model_urls ! 0)" "models_to_choose ! 0 \<noteq> ''custom''"
    by (simp_all add: vec_at_def models_to_choose_def model_urls_def)
  ultimately have "set_model one_entry_lib (sample_world [10]) = Some (Inr (''/c/'' @ ?f, w4))"
    unfolding set_model_def io_bind_step [of "io_menu _", OF m] by simp
  with set_model_saved [OF one_entry_lib_ok _ this] show ?thesis by (auto simp: sample_world_def)
qed

end
