(* ===== verification/ShellExec.thy ===== *)
theory ShellExec
  imports ModelManager MultiEdit
begin

text \<open>
  \<^verbatim>\<open>lang-cli-src/shell_executor.cpp\<close>: running a suggested command, after an optional edit, and the
  end of \<^verbatim>\<open>main\<close> in \<^verbatim>\<open>lac.cpp\<close> that offers the suggestions once or in a loop.
\<close>

definition PRINT_LENGTH :: int where
  "PRINT_LENGTH = 80"

text \<open>\<^verbatim>\<open>fgets\<close> into a buffer with room for \<open>n\<close> characters and the final NUL.\<close>

fun fgets :: "nat \<Rightarrow> string \<Rightarrow> string \<times> string" where
  "fgets 0 s = ([], s)"
| "fgets (Suc n) [] = ([], [])"
| "fgets (Suc n) (c # s) =
     (if c = newline then ([c], s) else (c # fst (fgets n s), snd (fgets n s)))"

lemma fgets_append: "fst (fgets n s) @ snd (fgets n s) = s"
  by (induction n s rule: fgets.induct) auto

lemma fgets_length [simp]: "s \<noteq> [] \<Longrightarrow> length (snd (fgets (Suc n) s)) < length s"
proof (cases s)
  case (Cons c t)
  have "length (snd (fgets n t)) \<le> length t"
    using arg_cong [OF fgets_append [of n t], of length] by simp
  with Cons show ?thesis by auto
qed simp

text \<open>A chunk is appended as a C string: what follows a NUL byte in it is lost.\<close>

function read_chunks :: "string \<Rightarrow> string" where
  "read_chunks s =
     (if s = [] then [] else c_str (fst (fgets 127 s)) @ read_chunks (snd (fgets 127 s)))"
  by pat_completeness auto
termination
proof (relation "measure length", goal_cases)
  case (2 s)
  then show ?case using fgets_length [of s 126] by (simp add: eval_nat_numeral)
qed simp

declare read_chunks.simps [simp del]

definition exec_command :: "string \<Rightarrow> string io" where
  "exec_command cmd =
     io_bind (io_print (print_centered_message ''Executing command'' PRINT_LENGTH)) (\<lambda>_.
     io_bind (io_get (\<lambda>w. w_popen w (w_ran w) (c_str cmd))) (\<lambda>pipe.
       case pipe of
         None \<Rightarrow> io_fail (Runtime_Error ''popen() failed!'')
       | Some output \<Rightarrow>
           io_bind (io_modify (\<lambda>w. w\<lparr>w_ran := w_ran w @ [c_str cmd]\<rparr>)) (\<lambda>_.
           io_bind (io_print (read_chunks output)) (\<lambda>_. io_ret (read_chunks output)))))"

definition io_edit_multiline :: "string \<Rightarrow> string io" where
  "io_edit_multiline s w =
     map_option (\<lambda>r. rbind r (\<lambda>(txt, out, ks). Inr (txt, w\<lparr>w_keys := ks, w_out := w_out w @ out\<rparr>)))
       (edit_prefilled_input_multiline (w_term_height w) s (w_keys w))"

definition edit_exec :: "string \<Rightarrow> bool \<Rightarrow> unit io" where
  "edit_exec output_line edit =
     (if edit then
        io_bind (io_edit_multiline output_line) (\<lambda>edited_cmd.
        io_bind (exec_command edited_cmd) (\<lambda>_. io_ret ()))
      else io_bind (exec_command output_line) (\<lambda>_. io_ret ()))"

definition io_menu_eq :: "string list \<Rightarrow> menu_result io" where
  "io_menu_eq v w =
     map_option (\<lambda>r. Inr (r, w\<lparr>w_keys := menu_rest r, w_out := w_out w @ menu_out r\<rparr>))
       (choose_from_vector_with_eq v (w_keys w))"

definition choose_banner :: string where
  "choose_banner =
     print_centered_message
       ([CHR 0xE2, CHR 0x86, CHR 0xB5] @ '': execute | e: edit | q: quit'') (PRINT_LENGTH + 2)"

definition choose_edit_exec :: "string list \<Rightarrow> unit io" where
  "choose_edit_exec output_lines =
     io_bind (io_print choose_banner) (\<lambda>_.
     io_bind (io_menu_eq output_lines) (\<lambda>chosen.
       if menu_key chosen = 10 then
         io_bind (io_lift (vec_at output_lines (menu_choice chosen))) (\<lambda>line. edit_exec line False)
       else if menu_key chosen = char_code (CHR ''e'') then
         io_bind (io_lift (vec_at output_lines (menu_choice chosen))) (\<lambda>line. edit_exec line True)
       else io_ret ()))"

text \<open>The two modes at the end of \<^verbatim>\<open>main\<close>; nothing removes a line from \<open>output_lines\<close>.\<close>

partial_function (option) loop_mode :: "string list \<Rightarrow> world \<Rightarrow> (unit \<times> world) result option" where
  "loop_mode output_lines w =
     (if output_lines = [] then Some (Inr ((), w))
      else
        case choose_edit_exec output_lines w of
          None \<Rightarrow> None
        | Some r \<Rightarrow>
            (case r of
               Inl e \<Rightarrow> Some (Inl e)
             | Inr x \<Rightarrow> loop_mode output_lines (snd x)))"

definition offer_suggestions :: "string \<Rightarrow> string list \<Rightarrow> unit io" where
  "offer_suggestions llmc_mode output_lines =
     (if output_lines \<noteq> [] then
        (if llmc_mode = ''loop'' then loop_mode output_lines
         else if llmc_mode = ''exit'' then choose_edit_exec output_lines
         else io_ret ())
      else io_ret ())"

section \<open>Facts\<close>

lemma c_str_id: "CHR 0x00 \<notin> set s \<Longrightarrow> c_str s = s"
  by (induction s) (auto simp: c_str_def)

lemma length_c_str: "length (c_str s) \<le> length s"
  by (simp add: c_str_def length_takeWhile_le)

lemma read_chunks_id: "CHR 0x00 \<notin> set s \<Longrightarrow> read_chunks s = s"
proof (induction s rule: read_chunks.induct)
  case (1 s)
  have "set s = set (fst (fgets 127 s)) \<union> set (snd (fgets 127 s))"
    using arg_cong [OF fgets_append [of 127 s], of set] by simp
  with "1.prems" have "CHR 0x00 \<notin> set (fst (fgets 127 s))" "CHR 0x00 \<notin> set (snd (fgets 127 s))" by auto
  with 1 show ?case using fgets_append [of 127 s]
    by (cases "s = []") (simp_all add: read_chunks.simps [of s] read_chunks.simps [of "[]"] c_str_id)
qed

lemma length_read_chunks: "length (read_chunks s) \<le> length s"
proof (induction s rule: read_chunks.induct)
  case (1 s)
  have "length s = length (fst (fgets 127 s)) + length (snd (fgets 127 s))"
    using arg_cong [OF fgets_append [of 127 s], of length] by simp
  with 1 length_c_str [of "fst (fgets 127 s)"] show ?case
    by (cases "s = []") (simp_all add: read_chunks.simps [of s] read_chunks.simps [of "[]"])
qed

lemma exec_command_eq:
  "exec_command cmd w = Some (Inr (r, w')) \<longleftrightarrow>
     (\<exists>out. w_popen w (w_ran w) (c_str cmd) = Some out \<and> r = read_chunks out
        \<and> w' = w\<lparr>w_ran := w_ran w @ [c_str cmd],
               w_out := w_out w @ print_centered_message ''Executing command'' PRINT_LENGTH @ r\<rparr>)"
  by (auto simp: exec_command_def split: option.splits)

text \<open>A command that runs returns and prints, after the banner, what the pipe delivered: all of
  it when it has no NUL byte, and never more than it.\<close>

theorem exec_command_output:
  assumes "exec_command cmd w = Some (Inr (r, w'))"
  shows "\<exists>out. w_popen w (w_ran w) (c_str cmd) = Some out
    \<and> (CHR 0x00 \<notin> set out \<longrightarrow> r = out) \<and> length r \<le> length out
    \<and> w_out w' = w_out w @ print_centered_message ''Executing command'' PRINT_LENGTH @ r
    \<and> w_ran w' = w_ran w @ [c_str cmd]"
  using assms by (auto simp: exec_command_eq read_chunks_id length_read_chunks)

theorem exec_command_output_witness:
  "\<exists>r w'. exec_command ''ls'' (sample_world []) = Some (Inr (r, w')) \<and> w_ran w' = [''ls'']"
proof -
  have "\<exists>r w'. exec_command ''ls'' (sample_world []) = Some (Inr (r, w'))"
    by (simp add: exec_command_eq sample_world_def)
  then obtain r w' where e: "exec_command ''ls'' (sample_world []) = Some (Inr (r, w'))" by blast
  from exec_command_output [OF e] have "w_ran w' = [''ls'']"
    by (auto simp: sample_world_def c_str_def)
  with e show ?thesis by blast
qed

lemma edit_exec_run: "edit_exec line False w = Some (Inr ((), w')) \<Longrightarrow> w_ran w' = w_ran w @ [c_str line]"
  by (auto simp: edit_exec_def exec_command_eq elim!: io_bind_SomeE)

lemma edit_exec_edit:
  assumes "edit_exec line True w = Some (Inr ((), w'))"
  shows "\<exists>txt out ks. edit_prefilled_input_multiline (w_term_height w) line (w_keys w) = Some (Inr (txt, out, ks))
    \<and> w_ran w' = w_ran w @ [c_str txt]"
  using assms
  by (auto simp: edit_exec_def exec_command_eq io_edit_multiline_def rbind_eq_Inr_iff elim!: io_bind_SomeE)

text \<open>C12: Only what the user confirmed is run: with Enter exactly the highlighted suggestion, with
  \<open>e\<close> exactly the text the editor returned, with \<open>q\<close> nothing, and in every case at most one command.\<close>

theorem only_confirmed_runs:
  assumes "lines \<noteq> []" "choose_edit_exec lines w = Some (Inr ((), w'))"
  shows "\<exists>r. choose_from_vector_with_eq lines (w_keys w) = Some r \<and> menu_choice r < length lines
    \<and> (menu_key r = 10 \<longrightarrow> w_ran w' = w_ran w @ [c_str (lines ! menu_choice r)])
    \<and> (menu_key r = char_code (CHR ''e'') \<longrightarrow>
         (\<exists>txt out ks. edit_prefilled_input_multiline (w_term_height w) (lines ! menu_choice r) (menu_rest r)
             = Some (Inr (txt, out, ks)) \<and> w_ran w' = w_ran w @ [c_str txt]))
    \<and> (menu_key r = char_code (CHR ''q'') \<longrightarrow> w_ran w' = w_ran w)"
proof -
  let ?w0 = "w\<lparr>w_out := w_out w @ choose_banner\<rparr>"
  from assms(2) obtain r where r: "choose_from_vector_with_eq lines (w_keys w) = Some r"
    by (auto simp: choose_edit_exec_def io_menu_eq_def elim!: io_bind_SomeE)
  let ?w1 = "?w0\<lparr>w_keys := menu_rest r, w_out := w_out ?w0 @ menu_out r\<rparr>"
  have m: "io_menu_eq lines ?w0 = Some (Inr (r, ?w1))" by (simp add: io_menu_eq_def r)
  have less: "menu_choice r < length lines"
    using choose_loop_eq_less [of lines 0 _ "w_keys w" r] assms(1) r by (auto simp: choose_from_vector_with_eq_def)
  note rest = assms(2) [unfolded choose_edit_exec_def io_bind_print io_bind_step [of "io_menu_eq lines", OF m]]
  have at: "vec_at lines (menu_choice r) = Inr (lines ! menu_choice r)" using less by (simp add: vec_at_def)
  have "menu_key r = 10 \<longrightarrow> edit_exec (lines ! menu_choice r) False ?w1 = Some (Inr ((), w'))"
    using rest at by (intro impI) simp
  moreover have "menu_key r = char_code (CHR ''e'') \<longrightarrow> edit_exec (lines ! menu_choice r) True ?w1 = Some (Inr ((), w'))"
    using rest at by (intro impI) (simp add: char_code_def)
  moreover have "menu_key r = char_code (CHR ''q'') \<longrightarrow> w' = ?w1" using rest by (intro impI) (simp add: char_code_def)
  ultimately show ?thesis
    using r less edit_exec_run [of "lines ! menu_choice r" ?w1 w'] edit_exec_edit [of "lines ! menu_choice r" ?w1 w']
    by auto
qed

theorem only_confirmed_runs_witness:
  "\<exists>w'. choose_edit_exec [''ls'', ''pwd''] (sample_world [27, 91, 66, 10]) = Some (Inr ((), w'))
      \<and> w_ran w' = [''pwd'']"
proof -
  let ?w = "sample_world [27, 91, 66, 10]"
  have c: "\<exists>r. choose_from_vector_with_eq [''ls'', ''pwd''] [27, 91, 66, 10] = Some r \<and> menu_choice r = 1 \<and> menu_key r = 10"
    by (simp add: choose_from_vector_with_eq_def Let_def menu_arrow_def size_sub_def char_code_def)
  then obtain r where r: "choose_from_vector_with_eq [''ls'', ''pwd''] (w_keys ?w) = Some r" "menu_choice r = 1" "menu_key r = 10"
    by (auto simp: sample_world_def)
  have "\<exists>w'. choose_edit_exec [''ls'', ''pwd''] ?w = Some (Inr ((), w'))"
    using r by (simp add: choose_edit_exec_def io_menu_eq_def io_bind_def io_print_def io_modify_def io_lift_def
        edit_exec_def vec_at_def exec_command_def io_get_def io_ret_def sample_world_def)
  then obtain w' where w': "choose_edit_exec [''ls'', ''pwd''] ?w = Some (Inr ((), w'))" by blast
  from only_confirmed_runs [OF _ w'] r have "w_ran w' = w_ran ?w @ [c_str ''pwd'']" by auto
  with w' show ?thesis by (auto simp: sample_world_def c_str_def)
qed

lemma loop_mode_no_return:
  assumes "loop_mode lines w = Some y"
  shows "lines \<noteq> [] \<longrightarrow> (\<exists>e. y = Inl e)"
  using _ assms
proof (rule loop_mode.raw_induct [where P = "\<lambda>lines w y. lines \<noteq> [] \<longrightarrow> (\<exists>e. y = Inl e)"])
  fix loop lines w y
  assume "\<And>l v z. loop l v = Some z \<Longrightarrow> l \<noteq> [] \<longrightarrow> (\<exists>e. z = Inl e)"
    and "(if lines = [] then Some (Inr ((), w))
      else case choose_edit_exec lines w of None \<Rightarrow> None
        | Some r \<Rightarrow> (case r of Inl e \<Rightarrow> Some (Inl e) | Inr x \<Rightarrow> loop lines (snd x))) = Some y"
  then show "lines \<noteq> [] \<longrightarrow> (\<exists>e. y = Inl e)"
    by (auto split: if_splits option.splits sum.splits)
qed

text \<open>C33: In loop mode the program never comes back from offering its suggestions: whatever the
  user types, \<open>q\<close> included, the loop either goes on for ever or ends in an exception.\<close>

theorem loop_mode_never_ends:
  assumes "lines \<noteq> []"
  shows "offer_suggestions ''loop'' lines w \<noteq> Some (Inr ((), w'))"
  using assms loop_mode_no_return [of lines w] by (auto simp: offer_suggestions_def)

theorem loop_mode_never_ends_witness:
  "offer_suggestions ''loop'' [''ls''] (sample_world [113]) \<noteq> Some (Inr ((), sample_world []))"
  by (rule loop_mode_never_ends) simp

end
