(* ===== verification/KvCache.thy ===== *)
theory KvCache
  imports Cpp_Prelude "HOL-Library.Word"
begin

text \<open>
  The key/value cache of \<^verbatim>\<open>src/llama.cpp\<close>: the table of cells, the search for a slot for a batch and
  the operations on sequences.  Positions are \<^verbatim>\<open>int32_t\<close>: an addition that leaves their range
  is undefined behaviour in C++ and the error value here.  \<^verbatim>\<open>head\<close> and the search counters are
  \<^verbatim>\<open>uint32_t\<close> (\<open>nat\<close> with the wrap-around written out), \<^verbatim>\<open>used\<close> is a word.  The vector
  \<^verbatim>\<open>cells\<close> has \<^verbatim>\<open>size\<close> entries from its allocation on.  The tensors that hold the data are
  not modelled.
\<close>

section \<open>State\<close>

record llama_kv_cell =
  kc_pos :: int
  kc_delta :: int
  kc_src :: int
  kc_tail :: int
  kc_seq_id :: "int set"

definition empty_kv_cell :: llama_kv_cell where
  "empty_kv_cell = \<lparr>kc_pos = - 1, kc_delta = 0, kc_src = - 1, kc_tail = - 1, kc_seq_id = {}\<rparr>"

abbreviation has_seq_id :: "llama_kv_cell \<Rightarrow> int \<Rightarrow> bool" where
  "has_seq_id c s \<equiv> s \<in> kc_seq_id c"

abbreviation is_empty_cell :: "llama_kv_cell \<Rightarrow> bool" where
  "is_empty_cell c \<equiv> kc_seq_id c = {}"

record llama_kv_cache =
  kv_has_shift :: bool
  kv_do_defrag :: bool
  kv_recurrent :: bool
  kv_head :: nat
  kv_size :: nat
  kv_used :: "32 word"
  kv_n :: int
  kv_cells :: "llama_kv_cell list"

text \<open>A freshly allocated cache.\<close>

definition kv_cache_init :: "bool \<Rightarrow> nat \<Rightarrow> llama_kv_cache" where
  "kv_cache_init recurrent n =
     \<lparr>kv_has_shift = False, kv_do_defrag = False, kv_recurrent = recurrent, kv_head = 0, kv_size = n,
      kv_used = 0, kv_n = 0, kv_cells = replicate n empty_kv_cell\<rparr>"

record llama_ubatch =
  ub_equal_seqs :: bool
  ub_n_tokens :: nat
  ub_n_seq_tokens :: nat
  ub_pos :: "int list"
  ub_seq_id :: "int list list"      \<comment> \<open>one list of ids per sequence: \<^verbatim>\<open>n_seqs\<close>, \<^verbatim>\<open>n_seq_id\<close>, \<^verbatim>\<open>seq_id\<close>\<close>

abbreviation ub_n_seqs :: "llama_ubatch \<Rightarrow> nat" where
  "ub_n_seqs b \<equiv> length (ub_seq_id b)"

definition INT32_MAX :: int where "INT32_MAX = 2147483647"

definition in_int32 :: "int \<Rightarrow> bool" where
  "in_int32 x \<longleftrightarrow> - 2147483648 \<le> x \<and> x \<le> INT32_MAX"

definition u32_add :: "nat \<Rightarrow> nat \<Rightarrow> nat" where
  "u32_add a b = (a + b) mod 2 ^ 32"

definition u32_sub :: "nat \<Rightarrow> nat \<Rightarrow> nat" where
  "u32_sub a b = (a + 2 ^ 32 - b) mod 2 ^ 32"

lemma u32_add_small [simp]: "a + b < 4294967296 \<Longrightarrow> u32_add a b = a + b"
  by (simp add: u32_add_def)

lemma u32_sub_small [simp]: "b \<le> a \<Longrightarrow> a < 4294967296 \<Longrightarrow> u32_sub a b = a - b"
  by (simp add: u32_sub_def mod_if)

section \<open>Loops over the cells\<close>

text \<open>
  A loop of the source visits the cells in order; a step gives the new cell, whether \<^verbatim>\<open>used\<close> is
  decremented and whether the cell is now free.  \<open>new_head\<close> is the first free one, or \<^verbatim>\<open>size\<close>.
\<close>

fun cells_loop ::
  "(nat \<Rightarrow> llama_kv_cell \<Rightarrow> llama_kv_cell \<times> bool \<times> bool) \<Rightarrow> nat \<Rightarrow> nat \<Rightarrow> llama_kv_cell list \<Rightarrow>
   32 word \<Rightarrow> nat \<Rightarrow> llama_kv_cell list \<times> 32 word \<times> nat" where
  "cells_loop f sz i [] used new_head = ([], used, new_head)"
| "cells_loop f sz i (c # cs) used new_head =
     (let (c', dec, freed) = f i c;
          (cs', used', new_head') =
             cells_loop f sz (i + 1) cs (if dec then used - 1 else used)
               (if freed \<and> new_head = sz then i else new_head)
      in (c' # cs', used', new_head'))"

definition seq_range :: "int \<Rightarrow> int \<Rightarrow> int \<times> int" where
  "seq_range p0 p1 = (if p0 < 0 then 0 else p0, if p1 < 0 then INT32_MAX else p1)"

definition in_range :: "int \<times> int \<Rightarrow> int \<Rightarrow> bool" where
  "in_range r p \<longleftrightarrow> fst r \<le> p \<and> p < snd r"

definition cell_at :: "llama_kv_cache \<Rightarrow> int \<Rightarrow> llama_kv_cell result" where
  "cell_at c i = (if 0 \<le> i then vec_at (kv_cells c) (nat i) else Inl Undefined_Behaviour)"

definition upd_cell :: "int \<Rightarrow> (llama_kv_cell \<Rightarrow> llama_kv_cell) \<Rightarrow> llama_kv_cache \<Rightarrow> llama_kv_cache" where
  "upd_cell i f c = c\<lparr>kv_cells := (kv_cells c)[nat i := f (kv_cells c ! nat i)]\<rparr>"

section \<open>Operations\<close>

definition llama_kv_cache_cell_max :: "llama_kv_cache \<Rightarrow> nat" where
  "llama_kv_cache_cell_max c =
     (case find_last_not (\<lambda>cell. \<not> (kc_pos cell \<ge> 0 \<and> \<not> is_empty_cell cell)) (kv_cells c) of
        None \<Rightarrow> 0 | Some i \<Rightarrow> i + 1)"

definition llama_kv_cache_clear :: "llama_kv_cache \<Rightarrow> llama_kv_cache" where
  "llama_kv_cache_clear c =
     c\<lparr>kv_cells := map (\<lambda>cell. cell\<lparr>kc_pos := - 1, kc_seq_id := {}, kc_src := - 1, kc_tail := - 1\<rparr>) (kv_cells c),
       kv_head := 0, kv_used := 0\<rparr>"

text \<open>\<^verbatim>\<open>seq_rm\<close>: the check of a recurrent model, which may refuse, and the loop.\<close>

definition seq_rm_recurrent ::
  "llama_kv_cache \<Rightarrow> int \<Rightarrow> int \<times> int \<Rightarrow> (bool \<times> llama_kv_cache) result" where
  "seq_rm_recurrent c seq_id r =
     (if seq_id \<ge> int (kv_size c) then Inr (False, c)
      else if 0 \<le> seq_id then
        rbind (cell_at c seq_id) (\<lambda>meta.
          if kc_tail meta \<ge> 0 then
            rbind (cell_at c (kc_tail meta)) (\<lambda>cell.
              if (0 < fst r \<and> fst r \<le> kc_pos cell) \<or> (0 < snd r \<and> snd r \<le> kc_pos cell) then Inr (False, c)
              else if in_range r (kc_pos cell) then
                Inr (True, upd_cell seq_id (\<lambda>m. m\<lparr>kc_tail := - 1\<rparr>) c)
              else Inr (True, c))
          else Inr (True, c))
      else if fst r \<noteq> snd r \<and> (fst r \<noteq> 0 \<or> snd r \<noteq> INT32_MAX) then Inr (False, c)
      else Inr (True, c))"

definition seq_rm_cell ::
  "int \<Rightarrow> int \<times> int \<Rightarrow> nat \<Rightarrow> llama_kv_cell \<Rightarrow> llama_kv_cell \<times> bool \<times> bool" where
  "seq_rm_cell seq_id r i cell =
     (if in_range r (kc_pos cell) \<and> (seq_id < 0 \<or> has_seq_id cell seq_id) then
        let ids = (if seq_id < 0 then {} else kc_seq_id cell - {seq_id}) in
        if ids = {} then
          (cell\<lparr>kc_seq_id := {}, kc_pos := - 1, kc_src := - 1\<rparr>, kc_pos cell \<ge> 0, True)
        else (cell\<lparr>kc_seq_id := ids\<rparr>, False, False)
      else (cell, False, False))"

definition llama_kv_cache_seq_rm ::
  "llama_kv_cache \<Rightarrow> int \<Rightarrow> int \<Rightarrow> int \<Rightarrow> (bool \<times> llama_kv_cache) result" where
  "llama_kv_cache_seq_rm c seq_id p0 p1 =
     (let r = seq_range p0 p1 in
      rbind (if kv_recurrent c then seq_rm_recurrent c seq_id r else Inr (True, c)) (\<lambda>(ok, c1).
        if \<not> ok then Inr (False, c1)
        else
          let (cs, used, new_head) =
                cells_loop (seq_rm_cell seq_id r) (kv_size c1) 0 (kv_cells c1) (kv_used c1) (kv_size c1)
          in Inr (True, c1\<lparr>kv_cells := cs, kv_used := used,
               kv_head := (if new_head \<noteq> kv_size c1 \<and> new_head < kv_head c1 then new_head else kv_head c1)\<rparr>)))"

definition seq_cp_recurrent :: "llama_kv_cache \<Rightarrow> int \<Rightarrow> int \<Rightarrow> llama_kv_cache result" where
  "seq_cp_recurrent c src dst =
     (if 0 \<le> dst \<and> dst < int (kv_size c) \<and> 0 \<le> src \<and> src < int (kv_size c) then
        rbind (cell_at c dst) (\<lambda>tail_dst.
        rbind (if kc_tail tail_dst \<ge> 0 then
                 rbind (cell_at c (kc_tail tail_dst)) (\<lambda>cell_dst.
                   let ids = kc_seq_id cell_dst - {dst};
                       c1 = upd_cell dst (\<lambda>m. m\<lparr>kc_tail := - 1\<rparr>)
                              (upd_cell (kc_tail tail_dst) (\<lambda>m. m\<lparr>kc_seq_id := ids\<rparr>) c)
                   in Inr (if ids = {} then
                             (upd_cell (kc_tail tail_dst)
                               (\<lambda>m. m\<lparr>kc_pos := - 1, kc_delta := - 1, kc_src := - 1\<rparr>) c1)
                             \<lparr>kv_used := kv_used c - 1\<rparr>
                           else c1))
               else Inr c) (\<lambda>c2.
        rbind (cell_at c2 src) (\<lambda>tail_src.
          if kc_tail tail_src \<ge> 0 then
            rbind (cell_at c2 (kc_tail tail_src)) (\<lambda>_.
              Inr (upd_cell dst (\<lambda>m. m\<lparr>kc_tail := kc_tail tail_src\<rparr>)
                    (upd_cell (kc_tail tail_src) (\<lambda>m. m\<lparr>kc_seq_id := insert dst (kc_seq_id m)\<rparr>) c2)))
          else Inr c2)))
      else Inr c)"

definition seq_cp_cell :: "int \<Rightarrow> int \<Rightarrow> int \<times> int \<Rightarrow> llama_kv_cell \<Rightarrow> llama_kv_cell" where
  "seq_cp_cell src dst r cell =
     (if has_seq_id cell src \<and> in_range r (kc_pos cell)
      then cell\<lparr>kc_seq_id := insert dst (kc_seq_id cell)\<rparr> else cell)"

definition llama_kv_cache_seq_cp ::
  "llama_kv_cache \<Rightarrow> int \<Rightarrow> int \<Rightarrow> int \<Rightarrow> int \<Rightarrow> llama_kv_cache result" where
  "llama_kv_cache_seq_cp c src dst p0 p1 =
     (let r = seq_range p0 p1 in
      if kv_recurrent c then seq_cp_recurrent c src dst
      else Inr (c\<lparr>kv_head := 0, kv_cells := map (seq_cp_cell src dst r) (kv_cells c)\<rparr>))"

definition seq_keep_cell ::
  "bool \<Rightarrow> int \<Rightarrow> nat \<Rightarrow> llama_kv_cell \<Rightarrow> llama_kv_cell \<times> bool \<times> bool" where
  "seq_keep_cell recurrent seq_id i cell =
     (let cell1 = (if recurrent \<and> int i \<noteq> seq_id then cell\<lparr>kc_tail := - 1\<rparr> else cell) in
      if \<not> has_seq_id cell1 seq_id then
        (cell1\<lparr>kc_pos := - 1, kc_src := - 1, kc_seq_id := {}\<rparr>, kc_pos cell1 \<ge> 0, True)
      else (cell1\<lparr>kc_seq_id := {seq_id}\<rparr>, False, False))"

definition llama_kv_cache_seq_keep :: "llama_kv_cache \<Rightarrow> int \<Rightarrow> llama_kv_cache" where
  "llama_kv_cache_seq_keep c seq_id =
     (let (cs, used, new_head) =
            cells_loop (seq_keep_cell (kv_recurrent c) seq_id) (kv_size c) 0 (kv_cells c) (kv_used c) (kv_size c)
      in c\<lparr>kv_cells := cs, kv_used := used,
           kv_head := (if new_head \<noteq> kv_size c \<and> new_head < kv_head c then new_head else kv_head c)\<rparr>)"

text \<open>Shifting and dividing positions; in a recurrent model only the tail cell changes.\<close>

definition recurrent_pos ::
  "(int \<Rightarrow> int result) \<Rightarrow> llama_kv_cache \<Rightarrow> int \<Rightarrow> int \<times> int \<Rightarrow> llama_kv_cache result" where
  "recurrent_pos f c seq_id r =
     (if 0 \<le> seq_id \<and> seq_id < int (kv_size c) then
        rbind (cell_at c seq_id) (\<lambda>meta.
          if kc_tail meta \<ge> 0 then
            rbind (cell_at c (kc_tail meta)) (\<lambda>cell.
              if has_seq_id cell seq_id \<and> in_range r (kc_pos cell) then
                rbind (f (kc_pos cell)) (\<lambda>p. Inr (upd_cell (kc_tail meta) (\<lambda>m. m\<lparr>kc_pos := p\<rparr>) c))
              else Inr c)
          else Inr c)
      else Inr c)"

definition pos_add :: "int \<Rightarrow> int \<Rightarrow> int result" where
  "pos_add delta p = (if in_int32 (p + delta) then Inr (p + delta) else Inl Undefined_Behaviour)"

definition pos_div :: "int \<Rightarrow> int \<Rightarrow> int result" where
  "pos_div d p = (if d = 0 then Inl Undefined_Behaviour else Inr (sgn d * (p div \<bar>d\<bar>)))"

definition seq_hit :: "int \<Rightarrow> int \<times> int \<Rightarrow> llama_kv_cell \<Rightarrow> bool" where
  "seq_hit seq_id r cell \<longleftrightarrow> has_seq_id cell seq_id \<and> in_range r (kc_pos cell)"

definition seq_add_cell ::
  "int \<Rightarrow> int \<times> int \<Rightarrow> int \<Rightarrow> nat \<Rightarrow> llama_kv_cell \<Rightarrow> llama_kv_cell \<times> bool \<times> bool" where
  "seq_add_cell seq_id r delta i cell =
     (if seq_hit seq_id r cell then
        let cell1 = cell\<lparr>kc_pos := kc_pos cell + delta, kc_delta := kc_delta cell + delta\<rparr> in
        if kc_pos cell1 < 0 then
          (cell1\<lparr>kc_pos := - 1, kc_seq_id := {}\<rparr>, \<not> is_empty_cell cell1, True)
        else (cell1, False, False)
      else (cell, False, False))"

definition llama_kv_cache_seq_add ::
  "llama_kv_cache \<Rightarrow> int \<Rightarrow> int \<Rightarrow> int \<Rightarrow> int \<Rightarrow> llama_kv_cache result" where
  "llama_kv_cache_seq_add c seq_id p0 p1 delta =
     (let r = seq_range p0 p1 in
      if fst r = snd r then Inr c
      else if kv_recurrent c then recurrent_pos (pos_add delta) c seq_id r
      else if \<exists>cell \<in> set (kv_cells c). seq_hit seq_id r cell
                \<and> \<not> (in_int32 (kc_pos cell + delta) \<and> in_int32 (kc_delta cell + delta))
        then Inl Undefined_Behaviour
      else
        let (cs, used, new_head) =
              cells_loop (seq_add_cell seq_id r delta) (kv_size c) 0 (kv_cells c) (kv_used c) (kv_size c)
        in Inr (c\<lparr>kv_has_shift := kv_has_shift c \<or> list_ex (seq_hit seq_id r) (kv_cells c),
                  kv_cells := cs, kv_used := used,
                  kv_head := (if new_head \<noteq> kv_size c then new_head else 0)\<rparr>))"

definition seq_div_cell :: "int \<Rightarrow> int \<times> int \<Rightarrow> int \<Rightarrow> llama_kv_cell \<Rightarrow> llama_kv_cell" where
  "seq_div_cell seq_id r d cell =
     (if seq_hit seq_id r cell then
        let p = sgn d * (kc_pos cell div \<bar>d\<bar>)
        in cell\<lparr>kc_pos := p, kc_delta := kc_delta cell + (p - kc_pos cell)\<rparr>
      else cell)"

definition llama_kv_cache_seq_div ::
  "llama_kv_cache \<Rightarrow> int \<Rightarrow> int \<Rightarrow> int \<Rightarrow> int \<Rightarrow> llama_kv_cache result" where
  "llama_kv_cache_seq_div c seq_id p0 p1 d =
     (let r = seq_range p0 p1 in
      if fst r = snd r then Inr c
      else if kv_recurrent c then recurrent_pos (pos_div d) c seq_id r
      else if \<exists>cell \<in> set (kv_cells c). seq_hit seq_id r cell
                \<and> (d = 0 \<or> \<not> in_int32 (kc_delta (seq_div_cell seq_id r d cell)))
        then Inl Undefined_Behaviour
      else Inr (c\<lparr>kv_has_shift := kv_has_shift c \<or> list_ex (seq_hit seq_id r) (kv_cells c),
                  kv_cells := map (seq_div_cell seq_id r d) (kv_cells c)\<rparr>))"

text \<open>The functions of the library's interface, which do nothing for a shift by 0 or a division by 1.\<close>

definition ctx_seq_add ::
  "llama_kv_cache \<Rightarrow> int \<Rightarrow> int \<Rightarrow> int \<Rightarrow> int \<Rightarrow> llama_kv_cache result" where
  "ctx_seq_add c seq_id p0 p1 delta =
     (if delta = 0 then Inr c else llama_kv_cache_seq_add c seq_id p0 p1 delta)"

definition ctx_seq_div ::
  "llama_kv_cache \<Rightarrow> int \<Rightarrow> int \<Rightarrow> int \<Rightarrow> int \<Rightarrow> llama_kv_cache result" where
  "ctx_seq_div c seq_id p0 p1 d =
     (if d = 1 then Inr c else llama_kv_cache_seq_div c seq_id p0 p1 d)"

definition llama_kv_cache_seq_pos_max :: "llama_kv_cache \<Rightarrow> int \<Rightarrow> int" where
  "llama_kv_cache_seq_pos_max c seq_id =
     foldl (\<lambda>m cell. if has_seq_id cell seq_id then max m (kc_pos cell) else m) 0 (kv_cells c)"

definition llama_kv_cache_defrag :: "llama_kv_cache \<Rightarrow> llama_kv_cache" where
  "llama_kv_cache_defrag c = (if \<not> kv_recurrent c then c\<lparr>kv_do_defrag := True\<rparr> else c)"

section \<open>Searching a slot, one cell per token\<close>

text \<open>The scan of the \<open>n_tokens\<close> cells from \<^verbatim>\<open>head\<close>: the index in it of the first occupied one.\<close>

definition first_occupied :: "llama_kv_cell list \<Rightarrow> nat \<Rightarrow> nat \<Rightarrow> nat option" where
  "first_occupied cs head n = find_first_not (\<lambda>cell. kc_pos cell < 0) (take n (drop head cs))"

partial_function (option) slot_search ::
  "llama_kv_cell list \<Rightarrow> nat \<Rightarrow> nat \<Rightarrow> nat \<Rightarrow> nat \<Rightarrow> (bool \<times> nat) option" where
  "slot_search cs sz n head n_tested =
     (if u32_add head n > sz then slot_search cs sz n 0 (u32_add n_tested (u32_sub sz head))
      else
        case first_occupied cs head n of
          None \<Rightarrow> Some (True, head)
        | Some i \<Rightarrow>
            if u32_add n_tested (i + 1) \<ge> sz then Some (False, u32_add head (i + 1))
            else slot_search cs sz n (u32_add head (i + 1)) (u32_add n_tested (i + 1)))"

text \<open>Filling the slot: token \<open>k\<close> of the batch belongs to sequence \<open>k div n_seq_tokens\<close>.\<close>

definition fill_cell :: "llama_ubatch \<Rightarrow> nat \<Rightarrow> nat \<Rightarrow> llama_kv_cell \<Rightarrow> llama_kv_cell" where
  "fill_cell b head i cell =
     (if head \<le> i \<and> i < head + ub_n_seqs b * ub_n_seq_tokens b then
        let k = i - head in
        cell\<lparr>kc_pos := ub_pos b ! k,
             kc_seq_id := kc_seq_id cell \<union> set (ub_seq_id b ! (k div ub_n_seq_tokens b))\<rparr>
      else cell)"

definition fill_slot :: "llama_ubatch \<Rightarrow> nat \<Rightarrow> llama_kv_cell list \<Rightarrow> llama_kv_cell list" where
  "fill_slot b head cs = map (\<lambda>i. fill_cell b head i (cs ! i)) [0..<length cs]"

definition find_slot_plain :: "llama_kv_cache \<Rightarrow> llama_ubatch \<Rightarrow> (bool \<times> llama_kv_cache) result option" where
  "find_slot_plain c b =
     (if ub_n_tokens b > kv_size c then Some (Inr (False, c))
      else
        case slot_search (kv_cells c) (kv_size c) (ub_n_tokens b) (kv_head c) 0 of
          None \<Rightarrow> None
        | Some (found, head) \<Rightarrow>
            if \<not> found then Some (Inr (False, c\<lparr>kv_head := head\<rparr>))
            else if head + ub_n_seqs b * ub_n_seq_tokens b > length (kv_cells c)
                    \<or> length (ub_pos b) < ub_n_seqs b * ub_n_seq_tokens b
              then Some (Inl Undefined_Behaviour)
            else Some (Inr (True, c\<lparr>kv_head := head, kv_cells := fill_slot b head (kv_cells c),
                                    kv_used := kv_used c + of_nat (ub_n_tokens b)\<rparr>)))"

section \<open>Searching a slot in a recurrent model\<close>

text \<open>Sequences that become shared give up their cell; a sequence id outside the cache is refused.\<close>

definition rec_unshare :: "llama_kv_cache \<Rightarrow> int \<Rightarrow> llama_kv_cache result" where
  "rec_unshare c seq_id =
     rbind (cell_at c seq_id) (\<lambda>meta.
       if kc_tail meta \<ge> 0 then
         rbind (cell_at c (kc_tail meta)) (\<lambda>cell.
           let ids = kc_seq_id cell - {seq_id};
               c1 = upd_cell seq_id (\<lambda>m. m\<lparr>kc_tail := - 1\<rparr>)
                      (upd_cell (kc_tail meta) (\<lambda>m. m\<lparr>kc_seq_id := ids\<rparr>) c)
           in Inr (if ids = {} then
                     (upd_cell (kc_tail meta) (\<lambda>m. m\<lparr>kc_pos := - 1, kc_src := - 1\<rparr>) c1)
                     \<lparr>kv_used := kv_used c - 1\<rparr>
                   else c1))
       else Inr c)"

fun rec_check_ids :: "llama_kv_cache \<Rightarrow> bool \<Rightarrow> int list \<Rightarrow> (bool \<times> llama_kv_cache) result" where
  "rec_check_ids c first [] = Inr (True, c)"
| "rec_check_ids c first (s # ss) =
     (if s < 0 \<or> s \<ge> int (kv_size c) then Inr (False, c)
      else if first then rec_check_ids c False ss
      else rbind (rec_unshare c s) (\<lambda>c1. rec_check_ids c1 False ss))"

fun rec_check :: "llama_kv_cache \<Rightarrow> int list list \<Rightarrow> (bool \<times> llama_kv_cache) result" where
  "rec_check c [] = Inr (True, c)"
| "rec_check c (ids # rest) =
     rbind (rec_check_ids c True ids) (\<lambda>(ok, c1). if ok then rec_check c1 rest else Inr (False, c1))"

fun next_empty_cell :: "nat \<Rightarrow> llama_kv_cache \<Rightarrow> nat \<Rightarrow> nat result" where
  "next_empty_cell 0 c e = Inr e"
| "next_empty_cell (Suc k) c e =
     (let e1 = (if e \<ge> kv_size c then e - kv_size c else e) in
      rbind (vec_at (kv_cells c) e1) (\<lambda>cell.
        if is_empty_cell cell then Inr e1 else next_empty_cell k c (e1 + 1)))"

text \<open>One sequence of the batch: it keeps the cell it owns alone, or moves to the next empty one.\<close>

definition rec_owns :: "llama_kv_cache \<Rightarrow> int \<Rightarrow> int \<Rightarrow> bool result" where
  "rec_owns c s tail =
     (if tail \<ge> 0 then
        rbind (cell_at c tail) (\<lambda>cell.
          if \<not> has_seq_id cell s then Inl Assert_Failure else Inr (card (kc_seq_id cell) = 1))
      else Inr False)"

definition rec_take_empty :: "llama_kv_cache \<Rightarrow> int \<Rightarrow> int \<Rightarrow> nat \<Rightarrow> llama_kv_cache result" where
  "rec_take_empty c s tail e =
     rbind (vec_at (kv_cells c) e) (\<lambda>cell.
       if \<not> is_empty_cell cell then Inl Assert_Failure
       else
         rbind (if tail \<ge> 0 then
                  rbind (cell_at c tail) (\<lambda>orig.
                    Inr (upd_cell (int e) (\<lambda>m. m\<lparr>kc_seq_id := insert s (kc_seq_id m)\<rparr>)
                          (upd_cell tail (\<lambda>m. m\<lparr>kc_seq_id := kc_seq_id m - {s}\<rparr>)
                            (upd_cell (int e) (\<lambda>m. m\<lparr>kc_pos := kc_pos orig, kc_src := kc_src orig\<rparr>) c))))
                else Inr c) (\<lambda>c1.
           Inr (upd_cell s (\<lambda>m. m\<lparr>kc_tail := int e\<rparr>) c1)))"

fun rec_assign :: "llama_kv_cache \<Rightarrow> nat \<Rightarrow> int \<Rightarrow> int \<Rightarrow> int list list \<Rightarrow> (llama_kv_cache \<times> int \<times> int) result" where
  "rec_assign c e mn mx [] = Inr (c, mn, mx)"
| "rec_assign c e mn mx (ids # rest) =
     rbind (vec_at ids 0) (\<lambda>s.
     rbind (cell_at c s) (\<lambda>meta.
     rbind (rec_owns c s (kc_tail meta)) (\<lambda>has_cell.
     rbind (if has_cell then Inr (c, e)
            else
              rbind (rec_take_empty c s (kc_tail meta) e) (\<lambda>c1.
              rbind (if rest \<noteq> [] then next_empty_cell (kv_size c) c1 (e + 1) else Inr e) (\<lambda>e1.
                Inr (c1, e1)))) (\<lambda>(c2, e2).
     rbind (cell_at c2 s) (\<lambda>meta2.
       rec_assign c2 e2 (min mn (kc_tail meta2)) (max mx (kc_tail meta2)) rest)))))"

text \<open>The cells of the batch are swapped into a contiguous block from \<open>min\<close> on.\<close>

definition set_tails :: "int set \<Rightarrow> int \<Rightarrow> llama_kv_cache \<Rightarrow> llama_kv_cache result" where
  "set_tails ids t c =
     (if ids \<subseteq> {0..<int (length (kv_cells c))} then
        Inr (c\<lparr>kv_cells := map (\<lambda>(i, m). if int i \<in> ids then m\<lparr>kc_tail := t\<rparr> else m)
                            (enumerate 0 (kv_cells c))\<rparr>)
      else Inl Undefined_Behaviour)"

fun rec_gather :: "llama_kv_cache \<Rightarrow> int \<Rightarrow> int list list \<Rightarrow> llama_kv_cache result" where
  "rec_gather c dst [] = Inr c"
| "rec_gather c dst (ids # rest) =
     rbind (vec_at ids 0) (\<lambda>s.
     rbind (cell_at c s) (\<lambda>meta.
       let src = kc_tail meta in
       if dst \<noteq> src then
         rbind (cell_at c dst) (\<lambda>d.
         rbind (cell_at c src) (\<lambda>o1.
         rbind (set_tails (kc_seq_id d) src
                  (upd_cell src (\<lambda>m. m\<lparr>kc_pos := kc_pos d, kc_src := kc_src d, kc_seq_id := kc_seq_id d\<rparr>)
                    (upd_cell dst (\<lambda>m. m\<lparr>kc_pos := kc_pos o1, kc_src := kc_src o1, kc_seq_id := kc_seq_id o1\<rparr>) c)))
           (\<lambda>c1.
         rbind (set_tails (kc_seq_id o1) dst c1) (\<lambda>c2. rec_gather c2 (dst + 1) rest))))
       else rec_gather c (dst + 1) rest))"

fun rec_update :: "llama_kv_cache \<Rightarrow> int \<Rightarrow> nat \<Rightarrow> int list \<Rightarrow> int list list \<Rightarrow> llama_kv_cache result" where
  "rec_update c cell_id nst pos [] = Inr c"
| "rec_update c cell_id nst pos (ids # rest) =
     (if nst = 0 then Inl Undefined_Behaviour
      else
        rbind (vec_at pos (nst - 1)) (\<lambda>last_pos.
        rbind (cell_at c cell_id) (\<lambda>_.
        rbind (set_tails (set ids) cell_id
                 (upd_cell cell_id (\<lambda>m. m\<lparr>kc_pos := last_pos, kc_seq_id := set ids\<rparr>) c)) (\<lambda>c1.
          rec_update c1 (cell_id + 1) nst (drop nst pos) rest))))"

definition find_slot_recurrent :: "llama_kv_cache \<Rightarrow> llama_ubatch \<Rightarrow> (bool \<times> llama_kv_cache) result" where
  "find_slot_recurrent c b =
     (if \<not> ub_equal_seqs b then Inl Assert_Failure
      else
        rbind (rec_check c (ub_seq_id b)) (\<lambda>(ok, c1).
          if \<not> ok then Inr (False, c1)
          else
            rbind (next_empty_cell (kv_size c1) c1 (kv_head c1)) (\<lambda>e.
            rbind (rec_assign c1 e (int (kv_size c1) - 1) 0 (ub_seq_id b)) (\<lambda>(c2, mn, mx).
            rbind (rec_gather c2 mn (ub_seq_id b)) (\<lambda>c3.
            rbind (rec_update c3 mn (ub_n_seq_tokens b) (ub_pos b) (ub_seq_id b)) (\<lambda>c4.
              Inr (mx - mn + 1 \<ge> int (ub_n_seqs b),
                   c4\<lparr>kv_head := nat mn, kv_n := mx - mn + 1\<rparr>)))))))"

definition llama_kv_cache_find_slot ::
  "llama_kv_cache \<Rightarrow> llama_ubatch \<Rightarrow> (bool \<times> llama_kv_cache) result option" where
  "llama_kv_cache_find_slot c b =
     (if kv_recurrent c then Some (find_slot_recurrent c b) else find_slot_plain c b)"

end
