(* ===== verification/Transitions.thy ===== *)
theory Transitions
  imports Main
begin

text \<open>
  The interface every component with a step relation shares: steps that keep an invariant, an
  initial state that has it, and what follows for every reachable state.
\<close>

locale invariant_system =
  fixes step :: "'s \<Rightarrow> 's \<Rightarrow> bool"
    and inv :: "'s \<Rightarrow> bool"
  assumes step_inv: "inv s \<Longrightarrow> step s t \<Longrightarrow> inv t"
begin

lemma steps_inv:
  assumes "inv s" "step\<^sup>*\<^sup>* s t"
  shows "inv t"
  using assms(2,1) by induction (auto intro: step_inv)

lemma steps_from_inv: "step\<^sup>*\<^sup>* s t \<Longrightarrow> inv s \<Longrightarrow> step t u \<Longrightarrow> inv u"
  by (blast intro: steps_inv step_inv)

end

locale initial_system = invariant_system step inv
  for step :: "'s \<Rightarrow> 's \<Rightarrow> bool" and inv :: "'s \<Rightarrow> bool" +
  fixes init :: "'s \<Rightarrow> bool"
  assumes init_inv: "init s \<Longrightarrow> inv s"
begin

lemma reachable_inv: "init s \<Longrightarrow> step\<^sup>*\<^sup>* s t \<Longrightarrow> inv t"
  by (blast intro: steps_inv init_inv)

end

text \<open>
  The interface of a component whose operations answer: every operation does what its specification
  does on the abstract state, and gives the same answer.
\<close>

fun run_trace :: "('op \<Rightarrow> 's \<Rightarrow> 'o \<times> 's) \<Rightarrow> 'op list \<Rightarrow> 's \<Rightarrow> 'o list \<times> 's" where
  "run_trace step [] s = ([], s)"
| "run_trace step (op # ops) s =
     (fst (step op s) # fst (run_trace step ops (snd (step op s))), snd (run_trace step ops (snd (step op s))))"

locale io_refinement =
  fixes step :: "'op \<Rightarrow> 's \<Rightarrow> 'o \<times> 's"
    and spec :: "'op \<Rightarrow> 'a \<Rightarrow> 'o \<times> 'a"
    and abs :: "'s \<Rightarrow> 'a"
    and inv :: "'s \<Rightarrow> bool"
    and ok :: "'op \<Rightarrow> bool"
  assumes simulates: "inv s \<Longrightarrow> ok op \<Longrightarrow>
      fst (step op s) = fst (spec op (abs s)) \<and> abs (snd (step op s)) = snd (spec op (abs s))
      \<and> inv (snd (step op s))"
begin

lemma trace_refines: "inv s \<Longrightarrow> \<forall>op \<in> set ops. ok op \<Longrightarrow>
    fst (run_trace step ops s) = fst (run_trace spec ops (abs s))
    \<and> abs (snd (run_trace step ops s)) = snd (run_trace spec ops (abs s))
    \<and> inv (snd (run_trace step ops s))"
  by (induction ops arbitrary: s) (auto simp: simulates)

end

sublocale io_refinement \<subseteq> invariant_system "\<lambda>s t. \<exists>op. ok op \<and> t = snd (step op s)" inv
  by unfold_locales (auto simp: simulates)

end
