(* ===== verification/KvSlot.thy ===== *)
theory KvSlot
  imports KvCache
begin

text \<open>
  The slot search of \<^verbatim>\<open>llama_kv_cache_find_slot\<close> returns, and finds a slot exactly when the cache
  has one.
\<close>

definition free_run :: "llama_kv_cell list \<Rightarrow> nat \<Rightarrow> nat \<Rightarrow> bool" where
  "free_run cs n s \<longleftrightarrow> s + n \<le> length cs \<and> (\<forall>k < n. kc_pos (cs ! (s + k)) < 0)"

definition no_run :: "llama_kv_cell list \<Rightarrow> nat \<Rightarrow> nat \<Rightarrow> nat \<Rightarrow> bool" where
  "no_run cs n a b \<longleftrightarrow> (\<forall>s. a \<le> s \<and> s < b \<longrightarrow> \<not> free_run cs n s)"

lemma first_occupied_None:
  "head + n \<le> length cs \<Longrightarrow> first_occupied cs head n = None \<longleftrightarrow> free_run cs n head"
  by (fastforce simp: first_occupied_def find_first_not_None free_run_def all_set_conv_all_nth)

lemma first_occupied_Some:
  assumes "head + n \<le> length cs" "first_occupied cs head n = Some i"
  shows "i < n" "\<not> kc_pos (cs ! (head + i)) < 0"
  using find_first_not_Some [OF assms(2) [unfolded first_occupied_def]] assms(1) by auto

lemma no_run_past_occupied:
  assumes "\<not> kc_pos (cs ! p) < 0" "no_run cs n a b" "b \<le> p" "p < b + n"
  shows "no_run cs n a (p + 1)"
  unfolding no_run_def
proof (intro allI impI)
  fix s assume s: "a \<le> s \<and> s < p + 1"
  show "\<not> free_run cs n s"
  proof (cases "s < b")
    case True
    with assms(2) s show ?thesis by (simp add: no_run_def)
  next
    case False
    with s assms(3,4) have "p - s < n" "s + (p - s) = p" by auto
    with assms(1) show ?thesis by (metis free_run_def)
  qed
qed

lemma no_run_tail: "b + n > length cs \<Longrightarrow> no_run cs n a b \<Longrightarrow> no_run cs n a c"
  by (auto simp: no_run_def free_run_def)

lemma no_run_join: "no_run cs n a b \<Longrightarrow> no_run cs n b c \<Longrightarrow> no_run cs n a c"
  by (meson no_run_def not_le)

text \<open>What is known when the loop is at \<open>head\<close> having tested \<open>tested\<close> cells from \<open>h0\<close> on: it is in
  its first pass, or has wrapped once, or has seen every start.\<close>

definition search_inv :: "llama_kv_cell list \<Rightarrow> nat \<Rightarrow> nat \<Rightarrow> nat \<Rightarrow> nat \<Rightarrow> bool" where
  "search_inv cs n h0 head tested \<longleftrightarrow>
     (h0 \<le> head \<and> tested = head - h0 \<and> no_run cs n h0 head)
     \<or> (tested = length cs - h0 + head \<and> no_run cs n h0 (length cs + 1) \<and> no_run cs n 0 head)
     \<or> (head = 0 \<and> tested \<ge> length cs \<and> tested \<le> 2 * length cs \<and> no_run cs n 0 (length cs + 1))"

lemma search_inv_bound: "search_inv cs n h0 head tested \<Longrightarrow> h0 \<le> length cs \<Longrightarrow> head \<le> length cs \<Longrightarrow> tested \<le> 2 * length cs"
  by (auto simp: search_inv_def)

lemma search_inv_wrap:
  assumes "search_inv cs n h0 head tested" "h0 \<le> length cs" "head \<le> length cs" "head + n > length cs" "n \<le> length cs"
  shows "search_inv cs n h0 0 (tested + (length cs - head))"
proof -
  from assms(1) [unfolded search_inv_def] consider
      (A) "h0 \<le> head" "tested = head - h0" "no_run cs n h0 head"
    | (B) "tested = length cs - h0 + head" "no_run cs n h0 (length cs + 1)" "no_run cs n 0 head"
    | (C) "head = 0"
    by blast
  then show ?thesis
  proof cases
    case A
    then have "no_run cs n h0 (length cs + 1)" using no_run_tail assms(4) by blast
    moreover have "no_run cs n 0 0" by (simp add: no_run_def)
    ultimately show ?thesis using A assms(2,3) unfolding search_inv_def by simp
  next
    case B
    then have "no_run cs n 0 (length cs + 1)" using no_run_tail assms(4) by blast
    with B assms(2,3) show ?thesis unfolding search_inv_def by (intro disjI2 conjI) simp_all
  qed (use assms in simp)
qed

lemma search_inv_fail:
  assumes "search_inv cs n h0 head tested" "h0 \<le> length cs" "head + n \<le> length cs"
    and "i < n" "\<not> kc_pos (cs ! (head + i)) < 0"
  shows "tested + (i + 1) < length cs \<Longrightarrow> search_inv cs n h0 (head + (i + 1)) (tested + (i + 1))"
    and "tested + (i + 1) \<ge> length cs \<Longrightarrow> \<not> free_run cs n s"
proof -
  have step: "no_run cs n a head \<Longrightarrow> no_run cs n a (head + (i + 1))" for a
    using no_run_past_occupied [OF assms(5), of n a head] assms(4) by simp
  from assms(1) [unfolded search_inv_def] consider
      (A) "h0 \<le> head" "tested = head - h0" "no_run cs n h0 head"
    | (B) "tested = length cs - h0 + head" "no_run cs n h0 (length cs + 1)" "no_run cs n 0 head"
    | (C) "head = 0" "tested \<ge> length cs" "no_run cs n 0 (length cs + 1)"
    by blast
  then have "(tested + (i + 1) < length cs \<longrightarrow> search_inv cs n h0 (head + (i + 1)) (tested + (i + 1)))
      \<and> (tested + (i + 1) \<ge> length cs \<longrightarrow> no_run cs n 0 (length cs + 1))"
  proof cases
    case A
    have "no_run cs n 0 (length cs + 1)" if "tested + (i + 1) \<ge> length cs"
    proof -
      from that A assms(2,3,4) have "h0 = 0" "head + (i + 1) = length cs" by linarith+
      with step [OF A(3)] assms(4) show ?thesis using no_run_tail by (metis le_add2 le_less_trans less_add_same_cancel1 not_gr_zero not_less_zero)
    qed
    with A step show ?thesis by (auto simp: search_inv_def)
  next
    case B
    have "no_run cs n 0 (length cs + 1)" if "tested + (i + 1) \<ge> length cs"
    proof -
      from that B(1) assms(2) have "h0 \<le> head + (i + 1)" by linarith
      then have "no_run cs n 0 h0" using step [OF B(3)] by (auto simp: no_run_def)
      with B(2) show ?thesis using no_run_join by blast
    qed
    with B step show ?thesis by (auto simp: search_inv_def)
  next
    case C
    then show ?thesis by simp
  qed
  moreover have "free_run cs n s \<Longrightarrow> s < length cs + 1" by (simp add: free_run_def)
  ultimately show "tested + (i + 1) < length cs \<Longrightarrow> search_inv cs n h0 (head + (i + 1)) (tested + (i + 1))"
    "tested + (i + 1) \<ge> length cs \<Longrightarrow> \<not> free_run cs n s"
    by (auto simp: no_run_def)
qed

definition search_measure :: "nat \<Rightarrow> nat \<Rightarrow> nat \<Rightarrow> nat \<Rightarrow> nat" where
  "search_measure sz n head tested = 2 * (sz - tested) + (if head + n > sz then 1 else 0)"

lemma slot_search_ok:
  assumes "n \<le> length cs" "length cs < 2 ^ 30" "h0 \<le> length cs"
  shows "head \<le> length cs \<Longrightarrow> search_inv cs n h0 head tested \<Longrightarrow>
    \<exists>ok h. slot_search cs (length cs) n head tested = Some (ok, h)
      \<and> h \<le> length cs \<and> (if ok then free_run cs n h else (\<forall>s. \<not> free_run cs n s))"
proof (induction "search_measure (length cs) n head tested" arbitrary: head tested rule: less_induct)
  case less
  note u = slot_search.simps [of cs "length cs" n head tested]
  note b = search_inv_bound [OF less.prems(2) assms(3) less.prems(1)]
  have small: "length cs < 1073741824" using assms(2) by simp
  show ?case
  proof (cases "head + n > length cs")
    case True
    have eq: "slot_search cs (length cs) n head tested = slot_search cs (length cs) n 0 (tested + (length cs - head))"
      using True less.prems(1) assms(1) small b by (subst u) simp
    show ?thesis unfolding eq
    proof (rule less.hyps)
      show "search_measure (length cs) n 0 (tested + (length cs - head)) < search_measure (length cs) n head tested"
        using True assms(1) by (simp add: search_measure_def)
    qed (use search_inv_wrap [OF less.prems(2) assms(3) less.prems(1) True assms(1)] in auto)
  next
    case False
    then have hn: "head + n \<le> length cs" by simp
    show ?thesis
    proof (cases "first_occupied cs head n")
      case None
      then have "slot_search cs (length cs) n head tested = Some (True, head)"
        using hn small by (subst u) simp
      with None hn show ?thesis by (auto simp: first_occupied_None)
    next
      case (Some i)
      note fo = first_occupied_Some [OF hn Some]
      note sf = search_inv_fail [OF less.prems(2) assms(3) hn fo]
      have eq: "slot_search cs (length cs) n head tested =
          (if tested + (i + 1) \<ge> length cs then Some (False, head + (i + 1))
           else slot_search cs (length cs) n (head + (i + 1)) (tested + (i + 1)))"
        using hn small b fo(1) Some by (subst u) simp
      show ?thesis
      proof (cases "tested + (i + 1) \<ge> length cs")
        case True
        with eq sf(2) hn fo(1) show ?thesis by auto
      next
        case False
        then have eq': "slot_search cs (length cs) n head tested
            = slot_search cs (length cs) n (head + (i + 1)) (tested + (i + 1))" using eq by simp
        show ?thesis unfolding eq'
          by (rule less.hyps) (use False sf(1) hn fo(1) in \<open>auto simp: search_measure_def\<close>)
      qed
    qed
  qed
qed

lemma search_start: "h0 \<le> length cs \<Longrightarrow> search_inv cs n h0 h0 0"
  unfolding search_inv_def no_run_def by auto

lemma slot_search_result:
  assumes "n \<le> length cs" "length cs < 2 ^ 30" "h \<le> length cs"
  shows "\<exists>ok h'. slot_search cs (length cs) n h 0 = Some (ok, h') \<and> h' \<le> length cs
    \<and> (if ok then free_run cs n h' else (\<forall>s. \<not> free_run cs n s))"
  using slot_search_ok [OF assms assms(3) search_start [OF assms(3)]] .

end
