(* ===== verification/KvInvariant.thy ===== *)
theory KvInvariant
  imports KvSlot Transitions
begin

text \<open>
  The invariant of the key/value cache of a Transformer model, kept by every operation, and what the
  operations mean for the sequences: a view that maps a sequence and a cell to the position the cell
  holds for it.
\<close>

section \<open>Cells and the counter\<close>

definition cell_ok :: "llama_kv_cell \<Rightarrow> bool" where
  "cell_ok c \<longleftrightarrow> finite (kc_seq_id c) \<and> (kc_pos c \<ge> 0 \<longleftrightarrow> kc_seq_id c \<noteq> {}) \<and> in_int32 (kc_pos c)"

definition used_cells :: "llama_kv_cell list \<Rightarrow> nat" where
  "used_cells cs = length (filter (\<lambda>c. kc_pos c \<ge> 0) cs)"

lemma used_cells_simps [simp]:
  "used_cells [] = 0"
  "used_cells (c # cs) = (if kc_pos c \<ge> 0 then 1 else 0) + used_cells cs"
  by (simp_all add: used_cells_def)

definition kv_inv :: "llama_kv_cache \<Rightarrow> bool" where
  "kv_inv c \<longleftrightarrow> \<not> kv_recurrent c \<and> length (kv_cells c) = kv_size c \<and> kv_size c < 2 ^ 30
     \<and> kv_head c \<le> kv_size c \<and> (\<forall>cell \<in> set (kv_cells c). cell_ok cell)
     \<and> kv_used c = of_nat (used_cells (kv_cells c))"

text \<open>A loop step that keeps a cell well formed and reports a decrement exactly when it frees one.\<close>

locale cell_step =
  fixes f :: "nat \<Rightarrow> llama_kv_cell \<Rightarrow> llama_kv_cell \<times> bool \<times> bool"
    and pre :: "llama_kv_cell \<Rightarrow> bool"
  assumes step_ok: "cell_ok c \<Longrightarrow> pre c \<Longrightarrow> cell_ok (fst (f i c))"
    and step_used: "cell_ok c \<Longrightarrow> pre c \<Longrightarrow>
      (kc_pos c \<ge> 0 \<longleftrightarrow> kc_pos (fst (f i c)) \<ge> 0 \<or> fst (snd (f i c)))
      \<and> (fst (snd (f i c)) \<longrightarrow> kc_pos (fst (f i c)) < 0)"
begin

lemma loop_cells:
  "cells_loop f sz i cs u nh = (cs', u', nh') \<Longrightarrow>
     length cs' = length cs \<and> (\<forall>k < length cs. cs' ! k = fst (f (i + k) (cs ! k)))"
proof (induction cs arbitrary: i u nh cs' u' nh')
  case (Cons c cs)
  from Cons.prems obtain cs1 where cs1: "cs' = fst (f i c) # cs1"
    "cells_loop f sz (i + 1) cs (if fst (snd (f i c)) then u - 1 else u)
       (if snd (snd (f i c)) \<and> nh = sz then i else nh) = (cs1, u', nh')"
    by (auto simp: Let_def case_prod_unfold prod_eq_iff)
  from Cons.IH [OF cs1(2)] cs1(1) show ?case by (auto simp: nth_Cons split: nat.split)
qed simp

lemma loop_ok:
  "cells_loop f sz i cs u nh = (cs', u', nh') \<Longrightarrow> \<forall>c \<in> set cs. cell_ok c \<and> pre c \<Longrightarrow>
     u = k + of_nat (used_cells cs) \<Longrightarrow>
     (\<forall>c \<in> set cs'. cell_ok c) \<and> u' = k + of_nat (used_cells cs')"
proof (induction cs arbitrary: i u nh cs' u' nh' k)
  case (Cons c cs)
  let ?c = "fst (f i c)" and ?dec = "fst (snd (f i c))"
  from Cons.prems(1) obtain cs1 where cs1: "cs' = ?c # cs1"
    "cells_loop f sz (i + 1) cs (if ?dec then u - 1 else u)
       (if snd (snd (f i c)) \<and> nh = sz then i else nh) = (cs1, u', nh')"
    by (auto simp: Let_def case_prod_unfold prod_eq_iff)
  have su: "(kc_pos c \<ge> 0 \<longleftrightarrow> kc_pos ?c \<ge> 0 \<or> ?dec) \<and> (?dec \<longrightarrow> kc_pos ?c < 0)"
    using step_used [of c i] Cons.prems(2) by simp
  define k' where "k' = k + (if kc_pos ?c \<ge> 0 then 1 else 0)"
  have "(if ?dec then u - 1 else u) = k' + of_nat (used_cells cs)"
    using su Cons.prems(3) by (auto simp: k'_def)
  with Cons.IH [OF cs1(2), of k'] Cons.prems(2)
  have "(\<forall>c \<in> set cs1. cell_ok c) \<and> u' = k' + of_nat (used_cells cs1)" by simp
  with cs1(1) step_ok [of c i] Cons.prems(2) show ?case by (simp add: k'_def)
qed simp

lemma loop_head:
  "cells_loop f sz i cs u nh = (cs', u', nh') \<Longrightarrow> i + length cs \<le> sz \<Longrightarrow> nh \<le> sz \<Longrightarrow> nh' \<le> sz"
proof (induction cs arbitrary: i u nh cs' u' nh')
  case (Cons c cs)
  from Cons.prems(1) obtain cs1 where
    "cells_loop f sz (i + 1) cs (if fst (snd (f i c)) then u - 1 else u)
       (if snd (snd (f i c)) \<and> nh = sz then i else nh) = (cs1, u', nh')"
    by (auto simp: Let_def case_prod_unfold prod_eq_iff)
  from Cons.IH [OF this] Cons.prems(2,3) show ?case by auto
qed simp

lemma loop_inv:
  assumes "kv_inv c" "\<forall>cell \<in> set (kv_cells c). pre cell"
    and "cells_loop f (kv_size c) 0 (kv_cells c) (kv_used c) (kv_size c) = (cs', u', nh')"
  shows "nh' \<le> kv_size c" "h \<le> kv_size c \<Longrightarrow>
    kv_inv (c\<lparr>kv_has_shift := b, kv_cells := cs', kv_used := u', kv_head := h\<rparr>)"
  using loop_ok [OF assms(3), of 0] loop_cells [OF assms(3)] loop_head [OF assms(3)] assms(1,2)
  by (auto simp: kv_inv_def)

end

lemma in_range_nonneg: "in_range (seq_range p0 p1) p \<Longrightarrow> 0 \<le> p"
  by (auto simp: in_range_def seq_range_def split: if_splits)

interpretation rm: cell_step "seq_rm_cell seq_id r" "\<lambda>_. True"
  by unfold_locales (auto simp: seq_rm_cell_def cell_ok_def Let_def in_int32_def INT32_MAX_def)

interpretation keep: cell_step "seq_keep_cell False seq_id" "\<lambda>_. True"
  by unfold_locales (auto simp: seq_keep_cell_def cell_ok_def Let_def in_int32_def INT32_MAX_def)

interpretation add: cell_step "seq_add_cell seq_id r delta"
  "\<lambda>c. seq_hit seq_id r c \<longrightarrow> in_int32 (kc_pos c + delta) \<and> 0 \<le> kc_pos c"
  by unfold_locales
     (auto simp: seq_add_cell_def cell_ok_def Let_def in_int32_def INT32_MAX_def seq_hit_def)

section \<open>Every operation keeps the invariant\<close>

lemma clear_inv: "kv_inv c \<Longrightarrow> kv_inv (llama_kv_cache_clear c)"
proof -
  have "used_cells (map (\<lambda>cell. cell\<lparr>kc_pos := - 1, kc_seq_id := {}, kc_src := - 1, kc_tail := - 1\<rparr>) cs) = 0" for cs
    by (induction cs) auto
  then show "kv_inv c \<Longrightarrow> kv_inv (llama_kv_cache_clear c)"
    by (auto simp: kv_inv_def llama_kv_cache_clear_def cell_ok_def in_int32_def INT32_MAX_def)
qed

lemma kv_inv_facts:
  assumes "kv_inv c"
  shows "\<not> kv_recurrent c" "length (kv_cells c) = kv_size c" "kv_head c \<le> kv_size c"
    "cell \<in> set (kv_cells c) \<Longrightarrow> cell_ok cell" "kv_size c < 2 ^ 30"
  using assms by (simp_all add: kv_inv_def)

lemma seq_rm_eq:
  assumes "kv_inv c" "llama_kv_cache_seq_rm c seq_id p0 p1 = Inr (ok, c')"
  obtains cs u nh where "ok"
    "cells_loop (seq_rm_cell seq_id (seq_range p0 p1)) (kv_size c) 0 (kv_cells c) (kv_used c) (kv_size c) = (cs, u, nh)"
    "c' = c\<lparr>kv_has_shift := kv_has_shift c, kv_cells := cs, kv_used := u,
       kv_head := (if nh \<noteq> kv_size c \<and> nh < kv_head c then nh else kv_head c)\<rparr>"
proof -
  obtain cs u nh where l: "cells_loop (seq_rm_cell seq_id (seq_range p0 p1)) (kv_size c) 0 (kv_cells c) (kv_used c) (kv_size c) = (cs, u, nh)"
    by (meson prod_cases3)
  with assms(2) kv_inv_facts(1) [OF assms(1)] have "ok" "c' = c\<lparr>kv_cells := cs, kv_used := u,
       kv_head := (if nh \<noteq> kv_size c \<and> nh < kv_head c then nh else kv_head c)\<rparr>"
    by (simp_all add: llama_kv_cache_seq_rm_def Let_def)
  with l show ?thesis by (intro that) simp_all
qed

lemma seq_rm_inv:
  assumes "kv_inv c" "llama_kv_cache_seq_rm c seq_id p0 p1 = Inr (ok, c')"
  shows "kv_inv c'"
proof (rule seq_rm_eq [OF assms])
  fix cs u nh
  assume l: "cells_loop (seq_rm_cell seq_id (seq_range p0 p1)) (kv_size c) 0 (kv_cells c) (kv_used c) (kv_size c) = (cs, u, nh)"
    and c': "c' = c\<lparr>kv_has_shift := kv_has_shift c, kv_cells := cs, kv_used := u,
       kv_head := (if nh \<noteq> kv_size c \<and> nh < kv_head c then nh else kv_head c)\<rparr>"
  show ?thesis unfolding c'
    by (rule rm.loop_inv(2) [OF assms(1) _ l]) (use kv_inv_facts(3) [OF assms(1)] in simp_all)
qed

lemma seq_cp_inv:
  assumes "kv_inv c" "llama_kv_cache_seq_cp c src dst p0 p1 = Inr c'"
  shows "kv_inv c'"
proof -
  have "used_cells (map (seq_cp_cell src dst (seq_range p0 p1)) cs) = used_cells cs" for cs
    by (induction cs) (auto simp: seq_cp_cell_def)
  with assms show ?thesis
    by (auto simp: kv_inv_def llama_kv_cache_seq_cp_def Let_def seq_cp_cell_def cell_ok_def
        dest: in_range_nonneg)
qed

lemma seq_keep_eq:
  assumes "kv_inv c"
  obtains cs u nh where
    "cells_loop (seq_keep_cell False seq_id) (kv_size c) 0 (kv_cells c) (kv_used c) (kv_size c) = (cs, u, nh)"
    "llama_kv_cache_seq_keep c seq_id = c\<lparr>kv_has_shift := kv_has_shift c, kv_cells := cs, kv_used := u,
       kv_head := (if nh \<noteq> kv_size c \<and> nh < kv_head c then nh else kv_head c)\<rparr>"
proof -
  obtain cs u nh where l: "cells_loop (seq_keep_cell False seq_id) (kv_size c) 0 (kv_cells c) (kv_used c) (kv_size c) = (cs, u, nh)"
    by (meson prod_cases3)
  with kv_inv_facts(1) [OF assms] that show ?thesis by (simp add: llama_kv_cache_seq_keep_def)
qed

lemma seq_keep_inv:
  assumes "kv_inv c"
  shows "kv_inv (llama_kv_cache_seq_keep c seq_id)"
proof (rule seq_keep_eq [OF assms, of seq_id])
  fix cs u nh
  assume l: "cells_loop (seq_keep_cell False seq_id) (kv_size c) 0 (kv_cells c) (kv_used c) (kv_size c) = (cs, u, nh)"
    and c': "llama_kv_cache_seq_keep c seq_id = c\<lparr>kv_has_shift := kv_has_shift c, kv_cells := cs, kv_used := u,
       kv_head := (if nh \<noteq> kv_size c \<and> nh < kv_head c then nh else kv_head c)\<rparr>"
  show ?thesis unfolding c'
    by (rule keep.loop_inv(2) [OF assms _ l]) (use kv_inv_facts(3) [OF assms] in simp_all)
qed

lemma seq_add_eq:
  assumes "kv_inv c" "llama_kv_cache_seq_add c seq_id p0 p1 delta = Inr c'" "c' \<noteq> c"
  obtains cs u nh b where
    "\<forall>cell \<in> set (kv_cells c). seq_hit seq_id (seq_range p0 p1) cell \<longrightarrow> in_int32 (kc_pos cell + delta) \<and> 0 \<le> kc_pos cell"
    "cells_loop (seq_add_cell seq_id (seq_range p0 p1) delta) (kv_size c) 0 (kv_cells c) (kv_used c) (kv_size c) = (cs, u, nh)"
    "c' = c\<lparr>kv_has_shift := b, kv_cells := cs, kv_used := u,
       kv_head := (if nh \<noteq> kv_size c then nh else 0)\<rparr>"
proof -
  obtain cs u nh where l: "cells_loop (seq_add_cell seq_id (seq_range p0 p1) delta) (kv_size c) 0 (kv_cells c) (kv_used c) (kv_size c) = (cs, u, nh)"
    by (meson prod_cases3)
  have a: "\<forall>cell \<in> set (kv_cells c). seq_hit seq_id (seq_range p0 p1) cell \<longrightarrow> in_int32 (kc_pos cell + delta) \<and> 0 \<le> kc_pos cell"
    using assms by (auto simp: llama_kv_cache_seq_add_def kv_inv_def Let_def seq_hit_def
        dest: in_range_nonneg split: if_splits)
  have "\<exists>b. c' = c\<lparr>kv_has_shift := b, kv_cells := cs, kv_used := u, kv_head := (if nh \<noteq> kv_size c then nh else 0)\<rparr>"
    using assms l by (auto simp: llama_kv_cache_seq_add_def kv_inv_def Let_def split: if_splits)
  with a l that show ?thesis by blast
qed

lemma seq_add_inv:
  assumes "kv_inv c" "llama_kv_cache_seq_add c seq_id p0 p1 delta = Inr c'"
  shows "kv_inv c'"
proof (cases "c' = c")
  case False
  then show ?thesis
    by (rule seq_add_eq [OF assms]) (use add.loop_inv [OF assms(1)] in auto)
qed (use assms in simp)

lemma seq_div_inv:
  assumes "kv_inv c" "0 < d" "llama_kv_cache_seq_div c seq_id p0 p1 d = Inr c'"
  shows "kv_inv c'"
proof -
  have pos: "0 \<le> p div d \<and> p div d \<le> p" if "0 \<le> p" for p
    using that assms(2) zdiv_mono2 [of p 1 d] by (simp add: pos_imp_zdiv_nonneg_iff)
  have ok: "cell_ok (seq_div_cell seq_id (seq_range p0 p1) d cell) \<and> (0 \<le> kc_pos (seq_div_cell seq_id (seq_range p0 p1) d cell) \<longleftrightarrow> 0 \<le> kc_pos cell)"
    if "cell_ok cell" for cell
  proof (cases "0 \<le> kc_pos cell")
    case True
    from pos [OF True] that assms(2) True show ?thesis
      by (auto simp: seq_div_cell_def cell_ok_def Let_def in_int32_def)
  next
    case False
    with that show ?thesis by (auto simp: seq_div_cell_def cell_ok_def seq_hit_def)
  qed
  have "used_cells (map (seq_div_cell seq_id (seq_range p0 p1) d) cs) = used_cells cs"
    if "\<forall>c \<in> set cs. cell_ok c" for cs
    using that ok by (induction cs) auto
  with assms(1,3) ok show ?thesis
    by (auto simp: kv_inv_def llama_kv_cache_seq_div_def Let_def split: if_splits)
qed

section \<open>Finding a slot\<close>

definition batch_ok :: "llama_ubatch \<Rightarrow> bool" where
  "batch_ok b \<longleftrightarrow> ub_n_tokens b = ub_n_seqs b * ub_n_seq_tokens b \<and> length (ub_pos b) = ub_n_tokens b
     \<and> (\<forall>p \<in> set (ub_pos b). 0 \<le> p \<and> p \<le> INT32_MAX) \<and> (\<forall>ids \<in> set (ub_seq_id b). ids \<noteq> [])"

lemma fill_slot_nth:
  "i < length cs \<Longrightarrow> fill_slot b h cs ! i = fill_cell b h i (cs ! i)"
  by (simp add: fill_slot_def)

lemma length_fill_slot [simp]: "length (fill_slot b h cs) = length cs"
  by (simp add: fill_slot_def)

lemma seq_of_token:
  assumes "k < n * (m :: nat)"
  shows "k div m < n"
  using assms by (simp add: less_mult_imp_div_less)

lemma fill_cell_inside:
  assumes "batch_ok b" "h \<le> i" "i < h + ub_n_tokens b" "cell_ok cell"
  shows "cell_ok (fill_cell b h i cell)" "0 \<le> kc_pos (fill_cell b h i cell)"
proof -
  from assms have k: "i - h < ub_n_seqs b * ub_n_seq_tokens b" "i - h < length (ub_pos b)"
    by (auto simp: batch_ok_def)
  then have "ub_pos b ! (i - h) \<in> set (ub_pos b)"
    "ub_seq_id b ! ((i - h) div ub_n_seq_tokens b) \<in> set (ub_seq_id b)"
    using seq_of_token by auto
  with assms(1) have "0 \<le> ub_pos b ! (i - h)" "in_int32 (ub_pos b ! (i - h))"
    "ub_seq_id b ! ((i - h) div ub_n_seq_tokens b) \<noteq> []"
    by (fastforce simp: batch_ok_def in_int32_def)+
  with assms(2,4) k(1) show "cell_ok (fill_cell b h i cell)" "0 \<le> kc_pos (fill_cell b h i cell)"
    by (auto simp: fill_cell_def cell_ok_def Let_def)
qed

lemma fill_cell_outside:
  "batch_ok b \<Longrightarrow> \<not> (h \<le> i \<and> i < h + ub_n_tokens b) \<Longrightarrow> fill_cell b h i cell = cell"
  by (auto simp: fill_cell_def batch_ok_def)

lemma used_cells_card: "used_cells cs = card {i. i < length cs \<and> kc_pos (cs ! i) \<ge> 0}"
  by (simp add: used_cells_def length_filter_conv_card)

lemma used_fill_slot:
  assumes "batch_ok b" "free_run cs (ub_n_tokens b) h" "\<forall>c \<in> set cs. cell_ok c"
  shows "used_cells (fill_slot b h cs) = used_cells cs + ub_n_tokens b"
proof -
  let ?n = "ub_n_tokens b"
  have free: "kc_pos (cs ! i) < 0" if "h \<le> i" "i < h + ?n" for i
  proof -
    have "i - h < ?n" "h + (i - h) = i" using that by auto
    with assms(2) show ?thesis by (metis free_run_def)
  qed
  have "{i. i < length cs \<and> kc_pos (fill_slot b h cs ! i) \<ge> 0}
      = {i. i < length cs \<and> kc_pos (cs ! i) \<ge> 0} \<union> {h..<h + ?n}" (is "?A = ?B \<union> ?C")
  proof (rule set_eqI)
    fix i
    show "i \<in> ?A \<longleftrightarrow> i \<in> ?B \<union> ?C"
    proof (cases "h \<le> i \<and> i < h + ?n")
      case True
      moreover have "i < length cs" using True assms(2) by (auto simp: free_run_def)
      ultimately show ?thesis using fill_cell_inside(2) [OF assms(1), of h i "cs ! i"] assms(3)
        by (auto simp: fill_slot_nth)
    next
      case False
      then show ?thesis by (auto simp: fill_slot_nth fill_cell_outside [OF assms(1)])
    qed
  qed
  moreover have "?B \<inter> ?C = {}" using free by fastforce
  ultimately have "card ?A = card ?B + card ?C" by (simp add: card_Un_disjoint)
  then show ?thesis by (simp add: used_cells_card)
qed

lemma find_slot_result:
  assumes "kv_inv c" "batch_ok b"
  obtains (no) h where "llama_kv_cache_find_slot c b = Some (Inr (False, c\<lparr>kv_head := h\<rparr>))" "h \<le> kv_size c"
      "\<forall>s. \<not> free_run (kv_cells c) (ub_n_tokens b) s"
    | (yes) h where "llama_kv_cache_find_slot c b = Some (Inr (True, c\<lparr>kv_head := h,
        kv_cells := fill_slot b h (kv_cells c), kv_used := kv_used c + of_nat (ub_n_tokens b)\<rparr>))"
      "h \<le> kv_size c" "free_run (kv_cells c) (ub_n_tokens b) h"
proof (cases "ub_n_tokens b > kv_size c")
  case True
  with kv_inv_facts [OF assms(1)] show ?thesis
    by (intro no [of "kv_head c"]) (auto simp: llama_kv_cache_find_slot_def find_slot_plain_def free_run_def)
next
  case False
  note f = kv_inv_facts [OF assms(1)]
  from False f obtain ok h where s: "slot_search (kv_cells c) (kv_size c) (ub_n_tokens b) (kv_head c) 0 = Some (ok, h)"
    "h \<le> kv_size c" "if ok then free_run (kv_cells c) (ub_n_tokens b) h else (\<forall>s. \<not> free_run (kv_cells c) (ub_n_tokens b) s)"
    using slot_search_result [of "ub_n_tokens b" "kv_cells c" "kv_head c"] by auto
  show ?thesis
  proof (cases ok)
    case True
    with s(3) have "h + ub_n_tokens b \<le> length (kv_cells c)" by (simp add: free_run_def)
    with True s assms(2) False f(1) show ?thesis
      by (intro yes [of h]) (simp_all add: llama_kv_cache_find_slot_def find_slot_plain_def batch_ok_def)
  next
    case F: False
    with s False f(1) show ?thesis
      by (intro no [of h]) (simp_all add: llama_kv_cache_find_slot_def find_slot_plain_def)
  qed
qed

lemma find_slot_inv:
  assumes "kv_inv c" "batch_ok b" "llama_kv_cache_find_slot c b = Some (Inr (ok, c'))"
  shows "kv_inv c'"
  using assms(1,2)
proof (cases rule: find_slot_result)
  case (no h)
  then have "c' = c\<lparr>kv_head := h\<rparr>" using assms(3) by simp
  with no(2) assms(1) show ?thesis by (simp add: kv_inv_def)
next
  case (yes h)
  then have c': "c' = c\<lparr>kv_head := h, kv_cells := fill_slot b h (kv_cells c),
      kv_used := kv_used c + of_nat (ub_n_tokens b)\<rparr>" using assms(3) by simp
  have cells: "\<forall>cell \<in> set (kv_cells c). cell_ok cell" using kv_inv_facts(4) [OF assms(1)] by blast
  have "\<forall>cell \<in> set (fill_slot b h (kv_cells c)). cell_ok cell"
  proof
    fix cell assume "cell \<in> set (fill_slot b h (kv_cells c))"
    then obtain i where "i < length (kv_cells c)" "cell = fill_cell b h i (kv_cells c ! i)"
      by (auto simp: fill_slot_def)
    with cells show "cell_ok cell"
      by (cases "h \<le> i \<and> i < h + ub_n_tokens b")
        (auto simp: fill_cell_inside [OF assms(2)] fill_cell_outside [OF assms(2)])
  qed
  with c' yes(2) used_fill_slot [OF assms(2) yes(3) cells] assms(1) show ?thesis by (simp add: kv_inv_def)
qed

text \<open>C6: For a batch, the search of a Transformer cache always returns; it succeeds exactly when there
  is a run of free cells as long as the batch, then it has filled a free run that starts at the new
  head, and when it fails no cell has changed.\<close>

theorem find_slot_complete:
  assumes "kv_inv c" "batch_ok b"
  shows "\<exists>ok c'. llama_kv_cache_find_slot c b = Some (Inr (ok, c'))
    \<and> (ok \<longleftrightarrow> (\<exists>s. free_run (kv_cells c) (ub_n_tokens b) s))
    \<and> (if ok then free_run (kv_cells c) (ub_n_tokens b) (kv_head c')
            \<and> kv_cells c' = fill_slot b (kv_head c') (kv_cells c)
       else kv_cells c' = kv_cells c)"
  using assms by (cases rule: find_slot_result) auto

lemma kv_init_inv: "n < 2 ^ 30 \<Longrightarrow> kv_inv (kv_cache_init False n)"
proof -
  have "used_cells (replicate n empty_kv_cell) = 0"
    by (induction n) (simp_all add: empty_kv_cell_def)
  then show "n < 2 ^ 30 \<Longrightarrow> kv_inv (kv_cache_init False n)"
    by (auto simp: kv_inv_def kv_cache_init_def cell_ok_def empty_kv_cell_def in_int32_def INT32_MAX_def)
qed

definition sample_batch :: llama_ubatch where
  "sample_batch = \<lparr>ub_equal_seqs = False, ub_n_tokens = 2, ub_n_seq_tokens = 1, ub_pos = [0, 1],
     ub_seq_id = [[0], [0]]\<rparr>"

lemma sample_batch_ok: "batch_ok sample_batch"
  by (simp add: batch_ok_def sample_batch_def INT32_MAX_def)

theorem find_slot_complete_witness:
  "\<exists>c'. llama_kv_cache_find_slot (kv_cache_init False 3) sample_batch = Some (Inr (True, c'))"
proof -
  have "free_run (kv_cells (kv_cache_init False 3)) (ub_n_tokens sample_batch) 0"
    by (simp add: free_run_def kv_cache_init_def empty_kv_cell_def sample_batch_def)
  moreover have "kv_inv (kv_cache_init False 3)"
    by (rule kv_init_inv) simp
  ultimately show ?thesis using find_slot_complete [OF _ sample_batch_ok] by metis
qed

section \<open>Every reachable cache\<close>

inductive kv_step :: "llama_kv_cache \<Rightarrow> llama_kv_cache \<Rightarrow> bool" where
  clear: "kv_step c (llama_kv_cache_clear c)"
| rm: "llama_kv_cache_seq_rm c s p0 p1 = Inr (ok, c') \<Longrightarrow> kv_step c c'"
| cp: "llama_kv_cache_seq_cp c s d p0 p1 = Inr c' \<Longrightarrow> kv_step c c'"
| keep: "kv_step c (llama_kv_cache_seq_keep c s)"
| add: "llama_kv_cache_seq_add c s p0 p1 delta = Inr c' \<Longrightarrow> kv_step c c'"
| div: "0 < d \<Longrightarrow> llama_kv_cache_seq_div c s p0 p1 d = Inr c' \<Longrightarrow> kv_step c c'"
| defrag: "kv_step c (llama_kv_cache_defrag c)"
| slot: "batch_ok b \<Longrightarrow> llama_kv_cache_find_slot c b = Some (Inr (ok, c')) \<Longrightarrow> kv_step c c'"

lemma defrag_inv: "kv_inv c \<Longrightarrow> kv_inv (llama_kv_cache_defrag c)"
  by (simp add: llama_kv_cache_defrag_def kv_inv_def)

lemmas kv_op_inv = clear_inv seq_rm_inv seq_cp_inv seq_keep_inv seq_add_inv seq_div_inv defrag_inv find_slot_inv

lemma kv_step_inv: "kv_step c c' \<Longrightarrow> kv_inv c \<Longrightarrow> kv_inv c'"
proof (induction rule: kv_step.induct)
  case (rm c s p0 p1 ok c')
  then show ?case by (blast intro: seq_rm_inv)
next
  case (cp c s d p0 p1 c')
  then show ?case by (blast intro: seq_cp_inv)
next
  case (add c s p0 p1 delta c')
  then show ?case by (blast intro: seq_add_inv)
next
  case (div d c s p0 p1 c')
  then show ?case by (blast intro: seq_div_inv)
next
  case (slot b c ok c')
  then show ?case by (blast intro: find_slot_inv)
qed (simp_all add: clear_inv seq_keep_inv defrag_inv)

interpretation kv: initial_system kv_step kv_inv "\<lambda>c. \<exists>n < 2 ^ 30. c = kv_cache_init False n"
  by unfold_locales (auto intro: kv_step_inv kv_init_inv)

text \<open>C5: In every cache of a Transformer model reachable from a fresh one by searching slots and by the operations on
  sequences, the counter \<^verbatim>\<open>used\<close> is the number of cells with a position, these are exactly
  the cells that belong to a sequence, and \<^verbatim>\<open>head\<close> stays within the cache.\<close>

theorem kv_used_counts:
  assumes "n < 2 ^ 30" "kv_step\<^sup>*\<^sup>* (kv_cache_init False n) c"
  shows "kv_used c = of_nat (card {i. i < kv_size c \<and> kc_seq_id (kv_cells c ! i) \<noteq> {}})
    \<and> (\<forall>i < kv_size c. 0 \<le> kc_pos (kv_cells c ! i) \<longleftrightarrow> kc_seq_id (kv_cells c ! i) \<noteq> {})
    \<and> kv_head c \<le> kv_size c"
proof -
  have "kv_inv c" using kv.reachable_inv [OF _ assms(2)] assms(1) by blast
  note f = kv_inv_facts [OF this]
  have eq: "\<forall>i < kv_size c. 0 \<le> kc_pos (kv_cells c ! i) \<longleftrightarrow> kc_seq_id (kv_cells c ! i) \<noteq> {}"
    using f(2) f(4) by (metis cell_ok_def nth_mem)
  with f(2) have "{i. i < length (kv_cells c) \<and> kc_pos (kv_cells c ! i) \<ge> 0}
      = {i. i < kv_size c \<and> kc_seq_id (kv_cells c ! i) \<noteq> {}}" by auto
  with \<open>kv_inv c\<close> f(3) eq show ?thesis by (simp add: kv_inv_def used_cells_card)
qed

theorem kv_used_counts_witness:
  "\<exists>c. llama_kv_cache_find_slot (kv_cache_init False 3) sample_batch = Some (Inr (True, c)) \<and> kv_used c = 2
     \<and> kv_used c = of_nat (card {i. i < 3 \<and> kc_seq_id (kv_cells c ! i) \<noteq> {}})"
proof -
  have i: "kv_inv (kv_cache_init False 3)" by (rule kv_init_inv) simp
  have f: "free_run (kv_cells (kv_cache_init False 3)) (ub_n_tokens sample_batch) 0"
    by (simp add: free_run_def kv_cache_init_def empty_kv_cell_def sample_batch_def)
  from i sample_batch_ok obtain c where c: "kv_size c = 3" "kv_used c = 2"
    "llama_kv_cache_find_slot (kv_cache_init False 3) sample_batch = Some (Inr (True, c))"
  proof (cases rule: find_slot_result)
    case (yes h)
    show thesis by (rule that [OF _ _ yes(1)]) (simp_all add: kv_cache_init_def sample_batch_def)
  qed (use f in blast)
  from kv_used_counts [of 3, OF _ r_into_rtranclp [of kv_step, OF kv_step.slot [OF sample_batch_ok c(3)]]] c
  show ?thesis by auto
qed

section \<open>What the operations mean for the sequences\<close>

type_synonym kv_view = "int \<Rightarrow> nat \<Rightarrow> int option"

definition cell_view :: "llama_kv_cell \<Rightarrow> int \<Rightarrow> int option" where
  "cell_view cell s = (if has_seq_id cell s then Some (kc_pos cell) else None)"

definition kv_view :: "llama_kv_cache \<Rightarrow> kv_view" where
  "kv_view c s i = (if i < length (kv_cells c) then cell_view (kv_cells c ! i) s else None)"

text \<open>The promised effect: removing a sequence's positions (or, for a negative id, everybody's)
  from a range, copying, keeping one, and shifting or dividing the positions of the cells of a
  sequence, which changes a cell shared with another sequence for both; shifting forgets positions that become
  negative.\<close>

definition view_rm :: "int \<Rightarrow> int \<times> int \<Rightarrow> kv_view \<Rightarrow> kv_view" where
  "view_rm seq_id r v s i =
     (case v s i of
        None \<Rightarrow> None
      | Some p \<Rightarrow> if in_range r p \<and> (seq_id < 0 \<or> s = seq_id) then None else Some p)"

definition view_cp :: "int \<Rightarrow> int \<Rightarrow> int \<times> int \<Rightarrow> kv_view \<Rightarrow> kv_view" where
  "view_cp src dst r v s i =
     (case v src i of
        Some p \<Rightarrow> if s = dst \<and> in_range r p then Some p else v s i
      | None \<Rightarrow> v s i)"

definition view_keep :: "int \<Rightarrow> kv_view \<Rightarrow> kv_view" where
  "view_keep seq_id v s i = (if s = seq_id then v s i else None)"

definition view_add :: "int \<Rightarrow> int \<times> int \<Rightarrow> int \<Rightarrow> kv_view \<Rightarrow> kv_view" where
  "view_add seq_id r delta v s i =
     (case v seq_id i of
        Some p \<Rightarrow>
          if fst r \<noteq> snd r \<and> in_range r p then
            (if p + delta < 0 then None else map_option (\<lambda>q. q + delta) (v s i))
          else v s i
      | None \<Rightarrow> v s i)"

definition view_div :: "int \<Rightarrow> int \<times> int \<Rightarrow> int \<Rightarrow> kv_view \<Rightarrow> kv_view" where
  "view_div seq_id r d v s i =
     (case v seq_id i of
        Some p \<Rightarrow>
          if fst r \<noteq> snd r \<and> in_range r p then map_option (\<lambda>q. sgn d * (q div \<bar>d\<bar>)) (v s i) else v s i
      | None \<Rightarrow> v s i)"

lemma kv_view_map:
  assumes "length cs' = length (kv_cells c)" "\<forall>i < length (kv_cells c). cell_view (cs' ! i) s = g i"
  shows "kv_view (c\<lparr>kv_has_shift := b, kv_cells := cs', kv_used := u, kv_head := h\<rparr>) s i
    = (if i < length (kv_cells c) then g i else None)"
  using assms by (simp add: kv_view_def)

lemma seq_rm_view:
  assumes "kv_inv c" "llama_kv_cache_seq_rm c seq_id p0 p1 = Inr (ok, c')"
  shows "ok \<and> kv_view c' = view_rm seq_id (seq_range p0 p1) (kv_view c)"
proof (rule seq_rm_eq [OF assms])
  fix cs u nh
  let ?r = "seq_range p0 p1"
  assume ok: "ok"
    and l: "cells_loop (seq_rm_cell seq_id ?r) (kv_size c) 0 (kv_cells c) (kv_used c) (kv_size c) = (cs, u, nh)"
    and c': "c' = c\<lparr>kv_has_shift := kv_has_shift c, kv_cells := cs, kv_used := u,
       kv_head := (if nh \<noteq> kv_size c \<and> nh < kv_head c then nh else kv_head c)\<rparr>"
  have cell: "cell_view (fst (seq_rm_cell seq_id ?r i cell)) s = (if has_seq_id cell s
      then if in_range ?r (kc_pos cell) \<and> (seq_id < 0 \<or> s = seq_id) then None else Some (kc_pos cell)
      else None)" for i cell s
    by (auto simp: cell_view_def seq_rm_cell_def Let_def)
  have "kv_view c' s i = view_rm seq_id ?r (kv_view c) s i" for s i
    using rm.loop_cells [OF l] cell [of i "kv_cells c ! i" s]
    by (simp add: c' kv_view_def view_rm_def cell_view_def)
  with ok show ?thesis by (simp add: fun_eq_iff)
qed

lemma seq_cp_view:
  assumes "kv_inv c" "llama_kv_cache_seq_cp c src dst p0 p1 = Inr c'"
  shows "kv_view c' = view_cp src dst (seq_range p0 p1) (kv_view c)"
proof -
  have c': "c' = c\<lparr>kv_head := 0, kv_cells := map (seq_cp_cell src dst (seq_range p0 p1)) (kv_cells c)\<rparr>"
    using assms(2) kv_inv_facts(1) [OF assms(1)] by (simp add: llama_kv_cache_seq_cp_def Let_def)
  have "kv_view c' s i = view_cp src dst (seq_range p0 p1) (kv_view c) s i" for s i
    by (auto simp: c' kv_view_def view_cp_def cell_view_def seq_cp_cell_def)
  then show ?thesis by (simp add: fun_eq_iff)
qed

lemma seq_keep_view:
  assumes "kv_inv c"
  shows "kv_view (llama_kv_cache_seq_keep c seq_id) = view_keep seq_id (kv_view c)"
proof (rule seq_keep_eq [OF assms, of seq_id])
  fix cs u nh
  assume l: "cells_loop (seq_keep_cell False seq_id) (kv_size c) 0 (kv_cells c) (kv_used c) (kv_size c) = (cs, u, nh)"
    and c': "llama_kv_cache_seq_keep c seq_id = c\<lparr>kv_has_shift := kv_has_shift c, kv_cells := cs, kv_used := u,
       kv_head := (if nh \<noteq> kv_size c \<and> nh < kv_head c then nh else kv_head c)\<rparr>"
  have cell: "cell_view (fst (seq_keep_cell False seq_id i cell)) s
      = (if s = seq_id then cell_view cell s else None)" for i cell s
    by (auto simp: cell_view_def seq_keep_cell_def Let_def)
  have "kv_view (llama_kv_cache_seq_keep c seq_id) s i = view_keep seq_id (kv_view c) s i" for s i
    using keep.loop_cells [OF l] cell [of i "kv_cells c ! i" s]
    by (cases "s = seq_id") (simp_all add: c' kv_view_def view_keep_def)
  then show ?thesis by (simp add: fun_eq_iff)
qed

lemma seq_add_view:
  assumes "kv_inv c" "llama_kv_cache_seq_add c seq_id p0 p1 delta = Inr c'"
  shows "kv_view c' = view_add seq_id (seq_range p0 p1) delta (kv_view c)"
proof -
  let ?r = "seq_range p0 p1"
  note f = kv_inv_facts(1) [OF assms(1)]
  have cell: "cell_view (fst (seq_add_cell seq_id ?r delta i cell)) s =
      (if seq_hit seq_id ?r cell then
         (if kc_pos cell + delta < 0 then None else map_option (\<lambda>q. q + delta) (cell_view cell s))
       else cell_view cell s)" for i cell s
    by (auto simp: cell_view_def seq_add_cell_def Let_def seq_hit_def)
  show ?thesis
  proof (cases "fst ?r = snd ?r")
    case True
    with assms(2) have "c' = c" by (simp add: llama_kv_cache_seq_add_def)
    with True show ?thesis by (simp add: fun_eq_iff view_add_def split: option.splits)
  next
    case False
    obtain cs u nh where l: "cells_loop (seq_add_cell seq_id ?r delta) (kv_size c) 0 (kv_cells c) (kv_used c) (kv_size c) = (cs, u, nh)"
      by (meson prod_cases3)
    have c': "c' = c\<lparr>kv_has_shift := kv_has_shift c \<or> list_ex (seq_hit seq_id ?r) (kv_cells c),
        kv_cells := cs, kv_used := u, kv_head := (if nh \<noteq> kv_size c then nh else 0)\<rparr>"
      using assms(2) l False f by (simp add: llama_kv_cache_seq_add_def Let_def split: if_splits)
    have "kv_view c' s i = view_add seq_id ?r delta (kv_view c) s i" for s i
      using add.loop_cells [OF l] cell [of i "kv_cells c ! i" s] False
      by (simp add: c' kv_view_def view_add_def seq_hit_def cell_view_def)
    then show ?thesis by (simp add: fun_eq_iff)
  qed
qed

lemma seq_div_view:
  assumes "kv_inv c" "llama_kv_cache_seq_div c seq_id p0 p1 d = Inr c'"
  shows "kv_view c' = view_div seq_id (seq_range p0 p1) d (kv_view c)"
proof -
  let ?r = "seq_range p0 p1"
  show ?thesis
  proof (cases "fst ?r = snd ?r")
    case True
    with assms(2) have "c' = c" by (simp add: llama_kv_cache_seq_div_def)
    with True show ?thesis by (simp add: fun_eq_iff view_div_def split: option.splits)
  next
    case False
    have c': "c' = c\<lparr>kv_has_shift := kv_has_shift c \<or> list_ex (seq_hit seq_id ?r) (kv_cells c),
        kv_cells := map (seq_div_cell seq_id ?r d) (kv_cells c)\<rparr>"
      using assms(2) False kv_inv_facts(1) [OF assms(1)]
      by (simp add: llama_kv_cache_seq_div_def Let_def split: if_splits)
    have "kv_view c' s i = view_div seq_id ?r d (kv_view c) s i" for s i
      using False by (simp add: c' kv_view_def view_div_def cell_view_def seq_div_cell_def seq_hit_def Let_def)
    then show ?thesis by (simp add: fun_eq_iff)
  qed
qed

text \<open>The early returns of the interface change nothing of this.\<close>

lemma ctx_seq_add_view:
  assumes "kv_inv c" "ctx_seq_add c seq_id p0 p1 delta = Inr c'"
  shows "kv_view c' = view_add seq_id (seq_range p0 p1) delta (kv_view c)"
proof (cases "delta = 0")
  case True
  with assms(2) have "c' = c" by (simp add: ctx_seq_add_def)
  with True show ?thesis
    by (auto simp: fun_eq_iff view_add_def option.map_ident dest: in_range_nonneg split: option.splits)
qed (use assms seq_add_view in \<open>simp add: ctx_seq_add_def\<close>)

lemma ctx_seq_div_view:
  assumes "kv_inv c" "ctx_seq_div c seq_id p0 p1 d = Inr c'"
  shows "kv_view c' = view_div seq_id (seq_range p0 p1) d (kv_view c)"
proof (cases "d = 1")
  case True
  with assms(2) have "c' = c" by (simp add: ctx_seq_div_def)
  with True show ?thesis by (simp add: fun_eq_iff view_div_def option.map_ident split: option.splits)
qed (use assms seq_div_view in \<open>simp add: ctx_seq_div_def\<close>)

lemma ctx_seq_add_inv: "kv_inv c \<Longrightarrow> ctx_seq_add c seq_id p0 p1 delta = Inr c' \<Longrightarrow> kv_inv c'"
  by (auto simp: ctx_seq_add_def intro: seq_add_inv split: if_splits)

text \<open>C9: On a cache of a Transformer model the operations on sequences implement the specification
  over the view: removing, copying, keeping, shifting and dividing do to the positions of every sequence
  what is promised, and nothing else.  (On a recurrent cache a partial range is refused instead, and an
  overflow of a position or a division by zero is undefined behaviour.)\<close>

theorem kv_ops_refine:
  assumes "kv_inv c"
  shows "(llama_kv_cache_seq_rm c s p0 p1 = Inr (ok, c1) \<longrightarrow>
        ok \<and> kv_view c1 = view_rm s (seq_range p0 p1) (kv_view c))
    \<and> (llama_kv_cache_seq_cp c s d p0 p1 = Inr c2 \<longrightarrow>
        kv_view c2 = view_cp s d (seq_range p0 p1) (kv_view c))
    \<and> kv_view (llama_kv_cache_seq_keep c s) = view_keep s (kv_view c)
    \<and> (ctx_seq_add c s p0 p1 delta = Inr c3 \<longrightarrow>
        kv_view c3 = view_add s (seq_range p0 p1) delta (kv_view c))
    \<and> (ctx_seq_div c s p0 p1 dv = Inr c4 \<longrightarrow>
        kv_view c4 = view_div s (seq_range p0 p1) dv (kv_view c))"
  by (intro conjI impI seq_keep_view [OF assms])
    (auto simp: seq_cp_view [OF assms] ctx_seq_add_view [OF assms] ctx_seq_div_view [OF assms]
      dest: seq_rm_view [OF assms])

definition sample_cache :: llama_kv_cache where
  "sample_cache =
     (kv_cache_init False 2)\<lparr>kv_used := 2,
        kv_cells := [empty_kv_cell\<lparr>kc_pos := 0, kc_seq_id := {0}\<rparr>, empty_kv_cell\<lparr>kc_pos := 1, kc_seq_id := {0, 1}\<rparr>]\<rparr>"

theorem kv_ops_refine_witness:
  "\<exists>c1. llama_kv_cache_seq_rm sample_cache 0 1 (- 1) = Inr (True, c1)
      \<and> kv_view c1 = view_rm 0 (1, INT32_MAX) (kv_view sample_cache)"
proof -
  have i: "kv_inv sample_cache"
    by (simp add: kv_inv_def sample_cache_def kv_cache_init_def cell_ok_def empty_kv_cell_def in_int32_def
        INT32_MAX_def)
  have "\<exists>c1. llama_kv_cache_seq_rm sample_cache 0 1 (- 1) = Inr (True, c1)"
    unfolding llama_kv_cache_seq_rm_def
    by (simp add: sample_cache_def kv_cache_init_def Let_def case_prod_unfold del: cells_loop.simps)
  then obtain c1 where c1: "llama_kv_cache_seq_rm sample_cache 0 1 (- 1) = Inr (True, c1)" by blast
  have "kv_view c1 = view_rm 0 (seq_range 1 (- 1)) (kv_view sample_cache)"
    using kv_ops_refine [OF i, of 0 1 "- 1" True c1] c1 by blast
  with c1 show ?thesis by (simp add: seq_range_def)
qed

end
