(* ===== verification/RingBuffer.thy ===== *)
theory RingBuffer
  imports Cpp_Prelude
begin

text \<open>
  The fixed-capacity \<^verbatim>\<open>ring_buffer\<close> of \<^verbatim>\<open>common/sampling.cpp\<close> in which the sampler keeps the tokens it
  has accepted, against its contract: it holds the last \<open>capacity\<close> elements pushed.
\<close>

section \<open>The contract\<close>

locale bounded_history =
  fixes good :: "'r \<Rightarrow> bool"
    and contents :: "'r \<Rightarrow> 'a list"
    and push :: "'a \<Rightarrow> 'r \<Rightarrow> 'r"
    and cap :: "'r \<Rightarrow> nat"
  assumes push_good: "good r \<Longrightarrow> good (push x r)"
    and push_cap: "cap (push x r) = cap r"
    and contents_le: "good r \<Longrightarrow> length (contents r) \<le> cap r"
    and cap_pos: "good r \<Longrightarrow> 0 < cap r"
    and contents_push: "good r \<Longrightarrow>
      contents (push x r) = (if length (contents r) = cap r then tl (contents r) else contents r) @ [x]"
begin

lemma push_many_good: "good r \<Longrightarrow> good (fold push xs r)"
  by (induction xs arbitrary: r) (auto intro: push_good)

lemma push_many_cap [simp]: "cap (fold push xs r) = cap r"
  by (induction xs arbitrary: r) (simp_all add: push_cap)

lemma contents_push_last: "good r \<Longrightarrow> contents (push x r) = drop (length (contents r) + 1 - cap r) (contents r @ [x])"
  using contents_le [of r] cap_pos [of r] by (auto simp: contents_push drop_Suc)

lemma contents_push_many:
  "good r \<Longrightarrow> contents (fold push xs r) = drop (length (contents r) + length xs - cap r) (contents r @ xs)"
proof (induction xs arbitrary: r)
  case Nil
  then show ?case using contents_le [of r] by simp
next
  case (Cons x xs)
  let ?c = "contents r" and ?a = "length (contents r) + 1 - cap r"
  have le: "length ?c \<le> cap r" "0 < cap r" by (rule contents_le [OF Cons.prems], rule cap_pos [OF Cons.prems])
  have p: "contents (push x r) = drop ?a (?c @ [x])" by (rule contents_push_last [OF Cons.prems])
  have "drop ?a (?c @ [x]) @ xs = drop ?a (?c @ x # xs)" using le by simp
  then have "contents (fold push xs (push x r))
      = drop (length (drop ?a (?c @ [x])) + length xs - cap r) (drop ?a (?c @ x # xs))"
    using Cons.IH [OF push_good [OF Cons.prems]] by (simp only: p push_cap)
  moreover have "length (drop ?a (?c @ [x])) + length xs - cap r + ?a = length ?c + length (x # xs) - cap r"
    using le by simp
  ultimately show ?case by (simp only: fold_simps drop_drop)
qed

end

section \<open>The buffer\<close>

record 'a ring_buffer =
  rb_capacity :: nat
  rb_sz :: nat
  rb_first :: nat
  rb_pos :: nat
  rb_data :: "'a list"

definition ring_buffer_init :: "'a \<Rightarrow> nat \<Rightarrow> 'a ring_buffer" where
  "ring_buffer_init z n = \<lparr>rb_capacity = n, rb_sz = 0, rb_first = 0, rb_pos = 0, rb_data = replicate n z\<rparr>"

definition rb_front :: "'a ring_buffer \<Rightarrow> 'a result" where
  "rb_front r =
     (if rb_sz r = 0 then Inl (Runtime_Error ''ring buffer is empty'') else vec_at (rb_data r) (rb_first r))"

definition rb_back :: "'a ring_buffer \<Rightarrow> 'a result" where
  "rb_back r =
     (if rb_sz r = 0 then Inl (Runtime_Error ''ring buffer is empty'') else vec_at (rb_data r) (rb_pos r))"

text \<open>A remainder by zero and a write past the vector are undefined behaviour.\<close>

definition rb_push_back :: "'a \<Rightarrow> 'a ring_buffer \<Rightarrow> 'a ring_buffer result" where
  "rb_push_back v r =
     (if rb_capacity r = 0 \<or> rb_pos r \<ge> length (rb_data r) then Inl Undefined_Behaviour
      else Inr (r\<lparr>rb_first := (if rb_sz r = rb_capacity r then (rb_first r + 1) mod rb_capacity r else rb_first r),
                  rb_sz := (if rb_sz r = rb_capacity r then rb_sz r else rb_sz r + 1),
                  rb_data := (rb_data r)[rb_pos r := v],
                  rb_pos := (rb_pos r + 1) mod rb_capacity r\<rparr>))"

definition rb_pop_front :: "'a ring_buffer \<Rightarrow> ('a \<times> 'a ring_buffer) result" where
  "rb_pop_front r =
     (if rb_sz r = 0 then Inl (Runtime_Error ''ring buffer is empty'')
      else
        rbind (vec_at (rb_data r) (rb_first r)) (\<lambda>value.
          Inr (value, r\<lparr>rb_first := (rb_first r + 1) mod rb_capacity r, rb_sz := rb_sz r - 1\<rparr>)))"

definition rb_rat :: "'a ring_buffer \<Rightarrow> nat \<Rightarrow> 'a result" where
  "rb_rat r i =
     (if i \<ge> rb_sz r then Inl (Runtime_Error ''ring buffer: index out of bounds'')
      else vec_at (rb_data r) ((rb_first r + rb_sz r - i - 1) mod rb_capacity r))"

definition rb_to_vector :: "'a ring_buffer \<Rightarrow> 'a list" where
  "rb_to_vector r = map (\<lambda>i. rb_data r ! ((rb_first r + i) mod rb_capacity r)) [0..<rb_sz r]"

definition rb_clear :: "'a ring_buffer \<Rightarrow> 'a ring_buffer" where
  "rb_clear r = r\<lparr>rb_sz := 0, rb_first := 0, rb_pos := 0\<rparr>"

definition rb_ok :: "'a ring_buffer \<Rightarrow> bool" where
  "rb_ok r \<longleftrightarrow> 0 < rb_capacity r \<and> length (rb_data r) = rb_capacity r \<and> rb_sz r \<le> rb_capacity r
     \<and> rb_first r < rb_capacity r \<and> rb_pos r = (rb_first r + rb_sz r) mod rb_capacity r"

section \<open>The buffer meets the contract\<close>

definition rb_push :: "'a \<Rightarrow> 'a ring_buffer \<Rightarrow> 'a ring_buffer" where
  "rb_push v r = (case rb_push_back v r of Inr r' \<Rightarrow> r' | Inl _ \<Rightarrow> r)"

lemma rb_pos_less: "rb_ok r \<Longrightarrow> rb_pos r < rb_capacity r \<and> rb_pos r < length (rb_data r)"
  by (simp add: rb_ok_def)

lemma rb_push_back_ok: "rb_ok r \<Longrightarrow> rb_push_back v r = Inr (rb_push v r)"
  using rb_pos_less [of r] by (simp add: rb_push_def rb_push_back_def)

lemma rb_push_fields:
  assumes "rb_ok r"
  shows "rb_capacity (rb_push v r) = rb_capacity r"
    "rb_first (rb_push v r) = (if rb_sz r = rb_capacity r then (rb_first r + 1) mod rb_capacity r else rb_first r)"
    "rb_sz (rb_push v r) = (if rb_sz r = rb_capacity r then rb_sz r else rb_sz r + 1)"
    "rb_data (rb_push v r) = (rb_data r)[rb_pos r := v]"
    "rb_pos (rb_push v r) = (rb_pos r + 1) mod rb_capacity r"
  using rb_pos_less [OF assms] by (simp_all add: rb_push_def rb_push_back_def)

lemma rb_push_ok:
  assumes "rb_ok r"
  shows "rb_ok (rb_push v r)"
  using assms mod_add_self2 [of "Suc (rb_first r)" "rb_capacity r"]
  unfolding rb_ok_def rb_push_fields [OF assms]
  by (auto simp: mod_simps)

lemma rb_slot_inj:
  assumes "f < c" "i < c" "j < c" "(f + i) mod c = (f + j) mod (c :: nat)"
  shows "i = j"
proof -
  have w: "(f + k) mod c = (if f + k < c then f + k else f + k - c)" if "k < c" for k
    using that assms(1) by (simp add: mod_if)
  from assms show ?thesis by (simp add: w split: if_splits)
qed

lemma rb_to_vector_push:
  assumes "rb_ok r"
  shows "rb_to_vector (rb_push v r) =
    (if length (rb_to_vector r) = rb_capacity r then tl (rb_to_vector r) else rb_to_vector r) @ [v]"
proof (cases "rb_sz r = rb_capacity r")
  case False
  let ?c = "rb_capacity r"
  from assms False have n: "rb_sz r < ?c" "rb_first r < ?c" "length (rb_data r) = ?c"
    "rb_pos r = (rb_first r + rb_sz r) mod ?c" by (auto simp: rb_ok_def)
  have "(rb_data r)[rb_pos r := v] ! ((rb_first r + i) mod ?c) = rb_data r ! ((rb_first r + i) mod ?c)"
    if "i < rb_sz r" for i
    using rb_slot_inj [OF n(2), of i "rb_sz r"] that n by (subst nth_list_update_neq) auto
  moreover have "(rb_data r)[rb_pos r := v] ! ((rb_first r + rb_sz r) mod ?c) = v"
    using n by (simp add: nth_list_update_eq)
  ultimately show ?thesis using False
    by (simp add: rb_to_vector_def rb_push_fields [OF assms])
next
  case True
  let ?c = "rb_capacity r"
  from assms True have n: "0 < ?c" "rb_first r < ?c" "length (rb_data r) = ?c" "rb_pos r = rb_first r"
    by (auto simp: rb_ok_def)
  have s: "((rb_first r + 1) mod ?c + i) mod ?c = (rb_first r + Suc i) mod ?c" for i
    by (simp add: mod_simps)
  have last: "((rb_first r + 1) mod ?c + (?c - 1)) mod ?c = rb_first r"
    using n s [of "?c - 1"] by simp
  have up: "[0..<?c] = 0 # map Suc [0..<?c - 1]" "[0..<?c] = [0..<?c - 1] @ [?c - 1]"
    using n(1) upt_Suc_append [of 0 "?c - 1"] by (simp_all add: upt_conv_Cons map_Suc_upt)
  have "(rb_data r)[rb_first r := v] ! ((rb_first r + Suc i) mod ?c) = rb_data r ! ((rb_first r + Suc i) mod ?c)"
    if "i < ?c - 1" for i
  proof -
    from that have "Suc i < ?c" by simp
    with rb_slot_inj [OF n(2) this, of 0] n have "(rb_first r + Suc i) mod ?c \<noteq> rb_first r" by auto
    then show ?thesis by simp
  qed
  then have "map (\<lambda>i. (rb_data r)[rb_first r := v] ! ((rb_first r + Suc i) mod ?c)) [0..<?c - 1]
      = map (\<lambda>i. rb_data r ! ((rb_first r + Suc i) mod ?c)) [0..<?c - 1]" by simp
  moreover have "rb_to_vector (rb_push v r) =
      map (\<lambda>i. (rb_data r)[rb_first r := v] ! ((rb_first r + Suc i) mod ?c)) [0..<?c - 1] @ [v]"
  proof -
    have "rb_to_vector (rb_push v r)
        = map (\<lambda>i. (rb_data r)[rb_first r := v] ! (((rb_first r + 1) mod ?c + i) mod ?c)) [0..<?c]"
      using True n(4) by (simp add: rb_to_vector_def rb_push_fields [OF assms])
    also have "\<dots> = map (\<lambda>i. (rb_data r)[rb_first r := v] ! ((rb_first r + Suc i) mod ?c)) ([0..<?c - 1] @ [?c - 1])"
      by (simp only: s up(2))
    also have "\<dots> = map (\<lambda>i. (rb_data r)[rb_first r := v] ! ((rb_first r + Suc i) mod ?c)) [0..<?c - 1] @ [v]"
      using n by simp
    finally show ?thesis .
  qed
  moreover have "tl (rb_to_vector r) = map (\<lambda>i. rb_data r ! ((rb_first r + Suc i) mod ?c)) [0..<?c - 1]"
    unfolding rb_to_vector_def using True by (simp only: up(1) list.map map_map comp_def list.sel)
  moreover have "length (rb_to_vector r) = ?c" using True by (simp add: rb_to_vector_def)
  ultimately show ?thesis by simp
qed

interpretation ring: bounded_history rb_ok rb_to_vector rb_push rb_capacity
proof
  fix r :: "'a ring_buffer" and x
  show "rb_ok r \<Longrightarrow> rb_ok (rb_push x r)" by (rule rb_push_ok)
  show "rb_capacity (rb_push x r) = rb_capacity r" by (simp add: rb_push_def rb_push_back_def)
  show "rb_ok r \<Longrightarrow> length (rb_to_vector r) \<le> rb_capacity r" by (simp add: rb_to_vector_def rb_ok_def)
  show "rb_ok r \<Longrightarrow> 0 < rb_capacity r" by (simp add: rb_ok_def)
  show "rb_ok r \<Longrightarrow> rb_to_vector (rb_push x r) =
      (if length (rb_to_vector r) = rb_capacity r then tl (rb_to_vector r) else rb_to_vector r) @ [x]"
    by (rule rb_to_vector_push)
qed

lemma rb_init_ok: "0 < n \<Longrightarrow> rb_ok (ring_buffer_init z n)"
  by (simp add: rb_ok_def ring_buffer_init_def)

lemma length_rb_to_vector [simp]: "length (rb_to_vector r) = rb_sz r"
  by (simp add: rb_to_vector_def)

lemma rb_rat_eq:
  assumes "rb_ok r" "i < rb_sz r"
  shows "rb_rat r i = Inr (rb_to_vector r ! (rb_sz r - 1 - i))"
proof -
  have "rb_first r + rb_sz r - i - 1 = rb_first r + (rb_sz r - 1 - i)" using assms(2) by simp
  with assms show ?thesis by (simp add: rb_rat_def rb_to_vector_def rb_ok_def)
qed

lemma rb_pop_front_eq:
  assumes "rb_ok r" "rb_sz r \<noteq> 0"
  shows "\<exists>r'. rb_pop_front r = Inr (hd (rb_to_vector r), r') \<and> rb_ok r'
    \<and> rb_to_vector r' = tl (rb_to_vector r)"
proof -
  let ?c = "rb_capacity r"
  let ?r = "r\<lparr>rb_first := (rb_first r + 1) mod ?c, rb_sz := rb_sz r - 1\<rparr>"
  from assms have n: "rb_first r < ?c" "length (rb_data r) = ?c" by (auto simp: rb_ok_def)
  have up: "[0..<rb_sz r] = 0 # map Suc [0..<rb_sz r - 1]"
    using assms(2) by (simp add: upt_conv_Cons map_Suc_upt)
  have v: "rb_to_vector r = rb_data r ! rb_first r #
      map (\<lambda>i. rb_data r ! ((rb_first r + Suc i) mod ?c)) [0..<rb_sz r - 1]"
    unfolding rb_to_vector_def up using n by simp
  have "rb_pop_front r = Inr (rb_data r ! rb_first r, ?r)" using assms(2) n by (simp add: rb_pop_front_def)
  moreover have "rb_to_vector ?r = tl (rb_to_vector r)" unfolding v
    by (simp add: rb_to_vector_def mod_simps)
  moreover have "((rb_first r + 1) mod ?c + (rb_sz r - 1)) mod ?c = (rb_first r + rb_sz r) mod ?c"
    unfolding mod_add_left_eq using assms(2) by simp
  then have "rb_ok ?r" using assms by (auto simp: rb_ok_def)
  ultimately show ?thesis using v by auto
qed

lemma ring_pushed:
  assumes "0 < n"
  shows "rb_ok (fold rb_push xs (ring_buffer_init z n))"
    "rb_to_vector (fold rb_push xs (ring_buffer_init z n)) = drop (length xs - n) xs"
    "rb_capacity (fold rb_push xs (ring_buffer_init z n)) = n"
    "rb_sz (fold rb_push xs (ring_buffer_init z n)) = min n (length xs)"
proof -
  note ok = rb_init_ok [OF assms, of z]
  show "rb_ok (fold rb_push xs (ring_buffer_init z n))" by (rule ring.push_many_good [OF ok])
  show v: "rb_to_vector (fold rb_push xs (ring_buffer_init z n)) = drop (length xs - n) xs"
    unfolding ring.contents_push_many [OF ok] by (simp add: rb_to_vector_def ring_buffer_init_def)
  show "rb_capacity (fold rb_push xs (ring_buffer_init z n)) = n"
    by (simp add: ring_buffer_init_def)
  show "rb_sz (fold rb_push xs (ring_buffer_init z n)) = min n (length xs)"
    using arg_cong [OF v, of length] by auto
qed

text \<open>After any sequence of pushes into a fresh buffer of positive capacity, the buffer holds the
  last \<open>capacity\<close> elements pushed, in order, and reverse access reads them from the newest.\<close>

theorem ring_keeps_last:
  assumes "0 < n"
  shows "rb_to_vector (fold rb_push xs (ring_buffer_init z n)) = drop (length xs - n) xs
    \<and> (\<forall>i < min n (length xs). rb_rat (fold rb_push xs (ring_buffer_init z n)) i = Inr (rev xs ! i))"
proof -
  let ?r = "fold rb_push xs (ring_buffer_init z n)"
  note ok = ring_pushed(1) [OF assms, of xs z] and v = ring_pushed(2) [OF assms, of xs z]
    and sz = ring_pushed(4) [OF assms, of xs z]
  have "rb_rat ?r i = Inr (rev xs ! i)" if "i < min n (length xs)" for i
    using rb_rat_eq [OF ok, of i] that rev_nth [of i xs] by (auto simp: sz v min_def split: if_splits)
  with v show ?thesis by blast
qed

theorem ring_keeps_last_witness:
  "rb_to_vector (fold rb_push [1, 2, 3, 4, 5] (ring_buffer_init (0::int) 3)) = [3, 4, 5]"
  using ring_keeps_last [of 3 "[1, 2, 3, 4, 5]" "0::int"] by simp

text \<open>\<^verbatim>\<open>back()\<close> does not return the newest element: it reads the slot the next push will use,
  which in a full buffer holds the oldest element.\<close>

theorem ring_back_is_oldest:
  assumes "0 < n" "n \<le> length xs"
  shows "rb_back (fold rb_push xs (ring_buffer_init z n)) = Inr (xs ! (length xs - n))"
proof -
  define r where "r = fold rb_push xs (ring_buffer_init z n)"
  note f = ring_pushed [OF assms(1), of xs z, folded r_def]
  have sz: "rb_sz r = n" using f(4) assms(2) by simp
  have p: "rb_pos r = rb_first r" "rb_first r < length (rb_data r)" "rb_first r < n"
    using f(1,3) sz by (auto simp: rb_ok_def)
  then have "rb_to_vector r ! 0 = rb_data r ! rb_first r"
    using assms(1) by (simp add: rb_to_vector_def sz f(3))
  with p f(2) assms sz show ?thesis unfolding r_def [symmetric] by (simp add: rb_back_def)
qed

theorem ring_back_is_oldest_witness:
  "rb_back (fold rb_push [1, 2, 3] (ring_buffer_init (0::int) 3)) = Inr 1"
  using ring_back_is_oldest [of 3 "[1, 2, 3]" "0::int"] by simp

section \<open>The sampler's history\<close>

definition gpt_sampler_last :: "int ring_buffer \<Rightarrow> int result" where
  "gpt_sampler_last prev = rb_rat prev 0"

text \<open>\<^verbatim>\<open>gpt_sampler_prev_str\<close>: the text of the last \<open>n\<close> tokens, oldest first.\<close>

fun prev_str_from :: "(int \<Rightarrow> string) \<Rightarrow> int ring_buffer \<Rightarrow> nat \<Rightarrow> string result" where
  "prev_str_from piece prev 0 = Inr []"
| "prev_str_from piece prev (Suc i) =
     rbind (rb_rat prev i) (\<lambda>id.
       if id = - 1 then Inl Assert_Failure
       else rbind (prev_str_from piece prev i) (\<lambda>s. Inr (piece id @ s)))"

definition gpt_sampler_prev_str :: "(int \<Rightarrow> string) \<Rightarrow> int ring_buffer \<Rightarrow> int \<Rightarrow> string result" where
  "gpt_sampler_prev_str piece prev n = prev_str_from piece prev (nat (min n (int (rb_sz prev))))"

lemma prev_str_from_eq:
  assumes "rb_ok r" "k \<le> rb_sz r" "- 1 \<notin> set (rb_to_vector r)"
  shows "prev_str_from piece r k = Inr (concat (map piece (drop (rb_sz r - k) (rb_to_vector r))))"
  using assms(2)
proof (induction k)
  case (Suc k)
  let ?i = "rb_sz r - 1 - k"
  have i: "?i < length (rb_to_vector r)" using Suc.prems by simp
  have "rb_to_vector r ! ?i \<noteq> - 1" using nth_mem [OF i] assms(3) by metis
  moreover have "drop (rb_sz r - Suc k) (rb_to_vector r) = rb_to_vector r ! ?i # drop (rb_sz r - k) (rb_to_vector r)"
    using Cons_nth_drop_Suc [OF i] Suc.prems by (simp add: Suc_diff_Suc)
  ultimately show ?case using Suc rb_rat_eq [OF assms(1), of k] by simp
qed simp

end
