(* ===== verification/CommonString.thy ===== *)
theory CommonString
  imports Console
begin

text \<open>
  The string helpers of \<^verbatim>\<open>common/common.cpp\<close>: splitting, stripping, replacing, escape sequences and the
  check of file names (its UTF-8 converter is a parameter).
\<close>

section \<open>Splitting and joining\<close>

function string_split :: "string \<Rightarrow> char \<Rightarrow> string list" where
  "string_split input separator =
     (case find_sub input [separator] of
        None \<Rightarrow> [input]
      | Some p \<Rightarrow> take p input # string_split (drop (p + 1) input) separator)"
  by pat_completeness auto
termination
proof (relation "measure (\<lambda>(s, c). length s)", goal_cases)
  case (2 input separator p)
  then show ?case using find_sub_Some [of input "[separator]" p] by auto
qed simp

declare string_split.simps [simp del]

fun join_with :: "string \<Rightarrow> string list \<Rightarrow> string" where
  "join_with sep [] = []"
| "join_with sep [p] = p"
| "join_with sep (p # q # ps) = p @ sep @ join_with sep (q # ps)"

lemma find_char_None: "find_sub s [c] = None \<longleftrightarrow> c \<notin> set s"
  by (induction s) auto

lemma find_char_Some: "find_sub s [c] = Some k \<longleftrightarrow> k < length s \<and> s ! k = c \<and> c \<notin> set (take k s)"
proof (induction s arbitrary: k)
  case (Cons a s)
  then show ?case by (cases k) auto
qed simp

lemma find_char_split: "c \<notin> set a \<Longrightarrow> find_sub (a @ c # b) [c] = Some (length a)"
  by (induction a) auto

lemma string_split_ne [simp]: "string_split s c \<noteq> []"
  by (subst string_split.simps) (simp split: option.splits)

lemma join_with_Cons: "ps \<noteq> [] \<Longrightarrow> join_with sep (p # ps) = p @ sep @ join_with sep ps"
  by (cases ps) auto

lemma join_split: "join_with [c] (string_split s c) = s"
proof (induction s c rule: string_split.induct)
  case (1 s c)
  then show ?case
    by (subst string_split.simps)
       (auto simp: join_with_Cons find_char_Some id_take_nth_drop [symmetric] split: option.splits)
qed

lemma split_parts: "p \<in> set (string_split s c) \<Longrightarrow> c \<notin> set p"
proof (induction s c rule: string_split.induct)
  case (1 s c)
  then show ?case
    by (subst (asm) (2) string_split.simps) (auto simp: find_char_None find_char_Some split: option.splits)
qed

lemma split_no_sep: "c \<notin> set s \<Longrightarrow> string_split s c = [s]"
  by (subst string_split.simps) (simp add: find_char_None [symmetric])

lemma split_at_sep: "c \<notin> set a \<Longrightarrow> string_split (a @ c # b) c = a # string_split b c"
  by (subst string_split.simps) (simp add: find_char_split)

lemma split_join: "ps \<noteq> [] \<Longrightarrow> \<forall>p \<in> set ps. c \<notin> set p \<Longrightarrow> string_split (join_with [c] ps) c = ps"
  by (induction "[c]" ps rule: join_with.induct) (simp_all add: split_no_sep split_at_sep)

text \<open>Splitting at a character and joining with it are inverse: joining the parts gives the text
  back, no part contains the separator, and splitting joined parts without it gives the parts.\<close>

theorem split_roundtrip:
  "join_with [c] (string_split s c) = s \<and> (\<forall>p \<in> set (string_split s c). c \<notin> set p)
    \<and> (\<forall>ps. ps \<noteq> [] \<and> (\<forall>p \<in> set ps. c \<notin> set p) \<longrightarrow> string_split (join_with [c] ps) c = ps)"
  using join_split split_parts split_join by blast

theorem split_roundtrip_witness: "string_split (join_with '','' [''a'', '''', ''b'']) (CHR '','') = [''a'', '''', ''b'']"
  using split_roundtrip [of "CHR '',''" "[]", THEN conjunct2, THEN conjunct2, THEN spec, of "[''a'', [], ''b'']"]
  by simp

section \<open>Stripping\<close>

definition string_strip :: "string \<Rightarrow> string" where
  "string_strip str =
     (let start = length (takeWhile is_space str);
          en = length str - length (takeWhile is_space (rev (drop start str)))
      in take (en - start) (drop start str))"

lemma find_first_not_eq: "find_first_not P s = (if \<forall>c \<in> set s. P c then None else Some (length (takeWhile P s)))"
  by (induction s) auto

lemma string_strip_trim: "string_strip s = trim s"
proof (cases "\<forall>c \<in> set s. is_space c")
  case True
  then have "takeWhile is_space s = s" by (simp add: takeWhile_eq_all_conv)
  then have "string_strip s = []" by (metis string_strip_def cancel_comm_monoid_add_class.diff_cancel
        diff_zero drop_all dual_order.refl list.size(3) rev.simps(1) take_Nil takeWhile.simps(1))
  with True show ?thesis by (simp add: trim_def find_first_not_eq)
next
  case False
  let ?a = "length (takeWhile is_space s)" and ?b = "length (takeWhile is_space (rev s))"
  from False have "\<exists>x \<in> set s. \<not> is_space x" by simp
  from split_list_first_prop [OF this] obtain u c v where
    s: "s = u @ c # v" "\<forall>x \<in> set u. is_space x" "\<not> is_space c" by auto
  have a: "?a = length u" using s(2,3) by (simp add: s(1) takeWhile_append)
  from s(3) have "\<exists>x \<in> set (c # v). \<not> is_space x" by simp
  from split_list_last_prop [OF this] obtain w d z where
    z: "c # v = w @ d # z" "\<forall>x \<in> set z. is_space x" "\<not> is_space d" by auto
  have tz: "takeWhile is_space (rev z @ d # t) = rev z" for t
    using z(2,3) by (simp add: takeWhile_append takeWhile_eq_all_conv)
  have b: "?b = length z" "takeWhile is_space (rev (c # v)) = rev z"
    using s(1) z(1) tz by simp_all
  have d: "drop ?a s = c # v" using s(1) a by simp
  have "\<not> (\<forall>x \<in> set (rev s). is_space x)" using False by simp
  then have l: "find_last_not is_space s = Some (length s - 1 - ?b)"
    by (simp add: find_last_not_def find_first_not_eq)
  have len: "length s = length u + length w + 1 + length z" using s(1) z(1) by simp
  have "string_strip s = take (length s - length z - length u) (c # v)"
    unfolding string_strip_def Let_def d b(2) by (simp add: a)
  moreover have "trim s = take (length s - 1 - length z - length u + 1) (c # v)"
  proof -
    have "find_first_not is_space s = Some ?a" using False by (auto simp: find_first_not_eq)
    with l b(1) d a show ?thesis by (simp add: trim_def)
  qed
  moreover have "length s - 1 - length z - length u + 1 = length s - length z - length u" using len by simp
  ultimately show ?thesis by (simp only:)
qed

text \<open>The two strip functions of the program, \<^verbatim>\<open>string_strip\<close> of the common library and \<^verbatim>\<open>trim\<close> of
  the command line, compute the same text.\<close>

theorem strip_is_trim: "string_strip s = trim s"
  by (rule string_strip_trim)

section \<open>Replacing\<close>

text \<open>The scan continues behind each occurrence, so it works on the rest of the text.\<close>

function replace_from :: "string \<Rightarrow> string \<Rightarrow> string \<Rightarrow> string" where
  "replace_from s search replace =
     (if search = [] then s
      else case find_sub s search of
             None \<Rightarrow> s
           | Some k \<Rightarrow> take k s @ replace @ replace_from (drop (k + length search) s) search replace)"
  by pat_completeness auto
termination
proof (relation "measure (\<lambda>(s, a, b). length s)", goal_cases)
  case (2 s search replace k)
  then have "0 < length search" "k + length search \<le> length s"
    using find_sub_Some [of s search k] by auto
  then show ?case by (cases search) auto
qed simp

declare replace_from.simps [simp del]

definition string_replace_all :: "string \<Rightarrow> string \<Rightarrow> string \<Rightarrow> string" where
  "string_replace_all s search replace = (if search = [] then s else replace_from s search replace)"

lemma replace_char: "replace_from s [c] r = join_with r (string_split s c)"
proof (induction s c rule: string_split.induct)
  case (1 s c)
  show ?case
  proof (cases "find_sub s [c]")
    case None
    then show ?thesis by (simp add: replace_from.simps [of s] string_split.simps [of s])
  next
    case (Some k)
    with 1 [OF Some] show ?thesis
      by (simp add: replace_from.simps [of s] string_split.simps [of s] join_with_Cons)
  qed
qed

lemma find_sub_parts:
  assumes "find_sub s x = Some k"
  shows "take k s @ x @ drop (k + length x) s = s"
proof -
  from find_sub_Some [OF assms] obtain t where t: "drop k s = x @ t" by (auto simp: prefix_def)
  then have "drop (k + length x) s = t" by (metis add.commute append_eq_conv_conj drop_drop)
  with t show ?thesis by (metis append_take_drop_id)
qed

lemma replace_same: "replace_from s x x = s"
proof (induction "length s" arbitrary: s rule: less_induct)
  case less
  show ?case
  proof (cases "x = [] \<or> find_sub s x = None")
    case True
    then show ?thesis by (auto simp: replace_from.simps [of s])
  next
    case False
    then obtain k where k: "find_sub s x = Some k" "0 < length x" by auto
    have "length (drop (k + length x) s) < length s" using find_sub_Some [OF k(1)] k(2) by (auto simp del: length_greater_0_conv)
    from less [OF this] k find_sub_parts [OF k(1)] show ?thesis by (simp add: replace_from.simps [of s])
  qed
qed

text \<open>Replacing a single character agrees with splitting at it and joining with the replacement;
  replacing any text by itself changes nothing, and a text that does not occur is not replaced.\<close>

theorem replace_all_spec:
  "string_replace_all s [c] r = join_with r (string_split s c)
    \<and> string_replace_all s x x = s
    \<and> (find_sub s y = None \<longrightarrow> string_replace_all s y r = s)"
  by (simp add: string_replace_all_def replace_char replace_same replace_from.simps [of s y])

theorem replace_all_spec_witness: "string_replace_all ''a-b'' ''+'' ''x'' = ''a-b''"
  using replace_all_spec [of "''a-b''" "CHR ''-''" "''x''" "[]" "''+''"] by simp

section \<open>Escape sequences\<close>

definition hex_value :: "char \<Rightarrow> nat option" where
  "hex_value c =
     (let n = char_code c in
      if 48 \<le> n \<and> n \<le> 57 then Some (n - 48)
      else if 97 \<le> n \<and> n \<le> 102 then Some (n - 87)
      else if 65 \<le> n \<and> n \<le> 70 then Some (n - 55) else None)"

text \<open>\<^verbatim>\<open>strtol\<close> on two characters, when it uses both: two digits, or white space or a sign and
  one digit; the value is then truncated to a \<^verbatim>\<open>char\<close>.\<close>

definition strtol2 :: "char \<Rightarrow> char \<Rightarrow> char option" where
  "strtol2 a b =
     (case (hex_value a, hex_value b) of
        (Some x, Some y) \<Rightarrow> Some (char_of (16 * x + y))
      | (None, Some y) \<Rightarrow>
          if is_space a \<or> a = CHR ''+'' then Some (char_of y)
          else if a = CHR ''-'' then Some (char_of ((256 - y) mod 256))
          else None
      | _ \<Rightarrow> None)"

definition simple_escape :: "char \<Rightarrow> char option" where
  "simple_escape e =
     (if e = CHR ''n'' then Some (CHR 0x0A)
      else if e = CHR ''r'' then Some (CHR 0x0D)
      else if e = CHR ''t'' then Some (CHR 0x09)
      else if e = CHR 0x27 \<or> e = CHR 0x22 \<or> e = CHR 0x5C then Some e
      else None)"

text \<open>The in-place loop writes never ahead of what it has read.\<close>

definition hex_escape :: "char \<Rightarrow> string \<Rightarrow> char option" where
  "hex_escape e r =
     (if e = CHR ''x'' then (case r of a # b # _ \<Rightarrow> strtol2 a b | _ \<Rightarrow> None) else None)"

fun string_process_escapes :: "string \<Rightarrow> string" where
  "string_process_escapes [] = []"
| "string_process_escapes [c] = [c]"
| "string_process_escapes (c # e # r) =
     (if c \<noteq> CHR 0x5C then c # string_process_escapes (e # r)
      else case simple_escape e of
             Some d \<Rightarrow> d # string_process_escapes r
           | None \<Rightarrow>
               (case hex_escape e r of
                  Some d \<Rightarrow> d # string_process_escapes (drop 2 r)
                | None \<Rightarrow> c # e # string_process_escapes r))"

lemma escapes_length: "length (string_process_escapes s) \<le> length s"
proof (induction s rule: string_process_escapes.induct)
  case (3 c e r)
  show ?case
  proof (cases "c \<noteq> CHR 0x5C \<or> simple_escape e \<noteq> None")
    case True
    show ?thesis
    proof (cases "c = CHR 0x5C")
      case esc: True
      with True obtain d where d: "simple_escape e = Some d" by auto
      with 3(2-4) esc have "length (string_process_escapes r) \<le> length r" by simp
      with esc d show ?thesis by simp
    qed (use 3(1) in simp)
  next
    case False
    with 3(2-4) show ?thesis by (cases "hex_escape e r") (auto intro: le_SucI)
  qed
qed simp_all

definition escape_backslash :: "string \<Rightarrow> string" where
  "escape_backslash s = concat (map (\<lambda>c. if c = CHR 0x5C then [CHR 0x5C, CHR 0x5C] else [c]) s)"

lemma escapes_plain: "c \<noteq> CHR 0x5C \<Longrightarrow> string_process_escapes (c # s) = c # string_process_escapes s"
  by (cases s) auto

lemma escapes_escape: "string_process_escapes (escape_backslash s) = s"
proof (induction s)
  case (Cons c s)
  have "simple_escape (CHR 0x5C) = Some (CHR 0x5C)" by (simp add: simple_escape_def)
  with Cons show ?case
    by (cases "c = CHR 0x5C") (simp_all add: escape_backslash_def escapes_plain)
qed (simp add: escape_backslash_def)

text \<open>Processing escapes undoes the doubling of backslashes, leaves a text without backslashes as it
  is, and never makes a text longer, so the in-place rewriting stays within the string.\<close>

theorem process_escapes_spec:
  "string_process_escapes (escape_backslash s) = s
    \<and> (CHR 0x5C \<notin> set s \<longrightarrow> string_process_escapes s = s)
    \<and> length (string_process_escapes s) \<le> length s"
proof -
  have "CHR 0x5C \<notin> set s \<Longrightarrow> escape_backslash s = s"
    by (induction s) (auto simp: escape_backslash_def)
  with escapes_escape [of s] escapes_length [of s] show ?thesis by auto
qed

theorem process_escapes_spec_witness: "string_process_escapes ''ls -l'' = ''ls -l''"
  using process_escapes_spec [of "''ls -l''"] by simp

section \<open>File names\<close>

definition forbidden_codepoint :: "nat \<Rightarrow> bool" where
  "forbidden_codepoint c \<longleftrightarrow>
     c \<le> 0x1F \<or> c = 0x7F \<or> (0x80 \<le> c \<and> c \<le> 0x9F) \<or> c = 0xFF0E \<or> c = 0x2215 \<or> c = 0x2216
     \<or> (0xD800 \<le> c \<and> c \<le> 0xDFFF) \<or> c = 0xFFFD \<or> c = 0xFEFF
     \<or> c \<in> {47, 92, 58, 42, 63, 34, 60, 62, 124}"

text \<open>The converter: decoding may throw (\<^term>\<open>None\<close>), and so may encoding.\<close>

definition fs_validate_filename ::
  "(string \<Rightarrow> nat list option) \<Rightarrow> (nat list \<Rightarrow> string option) \<Rightarrow> string \<Rightarrow> bool" where
  "fs_validate_filename from_bytes to_bytes filename =
     (if filename = [] then False
      else if length filename > 255 then False
      else
        case from_bytes filename of
          None \<Rightarrow> False
        | Some utf32 \<Rightarrow>
            (case to_bytes utf32 of
               None \<Rightarrow> False
             | Some reencoded \<Rightarrow>
                 if reencoded \<noteq> filename then False
                 else if list_ex forbidden_codepoint utf32 then False
                 else if hd filename = CHR '' '' \<or> last filename = CHR '' '' \<or> last filename = CHR ''.'' then False
                 else if find_sub filename ''..'' \<noteq> None then False
                 else filename \<noteq> ''.''))"

text \<open>An accepted file name cannot leave its directory: for a converter that maps an ASCII byte to
  the code point of the same value, it has no slash and no backslash, no dot-dot, does not end in
  a dot, has no control character, and is neither empty nor longer than 255 bytes.\<close>

theorem valid_filename_safe:
  assumes "\<And>s u. from_bytes s = Some u \<Longrightarrow> \<forall>c \<in> set s. char_code c < 128 \<longrightarrow> char_code c \<in> set u"
    and "fs_validate_filename from_bytes to_bytes f"
  shows "f \<noteq> [] \<and> length f \<le> 255 \<and> CHR ''/'' \<notin> set f \<and> CHR 0x5C \<notin> set f
    \<and> find_sub f ''..'' = None \<and> last f \<noteq> CHR ''.'' \<and> (\<forall>c \<in> set f. 0x1F < char_code c)"
proof -
  from assms(2) obtain u where u: "from_bytes f = Some u" "\<not> list_ex forbidden_codepoint u"
    "f \<noteq> []" "length f \<le> 255" "find_sub f ''..'' = None" "last f \<noteq> CHR ''.''"
    by (auto simp: fs_validate_filename_def split: if_splits option.splits)
  have ok: "\<not> forbidden_codepoint (char_code c)" if "c \<in> set f" "char_code c < 128" for c
    using assms(1) [OF u(1)] u(2) that by (auto simp: list_ex_iff)
  have "0x1F < char_code c" if "c \<in> set f" for c
    using ok [OF that] by (cases "char_code c < 128") (auto simp: forbidden_codepoint_def)
  moreover have "CHR ''/'' \<notin> set f" "CHR 0x5C \<notin> set f"
    using ok [of "CHR ''/''"] ok [of "CHR 0x5C"] by (auto simp: forbidden_codepoint_def char_code_def)
  ultimately show ?thesis using u by auto
qed

theorem valid_filename_safe_witness:
  "fs_validate_filename (\<lambda>s. Some (map char_code s)) (\<lambda>_. Some ''a.txt'') ''a.txt''
    \<and> CHR ''/'' \<notin> set ''a.txt''"
proof -
  have v: "fs_validate_filename (\<lambda>s. Some (map char_code s)) (\<lambda>_. Some ''a.txt'') ''a.txt''"
    by (simp add: fs_validate_filename_def forbidden_codepoint_def char_code_def)
  have "\<And>s u. (\<lambda>s. Some (map char_code s)) s = Some u \<Longrightarrow> \<forall>c \<in> set s. char_code c < 128 \<longrightarrow> char_code c \<in> set u"
    by auto
  from valid_filename_safe [OF this v] v show ?thesis by blast
qed

end
