(* ===== verification/LacMain.thy ===== *)
theory LacMain
  imports ShellExec OutputParser KvInvariant RingBuffer CommonString
begin

text \<open>
  \<^verbatim>\<open>lac.cpp\<close>: the start of the program, the generation loop and the handling of the generated text.
  The language model is a parameter: tokenizer, sampler, decoder, chat template and session files are
  the functions of \<open>llm\<close>, of which nothing is assumed.  The cache the loop shifts is the
  one of \<^verbatim>\<open>KvCache\<close>.
\<close>

section \<open>Parameters and state\<close>

text \<open>The fields of \<^verbatim>\<open>gpt_params\<close> that \<^verbatim>\<open>main\<close> reads; \<open>p_command_prompt\<close> is the constant
  \<^verbatim>\<open>command_prompt\<close>, the fixed text put before the user's prompt.\<close>

record gpt_params =
  p_command_prompt :: string
  p_prompt :: string
  p_model :: string
  p_default_model :: string
  p_llmc_mode :: string
  p_llmc_setup :: bool
  p_llmc_show_args :: bool
  p_llmc_show_explanation :: bool
  p_logits_all :: bool
  p_embedding :: bool
  p_n_ctx :: int
  p_n_predict :: int
  p_n_keep :: int
  p_n_batch :: nat
  p_grp_attn_n :: int
  p_grp_attn_w :: int
  p_ctx_shift :: bool
  p_interactive :: bool
  p_interactive_first :: bool
  p_conversation :: bool
  p_enable_chat_template :: bool
  p_multiline_input :: bool
  p_escape :: bool
  p_display_prompt :: bool
  p_special :: bool
  p_input_prefix_bos :: bool
  p_input_prefix :: string
  p_input_suffix :: string
  p_antiprompt :: "string list"
  p_path_prompt_cache :: string
  p_prompt_cache_all :: bool
  p_prompt_cache_ro :: bool

type_synonym chat_msg = "string \<times> string"

text \<open>What the sampler has been told: a token, with or without the grammar, or a reset.\<close>

datatype sampler_event = Accepted int bool | Sampler_Reset

text \<open>The decoder gets the cache, the tokens and their first position; a sample may depend on
  the cache and on everything the sampler has been told.\<close>

record llm =
  m_n_ctx :: int
  m_add_bos :: bool
  m_add_eos :: bool
  m_has_encoder :: bool
  m_encode_ok :: "int list \<Rightarrow> bool"
  m_decoder_start :: int
  m_bos :: int
  m_eos :: int
  m_eot :: int
  m_tokenize :: "string \<Rightarrow> bool \<Rightarrow> bool \<Rightarrow> int list"
  m_piece :: "int \<Rightarrow> bool \<Rightarrow> string"
  m_is_eog :: "int \<Rightarrow> bool"
  m_decode :: "llama_kv_cache \<Rightarrow> int list \<Rightarrow> int \<Rightarrow> llama_kv_cache option"
  m_sample :: "llama_kv_cache \<Rightarrow> sampler_event list \<Rightarrow> int"
  m_chat_format :: "chat_msg list \<Rightarrow> chat_msg \<Rightarrow> bool \<Rightarrow> string"
  m_load_session :: "string \<Rightarrow> nat \<Rightarrow> (int list \<times> llama_kv_cache) option"

record lac =
  l_n_past :: int
  l_n_remain :: int
  l_n_consumed :: nat
  l_n_session_consumed :: nat
  l_ga_i :: int
  l_is_antiprompt :: bool
  l_is_interacting :: bool
  l_need_insert_eot :: bool
  l_input_echo :: bool
  l_display :: bool
  l_need_to_save_session :: bool
  l_path_session :: string
  l_session_tokens :: "int list"
  l_saved :: "(string \<times> int list) list"    \<comment> \<open>calls of \<^verbatim>\<open>llama_state_save_file\<close>\<close>
  l_embd :: "int list"
  l_embd_inp :: "int list"
  l_cache :: llama_kv_cache
  l_sampler :: "sampler_event list"
  l_prev :: "int ring_buffer"
  l_output_buffer :: string
  l_early_stop_pos :: int
  l_input_tokens :: "int list"
  l_output_tokens :: "int list"
  l_output_ss :: string
  l_assistant_ss :: string
  l_chat_msgs :: "chat_msg list"
  l_world :: world

text \<open>What a part of the loop body does next: go on, leave the loop, or return from \<^verbatim>\<open>main\<close>.\<close>

datatype 'a flow = Go 'a | Break 'a | Return int

type_synonym 'a run = "'a flow result option"

definition run_bind :: "'a run \<Rightarrow> ('a \<Rightarrow> 'a run) \<Rightarrow> 'a run" where
  "run_bind m f =
     (case m of
        None \<Rightarrow> None
      | Some (Inl e) \<Rightarrow> Some (Inl e)
      | Some (Inr (Go s)) \<Rightarrow> f s
      | Some (Inr (Break s)) \<Rightarrow> Some (Inr (Break s))
      | Some (Inr (Return n)) \<Rightarrow> Some (Inr (Return n)))"

abbreviation go :: "'a \<Rightarrow> 'a run" where
  "go s \<equiv> Some (Inr (Go s))"

lemma run_bind_simps [simp]:
  "run_bind (go s) f = f s"
  "run_bind (Some (Inr (Break s))) f = Some (Inr (Break s))"
  "run_bind (Some (Inr (Return n))) f = Some (Inr (Return n))"
  "run_bind (Some (Inl e)) f = Some (Inl e)"
  "run_bind None f = None"
  by (simp_all add: run_bind_def)

lemma run_bind_GoE:
  assumes "run_bind m f = Some (Inr (Go t))"
  obtains s where "m = go s" "f s = Some (Inr (Go t))"
  using assms by (auto simp: run_bind_def split: option.splits sum.splits flow.splits)

section \<open>Interrupts and chat\<close>

text \<open>\<^verbatim>\<open>sigint_handler\<close>: the first Ctrl-C in interactive mode takes the turn, any other ends the
  process.\<close>

definition sigint_handler :: "gpt_params \<Rightarrow> lac \<Rightarrow> lac flow" where
  "sigint_handler p s =
     (if \<not> l_is_interacting s \<and> p_interactive p
      then Go (s\<lparr>l_is_interacting := True, l_need_insert_eot := True\<rparr>)
      else Return 130)"

definition chat_add_and_format :: "llm \<Rightarrow> string \<Rightarrow> string \<Rightarrow> lac \<Rightarrow> string \<times> lac" where
  "chat_add_and_format m role content s =
     (m_chat_format m (l_chat_msgs s) (role, content) (role = ''user''),
      s\<lparr>l_chat_msgs := l_chat_msgs s @ [(role, content)]\<rparr>)"

definition log_out :: "string \<Rightarrow> lac \<Rightarrow> lac" where
  "log_out t s = s\<lparr>l_world := (l_world s)\<lparr>w_out := w_out (l_world s) @ t\<rparr>\<rparr>"

definition sampler_accept :: "bool \<Rightarrow> int \<Rightarrow> lac \<Rightarrow> lac" where
  "sampler_accept grammar t s =
     s\<lparr>l_sampler := l_sampler s @ [Accepted t grammar], l_prev := rb_push t (l_prev s)\<rparr>"

section \<open>Making room in the context\<close>

definition cdiv :: "int \<Rightarrow> int \<Rightarrow> int" where
  "cdiv a b = sgn a * sgn b * (\<bar>a\<bar> div \<bar>b\<bar>)"

definition cmod :: "int \<Rightarrow> int \<Rightarrow> int" where
  "cmod a b = a - b * cdiv a b"

text \<open>Dropping half of what is behind the first \<open>n_keep\<close> tokens and moving the rest down.\<close>

definition shift_cache :: "int \<Rightarrow> int \<Rightarrow> llama_kv_cache \<Rightarrow> (int \<times> llama_kv_cache) result" where
  "shift_cache n_keep n_past c =
     (let n_discard = cdiv (n_past - n_keep) 2 in
      rbind (llama_kv_cache_seq_rm c 0 n_keep (n_keep + n_discard)) (\<lambda>(_, c1).
      rbind (ctx_seq_add c1 0 (n_keep + n_discard) n_past (- n_discard)) (\<lambda>c2.
        Inr (n_past - n_discard, c2))))"

definition context_shift :: "gpt_params \<Rightarrow> llm \<Rightarrow> lac \<Rightarrow> lac run" where
  "context_shift p m s =
     (if l_n_past s + int (length (l_embd s)) \<ge> m_n_ctx m then
        if \<not> p_ctx_shift p then Some (Inr (Break s))
        else if p_n_predict p = - 2 then Some (Inr (Break s))
        else
          Some (rbind (shift_cache (p_n_keep p) (l_n_past s) (l_cache s)) (\<lambda>(n_past, c).
            Inr (Go (s\<lparr>l_cache := c, l_n_past := n_past, l_path_session := []\<rparr>))))
      else go s)"

text \<open>One round of Self-Extend, and the loop, which may run for ever.\<close>

definition self_extend_round ::
  "int \<Rightarrow> int \<Rightarrow> int \<Rightarrow> int \<Rightarrow> llama_kv_cache \<Rightarrow> (int \<times> int \<times> llama_kv_cache) result" where
  "self_extend_round ga_n ga_w ga_i n_past c =
     (if ga_w = 0 then Inl Undefined_Behaviour
      else
        let ib = cdiv (ga_n * ga_i) ga_w;
            bd = cdiv ga_w ga_n * (ga_n - 1);
            dd = cdiv ga_w ga_n - ib * bd - ga_w
        in rbind (ctx_seq_add c 0 ga_i n_past (ib * bd)) (\<lambda>c1.
           rbind (ctx_seq_div c1 0 (ga_i + ib * bd) (ga_i + ib * bd + ga_w) ga_n) (\<lambda>c2.
           rbind (ctx_seq_add c2 0 (ga_i + ib * bd + ga_w) (n_past + ib * bd) dd) (\<lambda>c3.
             Inr (ga_i + cdiv ga_w ga_n, n_past - bd, c3)))))"

partial_function (option) self_extend ::
  "int \<Rightarrow> int \<Rightarrow> int \<Rightarrow> int \<Rightarrow> llama_kv_cache \<Rightarrow> (int \<times> int \<times> llama_kv_cache) result option" where
  "self_extend ga_n ga_w ga_i n_past c =
     (if n_past \<ge> ga_i + ga_w then
        case self_extend_round ga_n ga_w ga_i n_past c of
          Inl e \<Rightarrow> Some (Inl e)
        | Inr x \<Rightarrow> self_extend ga_n ga_w (fst x) (fst (snd x)) (snd (snd x))
      else Some (Inr (ga_i, n_past, c)))"

definition make_room :: "gpt_params \<Rightarrow> llm \<Rightarrow> lac \<Rightarrow> lac run" where
  "make_room p m s =
     (if p_grp_attn_n p = 1 then context_shift p m s
      else
        map_option (\<lambda>r. rbind r (\<lambda>(ga_i, n_past, c).
            Inr (Go (s\<lparr>l_ga_i := ga_i, l_n_past := n_past, l_cache := c\<rparr>))))
          (self_extend (p_grp_attn_n p) (p_grp_attn_w p) (l_ga_i s) (l_n_past s) (l_cache s)))"

text \<open>Tokens beyond the context are cut off.\<close>

definition truncate_embd :: "llm \<Rightarrow> lac \<Rightarrow> lac run" where
  "truncate_embd m s =
     (if int (length (l_embd s)) > m_n_ctx m - 4 then
        if m_n_ctx m - 4 < 0 then Some (Inl (Runtime_Error ''length_error''))
        else go (s\<lparr>l_embd := take (nat (m_n_ctx m - 4)) (l_embd s)\<rparr>)
      else go s)"

section \<open>Evaluating the pending tokens\<close>

text \<open>Reusing a prefix of the loaded session: the number of tokens that need no evaluation, the
  session, and how much of it is consumed.\<close>

fun reuse_session :: "int list \<Rightarrow> int list \<Rightarrow> nat \<Rightarrow> nat \<times> int list \<times> nat" where
  "reuse_session [] st n = (0, st, n)"
| "reuse_session (t # ts) st n =
     (if t \<noteq> st ! n then (0, take n st, n)
      else if n + 1 \<ge> length st then (1, st, n + 1)
      else (let (i, st', n') = reuse_session ts st (n + 1) in (i + 1, st', n')))"

definition session_step :: "lac \<Rightarrow> lac" where
  "session_step s =
     (if l_n_session_consumed s < length (l_session_tokens s) then
        let (i, st, n) = reuse_session (l_embd s) (l_session_tokens s) (l_n_session_consumed s)
        in s\<lparr>l_session_tokens := st, l_n_session_consumed := n, l_n_past := l_n_past s + int i,
             l_embd := drop i (l_embd s)\<rparr>
      else s)"

text \<open>The batches: a batch size of zero gives the decoder an empty batch, which it refuses.\<close>

function eval_batches ::
  "llm \<Rightarrow> nat \<Rightarrow> int list \<Rightarrow> int \<Rightarrow> llama_kv_cache \<Rightarrow> (int \<times> llama_kv_cache) option" where
  "eval_batches m n_batch embd n_past c =
     (if embd = [] then Some (n_past, c)
      else if n_batch = 0 then None
      else
        case m_decode m c (take n_batch embd) n_past of
          None \<Rightarrow> None
        | Some c' \<Rightarrow>
            eval_batches m n_batch (drop n_batch embd) (n_past + int (length (take n_batch embd))) c')"
  by pat_completeness auto
termination by (relation "measure (\<lambda>(m, b, e, n, c). length e)") auto

declare eval_batches.simps [simp del]

definition eval_step :: "gpt_params \<Rightarrow> llm \<Rightarrow> lac \<Rightarrow> lac run" where
  "eval_step p m s =
     (case eval_batches m (p_n_batch p) (l_embd s) (l_n_past s) (l_cache s) of
        None \<Rightarrow> Some (Inr (Return 1))
      | Some (n_past, c) \<Rightarrow>
          go (if l_embd s \<noteq> [] \<and> l_path_session s \<noteq> [] then
                s\<lparr>l_n_past := n_past, l_cache := c, l_session_tokens := l_session_tokens s @ l_embd s,
                  l_n_session_consumed := length (l_session_tokens s) + length (l_embd s)\<rparr>
              else s\<lparr>l_n_past := n_past, l_cache := c\<rparr>))"

definition predict :: "gpt_params \<Rightarrow> llm \<Rightarrow> lac \<Rightarrow> lac run" where
  "predict p m s =
     run_bind
       (if l_embd s \<noteq> [] then
          run_bind (truncate_embd m s) (\<lambda>s1.
          run_bind (make_room p m s1) (\<lambda>s2.
            eval_step p m (session_step s2)))
        else go s)
       (\<lambda>s3. go (s3\<lparr>l_embd := []\<rparr>))"

section \<open>The next tokens\<close>

definition sample_token :: "gpt_params \<Rightarrow> llm \<Rightarrow> lac \<Rightarrow> lac" where
  "sample_token p m s =
     (let s1 = (if l_path_session s \<noteq> [] \<and> l_need_to_save_session s \<and> \<not> p_prompt_cache_ro p
                then s\<lparr>l_need_to_save_session := False,
                       l_saved := l_saved s @ [(l_path_session s, l_session_tokens s)]\<rparr>
                else s);
          t = m_sample m (l_cache s1) (l_sampler s1)
      in (sampler_accept True t s1)\<lparr>l_embd := [t], l_input_echo := True, l_n_remain := l_n_remain s1 - 1\<rparr>)"

text \<open>Forwarding input: at least one token, and further ones up to the batch size.\<close>

definition consume_input :: "gpt_params \<Rightarrow> lac \<Rightarrow> lac" where
  "consume_input p s =
     (let ts = take (max 1 (p_n_batch p)) (drop (l_n_consumed s) (l_embd_inp s))
      in (fold (sampler_accept False) ts s)\<lparr>l_embd := ts, l_n_consumed := l_n_consumed s + length ts\<rparr>)"

definition next_tokens :: "gpt_params \<Rightarrow> llm \<Rightarrow> lac \<Rightarrow> lac" where
  "next_tokens p m s =
     (if length (l_embd_inp s) \<le> l_n_consumed s \<and> \<not> l_is_interacting s then sample_token p m s
      else consume_input p s)"

section \<open>The output buffer\<close>

definition stop_code :: "nat option \<Rightarrow> int" where
  "stop_code r = (case r of None \<Rightarrow> - 1 | Some q \<Rightarrow> int q)"

text \<open>The text of the tokens is collected; behind the command prompt it is checked for an early stop
  after each one, which ends the loop over the tokens.\<close>

definition collect_one :: "gpt_params \<Rightarrow> llm \<Rightarrow> bool \<Rightarrow> int \<Rightarrow> lac \<Rightarrow> lac" where
  "collect_one p m several t s =
     (let piece = m_piece m t (p_special p) in
      if several then
        s\<lparr>l_output_buffer := l_output_buffer s @ piece, l_input_tokens := l_input_tokens s @ [t]\<rparr>
      else
        s\<lparr>l_output_buffer := l_output_buffer s @ piece, l_output_tokens := l_output_tokens s @ [t],
          l_output_ss := l_output_ss s @ piece\<rparr>)"

fun collect_output :: "gpt_params \<Rightarrow> llm \<Rightarrow> bool \<Rightarrow> int list \<Rightarrow> lac \<Rightarrow> lac option" where
  "collect_output p m several [] s = Some s"
| "collect_output p m several (t # ts) s =
     (let s1 = collect_one p m several t s in
      if length (l_output_buffer s1) \<ge> length (p_command_prompt p) then
        (case check_early_stop (drop (length (p_command_prompt p)) (l_output_buffer s1)) of
           None \<Rightarrow> None
         | Some r \<Rightarrow>
             if stop_code r \<noteq> - 1 then Some (s1\<lparr>l_early_stop_pos := stop_code r\<rparr>)
             else collect_output p m several ts (s1\<lparr>l_early_stop_pos := stop_code r\<rparr>))
      else collect_output p m several ts s1)"

definition output_step :: "gpt_params \<Rightarrow> llm \<Rightarrow> lac \<Rightarrow> lac run" where
  "output_step p m s =
     map_option (\<lambda>s1. Inr (Go (if l_input_echo s1 \<and> length (l_embd_inp s1) = l_n_consumed s1
                              then s1\<lparr>l_display := True\<rparr> else s1)))
       (collect_output p m (length (l_embd s) > 1) (l_embd s) s)"

section \<open>Turns\<close>

definition antiprompt_hit :: "gpt_params \<Rightarrow> llm \<Rightarrow> lac \<Rightarrow> bool result" where
  "antiprompt_hit p m s =
     rbind (gpt_sampler_prev_str (\<lambda>t. m_piece m t True) (l_prev s) 32) (\<lambda>last_output.
     rbind (gpt_sampler_last (l_prev s)) (\<lambda>last_token.
       let padding = (if p_interactive p then 0 else 2) in
       Inr (list_ex (\<lambda>a. str_find last_output a
               (if length last_output > length a + padding then length last_output - (length a + padding) else 0)
               \<noteq> None) (p_antiprompt p)
            \<or> list_ex (\<lambda>a. m_tokenize m a False True = [last_token]) (p_antiprompt p))))"

definition antiprompt_step :: "gpt_params \<Rightarrow> llm \<Rightarrow> lac \<Rightarrow> lac result" where
  "antiprompt_step p m s =
     (if p_antiprompt p = [] then Inr s
      else
        rbind (antiprompt_hit p m s) (\<lambda>hit.
          Inr (s\<lparr>l_is_antiprompt := hit, l_is_interacting := l_is_interacting s \<or> (hit \<and> p_interactive p)\<rparr>)))"

definition eog_step :: "gpt_params \<Rightarrow> llm \<Rightarrow> lac \<Rightarrow> lac result" where
  "eog_step p m s =
     rbind (gpt_sampler_last (l_prev s)) (\<lambda>last_token.
       let s1 = (if m_is_eog m last_token \<and> p_interactive p then
                   let s2 = (if p_antiprompt p \<noteq> [] then
                               s\<lparr>l_embd_inp := l_embd_inp s @ m_tokenize m (hd (p_antiprompt p)) False True,
                                 l_is_antiprompt := True\<rparr>
                             else s);
                       s3 = (if p_enable_chat_template p
                             then snd (chat_add_and_format m ''assistant'' (l_assistant_ss s2) s2) else s2)
                   in s3\<lparr>l_is_interacting := True\<rparr>
                 else s)
       in Inr (if p_conversation p
               then s1\<lparr>l_assistant_ss := l_assistant_ss s1 @ m_piece m last_token False\<rparr> else s1))"

text \<open>Reading the user's lines until one that asks for no other.\<close>

definition readline_world :: "bool \<Rightarrow> world \<Rightarrow> bool \<times> string \<times> world" where
  "readline_world multi w =
     (let st0 = set_display (w_console w) Display_User_Input (rl_init Display_Reset);
          (more, line, out, ks) = readline_advanced (w_console w) Display_User_Input multi (w_keys w)
      in (more, line, w\<lparr>w_keys := ks, w_out := w_out w @ rl_out st0 @ out\<rparr>))"

lemma rl_loop_le: "length (snd (snd (rl_loop env st ks))) \<le> length ks"
proof (induction env st ks rule: rl_loop.induct)
  case (2 env st c ks)
  then show ?case using rl_key_length [of env st c ks] by auto
qed simp

lemma readline_more_less:
  "readline_world multi w = (True, line, w') \<Longrightarrow> length (w_keys w') < length (w_keys w)"
proof (cases "w_keys w")
  case (Cons c ks)
  have "length (snd (snd (rl_loop env st (c # ks)))) \<le> length ks" for env st
    using rl_loop_le [of env "fst (rl_key env st c ks)" "snd (rl_key env st c ks)"] rl_key_length [of env st c ks]
    by auto
  then show "readline_world multi w = (True, line, w') \<Longrightarrow> ?thesis"
    using Cons by (auto simp: readline_world_def readline_advanced_def Let_def case_prod_unfold less_Suc_eq_le)
qed (auto simp: readline_world_def readline_advanced_def rl_finish_def rl_init_def Let_def)

function read_input :: "bool \<Rightarrow> string \<Rightarrow> world \<Rightarrow> string \<times> world" where
  "read_input multi buffer w =
     (if fst (readline_world multi w) then
        read_input multi (buffer @ fst (snd (readline_world multi w))) (snd (snd (readline_world multi w)))
      else (buffer @ fst (snd (readline_world multi w)), snd (snd (readline_world multi w))))"
  by pat_completeness auto
termination
proof (relation "measure (\<lambda>(multi, buffer, w). length (w_keys w))", goal_cases)
  case (2 multi buffer w)
  then show ?case using readline_more_less [of multi w] by (cases "readline_world multi w") auto
qed simp

declare read_input.simps [simp del]

text \<open>A non-empty input is formatted, tokenized between prefix and suffix, and queued.\<close>

definition queue_input :: "gpt_params \<Rightarrow> llm \<Rightarrow> string \<Rightarrow> lac \<Rightarrow> lac" where
  "queue_input p m buffer s =
     (let s0 = (if p_input_suffix p \<noteq> [] \<and> \<not> p_conversation p then log_out (p_input_suffix p) s else s);
          buffer1 = (if p_escape p then string_process_escapes buffer else buffer);
          format_chat = (p_conversation p \<and> p_enable_chat_template p);
          (user_inp, s1) = (if format_chat then chat_add_and_format m ''user'' buffer1 s0 else (buffer1, s0));
          line_pfx = m_tokenize m (p_input_prefix p) False True;
          line_inp = m_tokenize m user_inp False format_chat;
          line_sfx = m_tokenize m (p_input_suffix p) False True;
          eot = (if l_need_insert_eot s1 \<and> format_chat
                 then [if m_eot m = - 1 then m_eos m else m_eot m] else []);
          ts = eot @ line_pfx @ line_inp @ line_sfx
      in s1\<lparr>l_need_insert_eot := l_need_insert_eot s1 \<and> \<not> format_chat,
            l_embd_inp := l_embd_inp s1 @ ts,
            l_output_tokens := l_output_tokens s1 @ ts,
            l_output_ss := l_output_ss s1 @ concat (map (\<lambda>t. m_piece m t True) ts),
            l_assistant_ss := [],
            l_n_remain := l_n_remain s1 - int (length line_inp)\<rparr>)"

definition input_step :: "gpt_params \<Rightarrow> llm \<Rightarrow> lac \<Rightarrow> lac" where
  "input_step p m s =
     (if 0 < l_n_past s \<and> l_is_interacting s then
        let s1 = (if p_conversation p then log_out (newline # ''> '') s else s);
            s2 = (if p_input_prefix_bos p then s1\<lparr>l_embd_inp := l_embd_inp s1 @ [m_bos m]\<rparr> else s1);
            s3 = (if p_input_prefix p \<noteq> [] \<and> \<not> p_conversation p then log_out (p_input_prefix p) s2 else s2);
            (buffer, w) = read_input (p_multiline_input p) [] (l_world s3);
            s4 = s3\<lparr>l_world := w, l_display := True\<rparr>;
            s5 = (if length buffer > 1 then queue_input p m buffer s4 else s4)
        in s5\<lparr>l_input_echo := False\<rparr>
      else s)"

definition end_turn :: "lac \<Rightarrow> lac" where
  "end_turn s =
     (if 0 < l_n_past s then
        (if l_is_interacting s then s\<lparr>l_sampler := l_sampler s @ [Sampler_Reset], l_is_interacting := False\<rparr>
         else s\<lparr>l_is_interacting := False\<rparr>)
      else s)"

definition turn_step :: "gpt_params \<Rightarrow> llm \<Rightarrow> lac \<Rightarrow> lac run" where
  "turn_step p m s =
     (if length (l_embd_inp s) \<le> l_n_consumed s then
        Some (rbind (antiprompt_step p m s) (\<lambda>s1.
              rbind (eog_step p m s1) (\<lambda>s2. Inr (Go (end_turn (input_step p m s2))))))
      else go s)"

section \<open>The loop\<close>

definition stop_step :: "gpt_params \<Rightarrow> llm \<Rightarrow> lac \<Rightarrow> lac run" where
  "stop_step p m s =
     (if l_embd s \<noteq> [] \<and> m_is_eog m (last (l_embd s)) \<and> \<not> p_interactive p then Some (Inr (Break s))
      else
        let s1 = (if p_interactive p \<and> l_n_remain s \<le> 0 \<and> p_n_predict p \<ge> 0
                  then s\<lparr>l_n_remain := p_n_predict p, l_is_interacting := True\<rparr> else s)
        in if l_early_stop_pos s1 \<noteq> - 1 then Some (Inr (Break s1)) else go s1)"

definition loop_body :: "gpt_params \<Rightarrow> llm \<Rightarrow> lac \<Rightarrow> lac run" where
  "loop_body p m s =
     run_bind (predict p m s) (\<lambda>s1.
     run_bind (output_step p m (next_tokens p m s1)) (\<lambda>s2.
     run_bind (turn_step p m s2) (\<lambda>s3.
       stop_step p m s3)))"

definition loop_cond :: "gpt_params \<Rightarrow> lac \<Rightarrow> bool" where
  "loop_cond p s \<longleftrightarrow> (l_n_remain s \<noteq> 0 \<and> \<not> l_is_antiprompt s) \<or> p_interactive p"

partial_function (option) main_loop :: "gpt_params \<Rightarrow> llm \<Rightarrow> lac \<Rightarrow> lac run" where
  "main_loop p m s =
     (if loop_cond p s then
        case loop_body p m s of
          None \<Rightarrow> None
        | Some r \<Rightarrow>
            (case r of
               Inl e \<Rightarrow> Some (Inl e)
             | Inr fl \<Rightarrow>
                 (case fl of
                    Go s' \<Rightarrow> main_loop p m s'
                  | Break s' \<Rightarrow> go s'
                  | Return n \<Rightarrow> Some (Inr (Return n))))
      else go s)"

section \<open>Before the loop\<close>

text \<open>The checks of the command line: an exit code, or the parameters to run with.\<close>

definition choose_model :: "json_lib \<Rightarrow> gpt_params \<Rightarrow> (int + gpt_params) io" where
  "choose_model lib p =
     (if p_model p \<noteq> p_default_model p then io_ret (Inr p)
      else
        io_bind (get_args lib ''model'') (\<lambda>model_path.
          if p_llmc_setup p then
            io_bind (io_print (print_centered_message ''Setting up LangCommand model'' PRINT_LENGTH)) (\<lambda>_.
            io_bind (ModelManager.set_model lib) (\<lambda>_. io_ret (Inl 0)))
          else
            io_bind (if model_path = [] then io_ret True
                     else io_bind (file_exists model_path) (\<lambda>ex.
                            if \<not> ex then io_ret True else file_is_empty model_path)) (\<lambda>invalid.
              if invalid then
                io_bind (io_print (print_centered_message
                    ''Model not found or invalid. Setting up LangCommand model'' PRINT_LENGTH)) (\<lambda>_.
                io_bind (ModelManager.set_model lib) (\<lambda>path. io_ret (Inr (p\<lparr>p_model := path\<rparr>))))
              else io_ret (Inr (p\<lparr>p_model := model_path\<rparr>)))))"

definition check_prompt :: "gpt_params \<Rightarrow> (int + gpt_params) io" where
  "check_prompt p =
     (if p_prompt p = [] then
        io_bind (io_print (print_error ''Please provide a prompt'')) (\<lambda>_. io_ret (Inl 0))
      else if p_n_ctx p < 4096 \<and> p_n_ctx p \<noteq> 0 then
        io_bind (io_print (print_error ''Context size must be at least 4096'')) (\<lambda>_. io_ret (Inl 0))
      else
        let mode = to_lower_case (p_llmc_mode p) in
        if mode \<noteq> ''loop'' \<and> mode \<noteq> ''exit'' then
          io_bind (io_print (print_error (''Invalid mode. Please choose either '' @ CHR 0x27 # ''loop''
            @ CHR 0x27 # '' or '' @ CHR 0x27 # ''exit'' @ [CHR 0x27]))) (\<lambda>_.
            io_ret (Inl 0))
        else io_ret (Inr (p\<lparr>p_llmc_mode := mode,
               p_prompt := p_command_prompt p @ newline # ''### Instruction'' @ newline # p_prompt p
                 @ newline # ''### Response'' @ [newline]\<rparr>)))"

definition startup :: "json_lib \<Rightarrow> gpt_params \<Rightarrow> (int + gpt_params) io" where
  "startup lib p0 =
     (if p_logits_all p0 then io_ret (Inl 0)
      else if p_embedding p0 then io_ret (Inl 0)
      else
        let p = (if p_n_ctx p0 \<noteq> 0 \<and> p_n_ctx p0 < 8 then p0\<lparr>p_n_ctx := 8\<rparr> else p0) in
        if p_llmc_show_args p then io_bind (show_args lib) (\<lambda>_. io_ret (Inl 0))
        else
          io_bind (choose_model lib p) (\<lambda>r.
            case r of Inl code \<Rightarrow> io_ret (Inl code) | Inr p1 \<Rightarrow> check_prompt p1))"

text \<open>Loading the session and preparing the input.\<close>

fun matching_prefix :: "int list \<Rightarrow> int list \<Rightarrow> nat" where
  "matching_prefix (a # as) (b # bs) = (if a = b then Suc (matching_prefix as bs) else 0)"
| "matching_prefix _ _ = 0"

definition load_session :: "gpt_params \<Rightarrow> llm \<Rightarrow> world \<Rightarrow> llama_kv_cache \<Rightarrow> (int list \<times> llama_kv_cache) option" where
  "load_session p m w c =
     (let path = p_path_prompt_cache p in
      if path = [] then Some ([], c)
      else case w_files w path of
             None \<Rightarrow> Some ([], c)
           | Some t \<Rightarrow> if t = [] then Some ([], c) else m_load_session m path (nat (m_n_ctx m)))"

definition input_tokens :: "gpt_params \<Rightarrow> llm \<Rightarrow> int list \<Rightarrow> lac \<Rightarrow> int list \<times> lac" where
  "input_tokens p m session s =
     (let (prompt, s1) = (if p_conversation p \<and> p_enable_chat_template p \<and> p_prompt p \<noteq> []
                          then chat_add_and_format m ''system'' (p_prompt p) s else (p_prompt p, s))
      in (if p_interactive_first p \<or> p_prompt p \<noteq> [] \<or> session = []
          then m_tokenize m prompt True True else session, s1))"

text \<open>A model with an encoder reads the input at once and starts from its start token.\<close>

definition encode_input :: "llm \<Rightarrow> lac \<Rightarrow> int + lac" where
  "encode_input m s =
     (if m_has_encoder m then
        if \<not> m_encode_ok m (l_embd_inp s) then Inl 1
        else Inr (s\<lparr>l_embd_inp := [if m_decoder_start m = - 1 then m_bos m else m_decoder_start m]\<rparr>)
      else Inr s)"

text \<open>The state in which the loop starts, or the code \<^verbatim>\<open>main\<close> returns.\<close>

definition start_params :: "gpt_params \<Rightarrow> llm \<Rightarrow> int list \<Rightarrow> gpt_params" where
  "start_params p m inp =
     (let first = (p_interactive_first p \<or> p_conversation p)
      in p\<lparr>p_n_keep := (if p_n_keep p < 0 \<or> p_n_keep p > int (length inp) then int (length inp)
                       else p_n_keep p + (if m_add_bos m then 1 else 0)),
           p_interactive_first := first, p_interactive := (p_interactive p \<or> first)\<rparr>)"

definition start_state :: "gpt_params \<Rightarrow> int list \<Rightarrow> int list \<Rightarrow> nat \<Rightarrow> llama_kv_cache \<Rightarrow> lac \<Rightarrow> lac" where
  "start_state p session inp k c s =
     s\<lparr>l_n_past := 0, l_n_remain := p_n_predict p, l_n_consumed := 0, l_n_session_consumed := 0,
       l_ga_i := 0, l_is_antiprompt := False,
       l_is_interacting := (if p_interactive p then p_interactive_first p else l_is_interacting s),
       l_input_echo := True, l_display := p_display_prompt p,
       l_need_to_save_session := p_path_prompt_cache p \<noteq> [] \<and> k < length inp,
       l_path_session := p_path_prompt_cache p, l_session_tokens := session,
       l_embd := [], l_embd_inp := inp, l_cache := c, l_output_buffer := [],
       l_early_stop_pos := - 1, l_input_tokens := [], l_output_tokens := [],
       l_output_ss := [], l_assistant_ss := []\<rparr>"

definition prepare ::
  "gpt_params \<Rightarrow> llm \<Rightarrow> lac \<Rightarrow> (int + gpt_params \<times> lac) result" where
  "prepare p m s0 =
     (case load_session p m (l_world s0) (l_cache s0) of
        None \<Rightarrow> Inr (Inl 1)
      | Some (session, c0) \<Rightarrow>
          if \<not> m_has_encoder m \<and> m_add_eos m then Inl Assert_Failure else
          let (inp0, s1) = input_tokens p m session s0;
              inp = (if inp0 = [] \<and> m_add_bos m then [m_bos m] else inp0)
          in if inp = [] then Inr (Inl (- 1))
             else if int (length inp) > m_n_ctx m - 4 then Inr (Inl 1)
             else
               let k = matching_prefix session inp in
               rbind (if session \<noteq> [] then llama_kv_cache_seq_rm c0 (- 1) (int k) (- 1) else Inr (True, c0))
                 (\<lambda>(_, c1).
                 let session1 = (if k = length inp \<and> length session > length inp
                                 then take (length inp - 1) session else session);
                     p1 = start_params p m inp
                 in if p_grp_attn_n p \<noteq> 1
                       \<and> (p_grp_attn_n p \<le> 0 \<or> cmod (p_grp_attn_w p) (p_grp_attn_n p) \<noteq> 0)
                    then Inl Assert_Failure
                    else Inr (case encode_input m (start_state p1 session1 inp k c1 s1) of
                                Inl code \<Rightarrow> Inl code
                              | Inr s2 \<Rightarrow> Inr (p1, s2))))"

section \<open>After the loop\<close>

text \<open>\<^verbatim>\<open>substr\<close> past the end throws; a position of \<open>-1\<close> is no early stop.\<close>

definition final_text :: "gpt_params \<Rightarrow> lac \<Rightarrow> string result" where
  "final_text p s =
     rbind (substr_from (l_output_buffer s) (length (p_command_prompt p))) (\<lambda>b.
       Inr (trim (if l_early_stop_pos s \<noteq> - 1 then take (nat (l_early_stop_pos s)) b else b)))"

text \<open>The explanation is passed on as a C string, so it ends at the first NUL; the suggestions are taken from the
  whole text.\<close>

definition finish :: "gpt_params \<Rightarrow> lac \<Rightarrow> lac run" where
  "finish p s =
     (case final_text p s of
        Inl e \<Rightarrow> Some (Inl e)
      | Inr text \<Rightarrow>
          let s1 = (if p_llmc_show_explanation p
                   then log_out (colorize_text (takeWhile (\<lambda>c. c \<noteq> CHR 0x00) text)) s else s);
              s2 = (if l_path_session s1 \<noteq> [] \<and> p_prompt_cache_all p \<and> \<not> p_prompt_cache_ro p
                    then log_out (newline # ''main: saving final output to session file '' @ [CHR 0x27]
                           @ l_path_session s1 @ [CHR 0x27, newline])
                         (s1\<lparr>l_saved := l_saved s1 @ [(l_path_session s1, l_session_tokens s1)]\<rparr>)
                    else s1);
              s3 = log_out [newline] s2
          in case offer_suggestions (p_llmc_mode p) (extract_suggestions text) (l_world s3) of
               None \<Rightarrow> None
             | Some (Inl e) \<Rightarrow> Some (Inl e)
             | Some (Inr (_, w)) \<Rightarrow> go (s3\<lparr>l_world := w\<rparr>))"

definition generate :: "gpt_params \<Rightarrow> llm \<Rightarrow> lac \<Rightarrow> lac run" where
  "generate p m s =
     (case prepare p m s of
        Inl e \<Rightarrow> Some (Inl e)
      | Inr (Inl code) \<Rightarrow> Some (Inr (Return code))
      | Inr (Inr (p1, s1)) \<Rightarrow> run_bind (main_loop p1 m s1) (finish p1))"

end
