(* ===== verification/LacProofs.thy ===== *)
theory LacProofs
  imports LacMain
begin

text \<open>
  What the main program guarantees: the context shift keeps the cache contiguous, a session is reused
  exactly as far as it agrees with the input, the generation loop ends within its budget, and what the
  start and the end of \<^verbatim>\<open>main\<close> let through.
\<close>

section \<open>The context shift\<close>

text \<open>Sequence 0 holds each position below \<open>n\<close> in exactly one cell, and no other.\<close>

definition holds_prefix :: "llama_kv_cache \<Rightarrow> int \<Rightarrow> bool" where
  "holds_prefix c n \<longleftrightarrow>
     (\<forall>i p. kv_view c 0 i = Some p \<longrightarrow> 0 \<le> p \<and> p < n)
     \<and> (\<forall>p. 0 \<le> p \<and> p < n \<longrightarrow> (\<exists>!i. kv_view c 0 i = Some p))"

lemma cdiv_2: "0 \<le> a \<Longrightarrow> cdiv a 2 = a div 2"
  by (cases "a = 0") (auto simp: cdiv_def sgn_if)

lemma shift_cache_view:
  assumes inv: "kv_inv c" and b: "\<forall>i p. kv_view c 0 i = Some p \<longrightarrow> 0 \<le> p \<and> p < n_past"
    and k: "0 \<le> n_keep" "n_keep \<le> n_past"
    and s: "shift_cache n_keep n_past c = Inr (n', c')"
  defines "d \<equiv> (n_past - n_keep) div 2"
  shows "n' = n_past - d"
    "kv_view c' 0 i = (case kv_view c 0 i of None \<Rightarrow> None
       | Some p \<Rightarrow> if p < n_keep then Some p else if p < n_keep + d then None else Some (p - d))"
proof -
  have d: "cdiv (n_past - n_keep) 2 = d" "0 \<le> d" "n_keep + d \<le> n_past" using k by (simp_all add: cdiv_2 d_def)
  from s obtain ok c1 where c1: "llama_kv_cache_seq_rm c 0 n_keep (n_keep + d) = Inr (ok, c1)"
    and c2: "ctx_seq_add c1 0 (n_keep + d) n_past (- d) = Inr c'" and n: "n' = n_past - d"
    unfolding shift_cache_def by (auto simp: Let_def d(1) rbind_eq_Inr_iff)
  show "n' = n_past - d" by (rule n)
  have v1: "kv_view c1 = view_rm 0 (n_keep, n_keep + d) (kv_view c)"
    using seq_rm_view [OF inv c1] k d by (simp add: seq_range_def)
  have "kv_view c' = view_add 0 (n_keep + d, n_past) (- d) (kv_view c1)"
    using ctx_seq_add_view [OF seq_rm_inv [OF inv c1] c2] k d by (simp add: seq_range_def)
  moreover have "p - d \<ge> 0" if "n_keep + d \<le> p" for p using that k by simp
  ultimately show "kv_view c' 0 i = (case kv_view c 0 i of None \<Rightarrow> None
       | Some p \<Rightarrow> if p < n_keep then Some p else if p < n_keep + d then None else Some (p - d))"
    using b k d by (cases "kv_view c 0 i") (auto simp: v1 view_add_def view_rm_def in_range_def)
qed

text \<open>C10: The context shift keeps the cache usable: when sequence 0 holds exactly the positions below
  \<open>n_past\<close>, each in one cell, the shift leaves it holding exactly the positions below the new
  \<open>n_past\<close>, which is smaller by half of what lies behind the kept prefix; the kept prefix stays in
  place and the other surviving tokens keep their order.\<close>

theorem context_shift_contiguous:
  assumes "kv_inv c" "holds_prefix c n_past" "0 \<le> n_keep" "n_keep \<le> n_past"
    and "shift_cache n_keep n_past c = Inr (n', c')"
  shows "holds_prefix c' n' \<and> n' = n_past - (n_past - n_keep) div 2 \<and> kv_inv c'
    \<and> (\<forall>i p. kv_view c 0 i = Some p \<and> p < n_keep \<longrightarrow> kv_view c' 0 i = Some p)
    \<and> (\<forall>i p. kv_view c 0 i = Some p \<and> n_keep + (n_past - n_keep) div 2 \<le> p \<longrightarrow>
         kv_view c' 0 i = Some (p - (n_past - n_keep) div 2))"
proof -
  define d where "d = (n_past - n_keep) div 2"
  have d: "0 \<le> d" "n_keep + d \<le> n_past" using assms(3,4) by (simp_all add: d_def)
  have b: "\<forall>i p. kv_view c 0 i = Some p \<longrightarrow> 0 \<le> p \<and> p < n_past" using assms(2) by (simp add: holds_prefix_def)
  note n' = shift_cache_view(1) [OF assms(1) b assms(3-5), folded d_def]
  note v = shift_cache_view(2) [OF assms(1) b assms(3-5), folded d_def]
  have some: "kv_view c' 0 i = Some q \<longleftrightarrow>
      (q < n_keep \<and> kv_view c 0 i = Some q) \<or> (n_keep \<le> q \<and> kv_view c 0 i = Some (q + d))" for i q
    using d by (auto simp: v split: option.splits if_splits)
  have "\<exists>!i. kv_view c' 0 i = Some q" if q: "0 \<le> q" "q < n'" for q
  proof (cases "q < n_keep")
    case True
    with q d n' assms(2) have "\<exists>!i. kv_view c 0 i = Some q" by (simp add: holds_prefix_def)
    with True show ?thesis by (simp add: some)
  next
    case False
    have "0 \<le> q + d" "q + d < n_past" using q d n' by simp_all
    with assms(2) have "\<exists>!i. kv_view c 0 i = Some (q + d)" unfolding holds_prefix_def by blast
    with False show ?thesis by (simp add: some)
  qed
  moreover have "0 \<le> q \<and> q < n'" if "kv_view c' 0 i = Some q" for i q
    using that b d n' assms(3) unfolding some by fastforce
  ultimately have "holds_prefix c' n'" by (simp add: holds_prefix_def)
  moreover have "kv_inv c'"
    using assms(1,5) by (auto simp: shift_cache_def Let_def rbind_eq_Inr_iff dest: seq_rm_inv ctx_seq_add_inv)
  ultimately show ?thesis using n' d unfolding d_def [symmetric] by (auto simp: v)
qed

definition full_cache :: llama_kv_cache where
  "full_cache =
     (kv_cache_init False 2)\<lparr>kv_used := 2,
        kv_cells := [empty_kv_cell\<lparr>kc_pos := 0, kc_seq_id := {0}\<rparr>, empty_kv_cell\<lparr>kc_pos := 1, kc_seq_id := {0}\<rparr>]\<rparr>"

theorem context_shift_contiguous_witness:
  "\<exists>c'. shift_cache 0 2 full_cache = Inr (1, c') \<and> holds_prefix c' 1"
proof -
  have i: "kv_inv full_cache"
    by (simp add: kv_inv_def full_cache_def kv_cache_init_def cell_ok_def empty_kv_cell_def in_int32_def
        INT32_MAX_def)
  have v: "kv_view full_cache 0 i = (if i < 2 then Some (int i) else None)" for i
    by (auto simp: kv_view_def full_cache_def cell_view_def kv_cache_init_def nth_Cons less_Suc_eq
        numeral_2_eq_2 split: nat.splits)
  have h: "holds_prefix full_cache 2"
    unfolding holds_prefix_def
  proof (intro conjI allI impI)
    fix p :: int assume p: "0 \<le> p \<and> p < 2"
    show "\<exists>!i. kv_view full_cache 0 i = Some p"
      by (rule ex1I [of _ "nat p"]) (use p in \<open>auto simp: v split: if_splits\<close>)
  qed (auto simp: v split: if_splits)
  have "\<exists>n' c'. shift_cache 0 2 full_cache = Inr (n', c')"
    by (simp add: shift_cache_def cdiv_def llama_kv_cache_seq_rm_def ctx_seq_add_def llama_kv_cache_seq_add_def full_cache_def
        kv_cache_init_def Let_def seq_rm_cell_def seq_add_cell_def seq_range_def in_range_def seq_hit_def
        empty_kv_cell_def in_int32_def INT32_MAX_def)
  then obtain n' c' where s: "shift_cache 0 2 full_cache = Inr (n', c')" by blast
  from context_shift_contiguous [OF i h _ _ s] s show ?thesis by auto
qed

section \<open>The session\<close>

lemma reuse_session_eq:
  "n < length st \<Longrightarrow> reuse_session ts st n =
     (let i = matching_prefix ts (drop n st) in
      (i, if i < length ts \<and> n + i < length st then take (n + i) st else st, n + i))"
proof (induction ts st n rule: reuse_session.induct)
  case (2 t ts st n)
  have d: "drop n st = st ! n # drop (Suc n) st" using Cons_nth_drop_Suc [OF "2.prems"] by simp
  show ?case
  proof (cases "t = st ! n")
    case t: True
    show ?thesis
    proof (cases "n + 1 \<ge> length st")
      case True
      with t d show ?thesis by simp
    next
      case False
      with 2 t d show ?thesis by (simp add: Let_def)
    qed
  next
    case False
    with d "2.prems" show ?thesis by simp
  qed
qed (simp add: Let_def)

lemma matching_prefix_take:
  "take (matching_prefix xs ys) xs = take (matching_prefix xs ys) ys
    \<and> matching_prefix xs ys \<le> length xs \<and> matching_prefix xs ys \<le> length ys
    \<and> (matching_prefix xs ys < length xs \<and> matching_prefix xs ys < length ys \<longrightarrow>
         xs ! matching_prefix xs ys \<noteq> ys ! matching_prefix xs ys)"
  by (induction xs ys rule: matching_prefix.induct) auto

text \<open>The pending tokens are taken from the session, without evaluation, exactly as far as they agree
  with it: the number skipped is the longest common prefix with the unconsumed session, the session is
  consumed by as much, and at the first disagreement it is cut off there.\<close>

theorem session_reuse_exact:
  assumes "n < length st" "reuse_session ts st n = (i, st', n')"
  shows "take i ts = take i (drop n st) \<and> n' = n + i \<and> i \<le> length ts
    \<and> (i < length ts \<and> n + i < length st \<longrightarrow> ts ! i \<noteq> st ! (n + i) \<and> st' = take n' st)
    \<and> (\<not> (i < length ts \<and> n + i < length st) \<longrightarrow> st' = st)"
  using assms(2) reuse_session_eq [OF assms(1), of ts] matching_prefix_take [of ts "drop n st"] assms(1)
  by (auto simp: Let_def)

theorem session_reuse_exact_witness: "reuse_session [7, 8, 9] [1, 7, 8, 5] 1 = (2, [1, 7, 8], 3)"
  using session_reuse_exact [of 1 "[1, 7, 8, 5]" "[7, 8, 9]" 2 "[1, 7, 8]" 3] by simp

lemma prepareE:
  assumes "prepare p m s = Inr (Inr (p1, s1))"
  obtains session c0 session' inp k c1 s2 ok where
    "load_session p m (l_world s) (l_cache s) = Some (session, c0)"
    "session \<noteq> [] \<longrightarrow> llama_kv_cache_seq_rm c0 (- 1) (int k) (- 1) = Inr (ok, c1)"
    "k = matching_prefix session inp" "p1 = start_params p m inp"
    "encode_input m (start_state p1 session' inp k c1 s2) = Inr s1"
proof -
  obtain session c0 where l: "load_session p m (l_world s) (l_cache s) = Some (session, c0)"
    using assms by (auto simp: prepare_def split: option.splits)
  obtain inp0 s2 where it: "input_tokens p m session s = (inp0, s2)" by (meson surj_pair)
  define inp where "inp = (if inp0 = [] \<and> m_add_bos m then [m_bos m] else inp0)"
  define k where "k = matching_prefix session inp"
  define st where "st = (if k = length inp \<and> length session > length inp then take (length inp - 1) session else session)"
  note u = assms [unfolded prepare_def l option.case prod.case it Let_def, folded inp_def, folded k_def, folded st_def]
  then obtain ok c1 where r: "(if session \<noteq> [] then llama_kv_cache_seq_rm c0 (- 1) (int k) (- 1) else Inr (True, c0)) = Inr (ok, c1)"
    by (auto simp: rbind_eq_Inr_iff split: if_splits)
  from u r have "p1 = start_params p m inp \<and> encode_input m (start_state p1 st inp k c1 s2) = Inr s1"
    by (simp split: if_split_asm sum.splits)
  moreover have "session \<noteq> [] \<longrightarrow> llama_kv_cache_seq_rm c0 (- 1) (int k) (- 1) = Inr (ok, c1)" using r by auto
  ultimately show thesis using l k_def that by blast
qed

text \<open>A loaded session leaves nothing behind: when the program starts to generate, the cache of a
  Transformer model holds no position that the session does not share with the input.\<close>

theorem session_future_removed:
  assumes "prepare p m s0 = Inr (Inr (p1, s1))" "load_session p m (l_world s0) (l_cache s0) = Some (session, c0)"
    and "session \<noteq> []" "kv_inv c0" "\<not> m_has_encoder m"
  shows "\<forall>q i x. kv_view (l_cache s1) q i = Some x \<longrightarrow>
    x < int (matching_prefix session (l_embd_inp s1)) \<or> x = INT32_MAX"
proof -
  let ?k = "matching_prefix session (l_embd_inp s1)"
  from prepareE [OF assms(1)] obtain session' inp k c1 s2 ok where
    e: "encode_input m (start_state p1 session' inp k c1 s2) = Inr s1"
    and r: "session \<noteq> [] \<longrightarrow> llama_kv_cache_seq_rm c0 (- 1) (int k) (- 1) = Inr (ok, c1)"
    and k: "k = matching_prefix session inp"
    using assms(2) by (metis option.inject prod.inject)
  from e assms(5) have "l_cache s1 = c1" "l_embd_inp s1 = inp" by (auto simp: encode_input_def start_state_def)
  with r k assms(3) have "llama_kv_cache_seq_rm c0 (- 1) (int ?k) (- 1) = Inr (ok, l_cache s1)" by simp
  from seq_rm_view [OF assms(4) this]
  have v: "kv_view (l_cache s1) = view_rm (- 1) (int ?k, INT32_MAX) (kv_view c0)" by (simp add: seq_range_def)
  have "x \<le> INT32_MAX" if "kv_view c0 q i = Some x" for q i x
    using that kv_inv_facts(2,4) [OF assms(4)]
    by (fastforce simp: kv_view_def cell_view_def cell_ok_def in_int32_def split: if_splits)
  then show ?thesis by (fastforce simp: v view_rm_def in_range_def split: option.splits if_splits)
qed

section \<open>The generation loop ends\<close>

text \<open>The fields the progress of the loop depends on; the number of tokens sampled so far.\<close>

definition progress :: "lac \<Rightarrow> int \<times> int list \<times> nat \<times> bool \<times> sampler_event list" where
  "progress s = (l_n_remain s, l_embd_inp s, l_n_consumed s, l_is_interacting s, l_sampler s)"

definition sampled :: "lac \<Rightarrow> nat" where
  "sampled s = length (filter (\<lambda>e. case e of Accepted _ g \<Rightarrow> g | Sampler_Reset \<Rightarrow> False) (l_sampler s))"

lemma progress_sampled: "progress s' = progress s \<Longrightarrow> sampled s' = sampled s"
  by (simp add: progress_def sampled_def)

lemma truncate_progress: "truncate_embd m s = go s' \<Longrightarrow> progress s' = progress s"
  by (auto simp: truncate_embd_def progress_def split: if_splits)

lemma make_room_progress: "make_room p m s = go s' \<Longrightarrow> progress s' = progress s"
  by (auto simp: make_room_def context_shift_def progress_def rbind_eq_Inr_iff split: if_splits)

lemma session_step_progress: "progress (session_step s) = progress s"
  by (simp add: session_step_def progress_def case_prod_unfold Let_def)

lemma eval_step_progress: "eval_step p m s = go s' \<Longrightarrow> progress s' = progress s"
  by (auto simp: eval_step_def progress_def split: option.splits if_splits)

lemma predict_progress: "predict p m s = go s' \<Longrightarrow> progress s' = progress s"
proof -
  assume "predict p m s = go s'"
  then obtain s3 where s3: "(if l_embd s \<noteq> [] then run_bind (truncate_embd m s) (\<lambda>s1.
      run_bind (make_room p m s1) (\<lambda>s2. eval_step p m (session_step s2))) else go s) = go s3"
    and s': "s' = s3\<lparr>l_embd := []\<rparr>"
    unfolding predict_def by (auto elim!: run_bind_GoE)
  from s3 have "progress s3 = progress s"
    by (auto split: if_splits elim!: run_bind_GoE dest!: truncate_progress make_room_progress eval_step_progress
        simp: session_step_progress)
  with s' show ?thesis by (simp add: progress_def)
qed

lemma collect_one_progress [simp]:
  "progress (collect_one p m several t s) = progress s"
  "progress (collect_one p m several t s\<lparr>l_early_stop_pos := x\<rparr>) = progress s"
  by (simp_all add: collect_one_def progress_def Let_def)

lemma collect_output_progress: "collect_output p m several ts s = Some s' \<Longrightarrow> progress s' = progress s"
proof (induction ts arbitrary: s)
  case (Cons t ts)
  let ?s1 = "collect_one p m several t s"
  from Cons.prems consider x where "s' = ?s1\<lparr>l_early_stop_pos := x\<rparr>"
    | x where "collect_output p m several ts (?s1\<lparr>l_early_stop_pos := x\<rparr>) = Some s'"
    | "collect_output p m several ts ?s1 = Some s'"
    by (auto simp only: collect_output.simps Let_def split: if_splits option.splits)
  then show ?case by cases (use Cons.IH in auto)
qed simp

lemma output_step_progress: "output_step p m s = go s' \<Longrightarrow> progress s' = progress s"
  by (auto simp: output_step_def progress_def dest!: collect_output_progress split: if_splits)

lemma antiprompt_progress:
  "antiprompt_step p m s = Inr s' \<Longrightarrow> \<not> p_interactive p \<Longrightarrow> progress s' = progress s"
  by (auto simp: antiprompt_step_def progress_def rbind_eq_Inr_iff split: if_splits)

lemma eog_progress: "eog_step p m s = Inr s' \<Longrightarrow> \<not> p_interactive p \<Longrightarrow> progress s' = progress s"
  by (auto simp: eog_step_def progress_def rbind_eq_Inr_iff Let_def split: if_splits)

lemma turn_step_progress:
  assumes "turn_step p m s = go s'" "\<not> p_interactive p" "\<not> l_is_interacting s"
  shows "progress s' = progress s"
proof (cases "length (l_embd_inp s) \<le> l_n_consumed s")
  case True
  with assms(1) obtain s1 s2 where a: "antiprompt_step p m s = Inr s1" "eog_step p m s1 = Inr s2"
    "s' = end_turn (input_step p m s2)"
    by (auto simp: turn_step_def rbind_eq_Inr_iff)
  from antiprompt_progress [OF a(1) assms(2)] eog_progress [OF a(2) assms(2)]
  have "progress s2 = progress s" by simp
  with a(3) assms(3) show ?thesis by (auto simp: progress_def end_turn_def input_step_def)
qed (use assms in \<open>simp add: turn_step_def\<close>)

lemma stop_step_progress: "stop_step p m s = go s' \<Longrightarrow> \<not> p_interactive p \<Longrightarrow> progress s' = progress s"
  by (auto simp: stop_step_def Let_def split: if_splits)

lemma fold_accept_fields:
  "l_n_remain (fold (sampler_accept g) ts s) = l_n_remain s"
  "l_embd_inp (fold (sampler_accept g) ts s) = l_embd_inp s"
  "l_n_consumed (fold (sampler_accept g) ts s) = l_n_consumed s"
  "l_is_interacting (fold (sampler_accept g) ts s) = l_is_interacting s"
  "l_sampler (fold (sampler_accept g) ts s) = l_sampler s @ map (\<lambda>t. Accepted t g) ts"
  by (induction ts arbitrary: s) (simp_all add: sampler_accept_def)

text \<open>One choice of tokens: either one is sampled from the budget or some input is consumed.\<close>

definition work_left :: "lac \<Rightarrow> nat" where
  "work_left s = nat (l_n_remain s) + (length (l_embd_inp s) - l_n_consumed s)"

definition good_turn :: "lac \<Rightarrow> bool" where
  "good_turn s \<longleftrightarrow> \<not> l_is_interacting s \<and> 0 \<le> l_n_remain s"

lemma next_tokens_work:
  assumes "good_turn s" "l_n_remain s \<noteq> 0"
  shows "good_turn (next_tokens p m s)" "work_left (next_tokens p m s) < work_left s"
    "int (sampled (next_tokens p m s)) + l_n_remain (next_tokens p m s) = int (sampled s) + l_n_remain s"
proof -
  have "good_turn (next_tokens p m s) \<and> work_left (next_tokens p m s) < work_left s
    \<and> int (sampled (next_tokens p m s)) + l_n_remain (next_tokens p m s) = int (sampled s) + l_n_remain s"
  proof (cases "length (l_embd_inp s) \<le> l_n_consumed s")
    case True
    with assms show ?thesis
      by (auto simp: next_tokens_def sample_token_def sampler_accept_def good_turn_def work_left_def sampled_def Let_def)
  next
    case False
    with assms show ?thesis
      by (auto simp: next_tokens_def consume_input_def fold_accept_fields good_turn_def work_left_def sampled_def Let_def)
  qed
  then show "good_turn (next_tokens p m s)" "work_left (next_tokens p m s) < work_left s"
    "int (sampled (next_tokens p m s)) + l_n_remain (next_tokens p m s) = int (sampled s) + l_n_remain s"
    by blast+
qed

lemma progress_cong:
  assumes "progress s' = progress s"
  shows "good_turn s' = good_turn s" "work_left s' = work_left s" "sampled s' = sampled s"
    "l_n_remain s' = l_n_remain s" "l_is_interacting s' = l_is_interacting s"
  using assms by (simp_all add: progress_def good_turn_def work_left_def sampled_def)

lemma check_early_stop_returns: "\<exists>r. check_early_stop b = Some r"
  by (auto simp: early_stop_simps)

lemma collect_output_returns: "\<exists>s'. collect_output p m several ts s = Some s'"
proof (induction ts arbitrary: s)
  case (Cons t ts)
  obtain r where "check_early_stop (drop (length (p_command_prompt p)) (l_output_buffer (collect_one p m several t s))) = Some r"
    using check_early_stop_returns by blast
  with Cons show ?case by (simp add: Let_def)
qed simp

lemma eval_step_Some: "\<exists>f. eval_step p m s = Some f"
  by (simp add: eval_step_def split: option.splits)

lemma run_bind_returns: "m \<noteq> None \<Longrightarrow> (\<And>s. f s \<noteq> None) \<Longrightarrow> run_bind m f \<noteq> None"
  by (auto simp: run_bind_def split: option.splits sum.splits flow.splits)

lemma predict_returns:
  assumes "p_grp_attn_n p = 1"
  shows "\<exists>f. predict p m s = Some f"
proof -
  have "make_room p m s1 \<noteq> None" for s1 using assms by (simp add: make_room_def context_shift_def)
  moreover have "eval_step p m s1 \<noteq> None" for s1 using eval_step_Some by simp
  moreover have "truncate_embd m s \<noteq> None" by (simp add: truncate_embd_def)
  ultimately have "run_bind (truncate_embd m s) (\<lambda>s1.
      run_bind (make_room p m s1) (\<lambda>s2. eval_step p m (session_step s2))) \<noteq> None"
    by (intro run_bind_returns) blast+
  then have "(if l_embd s \<noteq> [] then run_bind (truncate_embd m s) (\<lambda>s1.
      run_bind (make_room p m s1) (\<lambda>s2. eval_step p m (session_step s2))) else go s) \<noteq> None" by simp
  then have "predict p m s \<noteq> None" unfolding predict_def by (rule run_bind_returns) (rule option.distinct(2))
  then show ?thesis by blast
qed

lemma predict_break:
  assumes "predict p m s = Some (Inr (Break s'))"
  shows "progress s' = progress s"
proof -
  have b: "context_shift p m s1 = Some (Inr (Break s')) \<Longrightarrow> s' = s1" for s1
    by (auto simp: context_shift_def rbind_def split: if_splits sum.splits)
  have e: "eval_step p m s1 \<noteq> Some (Inr (Break s'))" for s1
    by (simp add: eval_step_def split: option.splits)
  have mr: "make_room p m s1 = Some (Inr (Break s')) \<Longrightarrow> s' = s1" for s1
  proof (cases "p_grp_attn_n p = 1")
    case False
    then show "make_room p m s1 = Some (Inr (Break s')) \<Longrightarrow> s' = s1"
      by (auto simp: make_room_def rbind_eq_Inr_iff)
  qed (use b in \<open>simp add: make_room_def\<close>)
  from assms obtain s1 where "truncate_embd m s = go s1" "make_room p m s1 = Some (Inr (Break s'))"
    using e by (auto simp: predict_def truncate_embd_def run_bind_def split: if_splits option.splits sum.splits flow.splits)
  with mr truncate_progress show ?thesis by metis
qed

lemma output_step_returns: "\<exists>s'. output_step p m s = go s'"
  using collect_output_returns by (auto simp: output_step_def)

lemma turn_step_Some: "\<exists>r. turn_step p m s = Some r \<and> (\<forall>s'. r \<noteq> Inr (Break s'))"
  by (auto simp: turn_step_def rbind_def split: sum.splits)

lemma stop_step_cases:
  assumes "\<not> p_interactive p"
  shows "stop_step p m s = go s \<or> stop_step p m s = Some (Inr (Break s))"
  using assms by (auto simp: stop_step_def)

text \<open>The result of a round for a non-interactive run: it is there, and what it leaves accounts for the
  budget.\<close>

lemma loop_body_round:
  assumes "\<not> p_interactive p" "p_grp_attn_n p = 1" "good_turn s" "l_n_remain s \<noteq> 0"
  obtains r where "loop_body p m s = Some r"
    "\<And>s'. r = Inr (Go s') \<Longrightarrow> good_turn s' \<and> work_left s' < work_left s
       \<and> int (sampled s') + l_n_remain s' = int (sampled s) + l_n_remain s"
    "\<And>s'. r = Inr (Break s') \<Longrightarrow> int (sampled s') \<le> int (sampled s) + l_n_remain s"
proof -
  obtain f where f: "predict p m s = Some f" using predict_returns [OF assms(2)] by blast
  show thesis
  proof (cases "\<exists>s1. f = Inr (Go s1)")
    case False
    then have "loop_body p m s = Some f"
      by (auto simp: loop_body_def f run_bind_def split: sum.splits flow.splits)
    moreover have "int (sampled s') \<le> int (sampled s) + l_n_remain s" if "f = Inr (Break s')" for s'
      using predict_break f that assms(3) by (metis good_turn_def le_add_same_cancel1 progress_cong(3))
    ultimately show thesis using False by (intro that) auto
  next
    case True
    then obtain s1 where s1: "predict p m s = go s1" using f by blast
    note c1 = progress_cong [OF predict_progress [OF s1]]
    let ?n = "next_tokens p m s1"
    have nt: "good_turn ?n" "work_left ?n < work_left s"
      "int (sampled ?n) + l_n_remain ?n = int (sampled s) + l_n_remain s"
      using next_tokens_work [of s1 p m] assms(3,4) by (simp_all add: c1)
    obtain s2 where s2: "output_step p m ?n = go s2" using output_step_returns by blast
    note c2 = progress_cong [OF output_step_progress [OF s2]]
    obtain r where r: "turn_step p m s2 = Some r" "\<And>s'. r \<noteq> Inr (Break s')" using turn_step_Some by blast
    have body: "loop_body p m s = run_bind (Some r) (stop_step p m)"
      by (simp add: loop_body_def s1 s2 r(1))
    show thesis
    proof (cases "\<exists>s3. r = Inr (Go s3)")
      case False
      with body r(2) have "loop_body p m s = Some r" by (auto simp: run_bind_def split: sum.splits flow.splits)
      with False r(2) show thesis by (intro that) auto
    next
      case True
      then obtain s3 where s3: "turn_step p m s2 = go s3" using r(1) by blast
      have ni: "\<not> l_is_interacting s2" using nt(1) c2(1) by (simp add: good_turn_def c2(5))
      note c3 = progress_cong [OF turn_step_progress [OF s3 assms(1) ni]]
      have "good_turn s3" "work_left s3 < work_left s"
        "int (sampled s3) + l_n_remain s3 = int (sampled s) + l_n_remain s"
        using nt by (simp_all add: c3 c2)
      moreover have "loop_body p m s = stop_step p m s3" using body s3 r(1) by simp
      ultimately show thesis using stop_step_cases [OF assms(1), of m s3]
        by (elim disjE) (auto intro!: that simp: good_turn_def)
    qed
  qed
qed

text \<open>C1: Generation with a budget ends and respects it: without interaction, without Self-Extend and with
  a number of tokens to predict that is not negative (the default \<open>-1\<close> means without end), whatever the
  model does, the loop returns (if only with an error), and when it returns normally at most
  as many tokens were sampled as were left to predict.\<close>

theorem generation_ends:
  assumes "\<not> p_interactive p" "p_grp_attn_n p = 1" "\<not> l_is_interacting s" "0 \<le> l_n_remain s"
  shows "\<exists>r. main_loop p m s = Some r
    \<and> (\<forall>s'. r = Inr (Go s') \<longrightarrow> int (sampled s') \<le> int (sampled s) + l_n_remain s)"
proof -
  have "good_turn s" using assms(3,4) by (simp add: good_turn_def)
  then show ?thesis
  proof (induction "work_left s" arbitrary: s rule: less_induct)
    case less
    note u = main_loop.simps [of p m s]
    show ?case
    proof (cases "loop_cond p s")
      case False
      with less.prems show ?thesis by (simp add: u good_turn_def)
    next
      case True
      then have n: "l_n_remain s \<noteq> 0" using assms(1) by (simp add: loop_cond_def)
      obtain r where r: "loop_body p m s = Some r"
        "\<And>s'. r = Inr (Go s') \<Longrightarrow> good_turn s' \<and> work_left s' < work_left s
           \<and> int (sampled s') + l_n_remain s' = int (sampled s) + l_n_remain s"
        "\<And>s'. r = Inr (Break s') \<Longrightarrow> int (sampled s') \<le> int (sampled s) + l_n_remain s"
        using loop_body_round [OF assms(1,2) less.prems n] by blast
      show ?thesis
      proof (cases "\<exists>s'. r = Inr (Go s')")
        case True
        then obtain s' where s': "r = Inr (Go s')" by blast
        from less.hyps [of s'] r(2) [OF s'] s' r(1) \<open>loop_cond p s\<close> show ?thesis by (simp add: u)
      next
        case False
        with r \<open>loop_cond p s\<close> show ?thesis
          by (cases r) (auto simp: u split: flow.splits)
      qed
    qed
  qed
qed

section \<open>What the start and the end let through\<close>

lemma io_bind_SomeI_E:
  assumes "io_bind m f w = Some (Inr (y, w2))"
  shows "\<exists>x w1. m w = Some (Inr (x, w1)) \<and> f x w1 = Some (Inr (y, w2))"
  using assms by (blast elim: io_bind_SomeE)

lemma choose_model_params:
  assumes "choose_model lib p w = Some (Inr (Inr p1, w1))"
  shows "p1\<lparr>p_model := []\<rparr> = p\<lparr>p_model := []\<rparr>"
proof (cases "p_model p \<noteq> p_default_model p")
  case True
  with assms show ?thesis by (simp add: choose_model_def)
next
  case False
  with assms show ?thesis
    unfolding choose_model_def by (auto elim!: io_bind_SomeE split: if_splits)
qed

lemma choose_model_fields:
  assumes "choose_model lib p w = Some (Inr (Inr p1, w1))"
  shows "p_prompt p1 = p_prompt p" "p_command_prompt p1 = p_command_prompt p" "p_n_ctx p1 = p_n_ctx p"
  using arg_cong [OF choose_model_params [OF assms], of p_prompt]
    arg_cong [OF choose_model_params [OF assms], of p_command_prompt]
    arg_cong [OF choose_model_params [OF assms], of p_n_ctx] by simp_all

lemma check_prompt_params:
  assumes "check_prompt p w = Some (Inr (Inr p1, w1))"
  shows "p_llmc_mode p1 \<in> {''loop'', ''exit''} \<and> p_n_ctx p1 = p_n_ctx p \<and> (p_n_ctx p = 0 \<or> 4096 \<le> p_n_ctx p)
    \<and> p_prompt p \<noteq> []
    \<and> p_prompt p1 = p_command_prompt p @ newline # ''### Instruction'' @ newline # p_prompt p
        @ newline # ''### Response'' @ [newline]"
  using assms by (auto simp: check_prompt_def Let_def split: if_splits)

text \<open>C11: Only checked parameters reach the model: when the start of \<^verbatim>\<open>main\<close> goes on, the mode is
  \<open>loop\<close> or \<open>exit\<close>, the context size is the model's default or at least 4096, and the
  prompt is the user's non-empty one behind the fixed command prompt.\<close>

theorem startup_checked:
  assumes "startup lib p0 w = Some (Inr (Inr p, w'))"
  shows "p_llmc_mode p \<in> {''loop'', ''exit''} \<and> (p_n_ctx p = 0 \<or> 4096 \<le> p_n_ctx p) \<and> p_prompt p0 \<noteq> []
    \<and> p_prompt p = p_command_prompt p0 @ newline # ''### Instruction'' @ newline # p_prompt p0
        @ newline # ''### Response'' @ [newline]"
proof -
  define q where "q = (if p_n_ctx p0 \<noteq> 0 \<and> p_n_ctx p0 < 8 then p0\<lparr>p_n_ctx := 8\<rparr> else p0)"
  from assms have "io_bind (choose_model lib q) (\<lambda>r. case r of Inl code \<Rightarrow> io_ret (Inl code) | Inr p1 \<Rightarrow> check_prompt p1) w
      = Some (Inr (Inr p, w'))"
    by (auto simp: startup_def q_def [symmetric] Let_def split: if_splits elim!: io_bind_SomeE)
  then obtain r w1 where r: "choose_model lib q w = Some (Inr (r, w1))"
    "(case r of Inl code \<Rightarrow> io_ret (Inl code) | Inr p1 \<Rightarrow> check_prompt p1) w1 = Some (Inr (Inr p, w'))"
    by (rule io_bind_SomeE)
  then obtain p1 where p1: "r = Inr p1" "check_prompt p1 w1 = Some (Inr (Inr p, w'))"
    by (auto split: sum.splits)
  note f = choose_model_fields [OF r(1) [unfolded p1(1)]]
  have "p_prompt q = p_prompt p0" "p_command_prompt q = p_command_prompt p0" by (simp_all add: q_def)
  moreover have "p_n_ctx p = p_n_ctx q" using check_prompt_params [OF p1(2)] f by simp
  ultimately show ?thesis using check_prompt_params [OF p1(2)] f by auto
qed

text \<open>A concrete run: parameters, a one-letter-per-token model, and a state.\<close>

definition sample_params :: gpt_params where
  "sample_params =
     \<lparr>p_command_prompt = ''#'', p_prompt = ''ls'', p_model = ''m'', p_default_model = [], p_llmc_mode = ''EXIT'',
      p_llmc_setup = False, p_llmc_show_args = False, p_llmc_show_explanation = False, p_logits_all = False,
      p_embedding = False, p_n_ctx = 4096, p_n_predict = 0, p_n_keep = 0, p_n_batch = 4, p_grp_attn_n = 1,
      p_grp_attn_w = 512, p_ctx_shift = True, p_interactive = False, p_interactive_first = False,
      p_conversation = False, p_enable_chat_template = True, p_multiline_input = False, p_escape = True,
      p_display_prompt = True, p_special = False, p_input_prefix_bos = False, p_input_prefix = [],
      p_input_suffix = [], p_antiprompt = [], p_path_prompt_cache = [], p_prompt_cache_all = False,
      p_prompt_cache_ro = False\<rparr>"

definition sample_llm :: llm where
  "sample_llm =
     \<lparr>m_n_ctx = 100, m_add_bos = True, m_add_eos = False, m_has_encoder = False, m_encode_ok = (\<lambda>_. True),
      m_decoder_start = - 1, m_bos = 1, m_eos = 2, m_eot = - 1,
      m_tokenize = (\<lambda>s _ _. map (\<lambda>c. int (char_code c)) s), m_piece = (\<lambda>t _. [char_of (nat t)]),
      m_is_eog = (\<lambda>t. t = 2), m_decode = (\<lambda>c _ _. Some c), m_sample = (\<lambda>_ _. 2),
      m_chat_format = (\<lambda>_ msg _. snd msg), m_load_session = (\<lambda>_ _. Some ([35], full_cache))\<rparr>"

definition sample_lac :: lac where
  "sample_lac =
     \<lparr>l_n_past = 0, l_n_remain = 3, l_n_consumed = 0, l_n_session_consumed = 0, l_ga_i = 0, l_is_antiprompt = False,
      l_is_interacting = False, l_need_insert_eot = False, l_input_echo = True, l_display = True,
      l_need_to_save_session = False, l_path_session = [], l_session_tokens = [], l_saved = [], l_embd = [],
      l_embd_inp = [35, 36], l_cache = kv_cache_init False 100, l_sampler = [], l_prev = ring_buffer_init 0 64,
      l_output_buffer = [], l_early_stop_pos = - 1, l_input_tokens = [], l_output_tokens = [], l_output_ss = [],
      l_assistant_ss = [], l_chat_msgs = [], l_world = sample_world []\<rparr>"

theorem startup_checked_witness:
  "\<exists>p w'. startup one_entry_lib sample_params (sample_world []) = Some (Inr (Inr p, w')) \<and> p_llmc_mode p = ''exit''"
proof -
  have l: "to_lower_case ''EXIT'' = ''exit''" by code_simp
  have "\<exists>p w'. startup one_entry_lib sample_params (sample_world []) = Some (Inr (Inr p, w')) \<and> p_llmc_mode p = ''exit''"
    by (simp add: startup_def choose_model_def check_prompt_def sample_params_def Let_def l)
  then obtain p w' where s: "startup one_entry_lib sample_params (sample_world []) = Some (Inr (Inr p, w'))"
    "p_llmc_mode p = ''exit''" by blast
  from startup_checked [OF s(1)] s show ?thesis by blast
qed

theorem generation_ends_witness:
  "\<exists>r. main_loop sample_params sample_llm sample_lac = Some r"
  using generation_ends [of sample_params sample_lac sample_llm] by (auto simp: sample_params_def sample_lac_def)

lemma prepare_returns:
  assumes "load_session p m (l_world s0) (l_cache s0) = Some (session, c0)"
    "input_tokens p m session s0 = (inp, s1)" "inp \<noteq> []" "int (length inp) \<le> m_n_ctx m - 4"
    "session = [] \<or> llama_kv_cache_seq_rm c0 (- 1) (int (matching_prefix session inp)) (- 1) = Inr (ok, c1)"
    "\<not> m_add_eos m" "\<not> m_has_encoder m" "p_grp_attn_n p = 1"
  shows "\<exists>p1 s1. prepare p m s0 = Inr (Inr (p1, s1))"
  using assms by (cases "session = []") (simp_all add: prepare_def encode_input_def Let_def)

theorem session_future_removed_witness:
  "\<exists>p1 s1. prepare (sample_params\<lparr>p_path_prompt_cache := ''s''\<rparr>) sample_llm
      (sample_lac\<lparr>l_world := (sample_world [])\<lparr>w_files := [''s'' \<mapsto> ''x'']\<rparr>\<rparr>) = Inr (Inr (p1, s1))
    \<and> (\<forall>q i x. kv_view (l_cache s1) q i = Some x \<longrightarrow>
         x < int (matching_prefix [35] (l_embd_inp s1)) \<or> x = INT32_MAX)"
proof -
  let ?p = "sample_params\<lparr>p_path_prompt_cache := ''s''\<rparr>"
  let ?s = "sample_lac\<lparr>l_world := (sample_world [])\<lparr>w_files := [''s'' \<mapsto> ''x'']\<rparr>\<rparr>"
  have l: "load_session ?p sample_llm (l_world ?s) (l_cache ?s) = Some ([35], full_cache)"
    by (simp add: load_session_def sample_params_def sample_llm_def)
  have i: "kv_inv full_cache"
    by (simp add: kv_inv_def full_cache_def kv_cache_init_def cell_ok_def empty_kv_cell_def in_int32_def
        INT32_MAX_def)
  have "\<exists>c1. llama_kv_cache_seq_rm full_cache (- 1) 0 (- 1) = Inr (True, c1)"
    unfolding llama_kv_cache_seq_rm_def
    by (simp add: full_cache_def kv_cache_init_def Let_def case_prod_unfold del: cells_loop.simps)
  then obtain c1 where r: "llama_kv_cache_seq_rm full_cache (- 1) 0 (- 1) = Inr (True, c1)" by blast
  have it: "input_tokens ?p sample_llm [35] ?s = ([108, 115], ?s)"
    by (simp add: input_tokens_def sample_params_def sample_llm_def char_code_def)
  have f: "m_add_eos sample_llm = False" "m_has_encoder sample_llm = False" "m_n_ctx sample_llm = 100"
    "p_grp_attn_n ?p = 1" by (simp_all add: sample_llm_def sample_params_def)
  have "\<exists>p1 s1. prepare ?p sample_llm ?s = Inr (Inr (p1, s1))"
    by (rule prepare_returns [OF l it]) (simp_all add: f r)
  then obtain p1 s1 where "prepare ?p sample_llm ?s = Inr (Inr (p1, s1))" by blast
  with session_future_removed [OF this l _ i] show ?thesis by (auto simp: sample_llm_def)
qed

lemma prepare_fields:
  assumes "prepare p m s = Inr (Inr (p1, s1))"
  shows "l_n_remain s1 = p_n_predict p" "l_output_buffer s1 = []" "p_command_prompt p1 = p_command_prompt p"
    "p_interactive p1 = (p_interactive p \<or> p_interactive_first p \<or> p_conversation p)"
proof -
  obtain session inp k c1 s2 where
    p1: "p1 = start_params p m inp" and s1: "encode_input m (start_state p1 session inp k c1 s2) = Inr s1"
    by (rule prepareE [OF assms]) (rule that)
  from s1 show "l_n_remain s1 = p_n_predict p" "l_output_buffer s1 = []"
    by (auto simp: encode_input_def start_state_def p1 start_params_def Let_def split: if_splits)
  show "p_command_prompt p1 = p_command_prompt p"
    "p_interactive p1 = (p_interactive p \<or> p_interactive_first p \<or> p_conversation p)"
    by (simp_all add: p1 start_params_def Let_def)
qed

text \<open>C40: With a budget of zero tokens, when the program is not interactive and has a command prompt, it does
  not end in order: the loop is not entered, nothing is collected, and taking the part behind the command prompt throws \<^verbatim>\<open>std::out_of_range\<close>.\<close>

theorem zero_budget_throws:
  assumes "prepare p m s = Inr (Inr (p1, s1))" "p_n_predict p = 0" "p_command_prompt p \<noteq> []"
    and "\<not> (p_interactive p \<or> p_interactive_first p \<or> p_conversation p)"
  shows "generate p m s = Some (Inl Out_Of_Range)"
proof -
  note f = prepare_fields [OF assms(1)]
  have "main_loop p1 m s1 = go s1"
    using f assms(2,4) by (subst main_loop.simps) (simp add: loop_cond_def)
  moreover have "final_text p1 s1 = Inl Out_Of_Range"
    using f assms(3) by (simp add: final_text_def substr_from_def)
  ultimately show ?thesis by (simp add: generate_def assms(1) finish_def)
qed

theorem zero_budget_throws_witness:
  "generate sample_params sample_llm sample_lac = Some (Inl Out_Of_Range)"
proof -
  have l: "load_session sample_params sample_llm (l_world sample_lac) (l_cache sample_lac) = Some ([], l_cache sample_lac)"
    by (simp add: load_session_def sample_params_def)
  have it: "input_tokens sample_params sample_llm [] sample_lac = ([108, 115], sample_lac)"
    by (simp add: input_tokens_def sample_params_def sample_llm_def char_code_def)
  have f: "m_add_eos sample_llm = False" "m_has_encoder sample_llm = False" "m_n_ctx sample_llm = 100"
    "p_grp_attn_n sample_params = 1" by (simp_all add: sample_llm_def sample_params_def)
  have "\<exists>p1 s1. prepare sample_params sample_llm sample_lac = Inr (Inr (p1, s1))"
    by (rule prepare_returns [OF l it]) (simp_all add: f)
  then obtain p1 s1 where "prepare sample_params sample_llm sample_lac = Inr (Inr (p1, s1))" by blast
  from zero_budget_throws [OF this] show ?thesis by (simp add: sample_params_def)
qed

end
