(* ===== verification/Utf8.thy ===== *)
theory Utf8
  imports Readline
begin

text \<open>
  The UTF-8 decoders of \<^verbatim>\<open>src/llama-grammar.cpp\<close>: the one for a single character of a grammar
  text, and the one for token pieces, which may end within a character and hands the part read so
  far over to the next piece.
\<close>

record llama_partial_utf8 =
  pu_value :: nat
  pu_n_remain :: int

section \<open>One character\<close>

text \<open>\<^verbatim>\<open>*pos++ & 0x3F\<close> appended to a value of 32 bits.\<close>

definition push_byte :: "nat \<Rightarrow> char \<Rightarrow> nat" where
  "push_byte v c = (v * 64 + char_code c mod 64) mod 2 ^ 32"

fun take_bytes :: "nat \<Rightarrow> nat \<Rightarrow> string \<Rightarrow> nat \<times> nat \<times> string" where
  "take_bytes v (Suc n) (c # s) = take_bytes (push_byte v c) n s"
| "take_bytes v n s = (v, n, s)"

definition lead_len :: "nat \<Rightarrow> nat" where
  "lead_len highbits = [1, 1, 1, 1, 1, 1, 1, 1, 1, 1, 1, 1, 2, 2, 3, 4] ! highbits"

text \<open>The text is a C string; at its end there is nothing to decode.\<close>

fun decode_utf8_char :: "string \<Rightarrow> nat \<times> string" where
  "decode_utf8_char [] = (0, [])"
| "decode_utf8_char (c # s) =
     (let len = lead_len (char_code c div 16);
          (v, _, rest) = take_bytes (char_code c mod 2 ^ (8 - len)) (len - 1) s
      in (v, rest))"

section \<open>A piece of text\<close>

definition lead_remain :: "nat \<Rightarrow> int" where
  "lead_remain highbits = [1, 1, 1, 1, 1, 1, 1, 1, 0, 0, 0, 0, 2, 2, 3, 4] ! highbits - 1"

text \<open>The bytes that continue the previous piece; \<^term>\<open>None\<close> is an invalid sequence.\<close>

fun continue_decode :: "nat \<Rightarrow> int \<Rightarrow> string \<Rightarrow> (nat \<times> int \<times> string) option" where
  "continue_decode v n [] = Some (v, n, [])"
| "continue_decode v n (c # s) =
     (if n > 0 then if is_cont c then continue_decode (push_byte v c) (n - 1) s else None
      else Some (v, n, c # s))"

lemma take_bytes_length: "take_bytes v n s = (v', n', s') \<Longrightarrow> length s' \<le> length s"
  by (induction v n s rule: take_bytes.induct) auto

function decode_seqs :: "nat list \<Rightarrow> nat \<Rightarrow> int \<Rightarrow> string \<Rightarrow> nat list \<times> llama_partial_utf8" where
  "decode_seqs acc v n [] = (acc @ [0], \<lparr>pu_value = v, pu_n_remain = n\<rparr>)"
| "decode_seqs acc v n (c # s) =
     (let n1 = lead_remain (char_code c div 16) in
      if n1 < 0 then ([0], \<lparr>pu_value = 0, pu_n_remain = n1\<rparr>)
      else case take_bytes (char_code c mod 2 ^ (7 - nat n1)) (nat n1) s of
             (v', n', s') \<Rightarrow> decode_seqs (if n' = 0 then acc @ [v'] else acc) v' (int n') s')"
  by pat_completeness auto
termination
  by (relation "measure (\<lambda>(_, _, _, s). length s)") (auto dest!: sym [THEN take_bytes_length])

declare decode_seqs.simps(2) [simp del]

definition decode_utf8 :: "string \<Rightarrow> llama_partial_utf8 \<Rightarrow> nat list \<times> llama_partial_utf8" where
  "decode_utf8 src partial_start =
     (case continue_decode (pu_value partial_start) (pu_n_remain partial_start) (c_str src) of
        None \<Rightarrow> ([0], \<lparr>pu_value = 0, pu_n_remain = - 1\<rparr>)
      | Some (v, n, s) \<Rightarrow>
          decode_seqs (if pu_n_remain partial_start > 0 \<and> n = 0 then [v] else []) v n s)"

section \<open>Decoding in pieces\<close>

lemma take_bytes_zero [simp]: "take_bytes v 0 s = (v, 0, s)"
  by (cases s) simp_all

lemma take_bytes_Nil [simp]: "take_bytes v n [] = (v, n, [])"
  by (cases n) simp_all

lemma take_bytes_pos: "0 < n \<Longrightarrow> take_bytes v n (c # s) = take_bytes (push_byte v c) (n - 1) s"
  by (cases n) simp_all

lemma take_bytes_append:
  "take_bytes v n (a @ b) =
     (case take_bytes v n a of
        (v', n', s') \<Rightarrow> if s' = [] then take_bytes v' n' b else (v', n', s' @ b))"
  by (induction v n a rule: take_bytes.induct) auto

lemma take_bytes_done: "take_bytes v n s = (v', n', s') \<Longrightarrow> n' = 0 \<or> s' = []"
  by (induction v n s rule: take_bytes.induct) auto

lemma continue_append:
  "continue_decode v n (a @ b) =
     (case continue_decode v n a of
        None \<Rightarrow> None
      | Some (v', n', s') \<Rightarrow> if s' = [] then continue_decode v' n' b else Some (v', n', s' @ b))"
  by (induction v n a rule: continue_decode.induct) auto

lemma continue_take:
  assumes "continue_decode v n s = Some (v', n', s')" "0 \<le> n"
  shows "take_bytes v (nat n) s = (v', nat n', s') \<and> 0 \<le> n' \<and> (n' = 0 \<or> s' = [])"
  using assms
proof (induction v n s rule: continue_decode.induct)
  case (2 v n c s)
  show ?case
  proof (cases "n > 0")
    case True
    then obtain k where k: "nat n = Suc k" "nat (n - 1) = k"
      by (metis Suc_pred' nat_diff_distrib' nat_one_as_int zero_less_nat_eq diff_Suc_1 nat_1
          less_imp_le zero_le_one One_nat_def gr0_implies_Suc)
    with True 2 show ?thesis by (auto split: if_splits)
  next
    case False
    with 2 show ?thesis by auto
  qed
qed auto

text \<open>What follows once a character has been left half read.\<close>

definition resume :: "nat list \<Rightarrow> nat \<Rightarrow> int \<Rightarrow> string \<Rightarrow> nat list \<times> llama_partial_utf8" where
  "resume acc v n s =
     (case take_bytes v (nat n) s of
        (v', n', s') \<Rightarrow> decode_seqs (if n > 0 \<and> n' = 0 then acc @ [v'] else acc) v' (int n') s')"

lemma decode_seqs_append:
  assumes "decode_seqs acc v n a = (xs @ [0], st)" "0 \<le> pu_n_remain st" "n = 0"
  shows "decode_seqs acc v n (a @ b) = resume xs (pu_value st) (pu_n_remain st) b"
  using assms
proof (induction acc v n a rule: decode_seqs.induct)
  case (1 acc v n)
  then show ?case by (auto simp: resume_def)
next
  case (2 acc v n c s)
  define n1 where "n1 = lead_remain (char_code c div 16)"
  obtain v' n' s' where t: "take_bytes (char_code c mod 2 ^ (7 - nat n1)) (nat n1) s = (v', n', s')"
    by (cases "take_bytes (char_code c mod 2 ^ (7 - nat n1)) (nat n1) s") auto
  have n1: "0 \<le> n1" using "2.prems" by (auto simp: decode_seqs.simps(2) n1_def Let_def split: if_splits)
  have rest: "decode_seqs (if n' = 0 then acc @ [v'] else acc) v' (int n') s' = (xs @ [0], st)"
    using "2.prems"(1) n1 t by (simp add: decode_seqs.simps(2) n1_def Let_def)
  show ?case
  proof (cases "s' = []")
    case True
    with rest have "xs = (if n' = 0 then acc @ [v'] else acc)" "pu_value st = v'" "pu_n_remain st = int n'"
      by auto
    with True t n1 show ?thesis
      by (auto simp: decode_seqs.simps(2) n1_def Let_def take_bytes_append resume_def
          split: prod.splits)
  next
    case False
    with take_bytes_done [OF t] have "n' = 0" by simp
    with 2 n1 t rest False show ?thesis
      by (auto simp: decode_seqs.simps(2) n1_def Let_def take_bytes_append)
  qed
qed

lemma decode_seqs_acc:
  assumes "decode_seqs acc v n s = (zs, st)" "n \<ge> 0" "0 \<le> pu_n_remain st"
  shows "decode_seqs (ys @ acc) v n s = (ys @ zs, st)"
  using assms
proof (induction acc v n s arbitrary: zs rule: decode_seqs.induct)
  case (2 acc v n c s)
  then show ?case
    by (auto simp: decode_seqs.simps(2) Let_def split: prod.splits if_splits)
qed auto

lemma decode_seqs_ends: "\<exists>xs. fst (decode_seqs acc v n s) = xs @ [0]"
  by (induction acc v n s rule: decode_seqs.induct)
    (auto simp: decode_seqs.simps(2) Let_def split: prod.splits)

lemma resume_acc:
  assumes "resume acc v n s = (zs, st)" "0 \<le> pu_n_remain st"
  shows "resume (ys @ acc) v n s = (ys @ zs, st)"
  using assms decode_seqs_acc [of "if n > 0 \<and> fst (snd (take_bytes v (nat n) s)) = 0
      then acc @ [fst (take_bytes v (nat n) s)] else acc" "fst (take_bytes v (nat n) s)"
      "int (fst (snd (take_bytes v (nat n) s)))" "snd (snd (take_bytes v (nat n) s))" zs st ys]
  by (auto simp: resume_def split: prod.splits if_splits)

lemma c_str_free: "CHR 0x00 \<notin> set a \<Longrightarrow> c_str a = a"
  "CHR 0x00 \<notin> set a \<Longrightarrow> c_str (a @ b) = a @ c_str b"
  by (induction a) (auto simp: c_str_def)

text \<open>Where the next piece continues the half-read character, the decoder resumes.\<close>

lemma decode_resume:
  assumes "decode_utf8 b st = (zs, st2)" "0 \<le> pu_n_remain st" "0 \<le> pu_n_remain st2"
  shows "resume [] (pu_value st) (pu_n_remain st) (c_str b) = (zs, st2)"
proof (cases "continue_decode (pu_value st) (pu_n_remain st) (c_str b)")
  case None
  with assms show ?thesis by (auto simp: decode_utf8_def)
next
  case (Some q)
  obtain v n s where q: "q = (v, n, s)" by (cases q)
  note c = Some [unfolded q]
  from continue_take [OF c assms(2)] have "take_bytes (pu_value st) (nat (pu_n_remain st)) (c_str b) = (v, nat n, s)"
    "0 \<le> n" by auto
  with c assms show ?thesis by (auto simp: decode_utf8_def resume_def)
qed

lemma decode_append:
  assumes a: "decode_utf8 a st = (xs @ [0], st1)" "CHR 0x00 \<notin> set a"
    and b: "decode_utf8 b st1 = (ys @ [0], st2)"
    and valid: "0 \<le> pu_n_remain st" "0 \<le> pu_n_remain st1" "0 \<le> pu_n_remain st2"
  shows "decode_utf8 (a @ b) st = (xs @ ys @ [0], st2)"
proof -
  obtain v n s where c: "continue_decode (pu_value st) (pu_n_remain st) a = Some (v, n, s)"
    using a valid(2) by (cases "continue_decode (pu_value st) (pu_n_remain st) a")
      (auto simp: decode_utf8_def c_str_free(1))
  define acc where "acc = (if pu_n_remain st > 0 \<and> n = 0 then [v] else [])"
  from a c have d: "decode_seqs acc v n s = (xs @ [0], st1)"
    by (simp add: decode_utf8_def acc_def c_str_free(1))
  from continue_take [OF c valid(1)] have n: "0 \<le> n" "n = 0 \<or> s = []" by auto
  show ?thesis
  proof (cases "n = 0")
    case True
    then have "continue_decode (pu_value st) (pu_n_remain st) (a @ c_str b) = Some (v, 0, s @ c_str b)"
      using c by (cases "c_str b") (auto simp: continue_append)
    then have "decode_utf8 (a @ b) st = resume xs (pu_value st1) (pu_n_remain st1) (c_str b)"
      using decode_seqs_append [OF d valid(2) True, of "c_str b"] True
      by (simp add: decode_utf8_def acc_def c_str_free(2) a(2))
    with resume_acc [OF decode_resume [OF b valid(2,3)] valid(3), of xs] show ?thesis by simp
  next
    case False
    with n have "s = []" "n > 0" by auto
    with d False have xs: "xs = []" and st1: "st1 = \<lparr>pu_value = v, pu_n_remain = n\<rparr>"
      by (simp_all add: acc_def)
    have "pu_n_remain st > 0"
    proof (rule ccontr)
      assume "\<not> pu_n_remain st > 0"
      then have "n = pu_n_remain st" using c by (cases a) auto
      with \<open>n > 0\<close> \<open>\<not> pu_n_remain st > 0\<close> show False by simp
    qed
    with b \<open>n > 0\<close> c \<open>s = []\<close> show ?thesis
      by (cases "continue_decode v n (c_str b)")
        (auto simp: xs st1 decode_utf8_def c_str_free(2) a(2) continue_append)
  qed
qed

text \<open>C8: Decoding does not depend on how a text is cut into pieces: when both pieces decode as valid, none
  leaving the state of an invalid sequence, and the first has no NUL,
  decoding their concatenation gives the code points of the first, then those of the second, and
  ends in the same partial character.\<close>

theorem decode_in_pieces:
  assumes "decode_utf8 a st = (xs @ [0], st1)" and "decode_utf8 b st1 = (ys @ [0], st2)"
    and "CHR 0x00 \<notin> set a"
    and "0 \<le> pu_n_remain st" and "0 \<le> pu_n_remain st1" and "0 \<le> pu_n_remain st2"
  shows "decode_utf8 (a @ b) st = (xs @ ys @ [0], st2)"
  using assms by (blast intro: decode_append)

definition fresh_utf8 :: llama_partial_utf8 where
  "fresh_utf8 = \<lparr>pu_value = 0, pu_n_remain = 0\<rparr>"

lemmas decode_eval = decode_utf8_def fresh_utf8_def c_str_def decode_seqs.simps(2) lead_remain_def
  char_code_def push_byte_def is_cont_def

lemma sample_pieces:
  "decode_utf8 [CHR ''a'', CHR 0xC3] fresh_utf8 = ([0x61] @ [0], \<lparr>pu_value = 3, pu_n_remain = 1\<rparr>)"
  "decode_utf8 [CHR 0xA9] \<lparr>pu_value = 3, pu_n_remain = 1\<rparr> = ([0xE9] @ [0], \<lparr>pu_value = 0xE9, pu_n_remain = 0\<rparr>)"
  by (simp_all add: decode_eval take_bytes_pos)

theorem decode_in_pieces_witness:
  "decode_utf8 ([CHR ''a'', CHR 0xC3] @ [CHR 0xA9]) fresh_utf8 =
     ([0x61] @ [0xE9] @ [0], \<lparr>pu_value = 0xE9, pu_n_remain = 0\<rparr>)"
  by (rule decode_in_pieces [OF sample_pieces]) (simp_all add: fresh_utf8_def)

section \<open>Decoding what the console encodes\<close>

lemma lead_remain_cases:
  "h < 8 \<Longrightarrow> lead_remain h = 0" "lead_remain 12 = 1" "lead_remain 13 = 1" "lead_remain 14 = 2" "lead_remain 15 = 3"
  by (auto simp: lead_remain_def less_Suc_eq eval_nat_numeral)

lemma lead_byte_2:
  assumes "x < 32"
  shows "lead_remain (char_code (byte (0xC0 + x)) div 16) = 1" "char_code (byte (0xC0 + x)) mod 64 = x"
proof -
  have "(192 + x) div 16 = 12 \<or> (192 + x) div 16 = 13" using assms by linarith
  with assms show "lead_remain (char_code (byte (0xC0 + x)) div 16) = 1"
    by (auto simp: lead_remain_cases)
  have "(192 + x) mod 64 = x" using assms mod_mult_self2 [of x 64 3] by (simp add: add.commute [of 192])
  with assms show "char_code (byte (0xC0 + x)) mod 64 = x" by simp
qed

lemma lead_byte_3:
  assumes "x < 16"
  shows "lead_remain (char_code (byte (0xE0 + x)) div 16) = 2" "char_code (byte (0xE0 + x)) mod 32 = x"
proof -
  have "(224 + x) div 16 = 14" using assms by linarith
  with assms show "lead_remain (char_code (byte (0xE0 + x)) div 16) = 2"
    by (auto simp: lead_remain_cases)
  have "(224 + x) mod 32 = x" using assms mod_mult_self2 [of x 32 7] by (simp add: add.commute [of 224])
  with assms show "char_code (byte (0xE0 + x)) mod 32 = x" by simp
qed

lemma lead_byte_4:
  assumes "x < 8"
  shows "lead_remain (char_code (byte (0xF0 + x)) div 16) = 3" "char_code (byte (0xF0 + x)) mod 16 = x"
proof -
  have "(240 + x) div 16 = 15" using assms by linarith
  with assms show "lead_remain (char_code (byte (0xF0 + x)) div 16) = 3"
    by (auto simp: lead_remain_cases)
  have "(240 + x) mod 16 = x" using assms mod_mult_self2 [of x 16 15] by (simp add: add.commute [of 240])
  with assms show "char_code (byte (0xF0 + x)) mod 16 = x" by simp
qed

lemma push_cont: "m < 64 \<Longrightarrow> v < 2 ^ 20 \<Longrightarrow> push_byte v (byte (0x80 + m)) = v * 64 + m"
proof -
  assume m: "m < 64" "v < 2 ^ 20"
  then have "(128 + m) mod 64 = m" using mod_mult_self2 [of m 64 2] by (simp add: add.commute [of 128])
  with m show ?thesis by (simp add: push_byte_def)
qed

lemma base64_digits:
  "(ch div 2 ^ 6) * 64 + ch mod 64 = (ch :: nat)"
  "(ch div 2 ^ 12) * 64 + (ch div 2 ^ 6) mod 64 = ch div 2 ^ 6"
  "(ch div 2 ^ 18) * 64 + (ch div 2 ^ 12) mod 64 = ch div 2 ^ 12"
proof -
  have "ch div 2 ^ 12 = ch div 2 ^ 6 div 64" "ch div 2 ^ 18 = ch div 2 ^ 12 div 64"
    by (simp_all add: div_mult2_eq [symmetric])
  then show "(ch div 2 ^ 6) * 64 + ch mod 64 = ch"
    "(ch div 2 ^ 12) * 64 + (ch div 2 ^ 6) mod 64 = ch div 2 ^ 6"
    "(ch div 2 ^ 18) * 64 + (ch div 2 ^ 12) mod 64 = ch div 2 ^ 12"
    by (simp_all only: div_mult_mod_eq) (simp add: div_mult_mod_eq)
qed

lemma decode_step:
  assumes "lead_remain (char_code c div 16) = int k" "take_bytes (char_code c mod 2 ^ (7 - k)) k s = (v', 0, s')"
  shows "decode_seqs acc v n (c # s) = decode_seqs (acc @ [v']) v' 0 s'"
  using assms by (simp add: decode_seqs.simps(2))

lemma decode_seqs_char:
  assumes "ch \<le> 0x10FFFF"
  shows "decode_seqs acc v n (append_utf8 ch @ s) = decode_seqs (acc @ [ch]) ch 0 s"
proof -
  note d = base64_digits [of ch]
  consider "ch \<le> 0x7F" | "\<not> ch \<le> 0x7F" "ch \<le> 0x7FF" | "\<not> ch \<le> 0x7F" "\<not> ch \<le> 0x7FF" "ch \<le> 0xFFFF"
    | "\<not> ch \<le> 0x7F" "\<not> ch \<le> 0x7FF" "\<not> ch \<le> 0xFFFF"
    by linarith
  then show ?thesis
  proof cases
    case 1
    then have c: "char_code (byte ch) = ch" "lead_remain (ch div 16) = int 0"
      by (auto simp: lead_remain_cases)
    from 1 have a: "append_utf8 ch @ s = byte ch # s" by (simp add: append_utf8_def)
    show ?thesis unfolding a by (rule decode_step [where k = 0]) (use c 1 in simp_all)
  next
    case 2
    then have x: "ch div 2 ^ 6 mod 0x20 = ch div 2 ^ 6" "ch div 2 ^ 6 < 32" by auto
    then have a: "append_utf8 ch @ s = byte (0xC0 + ch div 2 ^ 6) # byte (0x80 + ch mod 64) # s"
      using 2 by (simp only: append_utf8_def if_False if_True append.simps)
    have "take_bytes (ch div 2 ^ 6) 1 (byte (0x80 + ch mod 64) # s) = (ch, 0, s)"
      using x d(1) push_cont [of "ch mod 64" "ch div 2 ^ 6"]
      by (simp add: take_bytes_pos)
    with lead_byte_2 [OF x(2)] show ?thesis unfolding a
      by (intro decode_step [where k = 1]) (simp_all del: char_code_byte)
  next
    case 3
    then have x: "ch div 2 ^ 12 mod 0x10 = ch div 2 ^ 12" "ch div 2 ^ 12 < 16" "ch div 2 ^ 6 < 2 ^ 20" by auto
    then have a: "append_utf8 ch @ s = byte (0xE0 + ch div 2 ^ 12) # byte (0x80 + ch div 2 ^ 6 mod 64)
        # byte (0x80 + ch mod 64) # s"
      using 3 by (simp only: append_utf8_def if_False if_True append.simps)
    have "take_bytes (ch div 2 ^ 12) 2 (byte (0x80 + ch div 2 ^ 6 mod 64) # byte (0x80 + ch mod 64) # s) = (ch, 0, s)"
      using x d(1,2) by (simp add: take_bytes_pos push_cont)
    with lead_byte_3 [OF x(2)] show ?thesis unfolding a
      by (intro decode_step [where k = 2]) (simp_all del: char_code_byte)
  next
    case 4
    with assms have x: "ch div 2 ^ 18 mod 0x08 = ch div 2 ^ 18" "ch div 2 ^ 18 < 8" "ch div 2 ^ 6 < 2 ^ 20"
      "ch div 2 ^ 12 < 2 ^ 20" by auto
    then have a: "append_utf8 ch @ s = byte (0xF0 + ch div 2 ^ 18) # byte (0x80 + ch div 2 ^ 12 mod 64)
        # byte (0x80 + ch div 2 ^ 6 mod 64) # byte (0x80 + ch mod 64) # s"
      using 4 assms by (simp only: append_utf8_def if_False if_True append.simps)
    have "take_bytes (ch div 2 ^ 18) 3 (byte (0x80 + ch div 2 ^ 12 mod 64) # byte (0x80 + ch div 2 ^ 6 mod 64)
        # byte (0x80 + ch mod 64) # s) = (ch, 0, s)"
      using x d by (simp add: take_bytes_pos push_cont)
    with lead_byte_4 [OF x(2)] show ?thesis unfolding a
      by (intro decode_step [where k = 3]) (simp_all del: char_code_byte)
  qed
qed

lemma append_utf8_no_nul:
  assumes "ch \<noteq> 0" "ch \<le> 0x10FFFF"
  shows "CHR 0x00 \<notin> set (append_utf8 ch)"
proof -
  have b: "byte n \<noteq> CHR 0x00" if "n \<noteq> 0" "n < 256" for n
  proof
    assume "byte n = CHR 0x00"
    then have "char_code (byte n) = char_code (CHR 0x00)" by simp
    with that show False by (simp add: char_code_def [of "CHR 0x00"])
  qed
  have "0x80 + m mod 0x40 < (256 :: nat)" "0xC0 + m mod 0x20 < (256 :: nat)" "0xE0 + m mod 0x10 < (256 :: nat)"
    "0xF0 + m mod 0x08 < (256 :: nat)" for m :: nat
    using mod_less_divisor [of 64 m] mod_less_divisor [of 32 m] mod_less_divisor [of 16 m]
      mod_less_divisor [of 8 m] by linarith+
  with assms b show ?thesis by (auto simp: append_utf8_def dest: sym)
qed

lemma decode_seqs_chars:
  assumes "\<forall>ch \<in> set cps. ch \<le> 0x10FFFF"
  shows "decode_seqs acc v 0 (concat (map append_utf8 cps)) =
    (acc @ cps @ [0], \<lparr>pu_value = (if cps = [] then v else last cps), pu_n_remain = 0\<rparr>)"
  using assms
proof (induction cps arbitrary: acc v)
  case (Cons ch cps)
  then have "ch \<le> 0x10FFFF" by simp
  from decode_seqs_char [OF this] Cons show ?case by simp
qed simp

text \<open>The grammar's decoder reads what the console writes: the encoding of any code points other than
  NUL is decoded to them, with no partial character left.\<close>

theorem decode_encoded_text:
  assumes "\<forall>ch \<in> set cps. 0 < ch \<and> ch \<le> 0x10FFFF"
  shows "decode_utf8 (concat (map append_utf8 cps)) fresh_utf8 =
    (cps @ [0], \<lparr>pu_value = (if cps = [] then 0 else last cps), pu_n_remain = 0\<rparr>)"
proof -
  have "CHR 0x00 \<notin> set (concat (map append_utf8 cps))"
    using assms append_utf8_no_nul by auto
  moreover have "continue_decode 0 0 s = Some (0, 0, s)" for s by (cases s) auto
  ultimately show ?thesis
    using decode_seqs_chars [of cps "[]" 0] assms
    by (simp add: decode_utf8_def fresh_utf8_def c_str_free(1))
qed

theorem decode_encoded_text_witness:
  "decode_utf8 (concat (map append_utf8 [0x41, 0x20AC])) fresh_utf8 =
     ([0x41, 0x20AC] @ [0], \<lparr>pu_value = 0x20AC, pu_n_remain = 0\<rparr>)"
  using decode_encoded_text [of "[0x41, 0x20AC]"] by simp

end
