(* ===== verification/GrammarParser.thy ===== *)
theory GrammarParser
  imports Utf8 "HOL-Library.AList" "HOL-Library.List_Lexorder" "HOL-Library.Char_ord"
begin

text \<open>
  The grammar parser of \<^verbatim>\<open>src/llama-grammar.cpp\<close>: lexical helpers, the recursive descent over
  alternates and sequences with its rewriting of repetitions, the check for undefined rules, and
  printing.  A \<^verbatim>\<open>const char *\<close> into the NUL-terminated text is the text from there on; reading
  at the end gives the terminator.  An exception is a value; \<^term>\<open>None\<close> is running out of fuel,
  which the bound of \<open>parse_rule\<close> excludes.
\<close>

section \<open>Elements\<close>

datatype llama_gretype =
    LLAMA_GRETYPE_END
  | LLAMA_GRETYPE_ALT
  | LLAMA_GRETYPE_RULE_REF
  | LLAMA_GRETYPE_CHAR
  | LLAMA_GRETYPE_CHAR_NOT
  | LLAMA_GRETYPE_CHAR_RNG_UPPER
  | LLAMA_GRETYPE_CHAR_ALT
  | LLAMA_GRETYPE_CHAR_ANY

datatype llama_grammar_element = Elem (ge_type: llama_gretype) (ge_value: nat)

type_synonym llama_grammar_rule = "llama_grammar_element list"

abbreviation END_elem :: llama_grammar_element where "END_elem \<equiv> Elem LLAMA_GRETYPE_END 0"
abbreviation ALT_elem :: llama_grammar_element where "ALT_elem \<equiv> Elem LLAMA_GRETYPE_ALT 0"

record llama_grammar_parser =
  gp_symbol_ids :: "(string \<times> nat) list"
  gp_rules :: "llama_grammar_rule list"

section \<open>Lexical helpers\<close>

abbreviation quote_char :: char where "quote_char \<equiv> CHR 0x22"
abbreviation backslash :: char where "backslash \<equiv> CHR 0x5C"
abbreviation hash_char :: char where "hash_char \<equiv> CHR 0x23"
abbreviation tab_char :: char where "tab_char \<equiv> CHR 0x09"
abbreviation cr_char :: char where "cr_char \<equiv> CHR 0x0D"

definition throw :: "string \<Rightarrow> 'a result" where
  "throw msg = Inl (Runtime_Error msg)"

text \<open>The character a pointer points to, NUL at the end.\<close>

fun deref :: "string \<Rightarrow> char" where
  "deref [] = CHR 0x00"
| "deref (c # s) = c"

definition is_digit_char :: "char \<Rightarrow> bool" where
  "is_digit_char c \<longleftrightarrow> 48 \<le> char_code c \<and> char_code c \<le> 57"

definition is_word_char :: "char \<Rightarrow> bool" where
  "is_word_char c \<longleftrightarrow> (97 \<le> char_code c \<and> char_code c \<le> 122)
     \<or> (65 \<le> char_code c \<and> char_code c \<le> 90) \<or> c = CHR ''-'' \<or> is_digit_char c"

definition hex_digit :: "char \<Rightarrow> nat option" where
  "hex_digit c =
     (if 97 \<le> char_code c \<and> char_code c \<le> 102 then Some (char_code c - 97 + 10)
      else if 65 \<le> char_code c \<and> char_code c \<le> 70 then Some (char_code c - 65 + 10)
      else if 48 \<le> char_code c \<and> char_code c \<le> 57 then Some (char_code c - 48)
      else None)"

text \<open>At most \<open>k\<close> digits are read; the pointer must have come to the end of the \<open>size\<close> places.\<close>

fun hex_loop :: "nat \<Rightarrow> nat \<Rightarrow> string \<Rightarrow> nat \<times> nat \<times> string" where
  "hex_loop (Suc k) v (c # s) =
     (case hex_digit c of
        Some d \<Rightarrow> hex_loop k ((v * 16 + d) mod 2 ^ 32) s
      | None \<Rightarrow> (v, Suc k, c # s))"
| "hex_loop k v s = (v, k, s)"

definition parse_hex :: "string \<Rightarrow> nat \<Rightarrow> (nat \<times> string) result" where
  "parse_hex src sz =
     (case hex_loop sz 0 src of
        (v, k, pos) \<Rightarrow>
          if k \<noteq> 0 then throw (''expecting '' @ show_nat sz @ '' hex chars at '' @ src)
          else Inr (v, pos))"

definition is_line_end :: "char \<Rightarrow> bool" where
  "is_line_end c \<longleftrightarrow> c = cr_char \<or> c = newline"

function parse_space :: "bool \<Rightarrow> string \<Rightarrow> string" where
  "parse_space newline_ok [] = []"
| "parse_space newline_ok (c # s) =
     (if c = hash_char then parse_space newline_ok (dropWhile (\<lambda>c. \<not> is_line_end c) s)
      else if c = CHR '' '' \<or> c = tab_char \<or> newline_ok \<and> is_line_end c then parse_space newline_ok s
      else c # s)"
  by pat_completeness auto
termination
  by (relation "measure (\<lambda>(_, s). length s)") (auto simp: less_Suc_eq_le length_dropWhile_le)

text \<open>What lies between two pointers into the same text.\<close>

definition text_until :: "string \<Rightarrow> string \<Rightarrow> string" where
  "text_until src pos = take (length src - length pos) src"

definition parse_name :: "string \<Rightarrow> string result" where
  "parse_name src =
     (let pos = dropWhile is_word_char src in
      if pos = src then throw (''expecting name at '' @ src) else Inr pos)"

definition parse_int :: "string \<Rightarrow> string result" where
  "parse_int src =
     (let pos = dropWhile is_digit_char src in
      if pos = src then throw (''expecting integer at '' @ src) else Inr pos)"

definition parse_char :: "string \<Rightarrow> (nat \<times> string) result" where
  "parse_char src =
     (if deref src = backslash then
        (let e = deref (tl src); rest = tl (tl src) in
         if e = CHR ''x'' then parse_hex rest 2
         else if e = CHR ''u'' then parse_hex rest 4
         else if e = CHR ''U'' then parse_hex rest 8
         else if e = CHR ''t'' then Inr (char_code tab_char, rest)
         else if e = CHR ''r'' then Inr (char_code cr_char, rest)
         else if e = CHR ''n'' then Inr (char_code newline, rest)
         else if e \<in> {backslash, quote_char, CHR ''['', CHR '']''} then Inr (char_code e, rest)
         else throw (''unknown escape at '' @ src))
      else if src \<noteq> [] then Inr (decode_utf8_char src)
      else throw ''unexpected end of input'')"

section \<open>Symbols and rules\<close>

definition get_symbol_id :: "string \<Rightarrow> llama_grammar_parser \<Rightarrow> nat \<times> llama_grammar_parser" where
  "get_symbol_id name st =
     (let next_id = length (gp_symbol_ids st) mod 2 ^ 32 in
      case map_of (gp_symbol_ids st) name of
        Some i \<Rightarrow> (i, st)
      | None \<Rightarrow> (next_id, st\<lparr>gp_symbol_ids := gp_symbol_ids st @ [(name, next_id)]\<rparr>))"

definition generate_symbol_id :: "string \<Rightarrow> llama_grammar_parser \<Rightarrow> nat \<times> llama_grammar_parser" where
  "generate_symbol_id base_name st =
     (let next_id = length (gp_symbol_ids st) mod 2 ^ 32 in
      (next_id, st\<lparr>gp_symbol_ids :=
         AList.update (base_name @ CHR ''_'' # show_nat next_id) next_id (gp_symbol_ids st)\<rparr>))"

definition add_rule :: "nat \<Rightarrow> llama_grammar_rule \<Rightarrow> llama_grammar_parser \<Rightarrow> llama_grammar_parser" where
  "add_rule rule_id rule st =
     (let rs = (if length (gp_rules st) \<le> rule_id
                then gp_rules st @ replicate (rule_id + 1 - length (gp_rules st)) []
                else gp_rules st)
      in st\<lparr>gp_rules := rs[rule_id := rule]\<rparr>)"

section \<open>Repetitions\<close>

text \<open>\<^verbatim>\<open>int min_times = std::stoul(..)\<close>: out of the range of 64 bits it throws, in it the value is
  truncated to an \<^verbatim>\<open>int\<close>.\<close>

definition digits_value :: "string \<Rightarrow> nat" where
  "digits_value s = foldl (\<lambda>v c. v * 10 + (char_code c - 48)) 0 s"

definition to_int32 :: "nat \<Rightarrow> int" where
  "to_int32 n = (let m = int (n mod 2 ^ 32) in if m \<ge> 2 ^ 31 then m - 2 ^ 32 else m)"

definition stoul_int :: "string \<Rightarrow> int result" where
  "stoul_int s =
     (if digits_value s \<ge> 2 ^ 64 then Inl Out_Of_Range else Inr (to_int32 (digits_value s)))"

fun rep_rules :: "string \<Rightarrow> llama_grammar_rule \<Rightarrow> int \<Rightarrow> nat \<Rightarrow> bool \<Rightarrow> nat
    \<Rightarrow> llama_grammar_parser \<Rightarrow> nat \<times> llama_grammar_parser" where
  "rep_rules rule_name prev max_times 0 first last_id st = (last_id, st)"
| "rep_rules rule_name prev max_times (Suc k) first last_id st =
     (let (rec_id, st1) = generate_symbol_id rule_name st;
          ref = (if \<not> first \<or> max_times < 0
                 then [Elem LLAMA_GRETYPE_RULE_REF (if max_times < 0 then rec_id else last_id)] else [])
      in rep_rules rule_name prev max_times k False rec_id
           (add_rule rec_id (prev @ ref @ [ALT_elem, END_elem]) st1))"

definition handle_repetitions :: "string \<Rightarrow> string \<Rightarrow> int \<Rightarrow> int \<Rightarrow> llama_grammar_rule \<Rightarrow> nat
    \<Rightarrow> llama_grammar_parser \<Rightarrow> (llama_grammar_rule \<times> llama_grammar_parser) result" where
  "handle_repetitions rule_name pos min_times max_times rule last_sym_start st =
     (if last_sym_start = length rule then
        throw (''expecting preceding item to */+/?/{ at '' @ pos)
      else
        let prev_rule = drop last_sym_start rule;
            rule1 = (if min_times = 0 then take last_sym_start rule
                     else rule @ concat (replicate (nat (min_times - 1)) prev_rule));
            n_opt = (if max_times < 0 then 1 else max_times - min_times)
        in if n_opt \<ge> 2 ^ 31 then Inl Undefined_Behaviour
           else
             let (last_rec_rule_id, st1) = rep_rules rule_name prev_rule max_times (nat n_opt) True 0 st
             in Inr (if n_opt > 0 then rule1 @ [Elem LLAMA_GRETYPE_RULE_REF last_rec_rule_id] else rule1,
                     st1))"

text \<open>The text behind \<open>{\<close>: the two bounds, \<open>-1\<close> for no upper one.\<close>

definition parse_braces :: "bool \<Rightarrow> string \<Rightarrow> (int \<times> int \<times> string) result" where
  "parse_braces nested src =
     (let pos = parse_space nested src in
      if \<not> is_digit_char (deref pos) then throw (''expecting an int at '' @ pos)
      else
        rbind (parse_int pos) (\<lambda>int_end.
        rbind (stoul_int (text_until pos int_end)) (\<lambda>min_times.
        let pos1 = parse_space nested int_end in
        if deref pos1 = CHR ''}'' then Inr (min_times, min_times, parse_space nested (tl pos1))
        else if deref pos1 = CHR '','' then
          let pos2 = parse_space nested (tl pos1) in
          rbind (if is_digit_char (deref pos2) then
                   rbind (parse_int pos2) (\<lambda>end2.
                   rbind (stoul_int (text_until pos2 end2)) (\<lambda>m.
                   Inr (m, parse_space nested end2)))
                 else Inr (- 1, pos2))
            (\<lambda>(max_times, pos3).
              if deref pos3 \<noteq> CHR ''}'' then throw (''expecting '' @ [CHR 0x27] @ ''}'' @ [CHR 0x27] @ '' at '' @ pos3)
              else Inr (min_times, max_times, parse_space nested (tl pos3)))
        else throw (''expecting '' @ [CHR 0x27] @ '','' @ [CHR 0x27] @ '' at '' @ pos1))))"

section \<open>Symbols without nesting\<close>

lemma hex_loop_length: "hex_loop k v s = (v', k', s') \<Longrightarrow> length s' \<le> length s"
  by (induction k v s rule: hex_loop.induct) (auto split: option.splits)

lemma parse_hex_length: "parse_hex s sz = Inr (v, pos) \<Longrightarrow> length pos \<le> length s"
  using hex_loop_length by (fastforce simp: parse_hex_def throw_def split: prod.splits if_splits)

lemma decode_char_length: "src \<noteq> [] \<Longrightarrow> length (snd (decode_utf8_char src)) < length src"
  using take_bytes_length by (cases src) (fastforce simp: Let_def less_Suc_eq_le split: prod.splits)+

lemma deref_NUL: "CHR 0x00 \<notin> set s \<Longrightarrow> deref s = CHR 0x00 \<longleftrightarrow> s = []"
  by (cases s) auto

lemma parse_char_length:
  assumes "parse_char src = Inr (v, pos)"
  shows "length pos < length src"
proof (cases "deref src = backslash")
  case True
  then obtain s where s: "src = backslash # s" by (cases src) auto
  show ?thesis
  proof (cases s)
    case Nil
    with assms s show ?thesis by (simp add: parse_char_def throw_def)
  next
    case (Cons e t)
    with assms s show ?thesis
      by (auto simp: parse_char_def throw_def Let_def less_Suc_eq_le split: if_splits
          dest!: parse_hex_length)
  qed
next
  case False
  with assms decode_char_length [of src] show ?thesis
    by (auto simp: parse_char_def throw_def split: if_splits)
qed

text \<open>A literal up to its closing quote.\<close>

function literal_loop :: "llama_grammar_rule \<Rightarrow> string \<Rightarrow> (llama_grammar_rule \<times> string) result" where
  "literal_loop rule pos =
     (if deref pos = quote_char then Inr (rule, pos)
      else if pos = [] then throw ''unexpected end of input''
      else case parse_char pos of
             Inl e \<Rightarrow> Inl e
           | Inr (c, pos1) \<Rightarrow> literal_loop (rule @ [Elem LLAMA_GRETYPE_CHAR c]) pos1)"
  by pat_completeness auto
termination
  by (relation "measure (\<lambda>(_, pos). length pos)") (auto dest!: parse_char_length)

declare literal_loop.simps [simp del]

text \<open>The upper end of a range; \<open>rule\<close> already holds its lower one.\<close>

definition range_upper :: "llama_grammar_rule \<Rightarrow> string \<Rightarrow> (llama_grammar_rule \<times> string) result" where
  "range_upper rule pos =
     (if deref pos = CHR ''-'' \<and> deref (tl pos) \<noteq> CHR '']'' then
        if tl pos = [] then throw ''unexpected end of input''
        else rbind (parse_char (tl pos)) (\<lambda>(c, pos1).
          Inr (rule @ [Elem LLAMA_GRETYPE_CHAR_RNG_UPPER c], pos1))
      else Inr (rule, pos))"

lemma range_upper_length: "range_upper rule pos = Inr (rule', pos') \<Longrightarrow> length pos' \<le> length pos"
proof -
  assume a: "range_upper rule pos = Inr (rule', pos')"
  have "length p \<le> length pos" if "parse_char (tl pos) = Inr (c, p)" for c p
    using parse_char_length [OF that] by simp
  with a show ?thesis
    by (auto simp: range_upper_def throw_def rbind_eq_Inr_iff split: if_splits)
qed

function range_loop :: "llama_gretype \<Rightarrow> nat \<Rightarrow> llama_grammar_rule \<Rightarrow> string
    \<Rightarrow> (llama_grammar_rule \<times> string) result" where
  "range_loop start_type last_sym_start rule pos =
     (if deref pos = CHR '']'' then Inr (rule, pos)
      else if pos = [] then throw ''unexpected end of input''
      else case parse_char pos of
             Inl e \<Rightarrow> Inl e
           | Inr (c, pos1) \<Rightarrow>
               (case range_upper
                  (rule @ [Elem (if last_sym_start < length rule then LLAMA_GRETYPE_CHAR_ALT
                                 else start_type) c]) pos1 of
                  Inl e \<Rightarrow> Inl e
                | Inr (rule1, pos2) \<Rightarrow> range_loop start_type last_sym_start rule1 pos2))"
  by pat_completeness auto
termination
  by (relation "measure (\<lambda>(_, _, _, pos). length pos)")
    (auto dest!: parse_char_length range_upper_length)

declare range_loop.simps [simp del]

text \<open>One round of the loop of \<^verbatim>\<open>parse_sequence\<close> for everything but a group: the new rule, the start of
  its last symbol, and where to go on; \<^term>\<open>None\<close> leaves the loop.\<close>

type_synonym seq_state = "llama_grammar_rule \<times> nat \<times> string \<times> llama_grammar_parser"

definition repeat_item :: "string \<Rightarrow> int \<Rightarrow> int \<Rightarrow> llama_grammar_rule \<Rightarrow> nat \<Rightarrow> string
    \<Rightarrow> llama_grammar_parser \<Rightarrow> seq_state option result" where
  "repeat_item rule_name min_times max_times rule last_sym_start pos st =
     rbind (handle_repetitions rule_name pos min_times max_times rule last_sym_start st)
       (\<lambda>(rule1, st1). Inr (Some (rule1, last_sym_start, pos, st1)))"

definition seq_item :: "string \<Rightarrow> bool \<Rightarrow> llama_grammar_rule \<Rightarrow> nat \<Rightarrow> string \<Rightarrow> llama_grammar_parser
    \<Rightarrow> seq_state option result" where
  "seq_item rule_name nested rule last_sym_start pos st =
     (let c = deref pos; s = tl pos in
      if c = quote_char then
        rbind (literal_loop rule s) (\<lambda>(rule1, pos1).
          Inr (Some (rule1, length rule, parse_space nested (tl pos1), st)))
      else if c = CHR ''['' then
        (let (start_type, s1) = (if deref s = CHR ''^'' then (LLAMA_GRETYPE_CHAR_NOT, tl s)
                                 else (LLAMA_GRETYPE_CHAR, s)) in
         rbind (range_loop start_type (length rule) rule s1) (\<lambda>(rule1, pos1).
           Inr (Some (rule1, length rule, parse_space nested (tl pos1), st))))
      else if is_word_char c then
        rbind (parse_name pos) (\<lambda>name_end.
          let (ref_rule_id, st1) = get_symbol_id (text_until pos name_end) st
          in Inr (Some (rule @ [Elem LLAMA_GRETYPE_RULE_REF ref_rule_id], length rule,
                        parse_space nested name_end, st1)))
      else if c = CHR ''.'' then
        Inr (Some (rule @ [Elem LLAMA_GRETYPE_CHAR_ANY 0], length rule, parse_space nested s, st))
      else if c = CHR ''*'' then
        repeat_item rule_name 0 (- 1) rule last_sym_start (parse_space nested s) st
      else if c = CHR ''+'' then
        repeat_item rule_name 1 (- 1) rule last_sym_start (parse_space nested s) st
      else if c = CHR ''?'' then
        repeat_item rule_name 0 1 rule last_sym_start (parse_space nested s) st
      else if c = CHR ''{'' then
        rbind (parse_braces nested s) (\<lambda>(min_times, max_times, pos1).
          repeat_item rule_name min_times max_times rule last_sym_start pos1 st)
      else Inr None)"

section \<open>The recursive descent\<close>

type_synonym 'a fuelled = "'a result option"

definition fuel_bind :: "'a fuelled \<Rightarrow> ('a \<Rightarrow> 'b fuelled) \<Rightarrow> 'b fuelled" where
  "fuel_bind m f =
     (case m of None \<Rightarrow> None | Some (Inl e) \<Rightarrow> Some (Inl e) | Some (Inr x) \<Rightarrow> f x)"

lemma fuel_bind_simps [simp]:
  "fuel_bind None f = None"
  "fuel_bind (Some (Inl e)) f = Some (Inl e)"
  "fuel_bind (Some (Inr x)) f = f x"
  by (simp_all add: fuel_bind_def)

lemma fuel_bind_Inr:
  "fuel_bind m f = Some (Inr y) \<longleftrightarrow> (\<exists>x. m = Some (Inr x) \<and> f x = Some (Inr y))"
  by (auto simp: fuel_bind_def split: option.splits sum.splits)

lemma fuel_bind_None:
  "fuel_bind m f = None \<longleftrightarrow> m = None \<or> (\<exists>x. m = Some (Inr x) \<and> f x = None)"
  by (auto simp: fuel_bind_def split: option.splits sum.splits)

definition expect_close :: "string \<Rightarrow> string fuelled" where
  "expect_close pos =
     (if deref pos \<noteq> CHR '')'' then
        Some (throw (''expecting '' @ [CHR 0x27] @ '')'' @ [CHR 0x27] @ '' at '' @ pos))
      else Some (Inr (tl pos)))"

function (sequential) parse_sequence :: "nat \<Rightarrow> string \<Rightarrow> bool \<Rightarrow> llama_grammar_rule \<Rightarrow> nat \<Rightarrow> string
      \<Rightarrow> llama_grammar_parser \<Rightarrow> (llama_grammar_rule \<times> string \<times> llama_grammar_parser) fuelled"
  and parse_alternates :: "nat \<Rightarrow> string \<Rightarrow> nat \<Rightarrow> bool \<Rightarrow> string \<Rightarrow> llama_grammar_parser
      \<Rightarrow> (string \<times> llama_grammar_parser) fuelled"
  and more_alternates :: "nat \<Rightarrow> string \<Rightarrow> nat \<Rightarrow> bool \<Rightarrow> llama_grammar_rule \<Rightarrow> string
      \<Rightarrow> llama_grammar_parser \<Rightarrow> (string \<times> llama_grammar_parser) fuelled" where
  "parse_sequence 0 rule_name nested rule last_sym_start pos st = None"
| "parse_sequence (Suc n) rule_name nested rule last_sym_start pos st =
     (if pos = [] then Some (Inr (rule, pos, st))
      else if deref pos = CHR ''('' then
        (let (sub_rule_id, st1) = generate_symbol_id rule_name st in
         fuel_bind (parse_alternates n rule_name sub_rule_id True (parse_space True (tl pos)) st1)
           (\<lambda>(pos2, st2). fuel_bind (expect_close pos2) (\<lambda>pos3.
             parse_sequence n rule_name nested (rule @ [Elem LLAMA_GRETYPE_RULE_REF sub_rule_id])
               (length rule) (parse_space nested pos3) st2)))
      else
        fuel_bind (Some (seq_item rule_name nested rule last_sym_start pos st)) (\<lambda>next_state.
          case next_state of
            None \<Rightarrow> Some (Inr (rule, pos, st))
          | Some (rule1, last1, pos1, st1) \<Rightarrow> parse_sequence n rule_name nested rule1 last1 pos1 st1))"
| "parse_alternates 0 rule_name rule_id nested src st = None"
| "parse_alternates (Suc n) rule_name rule_id nested src st =
     fuel_bind (parse_sequence n rule_name nested [] 0 src st)
       (\<lambda>(rule, pos, st1). more_alternates n rule_name rule_id nested rule pos st1)"
| "more_alternates 0 rule_name rule_id nested rule pos st = None"
| "more_alternates (Suc n) rule_name rule_id nested rule pos st =
     (if deref pos = CHR ''|'' then
        fuel_bind (parse_sequence n rule_name nested (rule @ [ALT_elem]) (length rule + 1)
            (parse_space True (tl pos)) st)
          (\<lambda>(rule1, pos1, st1). more_alternates n rule_name rule_id nested rule1 pos1 st1)
      else Some (Inr (pos, add_rule rule_id (rule @ [END_elem]) st)))"

  by pat_completeness auto
termination
  by (relation "measure (\<lambda>x. case x of Inl (n, _) \<Rightarrow> n | Inr (Inl (n, _)) \<Rightarrow> n | Inr (Inr (n, _)) \<Rightarrow> n)") auto

text \<open>Each level of nesting, each alternate and each symbol costs one unit of fuel, and consumes text
  except for at most two units per level.\<close>

definition parse_fuel :: "string \<Rightarrow> nat" where
  "parse_fuel src = 3 * length src + 3"

definition end_of_rule :: "string \<Rightarrow> string result" where
  "end_of_rule pos =
     (if deref pos = cr_char then
        Inr (if deref (tl pos) = newline then tl (tl pos) else tl pos)
      else if deref pos = newline then Inr (tl pos)
      else if pos \<noteq> [] then throw (''expecting newline or end at '' @ pos)
      else Inr pos)"

definition parse_rule :: "string \<Rightarrow> llama_grammar_parser \<Rightarrow> (string \<times> llama_grammar_parser) fuelled" where
  "parse_rule src st =
     fuel_bind (Some (parse_name src)) (\<lambda>name_end.
       let pos = parse_space False name_end;
           name = text_until src name_end;
           (rule_id, st1) = get_symbol_id name st
       in if take 3 pos \<noteq> ''::='' then Some (throw (''expecting ::= at '' @ pos))
          else
            let pos1 = parse_space True (drop 3 pos) in
            fuel_bind (parse_alternates (parse_fuel pos1) name rule_id False pos1 st1) (\<lambda>(pos2, st2).
            fuel_bind (Some (end_of_rule pos2)) (\<lambda>pos3.
              Some (Inr (parse_space True pos3, st2)))))"

section \<open>The text is consumed\<close>

lemma parse_space_length: "length (parse_space nl s) \<le> length s"
proof (induction nl s rule: parse_space.induct)
  case (2 nl c s)
  have "length (dropWhile (\<lambda>c. \<not> is_line_end c) s) \<le> length s" by (rule length_dropWhile_le)
  with 2 show ?case by (cases "c = hash_char") (auto intro: le_SucI)
qed simp

lemma parse_space_tl_length: "length (parse_space nl (tl s)) \<le> length s - 1"
  using parse_space_length [of nl "tl s"] by simp

lemma parse_name_length: "parse_name src = Inr pos \<Longrightarrow> length pos < length src"
  by (cases src) (auto simp: parse_name_def throw_def Let_def less_Suc_eq_le length_dropWhile_le
      split: if_splits)

lemma parse_int_length: "parse_int src = Inr pos \<Longrightarrow> length pos < length src"
  by (cases src) (auto simp: parse_int_def throw_def Let_def less_Suc_eq_le length_dropWhile_le
      split: if_splits)

lemma literal_loop_length: "literal_loop rule pos = Inr (rule', pos') \<Longrightarrow> length pos' \<le> length pos"
proof (induction rule pos rule: literal_loop.induct)
  case (1 rule pos)
  from "1.prems" show ?case
    by (subst (asm) literal_loop.simps)
      (use "1.IH" in \<open>fastforce simp: throw_def split: if_splits sum.splits dest: parse_char_length\<close>)
qed

lemma range_loop_length: "range_loop t l rule pos = Inr (rule', pos') \<Longrightarrow> length pos' \<le> length pos"
proof (induction t l rule pos rule: range_loop.induct)
  case (1 t l rule pos)
  from "1.prems" show ?case
    by (subst (asm) range_loop.simps)
      (use "1.IH" in \<open>fastforce simp: throw_def split: if_splits sum.splits
          dest: parse_char_length range_upper_length\<close>)
qed

lemma parse_braces_length:
  assumes "parse_braces nested src = Inr (mn, mx, pos)"
  shows "length pos \<le> length src"
proof -
  define p0 where "p0 = parse_space nested src"
  note defs = parse_braces_def throw_def rbind_eq_Inr_iff Let_def
  obtain e1 where e1: "parse_int p0 = Inr e1"
    using assms by (auto simp: defs p0_def split: if_splits)
  define p1 where "p1 = parse_space nested e1"
  have l1: "length p1 \<le> length src"
    using parse_int_length [OF e1] parse_space_length [of nested src] parse_space_length [of nested e1]
    by (simp add: p0_def p1_def)
  consider "pos = parse_space nested (tl p1)"
    | q where "length q \<le> length (parse_space nested (tl p1))" "pos = parse_space nested (tl q)"
  proof -
    have "length (parse_space nested e2) \<le> length (parse_space nested (tl p1))"
      if "parse_int (parse_space nested (tl p1)) = Inr e2" for e2
      using parse_int_length [OF that] parse_space_length [of nested e2] by simp
    with assms e1 that show ?thesis
      by (auto simp: defs p1_def [symmetric] p0_def [symmetric] split: if_splits)
  qed
  then show ?thesis
  proof cases
    case 1
    with l1 parse_space_tl_length [of nested p1] show ?thesis by simp
  next
    case (2 q)
    with l1 parse_space_tl_length [of nested p1] parse_space_tl_length [of nested q] show ?thesis by simp
  qed
qed

lemma repeat_item_pos:
  "repeat_item rule_name mn mx rule lss pos st = Inr r
     \<Longrightarrow> \<exists>rule1 st1. r = Some (rule1, lss, pos, st1)
           \<and> handle_repetitions rule_name pos mn mx rule lss st = Inr (rule1, st1)"
  by (auto simp: repeat_item_def rbind_eq_Inr_iff)

lemma seq_item_cases:
  assumes "seq_item rule_name nested rule lss pos st = Inr (Some (rule1, lss1, pos1, st1))"
  obtains (literal) p where "literal_loop rule (tl pos) = Inr (rule1, p)" "lss1 = length rule"
      "pos1 = parse_space nested (tl p)" "st1 = st"
  | (range) t q p where "t = LLAMA_GRETYPE_CHAR \<or> t = LLAMA_GRETYPE_CHAR_NOT"
      "range_loop t (length rule) rule q = Inr (rule1, p)" "lss1 = length rule"
      "length q \<le> length pos - 1" "pos1 = parse_space nested (tl p)" "st1 = st"
  | (name) i e where "parse_name pos = Inr e" "get_symbol_id (text_until pos e) st = (i, st1)"
      "rule1 = rule @ [Elem LLAMA_GRETYPE_RULE_REF i]" "lss1 = length rule" "pos1 = parse_space nested e"
  | (any) "rule1 = rule @ [Elem LLAMA_GRETYPE_CHAR_ANY 0]" "lss1 = length rule"
      "pos1 = parse_space nested (tl pos)" "st1 = st"
  | (repeated) mn mx where "handle_repetitions rule_name pos1 mn mx rule lss st = Inr (rule1, st1)"
      "lss1 = lss" "length pos1 \<le> length pos - 1"
proof -
  define c where "c = deref pos"
  note item = assms [unfolded seq_item_def Let_def, folded c_def]
  consider "c = quote_char" | "c \<noteq> quote_char" "c = CHR ''[''"
    | "c \<noteq> quote_char" "c \<noteq> CHR ''[''" "is_word_char c"
    | "c \<noteq> quote_char" "c \<noteq> CHR ''[''" "\<not> is_word_char c" by blast
  then show ?thesis
  proof cases
    case 1
    with item show ?thesis by (auto simp: rbind_eq_Inr_iff intro: literal)
  next
    case 2
    then show ?thesis
      using item range [of "if deref (tl pos) = CHR ''^'' then LLAMA_GRETYPE_CHAR_NOT else LLAMA_GRETYPE_CHAR"
          "if deref (tl pos) = CHR ''^'' then tl (tl pos) else tl pos"]
      by (auto simp: rbind_eq_Inr_iff split: if_splits)
  next
    case 3
    with item obtain e where e: "parse_name pos = Inr e"
      by (cases "parse_name pos") auto
    obtain i s1 where "get_symbol_id (text_until pos e) st = (i, s1)" by fastforce
    with 3 item e show ?thesis by (intro name [of e i]) auto
  next
    case 4
    note rest = item [simplified 4 if_False simp_thms]
    have l: "length (parse_space nested (tl pos)) \<le> length pos - 1" by (rule parse_space_tl_length)
    have rep: ?thesis if "repeat_item rule_name mn mx rule lss p st = Inr (Some (rule1, lss1, pos1, st1))"
      "length p \<le> length pos - 1" for mn mx p
      using repeat_item_pos [OF that(1)] that(2) by (auto intro: repeated)
    show ?thesis
    proof (cases "c = CHR ''.''")
      case True
      with rest show ?thesis by (intro any) auto
    next
      case False
      consider mn mx where "repeat_item rule_name mn mx rule lss (parse_space nested (tl pos)) st
            = Inr (Some (rule1, lss1, pos1, st1))"
        | mn mx p where "parse_braces nested (tl pos) = Inr (mn, mx, p)"
            "repeat_item rule_name mn mx rule lss p st = Inr (Some (rule1, lss1, pos1, st1))"
        using rest False by (auto simp: rbind_eq_Inr_iff split: if_splits)
      then show ?thesis
        by cases (use rep l parse_braces_length [of nested "tl pos"] in \<open>fastforce+\<close>)
    qed
  qed
qed

lemma seq_item_length:
  assumes "seq_item rule_name nested rule lss pos st = Inr (Some (rule1, lss1, pos1, st1))" "pos \<noteq> []"
  shows "length pos1 < length pos"
proof -
  have tl: "length (parse_space nested (tl p)) < length pos" if "length p \<le> length pos - 1" for p
    using parse_space_tl_length [of nested p] that assms(2) by (cases pos) auto
  from assms(1) show ?thesis
  proof (cases rule: seq_item_cases)
    case (literal p)
    with literal_loop_length [OF literal(1)] tl show ?thesis by simp
  next
    case (range t q p)
    with range_loop_length [OF range(2)] tl show ?thesis by simp
  next
    case (name i e)
    with le_less_trans [OF parse_space_length parse_name_length [OF name(1)]] show ?thesis by simp
  next
    case any
    with assms(2) show ?thesis by (cases pos) (auto simp: less_Suc_eq_le parse_space_length)
  next
    case (repeated mn mx)
    with assms(2) show ?thesis by (cases pos) auto
  qed
qed

lemma sequence_cases:
  assumes "parse_sequence (Suc n) name nested rule lss pos st = Some (Inr (rule', pos', st'))"
  obtains (stop) "rule' = rule" "pos' = pos" "st' = st"
  | (group) i st1 pos2 st2 where "pos \<noteq> []" "generate_symbol_id name st = (i, st1)"
      "parse_alternates n name i True (parse_space True (tl pos)) st1 = Some (Inr (pos2, st2))"
      "parse_sequence n name nested (rule @ [Elem LLAMA_GRETYPE_RULE_REF i]) (length rule)
         (parse_space nested (tl pos2)) st2 = Some (Inr (rule', pos', st'))"
  | (item) rule1 lss1 pos1 st1 where "pos \<noteq> []"
      "seq_item name nested rule lss pos st = Inr (Some (rule1, lss1, pos1, st1))"
      "parse_sequence n name nested rule1 lss1 pos1 st1 = Some (Inr (rule', pos', st'))"
proof (cases "pos = []")
  case True
  with assms stop show ?thesis by simp
next
  case False
  show ?thesis
  proof (cases "deref pos = CHR ''(''")
    case True
    obtain i st1 where g: "generate_symbol_id name st = (i, st1)" by fastforce
    with assms False True show ?thesis
      by (auto simp: fuel_bind_Inr expect_close_def throw_def split: if_splits intro: group [OF False g])
  next
    case other: False
    obtain r where r: "seq_item name nested rule lss pos st = Inr r"
      using assms False other by (cases "seq_item name nested rule lss pos st") auto
    show ?thesis
    proof (cases r)
      case None
      with assms False other r stop show ?thesis by simp
    next
      case (Some q)
      with assms False other r show ?thesis by (cases q) (auto intro: item)
    qed
  qed
qed

lemma alternates_cases:
  assumes "parse_alternates (Suc n) name rid nested pos st = Some (Inr (pos', st'))"
  obtains rule1 pos1 st1 where
    "parse_sequence n name nested [] 0 pos st = Some (Inr (rule1, pos1, st1))"
    "more_alternates n name rid nested rule1 pos1 st1 = Some (Inr (pos', st'))"
  using assms that by (auto simp: fuel_bind_Inr)

lemma more_alternates_cases:
  assumes "more_alternates (Suc n) name rid nested rule pos st = Some (Inr (pos', st'))"
  obtains (stop) "pos' = pos" "st' = add_rule rid (rule @ [END_elem]) st"
  | (more) rule1 pos1 st1 where
    "parse_sequence n name nested (rule @ [ALT_elem]) (length rule + 1) (parse_space True (tl pos)) st
       = Some (Inr (rule1, pos1, st1))"
    "more_alternates n name rid nested rule1 pos1 st1 = Some (Inr (pos', st'))"
  using assms that by (auto simp: fuel_bind_Inr split: if_splits)

text \<open>No function of the descent returns a longer text, so with the fuel of \<open>parse_rule\<close> every one
  returns.\<close>

lemma descent_length:
  "parse_sequence n name nested rule lss pos st = Some (Inr (rule', pos', st')) \<Longrightarrow> length pos' \<le> length pos"
  "parse_alternates n name rid nested pos st = Some (Inr (pos', st')) \<Longrightarrow> length pos' \<le> length pos"
  "more_alternates n name rid nested rule pos st = Some (Inr (pos', st')) \<Longrightarrow> length pos' \<le> length pos"
proof (induction n arbitrary: name nested rid rule lss pos st rule' pos' st')
  case (Suc n)
  note seq = Suc.IH(1) and alt = Suc.IH(2) and more = Suc.IH(3)
  {
    case 1
    then show ?case
    proof (cases rule: sequence_cases)
      case (group i st1 pos2 st2)
      from seq [OF group(4)] parse_space_tl_length [of nested pos2] alt [OF group(3)]
        parse_space_tl_length [of True pos] show ?thesis by simp
    next
      case (item rule1 lss1 pos1 st1)
      from seq [OF item(3)] seq_item_length [OF item(2,1)] show ?thesis by simp
    qed simp
  next
    case 2
    then show ?case by (rule alternates_cases) (use seq more in \<open>blast intro: le_trans\<close>)
  next
    case 3
    then show ?case
    proof (cases rule: more_alternates_cases)
      case (more rule1 pos1 st1)
      from Suc.IH(1) [OF more(1)] Suc.IH(3) [OF more(2)] parse_space_tl_length [of True pos]
      show ?thesis by simp
    qed simp
  }
qed simp_all

lemma descent_fuel:
  "3 * length pos < n \<Longrightarrow> parse_sequence n name nested rule lss pos st \<noteq> None"
  "3 * length pos + 2 < n \<Longrightarrow> parse_alternates n name rid nested pos st \<noteq> None"
  "3 * length pos + 1 < n \<Longrightarrow> more_alternates n name rid nested rule pos st \<noteq> None"
proof (induction n arbitrary: name nested rid rule lss pos st)
  case (Suc n)
  note seq = Suc.IH(1) and alt = Suc.IH(2) and more = Suc.IH(3)
  {
    case 1
    show ?case
    proof
      assume none: "parse_sequence (Suc n) name nested rule lss pos st = None"
      then have ne: "pos \<noteq> []" by auto
      then have len: "length (parse_space nl (tl pos)) < length pos" for nl
        using parse_space_tl_length [of nl pos] by (cases pos) auto
      show False
      proof (cases "deref pos = CHR ''(''")
        case True
        obtain i st1 where g: "generate_symbol_id name st = (i, st1)" by fastforce
        have a: "parse_alternates n name i True (parse_space True (tl pos)) st1 \<noteq> None"
          by (rule alt) (use 1 len [of True] in simp)
        have b: "parse_sequence n name nested r l (parse_space nested (tl pos2)) st2 \<noteq> None"
          if "parse_alternates n name i True (parse_space True (tl pos)) st1 = Some (Inr (pos2, st2))"
          for r l pos2 st2
          by (rule seq) (use 1 len [of True] descent_length(2) [OF that]
              parse_space_tl_length [of nested pos2] in simp)
        from none ne True g a b show False
          by (auto simp: fuel_bind_None expect_close_def throw_def split: if_splits)
      next
        case False
        with none ne obtain r l p s where
          i: "seq_item name nested rule lss pos st = Inr (Some (r, l, p, s))"
            "parse_sequence n name nested r l p s = None"
          by (auto simp: fuel_bind_None split: option.splits)
        from seq_item_length [OF i(1) ne] 1 seq [of p name nested r l s] i(2) show False by simp
      qed
    qed
  next
    case 2
    have "parse_sequence n name nested [] 0 pos st \<noteq> None" by (rule seq) (use 2 in simp)
    moreover have "more_alternates n name rid nested r p s \<noteq> None"
      if "parse_sequence n name nested [] 0 pos st = Some (Inr (r, p, s))" for r p s
      by (rule more) (use 2 descent_length(1) [OF that] in simp)
    ultimately show ?case by (auto simp: fuel_bind_None)
  next
    case 3
    show ?case
    proof (cases "deref pos = CHR ''|''")
      case True
      then have len: "length (parse_space True (tl pos)) < length pos"
        using parse_space_tl_length [of True pos] by (cases pos) auto
      have "parse_sequence n name nested (rule @ [ALT_elem]) (length rule + 1) (parse_space True (tl pos)) st \<noteq> None"
        by (rule seq) (use 3 len in simp)
      moreover have "more_alternates n name rid nested r p s \<noteq> None"
        if "parse_sequence n name nested (rule @ [ALT_elem]) (length rule + 1) (parse_space True (tl pos)) st
            = Some (Inr (r, p, s))" for r p s
        by (rule more) (use 3 len descent_length(1) [OF that] in simp)
      ultimately show ?thesis using True by (auto simp: fuel_bind_None)
    qed simp
  }
qed simp_all

lemma end_of_rule_length: "end_of_rule pos = Inr pos' \<Longrightarrow> length pos' \<le> length pos"
  by (cases pos) (auto simp: end_of_rule_def throw_def split: if_splits)

lemma parse_rule_length:
  assumes "parse_rule src st = Some (Inr (pos, st'))"
  shows "length pos < length src"
proof -
  obtain e where e: "parse_name src = Inr e"
    using assms by (cases "parse_name src") (auto simp: parse_rule_def)
  define p1 where "p1 = parse_space True (drop 3 (parse_space False e))"
  obtain i s1 where g: "get_symbol_id (text_until src e) st = (i, s1)" by fastforce
  obtain p2 s2 p3 where p: "parse_alternates (parse_fuel p1) (text_until src e) i False p1 s1 = Some (Inr (p2, s2))"
    "end_of_rule p2 = Inr p3" "pos = parse_space True p3"
    using assms e g by (auto simp: parse_rule_def fuel_bind_Inr Let_def throw_def p1_def [symmetric] split: if_splits)
  have "length pos \<le> length p1"
    using descent_length(2) [OF p(1)] end_of_rule_length [OF p(2)] parse_space_length [of True p3] p(3) by simp
  also have "\<dots> \<le> length e"
    using parse_space_length [of True "drop 3 (parse_space False e)"] parse_space_length [of False e]
    by (simp add: p1_def)
  also have "\<dots> < length src" by (rule parse_name_length [OF e])
  finally show ?thesis .
qed

lemma parse_rule_returns: "parse_rule src st \<noteq> None"
proof -
  have "parse_alternates (parse_fuel p) name rid False p s \<noteq> None" for p name rid s
    by (rule descent_fuel(2)) (simp add: parse_fuel_def)
  then show ?thesis
    by (auto simp: parse_rule_def fuel_bind_None Let_def throw_def simp del: not_None_eq split: prod.splits)
qed

section \<open>A whole grammar\<close>

function parse_rules :: "string \<Rightarrow> llama_grammar_parser \<Rightarrow> llama_grammar_parser fuelled" where
  "parse_rules pos st =
     (if pos = [] then Some (Inr st)
      else case parse_rule pos st of
             None \<Rightarrow> None
           | Some (Inl e) \<Rightarrow> Some (Inl e)
           | Some (Inr (pos1, st1)) \<Rightarrow> parse_rules pos1 st1)"
  by pat_completeness auto
termination
  by (relation "measure (\<lambda>(pos, _). length pos)") (auto dest!: parse_rule_length)

declare parse_rules.simps [simp del]

text \<open>The check behind the loop.  A reference outside the rules that no symbol names is let through.\<close>

definition undefined_ref :: "llama_grammar_parser \<Rightarrow> llama_grammar_element \<Rightarrow> bool" where
  "undefined_ref st e \<longleftrightarrow>
     ge_type e = LLAMA_GRETYPE_RULE_REF
     \<and> (ge_value e \<ge> length (gp_rules st) \<or> gp_rules st ! ge_value e = [])
     \<and> ge_value e \<in> snd ` set (gp_symbol_ids st)"

definition undefined_rule :: "llama_grammar_parser \<Rightarrow> bool" where
  "undefined_rule st \<longleftrightarrow> (\<exists>r \<in> set (gp_rules st). r = [] \<or> (\<exists>e \<in> set r. undefined_ref st e))"

definition empty_parser :: llama_grammar_parser where
  "empty_parser = \<lparr>gp_symbol_ids = [], gp_rules = []\<rparr>"

text \<open>A failed parse prints the message and clears the rules: here it is the exception.\<close>

definition parse :: "string \<Rightarrow> llama_grammar_parser fuelled" where
  "parse src =
     fuel_bind (parse_rules (parse_space True (c_str src)) empty_parser) (\<lambda>st.
       if undefined_rule st then Some (throw ''Undefined rule'') else Some (Inr st))"

lemma parse_rules_returns: "parse_rules pos st \<noteq> None"
proof (induction pos st rule: parse_rules.induct)
  case (1 pos st)
  then show ?case
    by (subst parse_rules.simps) (auto simp: parse_rule_returns split: option.splits sum.splits)
qed

text \<open>C31: Parsing a grammar always returns, with its rules or with an exception: the descent never runs out
  of the fuel it is given, which bounds the depth of its recursion by three times the text.\<close>

theorem parse_returns: "parse src \<noteq> None"
  by (simp add: parse_def fuel_bind_None parse_rules_returns throw_def del: not_None_eq)

section \<open>Printing a grammar\<close>

definition hex_char :: "nat \<Rightarrow> char" where
  "hex_char d = char_of (if d < 10 then 48 + d else 55 + d)"

fun show_hex :: "nat \<Rightarrow> string" where
  "show_hex n = (if n < 16 then [hex_char n] else show_hex (n div 16) @ [hex_char (n mod 16)])"

declare show_hex.simps [simp del]

definition print_grammar_char :: "nat \<Rightarrow> string" where
  "print_grammar_char c =
     (if 0x20 \<le> c \<and> c \<le> 0x7F then [char_of c]
      else ''<U+'' @ replicate (4 - length (show_hex c)) (CHR ''0'') @ show_hex c @ ''>'')"

definition is_char_element :: "llama_grammar_element \<Rightarrow> bool" where
  "is_char_element e \<longleftrightarrow> ge_type e \<in> {LLAMA_GRETYPE_CHAR, LLAMA_GRETYPE_CHAR_NOT, LLAMA_GRETYPE_CHAR_ALT,
     LLAMA_GRETYPE_CHAR_RNG_UPPER, LLAMA_GRETYPE_CHAR_ANY}"

text \<open>What is printed, up to an exception.\<close>

definition print_elem :: "nat \<Rightarrow> (nat \<Rightarrow> string option) \<Rightarrow> nat \<Rightarrow> llama_grammar_element option
    \<Rightarrow> llama_grammar_element \<Rightarrow> string result" where
  "print_elem rule_id names i prev e =
     (case ge_type e of
        LLAMA_GRETYPE_END \<Rightarrow>
          throw (''unexpected end of rule: '' @ show_nat rule_id @ '','' @ show_nat i)
      | LLAMA_GRETYPE_ALT \<Rightarrow> Inr ''| ''
      | LLAMA_GRETYPE_RULE_REF \<Rightarrow>
          (case names (ge_value e) of None \<Rightarrow> Inl Out_Of_Range | Some s \<Rightarrow> Inr (s @ '' ''))
      | LLAMA_GRETYPE_CHAR \<Rightarrow> Inr (''['' @ print_grammar_char (ge_value e))
      | LLAMA_GRETYPE_CHAR_NOT \<Rightarrow> Inr (''[^'' @ print_grammar_char (ge_value e))
      | LLAMA_GRETYPE_CHAR_RNG_UPPER \<Rightarrow>
          if (case prev of None \<Rightarrow> True | Some q \<Rightarrow> \<not> is_char_element q) then
            throw (''LLAMA_GRETYPE_CHAR_RNG_UPPER without preceding char: ''
              @ show_nat rule_id @ '','' @ show_nat i)
          else Inr (''-'' @ print_grammar_char (ge_value e))
      | LLAMA_GRETYPE_CHAR_ALT \<Rightarrow>
          if (case prev of None \<Rightarrow> True | Some q \<Rightarrow> \<not> is_char_element q) then
            throw (''LLAMA_GRETYPE_CHAR_ALT without preceding char: ''
              @ show_nat rule_id @ '','' @ show_nat i)
          else Inr (print_grammar_char (ge_value e))
      | LLAMA_GRETYPE_CHAR_ANY \<Rightarrow> Inr ''.'')"

definition close_bracket :: "llama_grammar_element \<Rightarrow> llama_grammar_element \<Rightarrow> string" where
  "close_bracket e next_e =
     (if is_char_element e
         \<and> ge_type next_e \<notin> {LLAMA_GRETYPE_CHAR_ALT, LLAMA_GRETYPE_CHAR_RNG_UPPER, LLAMA_GRETYPE_CHAR_ANY}
      then ''] '' else [])"

fun print_elems :: "nat \<Rightarrow> (nat \<Rightarrow> string option) \<Rightarrow> nat \<Rightarrow> llama_grammar_element option
    \<Rightarrow> llama_grammar_rule \<Rightarrow> string \<times> cpp_failure option" where
  "print_elems rule_id names i prev (e # next_e # es) =
     (case print_elem rule_id names i prev e of
        Inl err \<Rightarrow> ([], Some err)
      | Inr out \<Rightarrow>
          let (out2, err) = print_elems rule_id names (i + 1) (Some e) (next_e # es)
          in (out @ close_bracket e next_e @ out2, err))"
| "print_elems rule_id names i prev es = ([newline], None)"

definition print_rule :: "nat \<Rightarrow> llama_grammar_rule \<Rightarrow> (nat \<Rightarrow> string option) \<Rightarrow> string \<times> cpp_failure option" where
  "print_rule rule_id rule names =
     (if rule = [] \<or> ge_type (last rule) \<noteq> LLAMA_GRETYPE_END then
        ([], Some (Runtime_Error (''malformed rule, does not end with LLAMA_GRETYPE_END: '' @ show_nat rule_id)))
      else
        case names rule_id of
          None \<Rightarrow> ([], Some Out_Of_Range)
        | Some name \<Rightarrow>
            (let (out, err) = print_elems rule_id names 0 None rule in (name @ '' ::= '' @ out, err)))"

text \<open>\<^verbatim>\<open>symbol_ids\<close> is run through in the order of the names, so of two names for an id the greater one
  is kept.\<close>

definition symbol_id_names :: "llama_grammar_parser \<Rightarrow> nat \<Rightarrow> string option" where
  "symbol_id_names st i =
     (case sort (map fst (filter (\<lambda>(_, j). j = i) (gp_symbol_ids st))) of
        [] \<Rightarrow> None
      | n # ns \<Rightarrow> Some (last (n # ns)))"

fun print_each_rule :: "(nat \<Rightarrow> string option) \<Rightarrow> nat \<Rightarrow> llama_grammar_rule list \<Rightarrow> string" where
  "print_each_rule names i [] = []"
| "print_each_rule names i (r # rs) =
     (case print_rule i r names of
        (out, None) \<Rightarrow> out @ print_each_rule names (i + 1) rs
      | (out, Some _) \<Rightarrow> out)"

definition parser_print :: "llama_grammar_parser \<Rightarrow> string" where
  "parser_print st = print_each_rule (symbol_id_names st) 0 (gp_rules st)"

end
