(* ===== verification/GrammarShape.thy ===== *)
theory GrammarShape
  imports GrammarParser
begin

text \<open>
  What the parser guarantees to the automaton: every rule ends in its only \<^verbatim>\<open>END\<close>, modifiers of
  a character stand behind a character, and references stay within the rules.
\<close>

section \<open>The shape of a rule\<close>

text \<open>What may follow: 0 no modifier, 1 any modifier, 2 only a further alternative.\<close>

fun after_elem :: "llama_gretype \<Rightarrow> nat" where
  "after_elem LLAMA_GRETYPE_CHAR = 1"
| "after_elem LLAMA_GRETYPE_CHAR_NOT = 1"
| "after_elem LLAMA_GRETYPE_CHAR_ALT = 1"
| "after_elem LLAMA_GRETYPE_CHAR_RNG_UPPER = 2"
| "after_elem _ = 0"

definition may_follow :: "nat \<Rightarrow> llama_gretype \<Rightarrow> bool" where
  "may_follow k t \<longleftrightarrow> t \<noteq> LLAMA_GRETYPE_END \<and> (t = LLAMA_GRETYPE_CHAR_RNG_UPPER \<longrightarrow> k = 1)
     \<and> (t = LLAMA_GRETYPE_CHAR_ALT \<longrightarrow> k \<noteq> 0)"

lemma may_follow_simps [simp]:
  "may_follow k LLAMA_GRETYPE_CHAR" "may_follow k LLAMA_GRETYPE_CHAR_NOT" "may_follow k LLAMA_GRETYPE_RULE_REF"
  "may_follow k LLAMA_GRETYPE_CHAR_ANY" "may_follow k LLAMA_GRETYPE_ALT" "\<not> may_follow k LLAMA_GRETYPE_END"
  "may_follow k LLAMA_GRETYPE_CHAR_ALT \<longleftrightarrow> k \<noteq> 0" "may_follow k LLAMA_GRETYPE_CHAR_RNG_UPPER \<longleftrightarrow> k = 1"
  by (auto simp: may_follow_def)

fun shaped :: "nat \<Rightarrow> llama_grammar_rule \<Rightarrow> bool" where
  "shaped k [] = True"
| "shaped k (e # es) = (may_follow k (ge_type e) \<and> shaped (after_elem (ge_type e)) es)"

fun end_state :: "nat \<Rightarrow> llama_grammar_rule \<Rightarrow> nat" where
  "end_state k [] = k"
| "end_state k (e # es) = end_state (after_elem (ge_type e)) es"

lemma end_state_append: "end_state k (xs @ ys) = end_state (end_state k xs) ys"
  by (induction xs arbitrary: k) auto

lemma shaped_append: "shaped k (xs @ ys) \<longleftrightarrow> shaped k xs \<and> shaped (end_state k xs) ys"
  by (induction xs arbitrary: k) auto

lemma may_follow_0: "may_follow 0 t \<Longrightarrow> may_follow k t"
  by (auto simp: may_follow_def)

lemma shaped_0: "shaped 0 xs \<Longrightarrow> shaped k xs"
  by (cases xs) (auto intro: may_follow_0)

lemma shaped_append_0: "shaped k xs \<Longrightarrow> shaped 0 ys \<Longrightarrow> shaped k (xs @ ys)"
  by (simp add: shaped_append shaped_0)

lemma shaped_take: "shaped k xs \<Longrightarrow> shaped k (take n xs)"
  using shaped_append [of k "take n xs" "drop n xs"] by simp

lemma shaped_concat_replicate: "shaped 0 xs \<Longrightarrow> shaped 0 (concat (replicate n xs))"
  by (induction n) (auto intro: shaped_append_0)

lemma shaped_single [simp]:
  "shaped k [Elem LLAMA_GRETYPE_CHAR c]" "shaped k [Elem LLAMA_GRETYPE_CHAR_NOT c]"
  "shaped k [Elem LLAMA_GRETYPE_RULE_REF c]" "shaped k [Elem LLAMA_GRETYPE_CHAR_ANY c]" "shaped k [ALT_elem]"
  by (simp_all add: may_follow_def)

lemma shaped_no_END: "shaped k xs \<Longrightarrow> e \<in> set xs \<Longrightarrow> ge_type e \<noteq> LLAMA_GRETYPE_END"
  by (induction k xs rule: shaped.induct) (auto simp: may_follow_def)

lemma literal_loop_shaped:
  assumes "literal_loop rule pos = Inr (rule', pos')"
  shows "\<exists>r. rule' = rule @ r \<and> shaped 0 r \<and> (\<forall>e \<in> set r. ge_type e = LLAMA_GRETYPE_CHAR)"
  using assms
proof (induction rule pos rule: literal_loop.induct)
  case (1 rule pos)
  show ?case
  proof (cases "deref pos = quote_char")
    case True
    with "1.prems" show ?thesis by (simp add: literal_loop.simps)
  next
    case False
    with "1.prems" obtain c p where c: "pos \<noteq> []" "parse_char pos = Inr (c, p)"
      "literal_loop (rule @ [Elem LLAMA_GRETYPE_CHAR c]) p = Inr (rule', pos')"
      by (subst (asm) literal_loop.simps) (auto simp: throw_def split: if_splits sum.splits)
    from "1.IH" [OF False c(1,2) refl c(3)] obtain r where
      "rule' = (rule @ [Elem LLAMA_GRETYPE_CHAR c]) @ r" "shaped 0 r" "\<forall>e \<in> set r. ge_type e = LLAMA_GRETYPE_CHAR"
      by auto
    then show ?thesis
      by (intro exI [of _ "Elem LLAMA_GRETYPE_CHAR c # r"]) (auto simp: may_follow_def intro: shaped_0)
  qed
qed

lemma range_upper_cases:
  assumes "range_upper rule pos = Inr (rule', pos')"
  obtains "rule' = rule" | c where "rule' = rule @ [Elem LLAMA_GRETYPE_CHAR_RNG_UPPER c]"
  using assms by (auto simp: range_upper_def throw_def rbind_eq_Inr_iff split: if_splits)

lemma range_loop_shaped:
  assumes "range_loop t (length pre) (pre @ r) pos = Inr (rule', pos')"
    and "t = LLAMA_GRETYPE_CHAR \<or> t = LLAMA_GRETYPE_CHAR_NOT"
    and "shaped 0 r" "r \<noteq> [] \<Longrightarrow> end_state 0 r \<noteq> 0" "\<forall>e \<in> set r. ge_type e \<noteq> LLAMA_GRETYPE_RULE_REF"
  shows "\<exists>r'. rule' = pre @ r' \<and> shaped 0 r' \<and> (\<forall>e \<in> set r'. ge_type e \<noteq> LLAMA_GRETYPE_RULE_REF)"
  using assms
proof (induction t "length pre" "pre @ r" pos arbitrary: r rule: range_loop.induct)
  case (1 t pos)
  show ?case
  proof (cases "deref pos = CHR '']''")
    case True
    with "1.prems" show ?thesis by (intro exI [of _ r]) (simp add: range_loop.simps)
  next
    case False
    define e where "e c = Elem (if r \<noteq> [] then LLAMA_GRETYPE_CHAR_ALT else t) c" for c
    from False "1.prems"(1) obtain c p rule1 q where c: "pos \<noteq> []" "parse_char pos = Inr (c, p)"
      "range_upper (pre @ r @ [e c]) p = Inr (rule1, q)"
      "range_loop t (length pre) rule1 q = Inr (rule', pos')"
      by (subst (asm) range_loop.simps) (auto simp: throw_def e_def split: if_splits sum.splits)
    have e: "shaped 0 (r @ [e c])" "end_state 0 (r @ [e c]) = 1" "ge_type (e c) \<noteq> LLAMA_GRETYPE_RULE_REF"
      using "1.prems"(2-4) by (auto simp: e_def shaped_append may_follow_def end_state_append)
    have "\<exists>r1. rule1 = pre @ r1 \<and> shaped 0 r1 \<and> end_state 0 r1 \<noteq> 0 \<and> r1 \<noteq> []
        \<and> (\<forall>e \<in> set r1. ge_type e \<noteq> LLAMA_GRETYPE_RULE_REF)"
      using c(3)
    proof (cases rule: range_upper_cases)
      case 1
      with e "1.prems"(5) show ?thesis by (intro exI [of _ "r @ [e c]"]) auto
    next
      case (2 d)
      have "shaped 0 ((r @ [e c]) @ [Elem LLAMA_GRETYPE_CHAR_RNG_UPPER d])"
        unfolding shaped_append [of 0 "r @ [e c]"] e(2) using e(1) by (simp add: may_follow_def)
      with 2 e(3) "1.prems"(5) show ?thesis
        by (intro exI [of _ "(r @ [e c]) @ [Elem LLAMA_GRETYPE_CHAR_RNG_UPPER d]"])
          (auto simp: end_state_append)
    qed
    then obtain r1 where r1: "rule1 = pre @ r1" "shaped 0 r1" "end_state 0 r1 \<noteq> 0"
      "\<forall>e \<in> set r1. ge_type e \<noteq> LLAMA_GRETYPE_RULE_REF" by auto
    have up: "range_upper ((pre @ r) @ [Elem (if length pre < length (pre @ r)
        then LLAMA_GRETYPE_CHAR_ALT else t) c]) p = Inr (pre @ r1, q)"
      using c(3) r1(1) by (simp add: e_def)
    show ?thesis
      by (rule "1.hyps" [OF False c(1,2) refl up refl _ "1.prems"(2) r1(2) r1(3) r1(4)])
        (use c(4) r1(1) in simp)
  qed
qed

section \<open>References\<close>

text \<open>A reference is accounted for when its rule is still to be added (below the bound \<open>B\<close>), exists, or
  has a name.\<close>

definition ref_ok :: "nat \<Rightarrow> llama_grammar_parser \<Rightarrow> nat \<Rightarrow> bool" where
  "ref_ok B st v \<longleftrightarrow> v < B \<or> v < length (gp_rules st) \<or> v \<in> snd ` set (gp_symbol_ids st)"

definition rule_ok :: "nat \<Rightarrow> llama_grammar_parser \<Rightarrow> llama_grammar_rule \<Rightarrow> bool" where
  "rule_ok B st r \<longleftrightarrow> shaped 0 r
     \<and> (\<forall>e \<in> set r. ge_type e = LLAMA_GRETYPE_RULE_REF \<longrightarrow> ref_ok B st (ge_value e))"

definition ids_ok :: "llama_grammar_parser \<Rightarrow> bool" where
  "ids_ok st \<longleftrightarrow> (\<forall>i \<in> snd ` set (gp_symbol_ids st). i \<le> length (gp_symbol_ids st))"

definition rules_ok :: "nat \<Rightarrow> llama_grammar_parser \<Rightarrow> bool" where
  "rules_ok B st \<longleftrightarrow> (\<forall>r \<in> set (gp_rules st). r = [] \<or> (\<exists>b. r = b @ [END_elem] \<and> rule_ok B st b))"

definition sys_ok :: "nat \<Rightarrow> llama_grammar_parser \<Rightarrow> bool" where
  "sys_ok B st \<longleftrightarrow> ids_ok st \<and> rules_ok B st"

definition seq_ok :: "nat \<Rightarrow> llama_grammar_parser \<Rightarrow> llama_grammar_rule \<Rightarrow> nat \<Rightarrow> bool" where
  "seq_ok B st r lss \<longleftrightarrow> rule_ok B st r \<and> lss \<le> length r \<and> shaped 0 (drop lss r)"

definition carries :: "nat \<Rightarrow> nat \<Rightarrow> llama_grammar_parser \<Rightarrow> llama_grammar_parser \<Rightarrow> bool" where
  "carries B B' st st' \<longleftrightarrow> (\<forall>v. ref_ok B st v \<longrightarrow> ref_ok B' st' v)"

abbreviation n_symbols :: "llama_grammar_parser \<Rightarrow> nat" where
  "n_symbols st \<equiv> length (gp_symbol_ids st)"

lemma carries_refl [simp]: "carries B B st st"
  by (simp add: carries_def)

lemma carries_trans: "carries B1 B2 s1 s2 \<Longrightarrow> carries B2 B3 s2 s3 \<Longrightarrow> carries B1 B3 s1 s3"
  by (simp add: carries_def)

lemma rule_ok_carries: "carries B B' st st' \<Longrightarrow> rule_ok B st r \<Longrightarrow> rule_ok B' st' r"
  by (auto simp: carries_def rule_ok_def)

lemma rules_ok_carries:
  assumes "carries B B' st st'" "gp_rules st' = gp_rules st" "rules_ok B st"
  shows "rules_ok B' st'"
  using assms(3) rule_ok_carries [OF assms(1)] unfolding rules_ok_def assms(2) by blast

lemma rule_ok_append: "rule_ok B st r \<Longrightarrow> rule_ok B st q \<Longrightarrow> rule_ok B st (r @ q)"
  by (auto simp: rule_ok_def shaped_append_0)

lemma rule_ok_Nil [simp]: "rule_ok B st []"
  by (simp add: rule_ok_def)

lemma rule_ok_ref: "ref_ok B st i \<Longrightarrow> rule_ok B st [Elem LLAMA_GRETYPE_RULE_REF i]"
  by (simp add: rule_ok_def may_follow_def)

lemma rule_ok_plain: "shaped 0 r \<Longrightarrow> \<forall>e \<in> set r. ge_type e \<noteq> LLAMA_GRETYPE_RULE_REF \<Longrightarrow> rule_ok B st r"
  by (auto simp: rule_ok_def)

lemma rule_ok_take: "rule_ok B st r \<Longrightarrow> rule_ok B st (take n r)"
  by (auto simp: rule_ok_def shaped_take dest: in_set_takeD)

lemma rule_ok_drop: "rule_ok B st r \<Longrightarrow> shaped 0 (drop n r) \<Longrightarrow> rule_ok B st (drop n r)"
  by (auto simp: rule_ok_def dest: in_set_dropD)

lemma rule_ok_replicate: "rule_ok B st r \<Longrightarrow> rule_ok B st (concat (replicate n r))"
  by (auto simp: rule_ok_def shaped_concat_replicate split: if_splits)

section \<open>Symbols and rules\<close>

lemma get_symbol_ok:
  assumes "get_symbol_id name st = (i, st')"
  shows "n_symbols st \<le> n_symbols st'" "sys_ok B st \<Longrightarrow> sys_ok B st'" "carries B B st st'" "ref_ok B st' i"
proof -
  have m: "map_of (gp_symbol_ids st) name = Some j \<Longrightarrow> j \<in> snd ` set (gp_symbol_ids st)" for j
    by (force dest: map_of_SomeD)
  show len: "n_symbols st \<le> n_symbols st'" and c: "carries B B st st'" and "ref_ok B st' i"
    using assms m by (auto simp: get_symbol_id_def Let_def carries_def ref_ok_def split: option.splits)
  show "sys_ok B st'" if "sys_ok B st"
  proof -
    have r: "gp_rules st' = gp_rules st"
      using assms by (auto simp: get_symbol_id_def Let_def split: option.splits)
    have "ids_ok st'"
      using that assms by (fastforce simp: sys_ok_def ids_ok_def get_symbol_id_def Let_def split: option.splits)
    with that rules_ok_carries [OF c r] show ?thesis by (simp add: sys_ok_def)
  qed
qed

lemma update_length: "length al \<le> length (AList.update k v al)" "length (AList.update k v al) \<le> Suc (length al)"
  by (induction al) auto

lemma update_values: "snd ` set (AList.update k v al) \<subseteq> insert v (snd ` set al)"
  by (induction al) auto

lemma generate_symbol_ok:
  assumes "generate_symbol_id name st = (i, st')"
  shows "n_symbols st \<le> n_symbols st'"
    "sys_ok B st \<Longrightarrow> n_symbols st' < 2 ^ 32 \<Longrightarrow> sys_ok (max B (i + 1)) st'"
    "sys_ok B st \<Longrightarrow> n_symbols st' < 2 ^ 32 \<Longrightarrow> carries B (max B (i + 1)) st st'"
proof -
  have i: "i = n_symbols st mod 2 ^ 32" and r: "gp_rules st' = gp_rules st"
    and ids: "gp_symbol_ids st' = AList.update (name @ CHR ''_'' # show_nat i) i (gp_symbol_ids st)"
    using assms by (auto simp: generate_symbol_id_def Let_def)
  show len: "n_symbols st \<le> n_symbols st'" by (simp add: ids update_length)
  have c: "carries B (max B (i + 1)) st st'" if "sys_ok B st" "n_symbols st' < 2 ^ 32"
    unfolding carries_def
  proof (intro allI impI)
    fix v assume v: "ref_ok B st v"
    from len that(2) have "n_symbols st = i" by (simp add: i)
    with v that(1) show "ref_ok (max B (i + 1)) st' v" by (auto simp: ref_ok_def sys_ok_def ids_ok_def r)
  qed
  then show "carries B (max B (i + 1)) st st'" if "sys_ok B st" "n_symbols st' < 2 ^ 32" using that by blast
  show "sys_ok (max B (i + 1)) st'" if s: "sys_ok B st" "n_symbols st' < 2 ^ 32"
  proof -
    have "i \<le> n_symbols st" by (simp add: i)
    moreover have "\<forall>j \<in> insert i (snd ` set (gp_symbol_ids st)). j \<le> n_symbols st"
      using s(1) calculation by (simp add: sys_ok_def ids_ok_def)
    moreover have "snd ` set (gp_symbol_ids st') \<subseteq> insert i (snd ` set (gp_symbol_ids st))"
      unfolding ids by (rule update_values)
    ultimately have "ids_ok st'" unfolding ids_ok_def using len by (meson le_trans subsetD)
    with s(1) rules_ok_carries [OF c [OF s] r] show ?thesis by (simp add: sys_ok_def)
  qed
qed

lemma add_rule_ok:
  assumes "sys_ok (max B (i + 1)) st" "rule_ok (max B (i + 1)) st b"
  shows "sys_ok B (add_rule i (b @ [END_elem]) st)" "carries (max B (i + 1)) B st (add_rule i (b @ [END_elem]) st)"
proof -
  define st' where "st' = add_rule i (b @ [END_elem]) st"
  have ids: "gp_symbol_ids st' = gp_symbol_ids st" and len: "i < length (gp_rules st')"
      "length (gp_rules st) \<le> length (gp_rules st')"
    by (auto simp: st'_def add_rule_def Let_def)
  have "set (gp_rules st') \<subseteq> insert (b @ [END_elem])
      (set (gp_rules st @ replicate (i + 1 - length (gp_rules st)) []))"
    unfolding st'_def add_rule_def Let_def by (simp del: set_append) (auto dest!: set_update_subset_insert [THEN subsetD])
  then have rs: "set (gp_rules st') \<subseteq> insert (b @ [END_elem]) (insert [] (set (gp_rules st)))"
    by (auto split: if_splits)
  show c: "carries (max B (i + 1)) B st st'"
    using len ids by (auto simp: carries_def ref_ok_def)
  show "sys_ok B st'"
    unfolding sys_ok_def
  proof
    show "ids_ok st'" using assms(1) by (simp add: sys_ok_def ids_ok_def ids)
    show "rules_ok B st'" unfolding rules_ok_def
    proof
      fix r assume r: "r \<in> set (gp_rules st')"
      from rs r consider "r = b @ [END_elem]" | "r = []" | "r \<in> set (gp_rules st)" by blast
      then show "r = [] \<or> (\<exists>b. r = b @ [END_elem] \<and> rule_ok B st' b)"
      proof cases
        case 1
        with rule_ok_carries [OF c assms(2)] show ?thesis by blast
      next
        case 3
        with assms(1) have "r = [] \<or> (\<exists>b. r = b @ [END_elem] \<and> rule_ok (max B (i + 1)) st b)"
          by (simp add: sys_ok_def rules_ok_def)
        with rule_ok_carries [OF c] show ?thesis by blast
      qed simp
    qed
  qed
qed

lemma add_rule_symbols [simp]: "gp_symbol_ids (add_rule i r st) = gp_symbol_ids st"
  by (simp add: add_rule_def Let_def)

section \<open>Repetitions\<close>

lemma rep_rules_symbols: "rep_rules name prev mx k first lid st = (lid', st') \<Longrightarrow> n_symbols st \<le> n_symbols st'"
proof (induction name prev mx k first lid st rule: rep_rules.induct)
  case (2 name prev mx k first lid st)
  obtain i st1 where g: "generate_symbol_id name st = (i, st1)" by fastforce
  with 2 generate_symbol_ok(1) [OF g] show ?case by (fastforce simp: Let_def)
qed simp

lemma rep_rules_ok:
  assumes "rep_rules name prev mx k first lid st = (lid', st')" "n_symbols st' < 2 ^ 32"
    and "sys_ok B st" "rule_ok B st prev" "first \<or> mx < 0 \<or> ref_ok B st lid"
  shows "sys_ok B st' \<and> carries B B st st' \<and> (k > 0 \<or> ref_ok B st lid \<longrightarrow> ref_ok B st' lid')"
  using assms
proof (induction name prev mx k first lid st rule: rep_rules.induct)
  case (2 name prev mx k first lid st)
  obtain i st1 where g: "generate_symbol_id name st = (i, st1)" by fastforce
  define B1 where "B1 = max B (i + 1)"
  define rf where "rf = (if \<not> first \<or> mx < 0
      then [Elem LLAMA_GRETYPE_RULE_REF (if mx < 0 then i else lid)] else [])"
  define body where "body = prev @ rf @ [ALT_elem]"
  define st2 where "st2 = add_rule i (prev @ rf @ [ALT_elem, END_elem]) st1"
  have st2': "st2 = add_rule i (body @ [END_elem]) st1" by (simp add: st2_def body_def)
  have rest: "rep_rules name prev mx k False i st2 = (lid', st')"
    using "2.prems"(1) g by (simp add: st2_def rf_def Let_def)
  have small: "n_symbols st1 < 2 ^ 32"
    using rep_rules_symbols [OF rest] "2.prems"(2) by (simp add: st2_def)
  note g1 = generate_symbol_ok(2,3) [OF g "2.prems"(3) small, folded B1_def]
  have iB: "ref_ok B1 st1 i" by (simp add: ref_ok_def B1_def less_max_iff_disj)
  have "rule_ok B1 st1 body"
    unfolding body_def rf_def using rule_ok_carries [OF g1(2)] "2.prems"(4,5) iB g1(2)
    by (intro rule_ok_append) (auto simp: carries_def intro!: rule_ok_ref rule_ok_plain)
  note a = add_rule_ok [OF g1(1) [unfolded B1_def] this [unfolded B1_def], folded B1_def, folded st2']
  have c: "carries B B st st2" by (rule carries_trans [OF g1(2) a(2)])
  have i2: "ref_ok B st2 i" using a(2) iB by (simp add: carries_def)
  have "sys_ok B st' \<and> carries B B st2 st' \<and> (k > 0 \<or> ref_ok B st2 i \<longrightarrow> ref_ok B st' lid')"
    by (rule "2.IH" [OF g [symmetric] refl refl, folded rf_def, folded st2_def, OF rest "2.prems"(2) a(1)
        rule_ok_carries [OF c "2.prems"(4)]]) (use i2 in simp)
  with c i2 show ?case by (auto intro: carries_trans)
qed simp

lemma handle_repetitions_symbols:
  "handle_repetitions name pos mn mx rule lss st = Inr (rule', st') \<Longrightarrow> n_symbols st \<le> n_symbols st'"
  by (auto simp: handle_repetitions_def throw_def Let_def split: if_splits prod.splits dest: rep_rules_symbols generate_symbol_ok(1))

lemma handle_repetitions_ok:
  assumes "handle_repetitions name pos mn mx rule lss st = Inr (rule', st')" "n_symbols st' < 2 ^ 32"
    and "sys_ok B st" "seq_ok B st rule lss"
  shows "sys_ok B st' \<and> seq_ok B st' rule' lss \<and> carries B B st st'"
proof -
  define prev where "prev = drop lss rule"
  define rule1 where "rule1 = (if mn = 0 then take lss rule else rule @ concat (replicate (nat (mn - 1)) prev))"
  define n where "n = (if mx < 0 then 1 else mx - mn)"
  obtain lid where r: "rep_rules name prev mx (nat n) True 0 st = (lid, st')"
      "rule' = (if n > 0 then rule1 @ [Elem LLAMA_GRETYPE_RULE_REF lid] else rule1)"
    using assms(1) by (auto simp: handle_repetitions_def throw_def Let_def prev_def rule1_def n_def
        split: if_splits prod.splits)
  from assms(4) have p: "rule_ok B st prev" "rule_ok B st rule" "lss \<le> length rule" "shaped 0 prev"
    by (auto simp: seq_ok_def prev_def rule_ok_drop)
  from rep_rules_ok [OF r(1) assms(2,3) p(1)] have s: "sys_ok B st'" "carries B B st st'"
      "n > 0 \<longrightarrow> ref_ok B st' lid" by auto
  have "rule_ok B st' rule1"
    using rule_ok_carries [OF s(2)] p by (auto simp: rule1_def intro: rule_ok_append rule_ok_take rule_ok_replicate)
  moreover have "lss \<le> length rule1" "shaped 0 (drop lss rule1)"
    using p by (auto simp: rule1_def prev_def [symmetric] intro: shaped_append_0 shaped_concat_replicate)
  ultimately have "seq_ok B st' rule' lss"
    using r(2) s(3) by (auto simp: seq_ok_def simp del: shaped.simps intro!: rule_ok_append rule_ok_ref shaped_append_0)
  with s show ?thesis by blast
qed

section \<open>The descent\<close>

lemma seq_item_symbols:
  "seq_item name nested rule lss pos st = Inr (Some (rule1, lss1, pos1, st1)) \<Longrightarrow> n_symbols st \<le> n_symbols st1"
  by (erule seq_item_cases) (auto dest: get_symbol_ok(1) handle_repetitions_symbols)

lemma seq_ok_new:
  assumes "rule_ok B st rule" "rule_ok B st r"
  shows "seq_ok B st (rule @ r) (length rule)"
  using assms by (auto simp: seq_ok_def intro: rule_ok_append) (simp add: rule_ok_def)

lemma seq_item_ok:
  assumes "seq_item name nested rule lss pos st = Inr (Some (rule1, lss1, pos1, st1))"
    and "n_symbols st1 < 2 ^ 32" "sys_ok B st" "seq_ok B st rule lss"
  shows "sys_ok B st1 \<and> seq_ok B st1 rule1 lss1 \<and> carries B B st st1"
proof -
  from assms(4) have r: "rule_ok B st rule" by (simp add: seq_ok_def)
  from assms(1) show ?thesis
  proof (cases rule: seq_item_cases)
    case (literal p)
    from literal_loop_shaped [OF literal(1)] obtain q where "rule1 = rule @ q" "shaped 0 q"
      "\<forall>e \<in> set q. ge_type e = LLAMA_GRETYPE_CHAR" by blast
    with literal r assms(3) show ?thesis by (auto intro!: seq_ok_new rule_ok_plain)
  next
    case (range t q p)
    from range_loop_shaped [of t rule "[]" q rule1 p] range obtain u where "rule1 = rule @ u" "shaped 0 u"
      "\<forall>e \<in> set u. ge_type e \<noteq> LLAMA_GRETYPE_RULE_REF" by auto
    with range r assms(3) show ?thesis by (auto intro!: seq_ok_new rule_ok_plain)
  next
    case (name i e)
    note g = get_symbol_ok(2-4) [OF name(2), where B = B]
    from name g assms(3) rule_ok_carries [OF g(2) r] show ?thesis
      by (auto intro!: seq_ok_new rule_ok_ref)
  next
    case any
    with r assms(3) show ?thesis by (auto intro!: seq_ok_new rule_ok_plain)
  next
    case (repeated mn mx)
    from handle_repetitions_ok [OF repeated(1) assms(2-4)] repeated(2) show ?thesis by simp
  qed
qed

lemma descent_symbols:
  "parse_sequence n name nested rule lss pos st = Some (Inr (rule', pos', st')) \<Longrightarrow> n_symbols st \<le> n_symbols st'"
  "parse_alternates n name rid nested pos st = Some (Inr (pos', st')) \<Longrightarrow> n_symbols st \<le> n_symbols st'"
  "more_alternates n name rid nested rule pos st = Some (Inr (pos', st')) \<Longrightarrow> n_symbols st \<le> n_symbols st'"
proof (induction n arbitrary: name nested rid rule lss pos st rule' pos' st')
  case (Suc n)
  note seq = Suc.IH(1) and alt = Suc.IH(2) and more = Suc.IH(3)
  {
    case 1
    then show ?case
    proof (cases rule: sequence_cases)
      case (group i st1 pos2 st2)
      from generate_symbol_ok(1) [OF group(2)] alt [OF group(3)] seq [OF group(4)] show ?thesis by simp
    next
      case (item rule1 lss1 pos1 st1)
      from seq_item_symbols [OF item(2)] seq [OF item(3)] show ?thesis by simp
    qed simp
  next
    case 2
    then show ?case by (rule alternates_cases) (use seq more in \<open>blast intro: le_trans\<close>)
  next
    case 3
    then show ?case
      by (cases rule: more_alternates_cases) (use seq more in \<open>simp, blast intro: le_trans\<close>)
  }
qed simp_all

lemma seq_ok_start: "seq_ok B st [] 0"
  by (simp add: seq_ok_def)

lemma seq_ok_alt: "rule_ok B st r \<Longrightarrow> seq_ok B st (r @ [ALT_elem]) (length r + 1)"
proof -
  assume r: "rule_ok B st r"
  have "rule_ok B st [ALT_elem]" by (simp add: rule_ok_def)
  with r show ?thesis by (auto simp: seq_ok_def intro: rule_ok_append)
qed

lemma descent_ok:
  "parse_sequence n name nested rule lss pos st = Some (Inr (rule', pos', st')) \<Longrightarrow> n_symbols st' < 2 ^ 32
     \<Longrightarrow> sys_ok B st \<Longrightarrow> seq_ok B st rule lss \<Longrightarrow> sys_ok B st' \<and> rule_ok B st' rule' \<and> carries B B st st'"
  "parse_alternates n name rid nested pos st = Some (Inr (pos', st')) \<Longrightarrow> n_symbols st' < 2 ^ 32
     \<Longrightarrow> sys_ok (max B (rid + 1)) st \<Longrightarrow> sys_ok B st' \<and> carries (max B (rid + 1)) B st st'"
  "more_alternates n name rid nested rule pos st = Some (Inr (pos', st')) \<Longrightarrow> n_symbols st' < 2 ^ 32
     \<Longrightarrow> sys_ok (max B (rid + 1)) st \<Longrightarrow> rule_ok (max B (rid + 1)) st rule
     \<Longrightarrow> sys_ok B st' \<and> carries (max B (rid + 1)) B st st'"
proof (induction n arbitrary: B name nested rid rule lss pos st rule' pos' st')
  case (Suc n)
  note seq = Suc.IH(1) and alt = Suc.IH(2) and more = Suc.IH(3)
  {
    case 1
    note ok = "1"(2-4)
    from ok(3) have r: "rule_ok B st rule" by (simp add: seq_ok_def)
    from 1(1) show ?case
    proof (cases rule: sequence_cases)
      case stop
      with ok r show ?thesis by simp
    next
      case (group i st1 pos2 st2)
      from descent_symbols(1) [OF group(4)] ok(1) have s2: "n_symbols st2 < 2 ^ 32" by simp
      with descent_symbols(2) [OF group(3)] have s1: "n_symbols st1 < 2 ^ 32" by simp
      note g = generate_symbol_ok(2,3) [OF group(2) ok(2) s1]
      note a = alt [OF group(3) s2 g(1)]
      have c: "carries B B st st2" using carries_trans [OF g(2)] a by blast
      have "ref_ok B st2 i" using a by (simp add: carries_def ref_ok_def less_max_iff_disj)
      then have "seq_ok B st2 (rule @ [Elem LLAMA_GRETYPE_RULE_REF i]) (length rule)"
        using rule_ok_carries [OF c r] by (intro seq_ok_new) (auto intro: rule_ok_ref)
      from seq [OF group(4) ok(1) _ this] a carries_trans [OF c] show ?thesis by blast
    next
      case (item rule1 lss1 pos1 st1)
      from descent_symbols(1) [OF item(3)] ok(1) have s1: "n_symbols st1 < 2 ^ 32" by simp
      note i = seq_item_ok [OF item(2) s1 ok(2,3)]
      from seq [OF item(3) ok(1)] i carries_trans [of B B st st1] show ?thesis by blast
    qed
  next
    case 2
    from 2(1) show ?case
    proof (rule alternates_cases)
      fix rule1 pos1 st1
      assume a: "parse_sequence n name nested [] 0 pos st = Some (Inr (rule1, pos1, st1))"
        and b: "more_alternates n name rid nested rule1 pos1 st1 = Some (Inr (pos', st'))"
      from descent_symbols(3) [OF b] 2(2) have s1: "n_symbols st1 < 2 ^ 32" by simp
      from seq [OF a s1 2(3) seq_ok_start] more [OF b 2(2)] carries_trans show ?thesis by blast
    qed
  next
    case 3
    from 3(1) show ?case
    proof (cases rule: more_alternates_cases)
      case stop
      with add_rule_ok [OF 3(3,4)] show ?thesis by simp
    next
      case (more rule1 pos1 st1)
      from descent_symbols(3) [OF more(2)] 3(2) have s1: "n_symbols st1 < 2 ^ 32" by simp
      from seq [OF more(1) s1 3(3) seq_ok_alt [OF 3(4)]] Suc.IH(3) [OF more(2) 3(2)] carries_trans
      show ?thesis by blast
    qed
  }
qed simp_all

lemma parse_rule_parts:
  assumes "parse_rule src st = Some (Inr (pos, st'))"
  obtains name i s1 p1 p2 where "get_symbol_id name st = (i, s1)"
    "parse_alternates (parse_fuel p1) name i False p1 s1 = Some (Inr (p2, st'))"
proof -
  obtain e where e: "parse_name src = Inr e"
    using assms by (cases "parse_name src") (auto simp: parse_rule_def)
  obtain i s1 where g: "get_symbol_id (text_until src e) st = (i, s1)" by fastforce
  from assms e g show ?thesis
    by (auto simp: parse_rule_def fuel_bind_Inr Let_def throw_def split: if_splits intro: that [OF g])
qed

lemma parse_rule_symbols: "parse_rule src st = Some (Inr (pos, st')) \<Longrightarrow> n_symbols st \<le> n_symbols st'"
  by (erule parse_rule_parts) (blast intro: le_trans get_symbol_ok(1) descent_symbols(2))

lemma parse_rule_ok:
  assumes "parse_rule src st = Some (Inr (pos, st'))" "n_symbols st' < 2 ^ 32" "sys_ok 0 st"
  shows "sys_ok 0 st'"
proof -
  obtain name i s1 p1 p2 where g: "get_symbol_id name st = (i, s1)"
    and p: "parse_alternates (parse_fuel p1) name i False p1 s1 = Some (Inr (p2, st'))"
    using assms(1) by (rule parse_rule_parts)
  from get_symbol_ok(2) [OF g assms(3)] have "sys_ok 0 s1" .
  then have "sys_ok (max 0 (i + 1)) s1"
    by (fastforce simp: sys_ok_def rules_ok_def rule_ok_def ref_ok_def)
  from descent_ok(2) [OF p assms(2) this] show ?thesis by simp
qed

lemma parse_rules_step:
  assumes "parse_rules pos st = Some (Inr st')" "pos \<noteq> []"
  obtains p s where "parse_rule pos st = Some (Inr (p, s))" "parse_rules p s = Some (Inr st')"
  using assms by (subst (asm) parse_rules.simps) (auto split: option.splits sum.splits)

lemma parse_rules_symbols: "parse_rules pos st = Some (Inr st') \<Longrightarrow> n_symbols st \<le> n_symbols st'"
proof (induction pos st rule: parse_rules.induct)
  case (1 pos st)
  show ?case
  proof (cases "pos = []")
    case True
    with 1 show ?thesis by (simp add: parse_rules.simps)
  next
    case False
    from "1.prems" False show ?thesis
      by (rule parse_rules_step) (use "1.IH" False parse_rule_symbols in \<open>fastforce intro: le_trans\<close>)
  qed
qed

lemma parse_rules_ok:
  assumes "parse_rules pos st = Some (Inr st')" "n_symbols st' < 2 ^ 32" "sys_ok 0 st"
  shows "sys_ok 0 st'"
  using assms
proof (induction pos st rule: parse_rules.induct)
  case (1 pos st)
  show ?case
  proof (cases "pos = []")
    case True
    with 1 show ?thesis by (simp add: parse_rules.simps)
  next
    case False
    from "1.prems"(1) False obtain p s where p: "parse_rule pos st = Some (Inr (p, s))"
      "parse_rules p s = Some (Inr st')" by (rule parse_rules_step)
    from parse_rules_symbols [OF p(2)] "1.prems"(2) have "n_symbols s < 2 ^ 32" by simp
    from "1.IH" [OF False p(1) refl refl p(2) "1.prems"(2) parse_rule_ok [OF p(1) this "1.prems"(3)]]
    show ?thesis .
  qed
qed

section \<open>What a parsed grammar is\<close>

definition wf_rule :: "nat \<Rightarrow> llama_grammar_rule \<Rightarrow> bool" where
  "wf_rule n r \<longleftrightarrow> r \<noteq> [] \<and> last r = END_elem \<and> shaped 0 (butlast r)
     \<and> (\<forall>e \<in> set r. ge_type e = LLAMA_GRETYPE_RULE_REF \<longrightarrow> ge_value e < n)"

definition wf_grammar :: "llama_grammar_rule list \<Rightarrow> bool" where
  "wf_grammar rs \<longleftrightarrow> (\<forall>r \<in> set rs. wf_rule (length rs) r)"

text \<open>C7: A grammar that parses is safe to run: every rule ends in its only end marker, a range or an
  alternative character follows a character, and every reference is to a rule, although the check for
  undefined rules itself passes over references without a name; up to \<open>2 ^ 32\<close> symbols.\<close>

theorem parse_wellformed:
  assumes "parse src = Some (Inr st)" and "length (gp_symbol_ids st) < 2 ^ 32"
  shows "wf_grammar (gp_rules st)"
proof -
  from assms(1) have p: "parse_rules (parse_space True (c_str src)) empty_parser = Some (Inr st)"
    and d: "\<not> undefined_rule st"
    by (auto simp: parse_def fuel_bind_Inr throw_def split: if_splits)
  have "sys_ok 0 empty_parser" by (simp add: sys_ok_def ids_ok_def rules_ok_def empty_parser_def)
  from parse_rules_ok [OF p assms(2) this] have ok: "rules_ok 0 st" by (simp add: sys_ok_def)
  show ?thesis unfolding wf_grammar_def
  proof
    fix r assume r: "r \<in> set (gp_rules st)"
    with d ok obtain b where b: "r = b @ [END_elem]" "rule_ok 0 st b"
      by (auto simp: undefined_rule_def rules_ok_def)
    moreover have "ge_value e < length (gp_rules st)" if "e \<in> set b" "ge_type e = LLAMA_GRETYPE_RULE_REF" for e
    proof (rule ccontr)
      assume "\<not> ge_value e < length (gp_rules st)"
      with b that have "undefined_ref st e" by (auto simp: rule_ok_def ref_ok_def undefined_ref_def)
      with d r b(1) that(1) show False by (auto simp: undefined_rule_def)
    qed
    ultimately show "wf_rule (length (gp_rules st)) r"
      by (auto simp: wf_rule_def rule_ok_def)
  qed
qed

definition sample_grammar :: string where
  "sample_grammar = ''root ::= [a-z]+''"

lemma fuel_steps:
  "0 < n \<Longrightarrow> parse_sequence n name nested rule lss pos st = parse_sequence (Suc (n - 1)) name nested rule lss pos st"
  "0 < n \<Longrightarrow> parse_alternates n name rid nested pos st = parse_alternates (Suc (n - 1)) name rid nested pos st"
  "0 < n \<Longrightarrow> more_alternates n name rid nested rule pos st = more_alternates (Suc (n - 1)) name rid nested rule pos st"
  by simp_all

lemmas descent_eval = fuel_steps [unfolded parse_sequence.simps parse_alternates.simps more_alternates.simps]

lemma bind_weak_cong: "m = m' \<Longrightarrow> fuel_bind m f = fuel_bind m' f" "r = r' \<Longrightarrow> rbind r g = rbind r' g"
  by simp_all

lemma show_nat_1: "show_nat (Suc 0) = ''1''"
  by code_simp

lemmas parse_eval = parse_def c_str_def parse_rules.simps parse_rule_def parse_name_def text_until_def
  get_symbol_id_def generate_symbol_id_def add_rule_def parse_fuel_def seq_item_def literal_loop.simps
  range_loop.simps range_upper_def parse_char_def repeat_item_def handle_repetitions_def end_of_rule_def
  is_word_char_def is_digit_char_def is_line_end_def char_code_def empty_parser_def expect_close_def
  undefined_rule_def undefined_ref_def lead_len_def take_bytes_pos throw_def
  show_nat_1

lemma sample_parse:
  "parse sample_grammar = Some (Inr \<lparr>gp_symbol_ids = [(''root'', 0), (''root_1'', 1)],
     gp_rules = [[Elem LLAMA_GRETYPE_CHAR 97, Elem LLAMA_GRETYPE_CHAR_RNG_UPPER 122,
                  Elem LLAMA_GRETYPE_RULE_REF 1, END_elem],
                 [Elem LLAMA_GRETYPE_CHAR 97, Elem LLAMA_GRETYPE_CHAR_RNG_UPPER 122,
                  Elem LLAMA_GRETYPE_RULE_REF 1, ALT_elem, END_elem]]\<rparr>)"
  by (simp add: sample_grammar_def parse_eval descent_eval cong: bind_weak_cong)

theorem parse_wellformed_witness:
  "wf_grammar (gp_rules \<lparr>gp_symbol_ids = [(''root'', 0), (''root_1'', 1)],
     gp_rules = [[Elem LLAMA_GRETYPE_CHAR 97, Elem LLAMA_GRETYPE_CHAR_RNG_UPPER 122,
                  Elem LLAMA_GRETYPE_RULE_REF 1, END_elem],
                 [Elem LLAMA_GRETYPE_CHAR 97, Elem LLAMA_GRETYPE_CHAR_RNG_UPPER 122,
                  Elem LLAMA_GRETYPE_RULE_REF 1, ALT_elem, END_elem]]\<rparr>)"
  by (rule parse_wellformed [OF sample_parse]) simp

end
