(* ===== verification/Grammar.thy ===== *)
theory Grammar
  imports GrammarShape
begin

text \<open>
  The grammar automaton of \<^verbatim>\<open>src/llama-grammar.cpp\<close>: sets of pushdown stacks over the elements
  of the rules, advanced by code points.  A \<^verbatim>\<open>const llama_grammar_element *\<close> is a rule and an
  index in it; what it can read is the rest of the rule.  The recursion of
  \<^verbatim>\<open>llama_grammar_advance_stack\<close> and of the check for left recursion is bounded by an explicit
  depth; \<^term>\<open>None\<close> is a recursion that goes deeper.
\<close>

section \<open>Pointers into the rules\<close>

type_synonym elem_ptr = "nat \<times> nat"
type_synonym llama_grammar_stack = "elem_ptr list"
type_synonym llama_grammar_rules = "llama_grammar_rule list"

definition elems_at :: "llama_grammar_rules \<Rightarrow> elem_ptr \<Rightarrow> llama_grammar_rule" where
  "elems_at rules p = (if fst p < length rules then drop (snd p) (rules ! fst p) else [])"

definition elem_at :: "llama_grammar_rules \<Rightarrow> elem_ptr \<Rightarrow> llama_grammar_element result" where
  "elem_at rules p = (case elems_at rules p of [] \<Rightarrow> Inl Undefined_Behaviour | e # es \<Rightarrow> Inr e)"

definition next_ptr :: "elem_ptr \<Rightarrow> elem_ptr" where
  "next_ptr p = (fst p, snd p + 1)"

text \<open>The pointer at which \<open>rest\<close> begins, in the rule of \<open>p\<close>.\<close>

definition ptr_to :: "llama_grammar_rules \<Rightarrow> elem_ptr \<Rightarrow> llama_grammar_rule \<Rightarrow> elem_ptr" where
  "ptr_to rules p rest = (fst p, length (rules ! fst p) - length rest)"

definition is_end_of_sequence :: "llama_grammar_element \<Rightarrow> bool" where
  "is_end_of_sequence e \<longleftrightarrow> ge_type e = LLAMA_GRETYPE_END \<or> ge_type e = LLAMA_GRETYPE_ALT"

section \<open>Characters\<close>

definition is_positive_char :: "llama_grammar_rule \<Rightarrow> bool" where
  "is_positive_char es \<longleftrightarrow> es \<noteq> [] \<and> ge_type (hd es) \<in> {LLAMA_GRETYPE_CHAR, LLAMA_GRETYPE_CHAR_ANY}"

definition is_negative_char :: "llama_grammar_rule \<Rightarrow> bool" where
  "is_negative_char es \<longleftrightarrow> es \<noteq> [] \<and> ge_type (hd es) = LLAMA_GRETYPE_CHAR_NOT"

text \<open>The loop over a range and its alternatives: whether one was hit, and what is behind them.\<close>

function match_range :: "nat \<Rightarrow> bool \<Rightarrow> llama_grammar_rule \<Rightarrow> (bool \<times> llama_grammar_rule) result" where
  "match_range chr found [] = Inl Undefined_Behaviour"
| "match_range chr found [e] = Inl Undefined_Behaviour"
| "match_range chr found (e # e1 # es) =
     (let (hit, rest) =
        (if ge_type e1 = LLAMA_GRETYPE_CHAR_RNG_UPPER then (ge_value e \<le> chr \<and> chr \<le> ge_value e1, es)
         else if ge_type e = LLAMA_GRETYPE_CHAR_ANY then (True, e1 # es)
         else (ge_value e = chr, e1 # es))
      in if rest = [] then Inl Undefined_Behaviour
         else if ge_type (hd rest) = LLAMA_GRETYPE_CHAR_ALT then match_range chr (found \<or> hit) rest
         else Inr (found \<or> hit, rest))"
  by pat_completeness auto
termination
  by (relation "measure (\<lambda>(_, _, es). length es)") (auto split: if_splits)

definition llama_grammar_match_char :: "llama_grammar_rule \<Rightarrow> nat \<Rightarrow> (bool \<times> llama_grammar_rule) result" where
  "llama_grammar_match_char pos chr =
     (if is_positive_char pos \<or> is_negative_char pos then
        rbind (match_range chr False pos) (\<lambda>(found, rest). Inr (found = is_positive_char pos, rest))
      else Inl Assert_Failure)"

function match_partial_range :: "nat \<Rightarrow> nat \<Rightarrow> bool \<Rightarrow> llama_grammar_rule \<Rightarrow> bool result" where
  "match_partial_range low high positive [] = Inl Undefined_Behaviour"
| "match_partial_range low high positive [e] = Inl Undefined_Behaviour"
| "match_partial_range low high positive (e # e1 # es) =
     (let range = (ge_type e1 = LLAMA_GRETYPE_CHAR_RNG_UPPER); rest = (if range then es else e1 # es) in
      if range \<and> ge_value e \<le> high \<and> low \<le> ge_value e1 then Inr positive
      else if \<not> range \<and> ge_type e = LLAMA_GRETYPE_CHAR_ANY then Inr True
      else if \<not> range \<and> low \<le> ge_value e \<and> ge_value e \<le> high then Inr positive
      else if rest = [] then Inl Undefined_Behaviour
      else if ge_type (hd rest) = LLAMA_GRETYPE_CHAR_ALT then match_partial_range low high positive rest
      else Inr (\<not> positive))"
  by pat_completeness auto
termination
  by (relation "measure (\<lambda>(_, _, _, es). length es)") (auto split: if_splits)

text \<open>The code points a partial character can still become.\<close>

definition partial_low :: "nat \<Rightarrow> nat \<Rightarrow> nat" where
  "partial_low v n =
     (let low = v * 2 ^ (n * 6) mod 2 ^ 32 in
      if low = 0 then if n = 2 then 2 ^ 11 else if n = 3 then 2 ^ 16 else 0 else low)"

definition partial_high :: "nat \<Rightarrow> nat \<Rightarrow> nat" where
  "partial_high v n = or (v * 2 ^ (n * 6) mod 2 ^ 32) (2 ^ (n * 6) - 1)"

definition llama_grammar_match_partial_char :: "llama_grammar_rule \<Rightarrow> llama_partial_utf8 \<Rightarrow> bool result" where
  "llama_grammar_match_partial_char pos pu =
     (if is_positive_char pos \<or> is_negative_char pos then
        (if pu_n_remain pu < 0 \<or> pu_n_remain pu = 1 \<and> pu_value pu < 2 then Inr False
         else let n = nat (pu_n_remain pu) in
           match_partial_range (partial_low (pu_value pu) n) (partial_high (pu_value pu) n)
             (is_positive_char pos) pos)
      else Inl Assert_Failure)"

section \<open>Advancing a stack\<close>

text \<open>The starts of the alternates of a rule, found by scanning to the ends of sequences.\<close>

fun next_alternates :: "nat \<Rightarrow> llama_grammar_rule \<Rightarrow> nat list result" where
  "next_alternates i [] = Inl Undefined_Behaviour"
| "next_alternates i (e # es) =
     (if ge_type e = LLAMA_GRETYPE_END then Inr []
      else if ge_type e = LLAMA_GRETYPE_ALT then
        rbind (next_alternates (i + 1) es) (\<lambda>qs. Inr ((i + 1) # qs))
      else next_alternates (i + 1) es)"

definition alternates_of :: "llama_grammar_rules \<Rightarrow> nat \<Rightarrow> elem_ptr list result" where
  "alternates_of rules r =
     (if r < length rules then
        rbind (next_alternates 0 (rules ! r)) (\<lambda>qs. Inr (map (Pair r) (0 # qs)))
      else Inl Undefined_Behaviour)"

text \<open>A pointer is pushed unless it stands at the end of a sequence.\<close>

definition push_ptr :: "llama_grammar_rules \<Rightarrow> elem_ptr \<Rightarrow> llama_grammar_stack \<Rightarrow> llama_grammar_stack result" where
  "push_ptr rules p stack =
     rbind (elem_at rules p) (\<lambda>e. Inr (if is_end_of_sequence e then stack else stack @ [p]))"

definition add_stack :: "llama_grammar_stack \<Rightarrow> llama_grammar_stack list \<Rightarrow> llama_grammar_stack list" where
  "add_stack stack new_stacks = (if stack \<in> set new_stacks then new_stacks else new_stacks @ [stack])"

fun advance_each :: "(llama_grammar_stack \<Rightarrow> llama_grammar_stack list \<Rightarrow> llama_grammar_stack list fuelled)
    \<Rightarrow> (elem_ptr \<Rightarrow> llama_grammar_stack result) \<Rightarrow> elem_ptr list \<Rightarrow> llama_grammar_stack list
    \<Rightarrow> llama_grammar_stack list fuelled" where
  "advance_each advance mk [] new_stacks = Some (Inr new_stacks)"
| "advance_each advance mk (q # qs) new_stacks =
     fuel_bind (Some (mk q)) (\<lambda>new_stack.
     fuel_bind (advance new_stack new_stacks) (advance_each advance mk qs))"

fun llama_grammar_advance_stack :: "nat \<Rightarrow> llama_grammar_rules \<Rightarrow> llama_grammar_stack
    \<Rightarrow> llama_grammar_stack list \<Rightarrow> llama_grammar_stack list fuelled" where
  "llama_grammar_advance_stack 0 rules stack new_stacks = None"
| "llama_grammar_advance_stack (Suc depth) rules stack new_stacks =
     (if stack = [] then Some (Inr (add_stack stack new_stacks))
      else
        fuel_bind (Some (elem_at rules (last stack))) (\<lambda>e.
          if ge_type e = LLAMA_GRETYPE_RULE_REF then
            fuel_bind (Some (alternates_of rules (ge_value e))) (\<lambda>qs.
              advance_each (llama_grammar_advance_stack depth rules)
                (\<lambda>q. rbind (push_ptr rules (next_ptr (last stack)) (butlast stack)) (push_ptr rules q))
                qs new_stacks)
          else if ge_type e \<in> {LLAMA_GRETYPE_CHAR, LLAMA_GRETYPE_CHAR_NOT, LLAMA_GRETYPE_CHAR_ANY} then
            Some (Inr (add_stack stack new_stacks))
          else Some (Inl Assert_Failure)))"

section \<open>Accepting a code point\<close>

definition accept_stack :: "nat \<Rightarrow> llama_grammar_rules \<Rightarrow> nat \<Rightarrow> llama_grammar_stack
    \<Rightarrow> llama_grammar_stack list \<Rightarrow> llama_grammar_stack list fuelled" where
  "accept_stack depth rules chr stack stacks_new =
     (if stack = [] then Some (Inr stacks_new)
      else fuel_bind (Some (llama_grammar_match_char (elems_at rules (last stack)) chr)) (\<lambda>(hit, rest).
        if hit then
          fuel_bind (Some (push_ptr rules (ptr_to rules (last stack) rest) (butlast stack))) (\<lambda>new_stack.
            llama_grammar_advance_stack depth rules new_stack stacks_new)
        else Some (Inr stacks_new)))"

fun accept_each :: "nat \<Rightarrow> llama_grammar_rules \<Rightarrow> nat \<Rightarrow> llama_grammar_stack list
    \<Rightarrow> llama_grammar_stack list \<Rightarrow> llama_grammar_stack list fuelled" where
  "accept_each depth rules chr [] stacks_new = Some (Inr stacks_new)"
| "accept_each depth rules chr (stack # stacks) stacks_new =
     fuel_bind (accept_stack depth rules chr stack stacks_new) (accept_each depth rules chr stacks)"

definition llama_grammar_accept :: "nat \<Rightarrow> llama_grammar_rules \<Rightarrow> llama_grammar_stack list \<Rightarrow> nat
    \<Rightarrow> llama_grammar_stack list fuelled" where
  "llama_grammar_accept depth rules stacks chr = accept_each depth rules chr stacks []"

section \<open>Rejecting candidates\<close>

text \<open>\<^verbatim>\<open>code_points\<close> points into a decoded piece: the piece and a position in it.\<close>

record llama_grammar_candidate =
  gc_index :: nat
  gc_piece :: "nat list"
  gc_pos :: nat
  gc_partial :: llama_partial_utf8

definition gc_code_point :: "llama_grammar_candidate \<Rightarrow> nat result" where
  "gc_code_point tok = vec_at (gc_piece tok) (gc_pos tok)"

fun filter_result :: "('a \<Rightarrow> bool result) \<Rightarrow> 'a list \<Rightarrow> 'a list result" where
  "filter_result P [] = Inr []"
| "filter_result P (x # xs) =
     rbind (P x) (\<lambda>b. rbind (filter_result P xs) (\<lambda>ys. Inr (if b then x # ys else ys)))"

definition rejected_at_end :: "llama_grammar_candidate \<Rightarrow> bool result" where
  "rejected_at_end tok =
     rbind (gc_code_point tok) (\<lambda>c. Inr (c \<noteq> 0 \<or> pu_n_remain (gc_partial tok) \<noteq> 0))"

text \<open>A candidate is rejected here (\<^term>\<open>Some True\<close>), kept (\<^term>\<open>Some False\<close>), or goes on with its next
  code point (\<^term>\<open>None\<close>).\<close>

definition sort_candidate :: "llama_grammar_rule \<Rightarrow> llama_grammar_candidate \<Rightarrow> bool option result" where
  "sort_candidate es tok =
     rbind (gc_code_point tok) (\<lambda>c.
       if c = 0 then
         if pu_n_remain (gc_partial tok) \<noteq> 0 then
           rbind (llama_grammar_match_partial_char es (gc_partial tok)) (\<lambda>ok. Inr (Some (\<not> ok)))
         else Inr (Some False)
       else rbind (llama_grammar_match_char es c) (\<lambda>(hit, _). Inr (if hit then None else Some True)))"

fun sort_candidates :: "llama_grammar_rule \<Rightarrow> llama_grammar_candidate list
    \<Rightarrow> (llama_grammar_candidate list \<times> llama_grammar_candidate list) result" where
  "sort_candidates es [] = Inr ([], [])"
| "sort_candidates es (tok # toks) =
     rbind (sort_candidate es tok) (\<lambda>d.
     rbind (sort_candidates es toks) (\<lambda>(rejects, nexts).
       Inr (if d = Some True then tok # rejects else rejects,
            if d = None then tok\<lparr>gc_pos := gc_pos tok + 1\<rparr> # nexts else nexts)))"

fun reject_each :: "(llama_grammar_stack \<Rightarrow> llama_grammar_candidate list \<Rightarrow> llama_grammar_candidate list fuelled)
    \<Rightarrow> llama_grammar_stack list \<Rightarrow> llama_grammar_candidate list \<Rightarrow> llama_grammar_candidate list fuelled" where
  "reject_each reject [] rejects = Some (Inr rejects)"
| "reject_each reject (stack # stacks) rejects =
     fuel_bind (reject stack rejects) (reject_each reject stacks)"

definition reject_candidates :: "(llama_grammar_stack \<Rightarrow> llama_grammar_candidate list \<Rightarrow> llama_grammar_candidate list fuelled)
    \<Rightarrow> llama_grammar_stack list \<Rightarrow> llama_grammar_candidate list \<Rightarrow> llama_grammar_candidate list fuelled" where
  "reject_candidates reject stacks candidates =
     (if stacks = [] then Some (Inl Assert_Failure)
      else if candidates = [] then Some (Inr [])
      else reject_each reject stacks candidates)"

fun reject_candidates_for_stack :: "nat \<Rightarrow> nat \<Rightarrow> llama_grammar_rules \<Rightarrow> llama_grammar_stack
    \<Rightarrow> llama_grammar_candidate list \<Rightarrow> llama_grammar_candidate list fuelled" where
  "reject_candidates_for_stack 0 depth rules stack candidates = None"
| "reject_candidates_for_stack (Suc n) depth rules stack candidates =
     (if stack = [] then Some (filter_result rejected_at_end candidates)
      else
        fuel_bind (Some (sort_candidates (elems_at rules (last stack)) candidates)) (\<lambda>(rejects, next_candidates).
        fuel_bind (Some (llama_grammar_match_char (elems_at rules (last stack)) 0)) (\<lambda>(_, rest).
        fuel_bind (Some (push_ptr rules (ptr_to rules (last stack) rest) (butlast stack))) (\<lambda>stack_after.
        fuel_bind (llama_grammar_advance_stack depth rules stack_after []) (\<lambda>next_stacks.
        fuel_bind (reject_candidates (reject_candidates_for_stack n depth rules) next_stacks next_candidates)
          (\<lambda>next_rejects.
            Some (Inr (rejects @ map (\<lambda>tok. tok\<lparr>gc_pos := gc_pos tok - 1\<rparr>) next_rejects))))))))"

definition llama_grammar_reject_candidates :: "nat \<Rightarrow> nat \<Rightarrow> llama_grammar_rules \<Rightarrow> llama_grammar_stack list
    \<Rightarrow> llama_grammar_candidate list \<Rightarrow> llama_grammar_candidate list fuelled" where
  "llama_grammar_reject_candidates n depth rules =
     reject_candidates (reject_candidates_for_stack n depth rules)"

section \<open>Left recursion\<close>

record lr_state =
  lr_visited :: "bool list"
  lr_in_progress :: "bool list"
  lr_may_be_empty :: "bool list"

text \<open>Whether one of the alternates of a rule has no element.\<close>

fun has_empty_alternate :: "bool \<Rightarrow> llama_grammar_rule \<Rightarrow> bool" where
  "has_empty_alternate at_rule_start [] = False"
| "has_empty_alternate at_rule_start (e # es) =
     (if is_end_of_sequence e then at_rule_start \<or> has_empty_alternate True es
      else has_empty_alternate False es)"

fun scan_leftmost :: "(nat \<Rightarrow> lr_state \<Rightarrow> (bool \<times> lr_state) fuelled) \<Rightarrow> bool \<Rightarrow> llama_grammar_rule
    \<Rightarrow> lr_state \<Rightarrow> (bool \<times> lr_state) fuelled" where
  "scan_leftmost detect recurse [] st = Some (Inr (False, st))"
| "scan_leftmost detect recurse (e # es) st =
     (if ge_type e = LLAMA_GRETYPE_RULE_REF \<and> recurse then
        fuel_bind (detect (ge_value e) st) (\<lambda>(found, st1).
          if found then Some (Inr (True, st1))
          else fuel_bind (Some (vec_at (lr_may_be_empty st1) (ge_value e))) (\<lambda>empty.
            scan_leftmost detect empty es st1))
      else scan_leftmost detect (is_end_of_sequence e) es st)"

fun llama_grammar_detect_left_recursion :: "nat \<Rightarrow> llama_grammar_rules \<Rightarrow> nat \<Rightarrow> lr_state
    \<Rightarrow> (bool \<times> lr_state) fuelled" where
  "llama_grammar_detect_left_recursion 0 rules i st = None"
| "llama_grammar_detect_left_recursion (Suc depth) rules i st =
     fuel_bind (Some (vec_at (lr_in_progress st) i)) (\<lambda>in_progress.
       if in_progress then Some (Inr (True, st))
       else
         fuel_bind (Some (vec_at rules i)) (\<lambda>rule.
         fuel_bind (scan_leftmost (llama_grammar_detect_left_recursion depth rules) True rule
             (st\<lparr>lr_in_progress := (lr_in_progress st)[i := True],
                 lr_may_be_empty := (if has_empty_alternate True rule then (lr_may_be_empty st)[i := True]
                                     else lr_may_be_empty st)\<rparr>))
           (\<lambda>(found, st1).
             if found then Some (Inr (True, st1))
             else Some (Inr (False, st1\<lparr>lr_in_progress := (lr_in_progress st1)[i := False],
                                       lr_visited := (lr_visited st1)[i := True]\<rparr>)))))"

text \<open>The loop over all rules; whether left recursion was found.\<close>

fun check_left_recursion :: "nat \<Rightarrow> llama_grammar_rules \<Rightarrow> nat list \<Rightarrow> lr_state \<Rightarrow> bool fuelled" where
  "check_left_recursion depth rules [] st = Some (Inr False)"
| "check_left_recursion depth rules (i # is) st =
     (if lr_visited st ! i then check_left_recursion depth rules is st
      else fuel_bind (llama_grammar_detect_left_recursion depth rules i st) (\<lambda>(found, st1).
        if found then Some (Inr True) else check_left_recursion depth rules is st1))"

definition lr_start :: "nat \<Rightarrow> lr_state" where
  "lr_start n = \<lparr>lr_visited = replicate n False, lr_in_progress = replicate n False,
     lr_may_be_empty = replicate n False\<rparr>"

section \<open>Grammars\<close>

record llama_grammar =
  g_rules :: llama_grammar_rules
  g_stacks :: "llama_grammar_stack list"
  g_partial_utf8 :: llama_partial_utf8

text \<open>A rule is copied up to its end marker.\<close>

definition copy_rule :: "llama_grammar_rule \<Rightarrow> llama_grammar_rule result" where
  "copy_rule es =
     (if \<exists>e \<in> set es. ge_type e = LLAMA_GRETYPE_END
      then Inr (takeWhile (\<lambda>e. ge_type e \<noteq> LLAMA_GRETYPE_END) es @ [END_elem])
      else Inl Undefined_Behaviour)"

fun copy_rules :: "llama_grammar_rule list \<Rightarrow> llama_grammar_rules result" where
  "copy_rules [] = Inr []"
| "copy_rules (r # rs) = rbind (copy_rule r) (\<lambda>r'. rbind (copy_rules rs) (\<lambda>rs'. Inr (r' # rs')))"

definition initial_stacks :: "nat \<Rightarrow> llama_grammar_rules \<Rightarrow> nat \<Rightarrow> llama_grammar_stack list fuelled" where
  "initial_stacks depth rules start =
     fuel_bind (Some (alternates_of rules start)) (\<lambda>qs.
       advance_each (llama_grammar_advance_stack depth rules) (\<lambda>q. push_ptr rules q []) qs [])"

text \<open>The depth of the check for left recursion is at most the number of rules; \<^term>\<open>None\<close> inside is the
  null pointer.\<close>

definition llama_grammar_init_impl :: "nat \<Rightarrow> llama_grammar_rule list \<Rightarrow> nat \<Rightarrow> llama_grammar option fuelled" where
  "llama_grammar_init_impl depth rules start_rule_index =
     fuel_bind (Some (copy_rules rules)) (\<lambda>vec_rules.
     fuel_bind (check_left_recursion (length rules + 1) vec_rules [0..<length rules] (lr_start (length rules)))
       (\<lambda>found.
         if found then Some (Inr None)
         else fuel_bind (initial_stacks depth vec_rules start_rule_index) (\<lambda>stacks.
           Some (Inr (Some \<lparr>g_rules = vec_rules, g_stacks = stacks, g_partial_utf8 = fresh_utf8\<rparr>)))))"

definition llama_grammar_init_text :: "nat \<Rightarrow> string \<Rightarrow> string \<Rightarrow> llama_grammar option fuelled" where
  "llama_grammar_init_text depth grammar_str grammar_root =
     (case parse grammar_str of
        None \<Rightarrow> None
      | Some (Inl Undefined_Behaviour) \<Rightarrow> Some (Inl Undefined_Behaviour)
      | Some (Inl _) \<Rightarrow> Some (Inr None)
      | Some (Inr parser) \<Rightarrow>
          if gp_rules parser = [] \<or> map_of (gp_symbol_ids parser) ''root'' = None then Some (Inr None)
          else case map_of (gp_symbol_ids parser) grammar_root of
                 None \<Rightarrow> Some (Inl Out_Of_Range)
               | Some start \<Rightarrow> llama_grammar_init_impl depth (gp_rules parser) start)"

section \<open>Tokens\<close>

record vocab =
  v_piece :: "int \<Rightarrow> string option"    \<comment> \<open>\<^verbatim>\<open>cache_token_to_piece.at\<close>\<close>
  v_is_eog :: "int \<Rightarrow> bool"

text \<open>A logit of \<^verbatim>\<open>-INFINITY\<close> is \<^term>\<open>None\<close>.\<close>

type_synonym 'l token_data = "int \<times> 'l option"

fun grammar_candidates :: "vocab \<Rightarrow> bool \<Rightarrow> llama_partial_utf8 \<Rightarrow> nat \<Rightarrow> 'l token_data list
    \<Rightarrow> ('l token_data list \<times> llama_grammar_candidate list) result" where
  "grammar_candidates v allow_eog pu i [] = Inr ([], [])"
| "grammar_candidates v allow_eog pu i ((t, logit) # toks) =
     (case v_piece v t of
        None \<Rightarrow> Inl Out_Of_Range
      | Some piece \<Rightarrow>
          rbind (grammar_candidates v allow_eog pu (i + 1) toks) (\<lambda>(rest, cands).
            if v_is_eog v t then Inr ((t, if allow_eog then logit else None) # rest, cands)
            else if piece = [] \<or> hd piece = CHR 0x00 then Inr ((t, None) # rest, cands)
            else Inr ((t, logit) # rest,
              \<lparr>gc_index = i, gc_piece = fst (decode_utf8 piece pu), gc_pos = 0,
               gc_partial = snd (decode_utf8 piece pu)\<rparr> # cands)))"

definition mask :: "'l token_data list \<Rightarrow> nat \<Rightarrow> 'l token_data list" where
  "mask toks i = toks[i := (fst (toks ! i), None)]"

definition llama_grammar_apply_impl :: "nat \<Rightarrow> nat \<Rightarrow> vocab \<Rightarrow> llama_grammar \<Rightarrow> 'l token_data list
    \<Rightarrow> 'l token_data list fuelled" where
  "llama_grammar_apply_impl n depth v g cur_p =
     fuel_bind (Some (grammar_candidates v ([] \<in> set (g_stacks g)) (g_partial_utf8 g) 0 cur_p)) (\<lambda>(data, cands).
     fuel_bind (llama_grammar_reject_candidates n depth (g_rules g) (g_stacks g) cands) (\<lambda>rejects.
       Some (Inr (foldl (\<lambda>d tok. mask d (gc_index tok)) data rejects))))"

fun accept_code_points :: "nat \<Rightarrow> llama_grammar_rules \<Rightarrow> nat list \<Rightarrow> llama_grammar_stack list
    \<Rightarrow> llama_grammar_stack list fuelled" where
  "accept_code_points depth rules [] stacks = Some (Inr stacks)"
| "accept_code_points depth rules (c # cs) stacks =
     fuel_bind (llama_grammar_accept depth rules stacks c) (accept_code_points depth rules cs)"

definition llama_grammar_accept_impl :: "nat \<Rightarrow> vocab \<Rightarrow> llama_grammar \<Rightarrow> int \<Rightarrow> llama_grammar fuelled" where
  "llama_grammar_accept_impl depth v g token =
     (if v_is_eog v token then
        if [] \<in> set (g_stacks g) then Some (Inr g) else Some (Inl Assert_Failure)
      else
        case v_piece v token of
          None \<Rightarrow> Some (Inl Out_Of_Range)
        | Some piece \<Rightarrow>
            (let decoded = decode_utf8 piece (g_partial_utf8 g) in
             fuel_bind (accept_code_points depth (g_rules g) (butlast (fst decoded)) (g_stacks g)) (\<lambda>stacks.
               if stacks = [] then Some (Inl Assert_Failure)
               else Some (Inr (g\<lparr>g_stacks := stacks, g_partial_utf8 := snd decoded\<rparr>)))))"

end
