(* ===== verification/GrammarLang.thy ===== *)
theory GrammarLang
  imports Grammar
begin

text \<open>
  The language of a grammar, as a big-step semantics over the elements of its rules, and the proof
  that the stacks of the automaton follow it: advancing a stack keeps its language, accepting a code
  point takes the derivative of the language of all stacks.
\<close>

section \<open>The language of a grammar\<close>

inductive seq_word :: "llama_grammar_rules \<Rightarrow> llama_grammar_rule \<Rightarrow> nat list \<Rightarrow> bool"
  for rules :: llama_grammar_rules where
  sw_end: "is_end_of_sequence e \<Longrightarrow> seq_word rules (e # es) []"
| sw_char: "llama_grammar_match_char es c = Inr (True, rest) \<Longrightarrow> seq_word rules rest w
     \<Longrightarrow> seq_word rules es (c # w)"
| sw_ref: "alternates_of rules v = Inr qs \<Longrightarrow> q \<in> set qs \<Longrightarrow> seq_word rules (elems_at rules q) u
     \<Longrightarrow> seq_word rules es w \<Longrightarrow> seq_word rules (Elem LLAMA_GRETYPE_RULE_REF v # es) (u @ w)"

definition rule_word :: "llama_grammar_rules \<Rightarrow> nat \<Rightarrow> nat list \<Rightarrow> bool" where
  "rule_word rules v w \<longleftrightarrow> (\<exists>qs. alternates_of rules v = Inr qs \<and> (\<exists>q \<in> set qs. seq_word rules (elems_at rules q) w))"

text \<open>A stack yields what its elements yield from the top down.\<close>

fun stack_word :: "llama_grammar_rules \<Rightarrow> elem_ptr list \<Rightarrow> nat list \<Rightarrow> bool" where
  "stack_word rules [] w \<longleftrightarrow> w = []"
| "stack_word rules (p # ps) w \<longleftrightarrow>
     (\<exists>u v. w = u @ v \<and> seq_word rules (elems_at rules p) u \<and> stack_word rules ps v)"

definition lang :: "llama_grammar_rules \<Rightarrow> llama_grammar_stack \<Rightarrow> nat list \<Rightarrow> bool" where
  "lang rules stack = stack_word rules (rev stack)"

definition stacks_lang :: "llama_grammar_rules \<Rightarrow> llama_grammar_stack list \<Rightarrow> nat list \<Rightarrow> bool" where
  "stacks_lang rules stacks w \<longleftrightarrow> (\<exists>s \<in> set stacks. lang rules s w)"

section \<open>Well-formed rests of rules\<close>

definition good_rest :: "llama_grammar_rule \<Rightarrow> bool" where
  "good_rest es \<longleftrightarrow> (\<exists>b. es = b @ [END_elem] \<and> shaped 0 b)"

lemma good_rest_nonempty: "good_rest es \<Longrightarrow> es \<noteq> []"
  by (auto simp: good_rest_def)

lemma is_end_simps [simp]:
  "is_end_of_sequence (Elem LLAMA_GRETYPE_END v)" "is_end_of_sequence (Elem LLAMA_GRETYPE_ALT v)"
  "\<not> is_end_of_sequence (Elem LLAMA_GRETYPE_RULE_REF v)"
  by (simp_all add: is_end_of_sequence_def)

text \<open>The head of a rest is an end, a reference or the start of a character range; never a modifier.\<close>

lemma good_rest_head:
  assumes "good_rest (e # es)"
  obtains "is_end_of_sequence e"
  | v where "e = Elem LLAMA_GRETYPE_RULE_REF v" "good_rest es"
  | "is_positive_char (e # es) \<or> is_negative_char (e # es)" "ge_type e \<noteq> LLAMA_GRETYPE_RULE_REF" "\<not> is_end_of_sequence e"
proof -
  obtain b where b: "e # es = b @ [END_elem]" "shaped 0 b" using assms by (auto simp: good_rest_def)
  show ?thesis
  proof (cases b)
    case Nil
    with b that(1) show ?thesis by simp
  next
    case (Cons a c)
    with b have e: "e = a" "es = c @ [END_elem]" "may_follow 0 (ge_type a)" "shaped (after_elem (ge_type a)) c" by auto
    show ?thesis
    proof (cases "ge_type a")
      case LLAMA_GRETYPE_RULE_REF
      with e show ?thesis by (intro that(2) [of "ge_value a"]) (auto simp: good_rest_def, metis llama_grammar_element.collapse)
    qed (use e in \<open>auto simp: is_positive_char_def is_negative_char_def is_end_of_sequence_def
        intro: that\<close>)
  qed
qed

text \<open>Reading a range stays within the rule and ends at a well-formed rest, whatever is read.\<close>

lemma match_range_rest:
  assumes "shaped (after_elem (ge_type e)) b"
    and "ge_type e \<in> {LLAMA_GRETYPE_CHAR, LLAMA_GRETYPE_CHAR_NOT, LLAMA_GRETYPE_CHAR_ALT, LLAMA_GRETYPE_CHAR_ANY}"
  shows "\<exists>rest. good_rest rest \<and> length rest \<le> length b + 1
    \<and> (\<forall>chr found. \<exists>f. match_range chr found (e # b @ [END_elem]) = Inr (f, rest))"
  using assms
proof (induction "length b" arbitrary: e b rule: less_induct)
  case less
  show ?case
  proof (cases b)
    case Nil
    then show ?thesis
      by (intro exI [of _ "[END_elem]"]) (auto simp: good_rest_def intro!: exI [of _ "[]"])
  next
    case (Cons a c)
    have stop: ?thesis if "good_rest rest" "length rest \<le> length b + 1" "rest \<noteq> []"
      "ge_type (hd rest) \<noteq> LLAMA_GRETYPE_CHAR_ALT"
      "\<And>chr found. \<exists>f. match_range chr found (e # b @ [END_elem]) = Inr (f, rest)" for rest
      using that by blast
    have next_alt: ?thesis if alt: "ge_type x = LLAMA_GRETYPE_CHAR_ALT" "shaped 1 d" "length d < length b"
      "\<And>chr found. \<exists>f. match_range chr found (e # b @ [END_elem]) = match_range chr f (x # d @ [END_elem])" for x d
    proof -
      from less.hyps [OF alt(3), of x] alt(1,2) obtain rest where r: "good_rest rest" "length rest \<le> length d + 1"
        and m: "\<And>chr found. \<exists>f. match_range chr found (x # d @ [END_elem]) = Inr (f, rest)" by auto
      have "\<exists>f. match_range chr found (e # b @ [END_elem]) = Inr (f, rest)" for chr found
      proof -
        from alt(4) obtain f where "match_range chr found (e # b @ [END_elem]) = match_range chr f (x # d @ [END_elem])" by blast
        with m [of chr f] show ?thesis by simp
      qed
      with r alt(3) show ?thesis by (intro exI [of _ rest]) auto
    qed
    show ?thesis
    proof (cases "ge_type a = LLAMA_GRETYPE_CHAR_RNG_UPPER")
      case True
      with Cons less.prems have c: "shaped 2 c" by simp
      show ?thesis
      proof (cases c)
        case Nil
        with Cons True show ?thesis
          by (intro stop [of "[END_elem]"]) (auto simp: good_rest_def intro!: exI [of _ "[]"])
      next
        case (Cons x d)
        show ?thesis
        proof (cases "ge_type x = LLAMA_GRETYPE_CHAR_ALT")
          case True': True
          with Cons c \<open>b = a # c\<close> True show ?thesis by (intro next_alt [of x d]) auto
        next
          case False
          with Cons c have "shaped 0 c" by (auto simp: may_follow_def)
          with Cons \<open>b = a # c\<close> True False show ?thesis
            by (intro stop [of "c @ [END_elem]"]) (auto simp: good_rest_def)
        qed
      qed
    next
      case False
      show ?thesis
      proof (cases "ge_type a = LLAMA_GRETYPE_CHAR_ALT")
        case True
        with Cons less.prems False show ?thesis by (intro next_alt [of a c]) auto
      next
        case nalt: False
        with False Cons less.prems have "shaped 0 b" by (auto simp: may_follow_def)
        with Cons False nalt show ?thesis
          by (intro stop [of "b @ [END_elem]"]) (auto simp: good_rest_def)
      qed
    qed
  qed
qed

lemma match_char_rest:
  assumes "good_rest es" "is_positive_char es \<or> is_negative_char es"
  obtains rest where "good_rest rest" "length rest < length es"
    "\<And>chr. \<exists>f. llama_grammar_match_char es chr = Inr (f, rest)"
proof -
  obtain b where b: "es = b @ [END_elem]" "shaped 0 b" using assms(1) by (auto simp: good_rest_def)
  with assms(2) obtain e c where e: "b = e # c"
    by (cases b) (auto simp: is_positive_char_def is_negative_char_def)
  have "ge_type e \<in> {LLAMA_GRETYPE_CHAR, LLAMA_GRETYPE_CHAR_NOT, LLAMA_GRETYPE_CHAR_ALT, LLAMA_GRETYPE_CHAR_ANY}"
    using assms(2) b e by (auto simp: is_positive_char_def is_negative_char_def)
  with match_range_rest [of e c] b e obtain rest where "good_rest rest" "length rest \<le> length c + 1"
    and m: "\<And>chr found. \<exists>f. match_range chr found es = Inr (f, rest)" by auto
  moreover have "\<exists>f. llama_grammar_match_char es chr = Inr (f, rest)" for chr
    using m [of chr False] assms(2) by (auto simp: llama_grammar_match_char_def)
  ultimately show ?thesis using that b e by auto
qed

section \<open>Inversion of the semantics\<close>

inductive_cases seq_word_Cons: "seq_word rules (e # es) w"

lemma match_char_head: "llama_grammar_match_char es c = Inr r \<Longrightarrow> is_positive_char es \<or> is_negative_char es"
  by (simp add: llama_grammar_match_char_def split: if_splits)

lemma no_match [simp]:
  "is_end_of_sequence e \<Longrightarrow> llama_grammar_match_char (e # es) c \<noteq> Inr r"
  "llama_grammar_match_char (Elem LLAMA_GRETYPE_RULE_REF v # es) c \<noteq> Inr r"
  by (auto dest!: match_char_head simp: is_positive_char_def is_negative_char_def is_end_of_sequence_def)

lemma seq_word_end [simp]: "is_end_of_sequence e \<Longrightarrow> seq_word rules (e # es) w \<longleftrightarrow> w = []"
  by (auto intro: sw_end elim: seq_word_Cons)

lemma seq_word_ref:
  "seq_word rules (Elem LLAMA_GRETYPE_RULE_REF v # es) w \<longleftrightarrow>
     (\<exists>qs q u u'. alternates_of rules v = Inr qs \<and> q \<in> set qs \<and> seq_word rules (elems_at rules q) u
        \<and> seq_word rules es u' \<and> w = u @ u')" (is "?lhs \<longleftrightarrow> ?rhs")
proof
  assume ?lhs
  then show ?rhs by (rule seq_word_Cons) (simp_all del: split_paired_Ex, blast)
next
  assume ?rhs
  then show ?lhs by (blast intro: sw_ref)
qed

lemma seq_word_char:
  assumes "is_positive_char es \<or> is_negative_char es"
  shows "seq_word rules es w \<longleftrightarrow>
    (\<exists>c w' rest. w = c # w' \<and> llama_grammar_match_char es c = Inr (True, rest) \<and> seq_word rules rest w')"
proof -
  obtain e t where es: "es = e # t"
    using assms by (cases es) (auto simp: is_positive_char_def is_negative_char_def)
  have "\<not> is_end_of_sequence e" "ge_type e \<noteq> LLAMA_GRETYPE_RULE_REF"
    using assms es by (auto simp: is_positive_char_def is_negative_char_def is_end_of_sequence_def)
  then show ?thesis unfolding es by (auto intro: sw_char elim: seq_word_Cons)
qed

section \<open>Well-formed stacks\<close>

definition ptr_ok :: "llama_grammar_rules \<Rightarrow> elem_ptr \<Rightarrow> bool" where
  "ptr_ok rules p \<longleftrightarrow> good_rest (elems_at rules p) \<and> \<not> is_end_of_sequence (hd (elems_at rules p))"

definition stack_ok :: "llama_grammar_rules \<Rightarrow> llama_grammar_stack \<Rightarrow> bool" where
  "stack_ok rules s \<longleftrightarrow> (\<forall>p \<in> set s. ptr_ok rules p)"

text \<open>Where the automaton rests: the empty stack, or a character range on top.\<close>

definition at_char :: "llama_grammar_rules \<Rightarrow> llama_grammar_stack \<Rightarrow> bool" where
  "at_char rules s \<longleftrightarrow> s = [] \<or> is_positive_char (elems_at rules (last s)) \<or> is_negative_char (elems_at rules (last s))"

lemma stack_ok_append [simp]: "stack_ok rules (s @ t) \<longleftrightarrow> stack_ok rules s \<and> stack_ok rules t"
  by (auto simp: stack_ok_def)

lemma stack_ok_simps [simp]: "stack_ok rules []" "stack_ok rules [p] \<longleftrightarrow> ptr_ok rules p"
  by (simp_all add: stack_ok_def)

lemma good_rest_elem_at: "good_rest (elems_at rules p) \<Longrightarrow> elem_at rules p = Inr (hd (elems_at rules p))"
  by (auto simp: elem_at_def dest: good_rest_nonempty split: list.split)

lemma push_ptr_good:
  assumes "good_rest (elems_at rules p)"
  shows "push_ptr rules p s = Inr (if is_end_of_sequence (hd (elems_at rules p)) then s else s @ [p])"
  using good_rest_elem_at [OF assms] by (simp add: push_ptr_def)

lemma push_ptr_ok:
  assumes "good_rest (elems_at rules p)" "stack_ok rules s"
  obtains s' where "push_ptr rules p s = Inr s'" "stack_ok rules s'"
    "\<And>w. lang rules s' w \<longleftrightarrow> stack_word rules (p # rev s) w"
proof -
  obtain e es where e: "elems_at rules p = e # es" using good_rest_nonempty [OF assms(1)] by (cases "elems_at rules p") auto
  show ?thesis
    by (rule that [OF push_ptr_good [OF assms(1)]])
      (use assms e in \<open>auto simp: lang_def ptr_ok_def\<close>)
qed

lemma alternates_good:
  "shaped k b \<Longrightarrow> \<exists>qs. next_alternates i (b @ [END_elem]) = Inr qs
     \<and> (\<forall>q \<in> set qs. i < q \<and> good_rest (drop (q - i) (b @ [END_elem])))"
proof (induction b arbitrary: i k)
  case (Cons e b)
  then have "shaped (after_elem (ge_type e)) b" and ne: "ge_type e \<noteq> LLAMA_GRETYPE_END" by (auto simp: may_follow_def)
  from Cons.IH [OF this(1), of "Suc i"] obtain qs where
    qs: "next_alternates (Suc i) (b @ [END_elem]) = Inr qs"
      "\<forall>q \<in> set qs. Suc i < q \<and> good_rest (drop (q - Suc i) (b @ [END_elem]))" by blast
  have shift: "\<forall>q \<in> set qs. i < q \<and> good_rest (drop (q - i) (e # b @ [END_elem]))"
  proof
    fix q assume "q \<in> set qs"
    with qs(2) have "Suc i < q" "good_rest (drop (q - Suc i) (b @ [END_elem]))" by auto
    moreover then have "q - i = Suc (q - Suc i)" by simp
    ultimately show "i < q \<and> good_rest (drop (q - i) (e # b @ [END_elem]))" by simp
  qed
  show ?case
  proof (cases "ge_type e = LLAMA_GRETYPE_ALT")
    case True
    with Cons.prems have "good_rest (b @ [END_elem])" by (auto simp: good_rest_def)
    with True qs shift show ?thesis by auto
  next
    case False
    with ne qs shift show ?thesis by auto
  qed
qed simp

lemma alternates_of_good:
  assumes "wf_grammar rules" "v < length rules"
  obtains qs where "alternates_of rules v = Inr qs" "qs \<noteq> []" "\<And>q. q \<in> set qs \<Longrightarrow> good_rest (elems_at rules q)"
proof -
  have "wf_rule (length rules) (rules ! v)" using assms by (auto simp: wf_grammar_def)
  then obtain b where b: "rules ! v = b @ [END_elem]" "shaped 0 b"
    by (metis append_butlast_last_id wf_rule_def)
  from alternates_good [OF b(2), of 0] obtain qs where
    qs: "next_alternates 0 (b @ [END_elem]) = Inr qs" "\<forall>q \<in> set qs. good_rest (drop q (b @ [END_elem]))" by auto
  have "good_rest (b @ [END_elem])" using b by (auto simp: good_rest_def)
  with b qs assms(2) show ?thesis
    by (intro that [of "map (Pair v) (0 # qs)"]) (auto simp: alternates_of_def elems_at_def)
qed

lemma elems_at_refs:
  assumes "wf_grammar rules" "elems_at rules p = Elem LLAMA_GRETYPE_RULE_REF v # es"
  shows "v < length rules"
proof -
  from assms(2) have p: "fst p < length rules" "Elem LLAMA_GRETYPE_RULE_REF v \<in> set (rules ! fst p)"
    by (auto simp: elems_at_def split: if_splits) (metis in_set_dropD list.set_intros(1))
  with assms(1) have "wf_rule (length rules) (rules ! fst p)" by (auto simp: wf_grammar_def)
  with p(2) show ?thesis by (fastforce simp: wf_rule_def)
qed

lemma elems_at_next: "elems_at rules p = e # es \<Longrightarrow> elems_at rules (next_ptr p) = es"
  by (auto simp: elems_at_def next_ptr_def split: if_splits) (metis drop_Suc drop_tl list.sel(3))

section \<open>Advancing a stack\<close>

text \<open>The stack of one alternate: what is behind the reference, then the alternate.\<close>

definition alt_stack :: "llama_grammar_rules \<Rightarrow> llama_grammar_stack \<Rightarrow> elem_ptr \<Rightarrow> llama_grammar_stack result" where
  "alt_stack rules stack q = rbind (push_ptr rules (next_ptr (last stack)) (butlast stack)) (push_ptr rules q)"

lemma advance_Suc:
  "llama_grammar_advance_stack (Suc depth) rules stack new_stacks =
     (if stack = [] then Some (Inr (add_stack stack new_stacks))
      else
        fuel_bind (Some (elem_at rules (last stack))) (\<lambda>e.
          if ge_type e = LLAMA_GRETYPE_RULE_REF then
            fuel_bind (Some (alternates_of rules (ge_value e))) (\<lambda>qs.
              advance_each (llama_grammar_advance_stack depth rules) (alt_stack rules stack) qs new_stacks)
          else if ge_type e \<in> {LLAMA_GRETYPE_CHAR, LLAMA_GRETYPE_CHAR_NOT, LLAMA_GRETYPE_CHAR_ANY} then
            Some (Inr (add_stack stack new_stacks))
          else Some (Inl Assert_Failure)))"
proof -
  have "alt_stack rules stack = (\<lambda>q. rbind (push_ptr rules (next_ptr (last stack)) (butlast stack)) (push_ptr rules q))"
    by (simp add: fun_eq_iff alt_stack_def)
  then show ?thesis by (simp only: llama_grammar_advance_stack.simps(2))
qed

declare llama_grammar_advance_stack.simps(2) [simp del]

text \<open>What a stack advances to, without the order of the search.\<close>

inductive advances :: "llama_grammar_rules \<Rightarrow> llama_grammar_stack \<Rightarrow> llama_grammar_stack \<Rightarrow> bool"
  for rules :: llama_grammar_rules where
  adv_stop: "at_char rules stack \<Longrightarrow> advances rules stack stack"
| adv_alt: "stack \<noteq> [] \<Longrightarrow> elems_at rules (last stack) = Elem LLAMA_GRETYPE_RULE_REF v # es
     \<Longrightarrow> alternates_of rules v = Inr qs \<Longrightarrow> q \<in> set qs \<Longrightarrow> alt_stack rules stack q = Inr stack1
     \<Longrightarrow> advances rules stack1 t \<Longrightarrow> advances rules stack t"

lemma advances_at_char: "advances rules s t \<Longrightarrow> at_char rules t"
  by (induction rule: advances.induct) auto

inductive_cases advances_cases: "advances rules s t"

lemma at_char_not_ref:
  "stack \<noteq> [] \<Longrightarrow> elems_at rules (last stack) = Elem LLAMA_GRETYPE_RULE_REF v # es \<Longrightarrow> \<not> at_char rules stack"
  by (auto simp: at_char_def is_positive_char_def is_negative_char_def)

text \<open>A stack on which nothing goes wrong stands at a character range or at a reference, whose alternates
  give well-formed stacks with, together, the same language.\<close>

lemma stack_cases:
  assumes "wf_grammar rules" "stack_ok rules stack"
  obtains (stop) "at_char rules stack"
  | (ref) v es qs where "stack \<noteq> []" "elems_at rules (last stack) = Elem LLAMA_GRETYPE_RULE_REF v # es"
      "alternates_of rules v = Inr qs" "qs \<noteq> []"
      "\<And>q. q \<in> set qs \<Longrightarrow> \<exists>s. alt_stack rules stack q = Inr s \<and> stack_ok rules s"
      "\<And>w. lang rules stack w \<longleftrightarrow> (\<exists>q \<in> set qs. \<exists>s. alt_stack rules stack q = Inr s \<and> lang rules s w)"
proof (cases "stack = []")
  case True
  with stop show ?thesis by (simp add: at_char_def)
next
  case False
  define p bs where "p = last stack" and "bs = butlast stack"
  with False have st: "stack = bs @ [p]" by simp
  with assms(2) have ok: "stack_ok rules bs" "ptr_ok rules p" by auto
  then obtain e es where e: "elems_at rules p = e # es"
    by (cases "elems_at rules p") (auto simp: ptr_ok_def good_rest_def)
  with ok have g: "good_rest (e # es)" "\<not> is_end_of_sequence e" by (auto simp: ptr_ok_def)
  from g(1) show ?thesis
  proof (cases rule: good_rest_head)
    case 1
    with g show ?thesis by simp
  next
    case (2 v)
    obtain qs where qs: "alternates_of rules v = Inr qs" "qs \<noteq> []" "\<And>q. q \<in> set qs \<Longrightarrow> good_rest (elems_at rules q)"
      using alternates_of_good [OF assms(1) elems_at_refs [OF assms(1) e [unfolded 2(1)]]] by blast
    have "good_rest (elems_at rules (next_ptr p))" using elems_at_next [OF e] 2(2) by simp
    then obtain s1 where s1: "push_ptr rules (next_ptr p) bs = Inr s1" "stack_ok rules s1"
      "\<And>w. lang rules s1 w \<longleftrightarrow> stack_word rules (next_ptr p # rev bs) w"
      using push_ptr_ok [OF _ ok(1)] by metis
    have alt: "\<exists>s. alt_stack rules stack q = Inr s \<and> stack_ok rules s
        \<and> (\<forall>w. lang rules s w \<longleftrightarrow> stack_word rules (q # rev s1) w)" if "q \<in> set qs" for q
    proof -
      note q = qs(3) [OF that]
      obtain s where "push_ptr rules q s1 = Inr s" "stack_ok rules s"
        "\<And>w. lang rules s w \<longleftrightarrow> stack_word rules (q # rev s1) w"
        using push_ptr_ok [OF q s1(2)] by metis
      then show ?thesis by (auto simp: alt_stack_def st s1(1))
    qed
    have l: "lang rules stack w \<longleftrightarrow> (\<exists>q \<in> set qs. stack_word rules (q # rev s1) w)" for w
    proof -
      have "lang rules stack w \<longleftrightarrow> (\<exists>u v'. w = u @ v' \<and> seq_word rules (Elem LLAMA_GRETYPE_RULE_REF v # es) u
          \<and> stack_word rules (rev bs) v')"
        by (simp add: lang_def st e 2(1))
      also have "\<dots> \<longleftrightarrow> (\<exists>q \<in> set qs. \<exists>u u' v'. w = u @ u' @ v' \<and> seq_word rules (elems_at rules q) u
          \<and> seq_word rules es u' \<and> stack_word rules (rev bs) v')"
        (is "?l \<longleftrightarrow> ?r")
      proof
        assume ?l
        then obtain q u u' v' where "w = (u @ u') @ v'" "q \<in> set qs" "seq_word rules (elems_at rules q) u"
          "seq_word rules es u'" "stack_word rules (rev bs) v'"
          using qs(1) by (auto simp: seq_word_ref simp del: split_paired_Ex)
        then show ?r by auto
      next
        assume ?r
        then obtain q u u' v' where "w = (u @ u') @ v'" "q \<in> set qs" "seq_word rules (elems_at rules q) u"
          "seq_word rules es u'" "stack_word rules (rev bs) v'" by (auto simp del: split_paired_Ex)
        with qs(1) show ?l by (blast intro: sw_ref)
      qed
      also have "\<dots> \<longleftrightarrow> (\<exists>q \<in> set qs. stack_word rules (q # rev s1) w)"
        using s1(3) by (simp add: lang_def elems_at_next [OF e]) (metis append_assoc)
      finally show ?thesis .
    qed
    show ?thesis
    proof (rule ref [OF False _ qs(1,2)])
      show "elems_at rules (last stack) = Elem LLAMA_GRETYPE_RULE_REF v # es" using e 2(1) by (simp add: p_def)
      show "\<exists>s. alt_stack rules stack q = Inr s \<and> stack_ok rules s" if "q \<in> set qs" for q
        using alt [OF that] by blast
      show "lang rules stack w \<longleftrightarrow> (\<exists>q \<in> set qs. \<exists>s. alt_stack rules stack q = Inr s \<and> lang rules s w)" for w
        unfolding l using alt by (metis Inr_inject)
    qed
  next
    case 3
    with e stop show ?thesis by (simp add: at_char_def p_def)
  qed
qed

lemma advances_ok: "advances rules s t \<Longrightarrow> wf_grammar rules \<Longrightarrow> stack_ok rules s \<Longrightarrow> stack_ok rules t"
proof (induction rule: advances.induct)
  case (adv_alt stack v es qs q stack1 t)
  from adv_alt(8,9) have "stack_ok rules stack1"
  proof (cases rule: stack_cases)
    case stop
    with adv_alt(1,2) at_char_not_ref show ?thesis by blast
  next
    case (ref v' es' qs')
    with adv_alt(2,3) have "qs' = qs" by simp
    with ref(5) [of q] adv_alt(4,5) show ?thesis by simp
  qed
  with adv_alt(7,8) show ?case by blast
qed

lemma advances_lang: "advances rules s t \<Longrightarrow> wf_grammar rules \<Longrightarrow> stack_ok rules s \<Longrightarrow> lang rules t w \<Longrightarrow> lang rules s w"
proof (induction rule: advances.induct)
  case (adv_alt stack v es qs q stack1 t)
  from adv_alt(8,9) show ?case
  proof (cases rule: stack_cases)
    case stop
    with adv_alt(1,2) at_char_not_ref show ?thesis by blast
  next
    case (ref v' es' qs')
    with adv_alt(2,3) have q: "qs' = qs" by simp
    with ref(5) [of q] adv_alt(4,5) have "stack_ok rules stack1" by simp
    from adv_alt(7) [OF adv_alt(8) this adv_alt(10)] q ref(6) adv_alt(4,5) show ?thesis by blast
  qed
qed

lemma set_add_stack [simp]: "set (add_stack s ss) = insert s (set ss)"
  by (auto simp: add_stack_def)

lemma advance_each_spec:
  assumes f: "\<And>s news r. f s news = Some r \<Longrightarrow> stack_ok rules s
      \<Longrightarrow> (\<exists>out. r = Inr out \<and> set out = set news \<union> A s) \<and> B s"
    and mk: "\<And>q. q \<in> set qs \<Longrightarrow> \<exists>s. mk q = Inr s \<and> stack_ok rules s"
    and run: "advance_each f mk qs news = Some r"
  shows "(\<exists>out. r = Inr out \<and> set out = set news \<union> {t. \<exists>q \<in> set qs. \<exists>s. mk q = Inr s \<and> t \<in> A s})
    \<and> (\<forall>q \<in> set qs. \<forall>s. mk q = Inr s \<longrightarrow> B s)"
  using mk run
proof (induction qs arbitrary: news)
  case (Cons q qs)
  obtain s where s: "mk q = Inr s" "stack_ok rules s" using Cons.prems(1) [of q] by auto
  obtain r1 where r1: "f s news = Some r1" using Cons.prems(2) s by (cases "f s news") auto
  from f [OF r1 s(2)] obtain out1 where o1: "r1 = Inr out1" "set out1 = set news \<union> A s" "B s" by blast
  have "advance_each f mk qs out1 = Some r" using Cons.prems(2) s r1 o1(1) by simp
  from Cons.IH [OF _ this] Cons.prems(1) obtain out where
    "r = Inr out" "set out = set out1 \<union> {t. \<exists>q \<in> set qs. \<exists>s. mk q = Inr s \<and> t \<in> A s}"
    "\<forall>q \<in> set qs. \<forall>s. mk q = Inr s \<longrightarrow> B s" by (auto simp del: split_paired_All split_paired_Ex)
  with s(1) o1 show ?case by (auto simp del: split_paired_All split_paired_Ex)
qed auto

lemma advance_spec:
  assumes "wf_grammar rules" "stack_ok rules s" "llama_grammar_advance_stack n rules s news = Some r"
  shows "(\<exists>out. r = Inr out \<and> set out = set news \<union> Collect (advances rules s))
    \<and> (\<exists>t. advances rules s t) \<and> (\<forall>w. lang rules s w \<longrightarrow> (\<exists>t. advances rules s t \<and> lang rules t w))"
  using assms(2,3)
proof (induction n arbitrary: s news r)
  case (Suc n)
  show ?case
  proof (cases rule: stack_cases [OF assms(1) Suc.prems(1)])
    case 1
    then have "advances rules s t \<longleftrightarrow> t = s" for t
      using at_char_not_ref by (auto intro: adv_stop elim: advances_cases)
    moreover have "r = Inr (add_stack s news)"
    proof (cases "s = []")
      case True
      with Suc.prems(2) show ?thesis by (simp add: advance_Suc)
    next
      case False
      with 1 obtain e es where "elems_at rules (last s) = e # es"
          "ge_type e \<in> {LLAMA_GRETYPE_CHAR, LLAMA_GRETYPE_CHAR_NOT, LLAMA_GRETYPE_CHAR_ANY}"
        by (cases "elems_at rules (last s)") (auto simp: at_char_def is_positive_char_def is_negative_char_def)
      with Suc.prems(2) False show ?thesis by (auto simp: advance_Suc elem_at_def)
    qed
    ultimately show ?thesis by auto
  next
    case ref: (2 v es qs)
    have run: "advance_each (llama_grammar_advance_stack n rules) (alt_stack rules s) qs news = Some r"
      using Suc.prems(2) ref(1-3) by (simp add: advance_Suc elem_at_def)
    have adv: "advances rules s t \<longleftrightarrow> (\<exists>q \<in> set qs. \<exists>s1. alt_stack rules s q = Inr s1 \<and> advances rules s1 t)" for t
    proof
      assume "advances rules s t"
      then show "\<exists>q \<in> set qs. \<exists>s1. alt_stack rules s q = Inr s1 \<and> advances rules s1 t"
        by (rule advances_cases) (use at_char_not_ref [OF ref(1,2)] ref(2,3) in auto)
    qed (use ref(1-3) in \<open>blast intro: adv_alt\<close>)
    note each = advance_each_spec [where rules = rules and A = "\<lambda>s. Collect (advances rules s)"
      and B = "\<lambda>s. (\<exists>t. advances rules s t) \<and> (\<forall>w. lang rules s w \<longrightarrow> (\<exists>t. advances rules s t \<and> lang rules t w))",
      OF Suc.IH ref(5) run]
    from each have "\<exists>out. r = Inr out \<and> set out = set news \<union> Collect (advances rules s)"
      by (auto simp: adv simp del: split_paired_Ex)
    moreover have sub: "\<exists>t. advances rules s1 t" "lang rules s1 w \<Longrightarrow> \<exists>t. advances rules s1 t \<and> lang rules t w"
      if "q \<in> set qs" "alt_stack rules s q = Inr s1" for q s1 w
      using each that by blast+
    moreover have "\<exists>t. advances rules s t"
    proof -
      obtain q where q: "q \<in> set qs" using ref(4) by (cases qs) auto
      from ref(5) [OF q] obtain s1 where "alt_stack rules s q = Inr s1" by blast
      with q sub(1) show ?thesis unfolding adv by blast
    qed
    moreover have "\<exists>t. advances rules s t \<and> lang rules t w" if w: "lang rules s w" for w
    proof -
      from w obtain q s1 where "q \<in> set qs" "alt_stack rules s q = Inr s1" "lang rules s1 w"
        unfolding ref(6) by blast
      with sub(2) show ?thesis unfolding adv by blast
    qed
    ultimately show ?thesis by blast
  qed
qed simp

section \<open>Accepting a code point\<close>

lemma stack_word_snoc: "lang rules (bs @ [p]) w \<longleftrightarrow>
    (\<exists>u v. w = u @ v \<and> seq_word rules (elems_at rules p) u \<and> lang rules bs v)"
  by (simp add: lang_def)

lemma elems_at_ptr_to:
  assumes "elems_at rules p \<noteq> []" "suffix rest (elems_at rules p)"
  shows "elems_at rules (ptr_to rules p rest) = rest"
proof -
  from assms(1) have "fst p < length rules" by (simp add: elems_at_def split: if_splits)
  moreover from this assms(2) have "suffix rest (rules ! fst p)"
    by (auto simp: elems_at_def intro: suffix_order.trans suffix_drop)
  ultimately show ?thesis by (auto simp: elems_at_def ptr_to_def suffix_def)
qed

lemma match_range_suffix: "match_range c f es = Inr (f', rest) \<Longrightarrow> suffix rest es"
proof (induction c f es rule: match_range.induct)
  case (3 c f e e1 es)
  then show ?case
    by (auto simp: Let_def split: if_splits intro: suffix_ConsI) (blast intro: suffix_ConsI)+
qed simp_all

lemma match_char_suffix: "llama_grammar_match_char es c = Inr (f, rest) \<Longrightarrow> suffix rest es"
  by (auto simp: llama_grammar_match_char_def rbind_eq_Inr_iff split: if_splits dest: match_range_suffix)

definition accepts :: "llama_grammar_rules \<Rightarrow> nat \<Rightarrow> llama_grammar_stack \<Rightarrow> llama_grammar_stack \<Rightarrow> bool" where
  "accepts rules c s t \<longleftrightarrow> s \<noteq> []
     \<and> (\<exists>rest s'. llama_grammar_match_char (elems_at rules (last s)) c = Inr (True, rest)
          \<and> push_ptr rules (ptr_to rules (last s) rest) (butlast s) = Inr s' \<and> advances rules s' t)"

definition resting :: "llama_grammar_rules \<Rightarrow> llama_grammar_stack \<Rightarrow> bool" where
  "resting rules s \<longleftrightarrow> stack_ok rules s \<and> at_char rules s"

text \<open>What a character range on top of a stack does with a code point.\<close>

lemma resting_top:
  assumes "resting rules s" "s \<noteq> []"
  obtains rest s' where "\<And>c. \<exists>f. llama_grammar_match_char (elems_at rules (last s)) c = Inr (f, rest)"
    "push_ptr rules (ptr_to rules (last s) rest) (butlast s) = Inr s'" "stack_ok rules s'"
    "\<And>c w. lang rules s (c # w) \<longleftrightarrow>
       llama_grammar_match_char (elems_at rules (last s)) c = Inr (True, rest) \<and> lang rules s' w"
    "\<not> lang rules s []" "length rest < length (elems_at rules (last s))"
proof -
  define p bs where "p = last s" and "bs = butlast s"
  with assms have s: "s = bs @ [p]" by simp
  with assms have ok: "stack_ok rules bs" "ptr_ok rules p"
    and pc: "is_positive_char (elems_at rules p) \<or> is_negative_char (elems_at rules p)"
    by (auto simp: resting_def at_char_def)
  from ok(2) have g: "good_rest (elems_at rules p)" by (simp add: ptr_ok_def)
  from match_char_rest [OF g pc] obtain rest where r: "good_rest rest" "length rest < length (elems_at rules p)"
    "\<And>c. \<exists>f. llama_grammar_match_char (elems_at rules p) c = Inr (f, rest)" by blast
  from r(3) [of 0] have "elems_at rules (ptr_to rules p rest) = rest"
    using good_rest_nonempty [OF g] by (auto intro: elems_at_ptr_to match_char_suffix)
  note e = this
  from push_ptr_ok [of rules "ptr_to rules p rest" bs] e r(1) ok(1) obtain s' where
    s': "push_ptr rules (ptr_to rules p rest) bs = Inr s'" "stack_ok rules s'"
      "\<And>w. lang rules s' w \<longleftrightarrow> stack_word rules (ptr_to rules p rest # rev bs) w" by metis
  have l: "lang rules s (c # w) \<longleftrightarrow>
      llama_grammar_match_char (elems_at rules p) c = Inr (True, rest) \<and> lang rules s' w" for c w
  proof -
    obtain f where f: "llama_grammar_match_char (elems_at rules p) c = Inr (f, rest)" using r(3) by blast
    have "lang rules s (c # w) \<longleftrightarrow> (\<exists>u v. c # w = u @ v \<and> seq_word rules (elems_at rules p) u \<and> lang rules bs v)"
      by (simp add: s stack_word_snoc)
    also have "\<dots> \<longleftrightarrow> (\<exists>u v. w = u @ v \<and> f \<and> seq_word rules rest u \<and> lang rules bs v)"
        (is "?l \<longleftrightarrow> ?r")
    proof
      assume ?l
      then obtain c' w' rest' v where "c # w = (c' # w') @ v" "lang rules bs v" "seq_word rules rest' w'"
        "llama_grammar_match_char (elems_at rules p) c' = Inr (True, rest')"
        unfolding seq_word_char [OF pc] by blast
      with f show ?r by (intro exI [of _ w'] exI [of _ v]) auto
    next
      assume ?r
      then obtain u v where "w = u @ v" "f" "seq_word rules rest u" "lang rules bs v" by blast
      with f show ?l unfolding seq_word_char [OF pc] by (intro exI [of _ "c # u"] exI [of _ v]) auto
    qed
    also have "\<dots> \<longleftrightarrow> f \<and> lang rules s' w"
    proof -
      have "lang rules s' w \<longleftrightarrow> (\<exists>u v. w = u @ v \<and> seq_word rules rest u \<and> stack_word rules (rev bs) v)"
        unfolding s'(3) by (simp add: e)
      then show ?thesis by (auto simp: lang_def)
    qed
    finally show ?thesis using f by auto
  qed
  have "\<not> lang rules s []"
    unfolding s stack_word_snoc seq_word_char [OF pc] by simp
  with that r(2,3) s' l show ?thesis unfolding p_def bs_def by blast
qed

lemma accept_stack_spec:
  assumes "wf_grammar rules" "resting rules s" "accept_stack n rules c s news = Some r"
  shows "(\<exists>out. r = Inr out \<and> set out = set news \<union> Collect (accepts rules c s))
    \<and> (\<forall>t. accepts rules c s t \<longrightarrow> resting rules t)
    \<and> (\<forall>w. lang rules s (c # w) \<longleftrightarrow> (\<exists>t. accepts rules c s t \<and> lang rules t w))"
proof (cases "s = []")
  case True
  with assms(3) show ?thesis by (auto simp: accept_stack_def accepts_def lang_def)
next
  case False
  from resting_top [OF assms(2) False] obtain rest s' where
    m: "\<And>c. \<exists>f. llama_grammar_match_char (elems_at rules (last s)) c = Inr (f, rest)"
    and p: "push_ptr rules (ptr_to rules (last s) rest) (butlast s) = Inr s'" "stack_ok rules s'"
    and l: "\<And>c w. lang rules s (c # w) \<longleftrightarrow>
       llama_grammar_match_char (elems_at rules (last s)) c = Inr (True, rest) \<and> lang rules s' w" by metis
  obtain f where f: "llama_grammar_match_char (elems_at rules (last s)) c = Inr (f, rest)" using m by blast
  show ?thesis
  proof (cases f)
    case True
    with f p assms(3) False have run: "llama_grammar_advance_stack n rules s' news = Some r"
      by (simp add: accept_stack_def)
    have acc: "accepts rules c s t \<longleftrightarrow> advances rules s' t" for t
      using False f True p by (auto simp: accepts_def)
    note spec = advance_spec [OF assms(1) p(2) run]
    have "resting rules t" if "advances rules s' t" for t
      using advances_ok [OF that assms(1) p(2)] advances_at_char [OF that] by (simp add: resting_def)
    moreover have "lang rules s (c # w) \<longleftrightarrow> (\<exists>t. advances rules s' t \<and> lang rules t w)" for w
      using spec l [of c w] f True advances_lang [OF _ assms(1) p(2), of _ w] by auto
    ultimately show ?thesis unfolding acc using spec by blast
  next
    case False': False
    with f assms(3) False have "r = Inr news" by (simp add: accept_stack_def)
    moreover have "\<not> accepts rules c s t" for t using f False' by (auto simp: accepts_def)
    ultimately show ?thesis using l f False' by auto
  qed
qed

lemma accept_each_spec:
  assumes "wf_grammar rules" "\<forall>s \<in> set stacks. resting rules s" "accept_each n rules c stacks news = Some r"
  shows "\<exists>out. r = Inr out \<and> set out = set news \<union> {t. \<exists>s \<in> set stacks. accepts rules c s t}
    \<and> (\<forall>s \<in> set stacks. \<forall>t. accepts rules c s t \<longrightarrow> resting rules t)
    \<and> (\<forall>s \<in> set stacks. \<forall>w. lang rules s (c # w) \<longleftrightarrow> (\<exists>t. accepts rules c s t \<and> lang rules t w))"
  using assms(2,3)
proof (induction stacks arbitrary: news)
  case (Cons s stacks)
  obtain r1 where r1: "accept_stack n rules c s news = Some r1"
    using Cons.prems(2) by (cases "accept_stack n rules c s news") auto
  from accept_stack_spec [OF assms(1) _ r1] Cons.prems(1) obtain out1 where
    o: "r1 = Inr out1" "set out1 = set news \<union> Collect (accepts rules c s)"
      "\<forall>t. accepts rules c s t \<longrightarrow> resting rules t"
      "\<forall>w. lang rules s (c # w) \<longleftrightarrow> (\<exists>t. accepts rules c s t \<and> lang rules t w)" by auto
  with Cons.prems r1 have "accept_each n rules c stacks out1 = Some r" by simp
  from Cons.IH [OF _ this] Cons.prems(1) obtain out where
    "r = Inr out" "set out = set out1 \<union> {t. \<exists>s \<in> set stacks. accepts rules c s t}"
    "\<forall>s \<in> set stacks. \<forall>t. accepts rules c s t \<longrightarrow> resting rules t"
    "\<forall>s \<in> set stacks. \<forall>w. lang rules s (c # w) \<longleftrightarrow> (\<exists>t. accepts rules c s t \<and> lang rules t w)" by auto
  with o show ?case by (intro exI [of _ out]) auto
qed auto

lemma accept_spec:
  assumes "wf_grammar rules" "\<forall>s \<in> set stacks. resting rules s" "llama_grammar_accept n rules stacks c = Some r"
  obtains out where "r = Inr out" "set out = {t. \<exists>s \<in> set stacks. accepts rules c s t}"
    "\<forall>s \<in> set out. resting rules s" "\<And>w. stacks_lang rules out w \<longleftrightarrow> stacks_lang rules stacks (c # w)"
proof -
  from accept_each_spec [OF assms(1,2) assms(3) [unfolded llama_grammar_accept_def]] obtain out where
    o: "r = Inr out" "set out = {t. \<exists>s \<in> set stacks. accepts rules c s t}"
    "\<forall>s \<in> set stacks. \<forall>t. accepts rules c s t \<longrightarrow> resting rules t"
    "\<forall>s \<in> set stacks. \<forall>w. lang rules s (c # w) \<longleftrightarrow> (\<exists>t. accepts rules c s t \<and> lang rules t w)" by auto
  then show ?thesis by (intro that [of out]) (auto simp: stacks_lang_def)
qed

lemma accept_code_points_spec:
  assumes "wf_grammar rules" "\<forall>s \<in> set stacks. resting rules s"
    and "accept_code_points n rules cs stacks = Some r"
  shows "\<exists>out. r = Inr out \<and> (\<forall>s \<in> set out. resting rules s)
    \<and> (\<forall>w. stacks_lang rules out w \<longleftrightarrow> stacks_lang rules stacks (cs @ w))"
  using assms(2,3)
proof (induction cs arbitrary: stacks)
  case (Cons c cs)
  obtain r1 where r1: "llama_grammar_accept n rules stacks c = Some r1"
    using Cons.prems(2) by (cases "llama_grammar_accept n rules stacks c") auto
  from accept_spec [OF assms(1) Cons.prems(1) r1] obtain out1 where
    o: "r1 = Inr out1" "\<forall>s \<in> set out1. resting rules s"
      "\<And>w. stacks_lang rules out1 w \<longleftrightarrow> stacks_lang rules stacks (c # w)" by metis
  with Cons.prems(2) r1 have "accept_code_points n rules cs out1 = Some r" by simp
  from Cons.IH [OF o(2) this] o(3) show ?case by simp
qed auto

lemma lang_empty: "resting rules s \<Longrightarrow> lang rules s [] \<longleftrightarrow> s = []"
proof -
  assume r: "resting rules s"
  show ?thesis
  proof (cases "s = []")
    case False
    from r this have "\<not> lang rules s []" by (rule resting_top)
    with False show ?thesis by simp
  qed (simp add: lang_def)
qed

section \<open>The whole automaton\<close>

lemma initial_stacks_spec:
  assumes "wf_grammar rules" "start < length rules" "initial_stacks n rules start = Some r"
  obtains out where "r = Inr out" "\<forall>s \<in> set out. resting rules s"
    "\<And>w. stacks_lang rules out w \<longleftrightarrow> rule_word rules start w" "out \<noteq> []"
proof -
  obtain qs where qs: "alternates_of rules start = Inr qs" "qs \<noteq> []" "\<And>q. q \<in> set qs \<Longrightarrow> good_rest (elems_at rules q)"
    using alternates_of_good [OF assms(1,2)] by metis
  have mk: "\<exists>s. push_ptr rules q [] = Inr s \<and> stack_ok rules s \<and> (\<forall>w. lang rules s w \<longleftrightarrow> seq_word rules (elems_at rules q) w)"
    if "q \<in> set qs" for q
  proof -
    obtain s where "push_ptr rules q [] = Inr s" "stack_ok rules s" "\<And>w. lang rules s w \<longleftrightarrow> stack_word rules [q] w"
      using push_ptr_ok [where s = "[]", OF qs(3) [OF \<open>q \<in> set qs\<close>]] by auto
    then show ?thesis by auto
  qed
  define A where "A s = Collect (advances rules s)" for s
  define B where "B s \<longleftrightarrow> (\<exists>t. advances rules s t) \<and> (\<forall>w. lang rules s w \<longrightarrow> (\<exists>t. advances rules s t \<and> lang rules t w))" for s
  have run: "advance_each (llama_grammar_advance_stack n rules) (\<lambda>q. push_ptr rules q []) qs [] = Some r"
    using assms(3) qs(1) by (simp add: initial_stacks_def)
  have f: "(\<exists>out. r = Inr out \<and> set out = set news \<union> A s) \<and> B s"
    if "llama_grammar_advance_stack n rules s news = Some r" "stack_ok rules s" for s news r
    using advance_spec [OF assms(1) that(2,1)] by (simp add: A_def B_def)
  have mk': "\<exists>s. push_ptr rules q [] = Inr s \<and> stack_ok rules s" if "q \<in> set qs" for q
    using mk [OF that] by blast
  from advance_each_spec [where A = A and B = B, OF f mk' run] obtain out where
    o: "r = Inr out" "set out = set [] \<union> {t. \<exists>q \<in> set qs. \<exists>s. push_ptr rules q [] = Inr s \<and> t \<in> A s}"
      "\<forall>q \<in> set qs. \<forall>s. push_ptr rules q [] = Inr s \<longrightarrow> B s" by blast
  show ?thesis
  proof (rule that [OF o(1)])
    from qs(2) obtain q where q: "q \<in> set qs" by (cases qs) auto
    with mk' obtain s where s: "push_ptr rules q [] = Inr s" by blast
    with q o(3) have "\<exists>t. advances rules s t" unfolding B_def by blast
    with q s o(2) show "out \<noteq> []" unfolding A_def by auto
    show "\<forall>s \<in> set out. resting rules s"
    proof
      fix t assume "t \<in> set out"
      then obtain q s where "q \<in> set qs" "push_ptr rules q [] = Inr s" "advances rules s t"
        unfolding o(2) A_def by auto
      with mk [of q] advances_ok [OF _ assms(1), of s t] advances_at_char [of rules s t]
      show "resting rules t" by (simp add: resting_def)
    qed
    show "stacks_lang rules out w \<longleftrightarrow> rule_word rules start w" for w
    proof -
      have "stacks_lang rules out w \<longleftrightarrow> (\<exists>q \<in> set qs. \<exists>s. push_ptr rules q [] = Inr s \<and> lang rules s w)"
      proof
        assume "stacks_lang rules out w"
        then obtain q s t where "q \<in> set qs" "push_ptr rules q [] = Inr s" "advances rules s t" "lang rules t w"
          unfolding stacks_lang_def o(2) A_def by auto
        with mk [of q] advances_lang [OF _ assms(1), of s t w]
        show "\<exists>q \<in> set qs. \<exists>s. push_ptr rules q [] = Inr s \<and> lang rules s w" by auto
      next
        assume "\<exists>q \<in> set qs. \<exists>s. push_ptr rules q [] = Inr s \<and> lang rules s w"
        then obtain q s where q: "q \<in> set qs" "push_ptr rules q [] = Inr s" "lang rules s w" by blast
        with o(3) obtain t where "advances rules s t" "lang rules t w" unfolding B_def by blast
        with q show "stacks_lang rules out w" unfolding stacks_lang_def o(2) A_def by blast
      qed
      also have "\<dots> \<longleftrightarrow> rule_word rules start w"
      proof
        assume "\<exists>q \<in> set qs. \<exists>s. push_ptr rules q [] = Inr s \<and> lang rules s w"
        then obtain q s where "q \<in> set qs" "push_ptr rules q [] = Inr s" "lang rules s w" by blast
        with mk [of q] qs(1) show "rule_word rules start w" unfolding rule_word_def by auto
      next
        assume "rule_word rules start w"
        then obtain q where "q \<in> set qs" "seq_word rules (elems_at rules q) w"
          using qs(1) unfolding rule_word_def by auto
        with mk [of q] show "\<exists>q \<in> set qs. \<exists>s. push_ptr rules q [] = Inr s \<and> lang rules s w" by auto
      qed
      finally show ?thesis .
    qed
  qed
qed

lemma copy_rule_wf: "wf_rule n r \<Longrightarrow> copy_rule r = Inr r"
proof -
  assume r: "wf_rule n r"
  then obtain b where b: "r = b @ [END_elem]" "shaped 0 b"
    by (metis append_butlast_last_id wf_rule_def)
  from shaped_no_END [OF b(2)] have "takeWhile (\<lambda>e. ge_type e \<noteq> LLAMA_GRETYPE_END) r = b"
    by (simp add: b(1) takeWhile_append2)
  with b show ?thesis by (auto simp: copy_rule_def)
qed

lemma copy_rules_wf: "wf_grammar rules \<Longrightarrow> copy_rules rules = Inr rules"
proof -
  have "\<forall>r \<in> set rs. wf_rule n r \<Longrightarrow> copy_rules rs = Inr rs" for rs n
    by (induction rs) (auto simp: copy_rule_wf)
  then show "wf_grammar rules \<Longrightarrow> ?thesis" by (auto simp: wf_grammar_def)
qed

lemma init_parts:
  assumes "wf_grammar rules" "llama_grammar_init_impl depth rules start = Some (Inr (Some g))"
  shows "g_rules g = rules" "initial_stacks depth rules start = Some (Inr (g_stacks g))"
    "g_partial_utf8 g = fresh_utf8"
    "check_left_recursion (length rules + 1) rules [0..<length rules] (lr_start (length rules)) = Some (Inr False)"
  using assms(2) by (auto simp: llama_grammar_init_impl_def copy_rules_wf [OF assms(1)] fuel_bind_Inr split: if_splits)

text \<open>A run that returns has read the language; that runs return is the subject of \<^verbatim>\<open>GrammarTerm\<close>.\<close>

lemma automaton_language_run:
  assumes "wf_grammar rules" and "start < length rules"
    and "llama_grammar_init_impl depth rules start = Some (Inr (Some g))"
    and "accept_code_points n (g_rules g) w (g_stacks g) = Some r"
  shows "\<exists>stacks. r = Inr stacks \<and> ([] \<in> set stacks \<longleftrightarrow> rule_word rules start w)
    \<and> (\<forall>v. stacks_lang rules stacks v \<longleftrightarrow> rule_word rules start (w @ v))"
proof -
  note parts = init_parts [OF assms(1,3)]
  from initial_stacks_spec [OF assms(1,2) parts(2)] obtain
    i: "\<forall>s \<in> set (g_stacks g). resting rules s" "\<And>v. stacks_lang rules (g_stacks g) v \<longleftrightarrow> rule_word rules start v"
    by auto
  from accept_code_points_spec [OF assms(1) i(1) assms(4) [unfolded parts(1)]] obtain stacks where
    s: "r = Inr stacks" "\<forall>s \<in> set stacks. resting rules s"
      "\<And>v. stacks_lang rules stacks v \<longleftrightarrow> rule_word rules start (w @ v)" unfolding i(2) by blast
  have "[] \<in> set stacks \<longleftrightarrow> stacks_lang rules stacks []"
    using s(2) lang_empty by (auto simp: stacks_lang_def)
  with s show ?thesis by simp
qed

definition ab_rules :: llama_grammar_rules where
  "ab_rules = [[Elem LLAMA_GRETYPE_CHAR 97, Elem LLAMA_GRETYPE_RULE_REF 0, ALT_elem,
     Elem LLAMA_GRETYPE_CHAR 98, END_elem]]"

lemma ab_wf: "wf_grammar ab_rules"
  by (simp add: ab_rules_def wf_grammar_def wf_rule_def)

lemmas grammar_eval = llama_grammar_init_impl_def copy_rule_def lr_start_def initial_stacks_def alternates_of_def
  push_ptr_def elem_at_def elems_at_def next_ptr_def ptr_to_def is_end_of_sequence_def advance_Suc add_stack_def
  alt_stack_def llama_grammar_accept_def accept_stack_def llama_grammar_match_char_def is_positive_char_def
  is_negative_char_def fresh_utf8_def

lemma ab_init: "llama_grammar_init_impl (Suc 0) ab_rules 0 = Some (Inr (Some \<lparr>g_rules = ab_rules,
    g_stacks = [[(0, 0)], [(0, 3)]], g_partial_utf8 = fresh_utf8\<rparr>))"
  by (simp add: ab_rules_def grammar_eval numeral_2_eq_2)

lemma ab_run: "accept_code_points (Suc (Suc 0)) ab_rules [97, 98] [[(0, 0)], [(0, 3)]] = Some (Inr [[]])"
  by (simp add: ab_rules_def grammar_eval cong: bind_weak_cong)

end
