(* ===== verification/GrammarTerm.thy ===== *)
theory GrammarTerm
  imports GrammarLang
begin

text \<open>
  Left recursion and termination.  The check of \<^verbatim>\<open>llama_grammar_detect_left_recursion\<close> terminates
  and, when it finds nothing, makes the leftmost references well-founded; from this every advance of a
  stack terminates, provided that emptiness is visible to the check: no alternate may consist only of
  references to rules with an empty alternate.  Without that the check misses a left recursion.
\<close>

section \<open>The check\<close>

definition emptiable :: "llama_grammar_rules \<Rightarrow> nat \<Rightarrow> bool" where
  "emptiable rules v \<longleftrightarrow> has_empty_alternate True (rules ! v)"

text \<open>The references the check follows, with the exact emptiness of the rules.\<close>

fun leftmost :: "(nat \<Rightarrow> bool) \<Rightarrow> bool \<Rightarrow> llama_grammar_rule \<Rightarrow> nat set" where
  "leftmost E recurse [] = {}"
| "leftmost E recurse (e # es) =
     (if ge_type e = LLAMA_GRETYPE_RULE_REF \<and> recurse
      then insert (ge_value e) (leftmost E (E (ge_value e)) es)
      else leftmost E (is_end_of_sequence e) es)"

definition left_edges :: "llama_grammar_rules \<Rightarrow> (nat \<times> nat) set" where
  "left_edges rules = {(w, v). w \<in> leftmost (emptiable rules) True (rules ! v)}"

definition refs_below :: "nat \<Rightarrow> llama_grammar_rule \<Rightarrow> bool" where
  "refs_below n es \<longleftrightarrow> (\<forall>e \<in> set es. ge_type e = LLAMA_GRETYPE_RULE_REF \<longrightarrow> ge_value e < n)"

lemma refs_below_rule: "wf_grammar rules \<Longrightarrow> i < length rules \<Longrightarrow> refs_below (length rules) (rules ! i)"
  by (auto simp: wf_grammar_def wf_rule_def refs_below_def)

lemma refs_below_Cons: "refs_below n (e # es) \<longleftrightarrow>
    (ge_type e = LLAMA_GRETYPE_RULE_REF \<longrightarrow> ge_value e < n) \<and> refs_below n es"
  by (auto simp: refs_below_def)

definition lr_sizes :: "nat \<Rightarrow> lr_state \<Rightarrow> bool" where
  "lr_sizes n st \<longleftrightarrow> length (lr_visited st) = n \<and> length (lr_in_progress st) = n \<and> length (lr_may_be_empty st) = n"

definition idle :: "bool list \<Rightarrow> nat" where
  "idle xs = length (filter (\<lambda>b. \<not> b) xs)"

lemma idle_update: "i < length xs \<Longrightarrow> \<not> xs ! i \<Longrightarrow> idle (xs[i := True]) < idle xs"
proof (induction xs arbitrary: i)
  case (Cons x xs)
  then show ?case by (cases i) (auto simp: idle_def)
qed simp

text \<open>The recursion is never deeper than there are rules not in progress; when nothing is found, the
  rules in progress are as before.\<close>

lemma scan_total:
  assumes "\<And>v st. v < n \<Longrightarrow> lr_sizes n st \<Longrightarrow> lr_in_progress st = P \<Longrightarrow>
      \<exists>b st'. detect v st = Some (Inr (b, st')) \<and> lr_sizes n st' \<and> (\<not> b \<longrightarrow> lr_in_progress st' = P)"
    and "refs_below n es" "lr_sizes n st" "lr_in_progress st = P"
  shows "\<exists>b st'. scan_leftmost detect recurse es st = Some (Inr (b, st')) \<and> lr_sizes n st'
    \<and> (\<not> b \<longrightarrow> lr_in_progress st' = P)"
  using assms(2-)
proof (induction es arbitrary: recurse st)
  case (Cons e es)
  show ?case
  proof (cases "ge_type e = LLAMA_GRETYPE_RULE_REF \<and> recurse")
    case True
    with Cons.prems have v: "ge_value e < n" by (simp add: refs_below_Cons)
    from assms(1) [OF this Cons.prems(2,3)] obtain b st1 where
      "detect (ge_value e) st = Some (Inr (b, st1))" "lr_sizes n st1" "\<not> b \<longrightarrow> lr_in_progress st1 = P" by blast
    with True v Cons show ?thesis by (cases b) (auto simp: refs_below_Cons lr_sizes_def)
  next
    case False
    with Cons show ?thesis by (auto simp: refs_below_Cons)
  qed
qed (auto intro: exI [of _ False])

lemma detect_total:
  assumes "wf_grammar rules"
  shows "i < length rules \<Longrightarrow> lr_sizes (length rules) st \<Longrightarrow> idle (lr_in_progress st) < depth \<Longrightarrow>
    \<exists>b st'. llama_grammar_detect_left_recursion depth rules i st = Some (Inr (b, st'))
      \<and> lr_sizes (length rules) st' \<and> (\<not> b \<longrightarrow> lr_in_progress st' = lr_in_progress st)"
proof (induction depth arbitrary: i st)
  case (Suc depth)
  show ?case
  proof (cases "lr_in_progress st ! i")
    case True
    with Suc.prems show ?thesis by (intro exI [of _ True] exI [of _ st]) (simp add: lr_sizes_def)
  next
    case False
    define st1 where "st1 = st\<lparr>lr_in_progress := (lr_in_progress st)[i := True],
      lr_may_be_empty := (if has_empty_alternate True (rules ! i) then (lr_may_be_empty st)[i := True]
        else lr_may_be_empty st)\<rparr>"
    have s1: "lr_sizes (length rules) st1" using Suc.prems(2) by (simp add: st1_def lr_sizes_def)
    have "idle (lr_in_progress st1) < idle (lr_in_progress st)"
      using False Suc.prems(1,2) by (simp add: st1_def idle_update lr_sizes_def)
    with Suc.prems(3) have d: "idle (lr_in_progress st1) < depth" by simp
    from scan_total [where detect = "llama_grammar_detect_left_recursion depth rules" and recurse = True,
        OF _ refs_below_rule [OF assms Suc.prems(1)] s1 refl] Suc.IH d
    obtain b st2 where scan: "scan_leftmost (llama_grammar_detect_left_recursion depth rules) True (rules ! i) st1
        = Some (Inr (b, st2))" "lr_sizes (length rules) st2" "\<not> b \<longrightarrow> lr_in_progress st2 = lr_in_progress st1"
      by (metis (no_types, lifting))
    have "(lr_in_progress st1)[i := False] = lr_in_progress st"
      using False Suc.prems(1,2) by (simp add: st1_def lr_sizes_def list_update_same_conv)
    with scan False Suc.prems(1,2) show ?thesis
      by (cases b) (auto simp: st1_def [symmetric] lr_sizes_def)
  qed
qed simp

lemma check_total:
  assumes "wf_grammar rules" "set is \<subseteq> {..<length rules}" "lr_sizes (length rules) st"
    "\<forall>b \<in> set (lr_in_progress st). \<not> b"
  shows "\<exists>b. check_left_recursion (length rules + 1) rules is st = Some (Inr b)"
  using assms(2-)
proof (induction "is" arbitrary: st)
  case (Cons i "is")
  have "idle (lr_in_progress st) < length rules + 1"
    using Cons.prems(2) length_filter_le [of "\<lambda>b. \<not> b" "lr_in_progress st"]
    by (simp add: idle_def lr_sizes_def)
  from detect_total [OF assms(1) _ Cons.prems(2) this, of i] Cons.prems(1) obtain b st1 where
    "llama_grammar_detect_left_recursion (length rules + 1) rules i st = Some (Inr (b, st1))"
    "lr_sizes (length rules) st1" "\<not> b \<longrightarrow> lr_in_progress st1 = lr_in_progress st" by auto
  with Cons show ?case by (cases b) auto
qed (auto intro: exI [of _ False])

section \<open>What the check establishes\<close>

definition mbe_ok :: "llama_grammar_rules \<Rightarrow> lr_state \<Rightarrow> bool" where
  "mbe_ok rules st \<longleftrightarrow> lr_sizes (length rules) st
     \<and> (\<forall>v < length rules. lr_may_be_empty st ! v \<longrightarrow> emptiable rules v)
     \<and> (\<forall>v < length rules. lr_visited st ! v \<longrightarrow> v \<in> Wellfounded.acc (left_edges rules))"

definition found_ok :: "llama_grammar_rules \<Rightarrow> nat \<Rightarrow> lr_state \<Rightarrow> bool" where
  "found_ok rules v st \<longleftrightarrow> (emptiable rules v \<longrightarrow> lr_may_be_empty st ! v) \<and> v \<in> Wellfounded.acc (left_edges rules)"

lemma scan_ok:
  assumes detect: "\<And>v st st'. v < length rules \<Longrightarrow> mbe_ok rules st \<Longrightarrow> detect v st = Some (Inr (False, st'))
      \<Longrightarrow> mbe_ok rules st' \<and> found_ok rules v st'
        \<and> (\<forall>u < length rules. lr_may_be_empty st ! u \<longrightarrow> lr_may_be_empty st' ! u)"
    and "refs_below (length rules) es" "mbe_ok rules st"
    and "scan_leftmost detect recurse es st = Some (Inr (False, st'))"
  shows "mbe_ok rules st' \<and> leftmost (emptiable rules) recurse es \<subseteq> Wellfounded.acc (left_edges rules)
    \<and> (\<forall>u < length rules. lr_may_be_empty st ! u \<longrightarrow> lr_may_be_empty st' ! u)"
  using assms(2-)
proof (induction es arbitrary: recurse st)
  case (Cons e es)
  show ?case
  proof (cases "ge_type e = LLAMA_GRETYPE_RULE_REF \<and> recurse")
    case True
    define v where "v = ge_value e"
    have v: "v < length rules" using True Cons.prems(1) by (simp add: refs_below_Cons v_def)
    from Cons.prems(3) True obtain st1 m where d: "detect v st = Some (Inr (False, st1))"
      "vec_at (lr_may_be_empty st1) v = Inr m" "scan_leftmost detect m es st1 = Some (Inr (False, st'))"
      by (auto simp: fuel_bind_Inr v_def split: if_splits)
    note s1 = detect [OF v Cons.prems(2) d(1)]
    have m: "m = emptiable rules v"
      using d(2) s1 v by (auto simp: found_ok_def mbe_ok_def)
    from Cons.IH [OF _ _ d(3)] s1 Cons.prems(1) True show ?thesis
      by (auto simp: m v_def [symmetric] refs_below_Cons found_ok_def)
  next
    case False
    with Cons show ?thesis by (auto simp: refs_below_Cons)
  qed
qed simp

lemma detect_ok:
  assumes "wf_grammar rules"
  shows "i < length rules \<Longrightarrow> mbe_ok rules st
    \<Longrightarrow> llama_grammar_detect_left_recursion depth rules i st = Some (Inr (False, st'))
    \<Longrightarrow> mbe_ok rules st' \<and> found_ok rules i st'
      \<and> (\<forall>u < length rules. lr_may_be_empty st ! u \<longrightarrow> lr_may_be_empty st' ! u)"
proof (induction depth arbitrary: i st st')
  case (Suc depth)
  define st1 where "st1 = st\<lparr>lr_in_progress := (lr_in_progress st)[i := True],
    lr_may_be_empty := (if has_empty_alternate True (rules ! i) then (lr_may_be_empty st)[i := True]
      else lr_may_be_empty st)\<rparr>"
  from Suc.prems obtain st2 where
    scan: "scan_leftmost (llama_grammar_detect_left_recursion depth rules) True (rules ! i) st1
        = Some (Inr (False, st2))"
    and st': "st' = st2\<lparr>lr_in_progress := (lr_in_progress st2)[i := False], lr_visited := (lr_visited st2)[i := True]\<rparr>"
  proof -
    have i: "i < length (lr_in_progress st)" using Suc.prems(1,2) by (simp add: mbe_ok_def lr_sizes_def)
    have ip: "\<not> lr_in_progress st ! i"
      using Suc.prems(3) i by auto
    obtain b st2 where scan: "scan_leftmost (llama_grammar_detect_left_recursion depth rules) True (rules ! i) st1
        = Some (Inr (b, st2))"
      using Suc.prems(1,3) i ip by (auto simp: fuel_bind_Inr st1_def [symmetric])
    with Suc.prems(1,3) i ip that show ?thesis
      by (cases b) (simp_all add: st1_def [symmetric])
  qed
  have s1: "mbe_ok rules st1"
    using Suc.prems(1,2) by (auto simp: mbe_ok_def lr_sizes_def st1_def emptiable_def nth_list_update)
  have "mbe_ok rules st2 \<and> leftmost (emptiable rules) True (rules ! i) \<subseteq> Wellfounded.acc (left_edges rules)
    \<and> (\<forall>u < length rules. lr_may_be_empty st1 ! u \<longrightarrow> lr_may_be_empty st2 ! u)"
    by (rule scan_ok [OF _ refs_below_rule [OF assms Suc.prems(1)] s1 scan]) (rule Suc.IH)
  then have s2: "mbe_ok rules st2" "leftmost (emptiable rules) True (rules ! i) \<subseteq> Wellfounded.acc (left_edges rules)"
    "\<forall>u < length rules. lr_may_be_empty st1 ! u \<longrightarrow> lr_may_be_empty st2 ! u" by blast+
  have acc: "i \<in> Wellfounded.acc (left_edges rules)"
    using s2(2) by - (rule accI, auto simp: left_edges_def)
  have mbe: "\<forall>u < length rules. lr_may_be_empty st ! u \<longrightarrow> lr_may_be_empty st1 ! u"
    "emptiable rules i \<longrightarrow> lr_may_be_empty st1 ! i"
    using Suc.prems(1,2) by (auto simp: st1_def mbe_ok_def lr_sizes_def nth_list_update emptiable_def)
  have "mbe_ok rules st'"
    using s2(1) acc Suc.prems(1) by (auto simp: st' mbe_ok_def lr_sizes_def nth_list_update)
  with acc mbe s2(3) Suc.prems(1) show ?case by (auto simp: st' found_ok_def)
qed simp

lemma check_ok:
  assumes "wf_grammar rules" "set is \<subseteq> {..<length rules}" "mbe_ok rules st"
    and "check_left_recursion depth rules is st = Some (Inr False)"
  shows "set is \<subseteq> Wellfounded.acc (left_edges rules)"
  using assms(2-)
proof (induction "is" arbitrary: st)
  case (Cons i "is")
  show ?case
  proof (cases "lr_visited st ! i")
    case True
    with Cons show ?thesis by (auto simp: mbe_ok_def)
  next
    case False
    with Cons.prems(3) obtain st1 where "llama_grammar_detect_left_recursion depth rules i st = Some (Inr (False, st1))"
      "check_left_recursion depth rules is st1 = Some (Inr False)"
      by (auto simp: fuel_bind_Inr split: if_splits)
    with detect_ok [OF assms(1) _ Cons.prems(2)] Cons show ?thesis by (fastforce simp: found_ok_def)
  qed
qed simp

lemma lr_start_ok: "mbe_ok rules (lr_start (length rules))"
  by (simp add: mbe_ok_def lr_start_def lr_sizes_def)

text \<open>The references that an advance of a stack can meet first are among those the check follows.\<close>

fun leads :: "(nat \<Rightarrow> bool) \<Rightarrow> llama_grammar_rule \<Rightarrow> nat set" where
  "leads E [] = {}"
| "leads E (e # es) =
     (if ge_type e = LLAMA_GRETYPE_RULE_REF
      then insert (ge_value e) (if E (ge_value e) then leads E es else {}) else {})"

fun blocks :: "(nat \<Rightarrow> bool) \<Rightarrow> llama_grammar_rule \<Rightarrow> bool" where
  "blocks E [] = False"
| "blocks E (e # es) =
     (if is_end_of_sequence e then False
      else if ge_type e = LLAMA_GRETYPE_RULE_REF then \<not> E (ge_value e) \<or> blocks E es
      else True)"

lemma leads_leftmost: "leads E es \<subseteq> leftmost E True es"
proof (induction es)
  case (Cons e es)
  then show ?case by (cases "ge_type e = LLAMA_GRETYPE_RULE_REF \<and> E (ge_value e)") auto
qed simp

lemma leftmost_suffix: "is_end_of_sequence a \<Longrightarrow> leftmost E True es \<subseteq> leftmost E r (xs @ a # es)"
proof (induction xs arbitrary: r)
  case Nil
  then show ?case by (auto simp: is_end_of_sequence_def)
next
  case (Cons x xs)
  from Cons.IH [OF Cons.prems] show ?case by auto
qed

lemma next_alternates_split:
  "next_alternates i es = Inr qs \<Longrightarrow> q \<in> set qs \<Longrightarrow> i < q
     \<and> (\<exists>xs a. is_end_of_sequence a \<and> es = xs @ a # drop (q - i) es)"
proof (induction i es arbitrary: qs rule: next_alternates.induct)
  case (2 i e es)
  show ?case
  proof (cases "ge_type e = LLAMA_GRETYPE_ALT \<and> q = i + 1")
    case True
    then show ?thesis by (auto simp: is_end_of_sequence_def intro!: exI [of _ "[]"])
  next
    case False
    with "2.prems" obtain qs' where "next_alternates (i + 1) es = Inr qs'" "q \<in> set qs'" "ge_type e \<noteq> LLAMA_GRETYPE_END"
      by (auto simp: rbind_eq_Inr_iff split: if_splits)
    with "2.IH" have "i + 1 < q \<and> (\<exists>xs a. is_end_of_sequence a \<and> es = xs @ a # drop (q - (i + 1)) es)"
      by (cases "ge_type e = LLAMA_GRETYPE_ALT") auto
    moreover from this have "q - i = Suc (q - (i + 1))" by (elim conjE) simp
    ultimately show ?thesis by (metis append_Cons drop_Suc_Cons Suc_eq_plus1 Suc_lessD)
  qed
qed simp

section \<open>Advancing terminates\<close>

lemma advance_each_mono:
  assumes "\<And>s news r. f s news = Some r \<Longrightarrow> g s news = Some r" "advance_each f mk qs news = Some r"
  shows "advance_each g mk qs news = Some r"
  using assms(2)
proof (induction qs arbitrary: news)
  case (Cons q qs)
  show ?case
  proof (cases "mk q")
    case (Inr s)
    obtain r1 where r1: "f s news = Some r1" using Cons.prems Inr by (cases "f s news") auto
    with Cons Inr assms(1) [OF r1] show ?thesis by (cases r1) auto
  qed (use Cons in simp)
qed simp

lemma advance_mono_Suc:
  "llama_grammar_advance_stack d rules s news = Some r \<Longrightarrow> llama_grammar_advance_stack (Suc d) rules s news = Some r"
proof (induction d arbitrary: s news r)
  case (Suc d)
  note each = advance_each_mono [where f = "llama_grammar_advance_stack d rules" and
      g = "llama_grammar_advance_stack (Suc d) rules", OF Suc.IH]
  show ?case
  proof (cases "elem_at rules (last s)")
    case (Inr e)
    show ?thesis
    proof (cases "s \<noteq> [] \<and> ge_type e = LLAMA_GRETYPE_RULE_REF")
      case True
      obtain r1 where a: "alternates_of rules (ge_value e) = r1" by simp
      from Suc.prems True Inr a each show ?thesis by (cases r1) (auto simp: advance_Suc)
    next
      case False
      with Suc.prems Inr show ?thesis by (auto simp: advance_Suc)
    qed
  qed (use Suc.prems in \<open>auto simp: advance_Suc\<close>)
qed simp

lemma advance_mono:
  assumes "llama_grammar_advance_stack d rules s news = Some r" "d \<le> k"
  shows "llama_grammar_advance_stack k rules s news = Some r"
proof -
  have "llama_grammar_advance_stack (d + j) rules s news = Some r" for j
    by (induction j) (simp_all add: assms(1) advance_mono_Suc)
  from this [of "k - d"] assms(2) show ?thesis by simp
qed

definition halts :: "llama_grammar_rules \<Rightarrow> llama_grammar_stack \<Rightarrow> bool" where
  "halts rules s \<longleftrightarrow> (\<exists>d. \<forall>news. llama_grammar_advance_stack d rules s news \<noteq> None)"

lemma halts_each:
  assumes "\<And>q s. q \<in> set qs \<Longrightarrow> mk q = Inr s \<Longrightarrow> halts rules s"
  shows "\<exists>d. \<forall>news. advance_each (llama_grammar_advance_stack d rules) mk qs news \<noteq> None"
  using assms
proof (induction qs)
  case (Cons q qs)
  then obtain d1 where d1: "\<And>news. advance_each (llama_grammar_advance_stack d1 rules) mk qs news \<noteq> None"
    by (metis list.set_intros(2))
  show ?case
  proof (cases "mk q")
    case (Inr s)
    with Cons.prems [of q s] obtain d2 where d2: "\<And>news. llama_grammar_advance_stack d2 rules s news \<noteq> None"
      by (auto simp: halts_def)
    have "advance_each (llama_grammar_advance_stack (max d1 d2) rules) mk (q # qs) news \<noteq> None" for news
    proof -
      from d2 obtain r where "llama_grammar_advance_stack d2 rules s news = Some r" by blast
      then have r: "llama_grammar_advance_stack (max d1 d2) rules s news = Some r" by (rule advance_mono) simp
      have "advance_each (llama_grammar_advance_stack (max d1 d2) rules) mk qs n \<noteq> None" for n
      proof -
        from d1 obtain r1 where "advance_each (llama_grammar_advance_stack d1 rules) mk qs n = Some r1" by blast
        then have "advance_each (llama_grammar_advance_stack (max d1 d2) rules) mk qs n = Some r1"
          by (rule advance_each_mono [rotated]) (erule advance_mono, simp)
        then show ?thesis by simp
      qed
      with Inr r show ?thesis by (cases r) auto
    qed
    then show ?thesis by blast
  qed simp
qed simp

definition claim :: "llama_grammar_rules \<Rightarrow> nat \<Rightarrow> bool" where
  "claim rules v \<longleftrightarrow> (\<forall>qs q bs. alternates_of rules v = Inr qs \<longrightarrow> q \<in> set qs
     \<longrightarrow> \<not> is_end_of_sequence (hd (elems_at rules q)) \<longrightarrow> stack_ok rules bs
     \<longrightarrow> (emptiable rules v \<longrightarrow> halts rules bs) \<longrightarrow> halts rules (bs @ [q]))"

text \<open>Every rule that can derive the empty text has an alternate without elements: a rule has one, or each of its
  alternates has an element that is not a reference to a rule with one.\<close>

definition visibly_empty :: "llama_grammar_rules \<Rightarrow> bool" where
  "visibly_empty rules \<longleftrightarrow> (\<forall>v < length rules. emptiable rules v \<or> (\<forall>qs. alternates_of rules v = Inr qs \<longrightarrow>
     (\<forall>q \<in> set qs. is_end_of_sequence (hd (elems_at rules q)) \<or> blocks (emptiable rules) (elems_at rules q))))"

lemma alternate_split:
  assumes "alternates_of rules v = Inr qs" "q \<in> set qs"
  obtains i where "q = (v, i)" "v < length rules" "elems_at rules q = drop i (rules ! v)"
    "i = 0 \<or> (\<exists>xs a. is_end_of_sequence a \<and> rules ! v = xs @ a # drop i (rules ! v))"
proof -
  from assms obtain js where n: "next_alternates 0 (rules ! v) = Inr js" "q \<in> Pair v ` set (0 # js)" and v: "v < length rules"
    by (auto simp: alternates_of_def rbind_eq_Inr_iff split: if_splits)
  then obtain i where i: "q = (v, i)" "i = 0 \<or> i \<in> set js" by auto
  with next_alternates_split [OF n(1), of i] v show ?thesis
    by (intro that [OF i(1) v]) (auto simp: elems_at_def)
qed

lemma alternate_leads:
  assumes "alternates_of rules v = Inr qs" "q \<in> set qs"
  shows "leads (emptiable rules) (elems_at rules q) \<subseteq> leftmost (emptiable rules) True (rules ! v)"
  using assms
proof (rule alternate_split)
  fix i assume i: "elems_at rules q = drop i (rules ! v)"
    "i = 0 \<or> (\<exists>xs a. is_end_of_sequence a \<and> rules ! v = xs @ a # drop i (rules ! v))"
  have "leftmost (emptiable rules) True (drop i (rules ! v)) \<subseteq> leftmost (emptiable rules) True (rules ! v)"
    using i(2) leftmost_suffix by (metis drop0 order_refl)
  with leads_leftmost [of "emptiable rules" "drop i (rules ! v)"] show ?thesis unfolding i(1) by blast
qed

lemma has_empty_suffix:
  "is_end_of_sequence a \<Longrightarrow> is_end_of_sequence b \<Longrightarrow> has_empty_alternate r (xs @ a # b # es)"
  by (induction xs arbitrary: r) auto

lemma alternate_empty:
  assumes "alternates_of rules v = Inr qs" "q \<in> set qs" "is_end_of_sequence (hd (elems_at rules q))" "elems_at rules q \<noteq> []"
  shows "emptiable rules v"
  using assms(1,2)
proof (rule alternate_split)
  fix i assume i: "elems_at rules q = drop i (rules ! v)"
    "i = 0 \<or> (\<exists>xs a. is_end_of_sequence a \<and> rules ! v = xs @ a # drop i (rules ! v))"
  obtain b es where b: "drop i (rules ! v) = b # es" "is_end_of_sequence b"
    using assms(3,4) i(1) by (cases "drop i (rules ! v)") auto
  from i(2) show ?thesis
  proof
    assume "i = 0"
    with b show ?thesis by (simp add: emptiable_def)
  next
    assume "\<exists>xs a. is_end_of_sequence a \<and> rules ! v = xs @ a # drop i (rules ! v)"
    with b has_empty_suffix show ?thesis unfolding emptiable_def by metis
  qed
qed

lemma halts_at_char: "at_char rules s \<Longrightarrow> halts rules s"
proof -
  assume c: "at_char rules s"
  have "llama_grammar_advance_stack (Suc 0) rules s news \<noteq> None" for news
    using c by (cases "elems_at rules (last s)")
      (auto simp: advance_Suc at_char_def is_positive_char_def is_negative_char_def elem_at_def)
  then show ?thesis by (auto simp: halts_def)
qed

lemma halts_top:
  assumes "wf_grammar rules" "stack_ok rules (bs @ [p])"
    and "\<And>v. v \<in> leads (emptiable rules) (elems_at rules p) \<Longrightarrow> claim rules v"
    and "\<not> blocks (emptiable rules) (elems_at rules p) \<Longrightarrow> halts rules bs"
  shows "halts rules (bs @ [p])"
  using assms(2-)
proof (induction "length (elems_at rules p)" arbitrary: p rule: less_induct)
  case less
  from assms(1) less.prems(1) show ?case
  proof (cases rule: stack_cases)
    case stop
    then show ?thesis by (rule halts_at_char)
  next
    case (ref v es qs)
    from ref(2) have p: "elems_at rules p = Elem LLAMA_GRETYPE_RULE_REF v # es" by simp
    have "good_rest (Elem LLAMA_GRETYPE_RULE_REF v # es)" using less.prems(1) p by (simp add: ptr_ok_def)
    then have es: "good_rest es" by (rule good_rest_head) (auto simp: is_end_of_sequence_def is_positive_char_def is_negative_char_def)
    then obtain b t where bt: "es = b # t" by (cases es) (auto dest: good_rest_nonempty)
    define s1 where "s1 = (if is_end_of_sequence (hd es) then bs else bs @ [next_ptr p])"
    have nx: "elems_at rules (next_ptr p) = es" by (rule elems_at_next [OF p])
    then have s1: "push_ptr rules (next_ptr p) bs = Inr s1" "stack_ok rules s1"
      using push_ptr_good [of rules "next_ptr p" bs] es less.prems(1) by (auto simp: s1_def ptr_ok_def)
    have below: "halts rules s1" if e: "emptiable rules v"
    proof (cases "is_end_of_sequence (hd es)")
      case True
      with less.prems(3) e show ?thesis by (simp add: p bt s1_def)
    next
      case False
      have "halts rules (bs @ [next_ptr p])"
      proof (rule less.hyps)
        show "length (elems_at rules (next_ptr p)) < length (elems_at rules p)" by (simp add: nx p)
        show "stack_ok rules (bs @ [next_ptr p])" using s1(2) False by (simp add: s1_def)
        show "claim rules u" if "u \<in> leads (emptiable rules) (elems_at rules (next_ptr p))" for u
          using that less.prems(2) e by (simp add: nx p)
        show "halts rules bs" if "\<not> blocks (emptiable rules) (elems_at rules (next_ptr p))"
          using that less.prems(3) e by (simp add: nx p)
      qed
      with False show ?thesis by (simp add: s1_def)
    qed
    have alt: "halts rules s" if q: "q \<in> set qs" "alt_stack rules (bs @ [p]) q = Inr s" for q s
    proof -
      have gq: "good_rest (elems_at rules q)"
        using alternates_of_good [OF assms(1) elems_at_refs [OF assms(1) p]] ref(3) q(1) by (metis Inr_inject)
      with q(2) s1(1) have s: "s = (if is_end_of_sequence (hd (elems_at rules q)) then s1 else s1 @ [q])"
        by (simp add: alt_stack_def push_ptr_good)
      show ?thesis
      proof (cases "is_end_of_sequence (hd (elems_at rules q))")
        case False
        have "claim rules v" by (rule less.prems(2)) (simp add: p)
        from this [unfolded claim_def, rule_format, OF ref(3) q(1) False s1(2) below] s False show ?thesis by simp
      next
        case True
        then have e: "emptiable rules v"
          using alternate_empty [OF ref(3) q(1)] good_rest_nonempty [OF gq] by blast
        with s True below show ?thesis by simp
      qed
    qed
    obtain d where d: "\<And>news. advance_each (llama_grammar_advance_stack d rules) (alt_stack rules (bs @ [p])) qs news \<noteq> None"
      using halts_each [of qs "alt_stack rules (bs @ [p])" rules] alt by blast
    have "llama_grammar_advance_stack (Suc d) rules (bs @ [p]) news \<noteq> None" for news
      using d [of news] ref(3) by (simp add: advance_Suc p elem_at_def del: not_None_eq)
    then show ?thesis unfolding halts_def by blast
  qed
qed

lemma leftmost_below: "w \<in> leftmost E r es \<Longrightarrow> refs_below n es \<Longrightarrow> w < n"
  by (induction E r es rule: leftmost.induct) (auto simp: refs_below_Cons split: if_splits)

lemma leads_below: "w \<in> leads E es \<Longrightarrow> refs_below n es \<Longrightarrow> w < n"
  using leads_leftmost leftmost_below by blast

lemma ptr_ok_alternate:
  assumes "wf_grammar rules" "alternates_of rules v = Inr qs" "q \<in> set qs" "\<not> is_end_of_sequence (hd (elems_at rules q))"
  shows "ptr_ok rules q"
proof -
  have "v < length rules" using assms(2) by (auto simp: alternates_of_def split: if_splits)
  from alternates_of_good [OF assms(1) this] assms(2-4) show ?thesis unfolding ptr_ok_def by (metis Inr_inject)
qed

lemma claim_acc:
  assumes "wf_grammar rules" "visibly_empty rules" "v \<in> Wellfounded.acc (left_edges rules)" "v < length rules"
  shows "claim rules v"
  using assms(3,4)
proof (induction v rule: acc_induct_rule [consumes 1, case_names step])
  case (step v)
  show ?case unfolding claim_def
  proof (intro allI impI)
    fix qs q bs
    assume q: "alternates_of rules v = Inr qs" "q \<in> set qs" "\<not> is_end_of_sequence (hd (elems_at rules q))"
      and bs: "stack_ok rules bs" and e: "emptiable rules v \<longrightarrow> halts rules bs"
    show "halts rules (bs @ [q])"
    proof (rule halts_top [OF assms(1)])
      show "stack_ok rules (bs @ [q])" using bs ptr_ok_alternate [OF assms(1) q] by simp
      show "claim rules w" if "w \<in> leads (emptiable rules) (elems_at rules q)" for w
      proof -
        from that alternate_leads [OF q(1,2)] have w: "w \<in> leftmost (emptiable rules) True (rules ! v)" by blast
        with leftmost_below refs_below_rule [OF assms(1) step.prems] have "w < length rules" by blast
        with step.IH w show ?thesis by (simp add: left_edges_def)
      qed
      show "halts rules bs" if "\<not> blocks (emptiable rules) (elems_at rules q)"
        using that assms(2) q e step.prems by (auto simp: visibly_empty_def)
    qed
  qed
qed

lemma elems_at_below: "wf_grammar rules \<Longrightarrow> refs_below (length rules) (elems_at rules p)"
  using refs_below_rule [of rules "fst p"] by (auto simp: elems_at_def refs_below_def dest: in_set_dropD)

lemma all_halt:
  assumes "wf_grammar rules" "visibly_empty rules" "\<And>v. v < length rules \<Longrightarrow> v \<in> Wellfounded.acc (left_edges rules)"
    and "stack_ok rules s"
  shows "halts rules s"
  using assms(4)
proof (induction s rule: rev_induct)
  case Nil
  then show ?case by (simp add: halts_at_char at_char_def)
next
  case (snoc p bs)
  show ?case
  proof (rule halts_top [OF assms(1) snoc.prems])
    show "claim rules v" if "v \<in> leads (emptiable rules) (elems_at rules p)" for v
    proof -
      have "v < length rules" by (rule leads_below [OF that elems_at_below [OF assms(1)]])
      with claim_acc [OF assms(1,2) assms(3)] show ?thesis by blast
    qed
    show "halts rules bs" using snoc by simp
  qed
qed

section \<open>Accepting terminates\<close>

lemma accept_stack_returns:
  assumes "wf_grammar rules" "resting rules s" "\<And>s. stack_ok rules s \<Longrightarrow> halts rules s"
  shows "\<exists>d. \<forall>k \<ge> d. \<forall>news. accept_stack k rules c s news \<noteq> None"
proof (cases "s = []")
  case True
  then show ?thesis by (simp add: accept_stack_def)
next
  case False
  from resting_top [OF assms(2) False] obtain rest s' where
    m: "\<And>c. \<exists>f. llama_grammar_match_char (elems_at rules (last s)) c = Inr (f, rest)"
    and p: "push_ptr rules (ptr_to rules (last s) rest) (butlast s) = Inr s'" "stack_ok rules s'" by metis
  obtain f where f: "llama_grammar_match_char (elems_at rules (last s)) c = Inr (f, rest)" using m by blast
  from assms(3) [OF p(2)] obtain d where d: "\<And>news. llama_grammar_advance_stack d rules s' news \<noteq> None"
    by (auto simp: halts_def)
  have "accept_stack k rules c s news \<noteq> None" if "d \<le> k" for k news
  proof -
    from d obtain r where "llama_grammar_advance_stack d rules s' news = Some r" by blast
    from advance_mono [OF this that] f p False show ?thesis by (simp add: accept_stack_def)
  qed
  then show ?thesis by blast
qed

lemma accept_each_returns:
  assumes "wf_grammar rules" "\<forall>s \<in> set stacks. resting rules s" "\<And>s. stack_ok rules s \<Longrightarrow> halts rules s"
  shows "\<exists>d. \<forall>k \<ge> d. \<forall>news. accept_each k rules c stacks news \<noteq> None"
  using assms(2)
proof (induction stacks)
  case (Cons s stacks)
  then obtain d1 where d1: "\<And>k news. d1 \<le> k \<Longrightarrow> accept_each k rules c stacks news \<noteq> None" by auto
  from Cons.prems accept_stack_returns [OF assms(1) _ assms(3), of s c] obtain d2 where
    d2: "\<And>k news. d2 \<le> k \<Longrightarrow> accept_stack k rules c s news \<noteq> None" by auto
  have "accept_each k rules c (s # stacks) news \<noteq> None" if "max d1 d2 \<le> k" for k news
  proof -
    from d2 [of k news] that obtain r where r: "accept_stack k rules c s news = Some r" by auto
    with d1 [of k] that show ?thesis by (cases r) auto
  qed
  then show ?case by blast
qed simp

lemma accept_stack_mono:
  assumes "accept_stack d rules c s news = Some r" "d \<le> k"
  shows "accept_stack k rules c s news = Some r"
proof (cases "s = []")
  case False
  show ?thesis
  proof (cases "llama_grammar_match_char (elems_at rules (last s)) c")
    case (Inr m)
    obtain f rest where m: "m = (f, rest)" by (cases m)
    show ?thesis
    proof (cases "f")
      case True
      with assms False Inr m show ?thesis
        by (cases "push_ptr rules (ptr_to rules (last s) rest) (butlast s)")
          (auto simp: accept_stack_def intro: advance_mono)
    qed (use assms False Inr m in \<open>simp add: accept_stack_def\<close>)
  qed (use assms False in \<open>simp add: accept_stack_def\<close>)
qed (use assms in \<open>simp add: accept_stack_def\<close>)

lemma accept_each_mono:
  assumes "accept_each d rules c stacks news = Some r" "d \<le> k"
  shows "accept_each k rules c stacks news = Some r"
  using assms(1)
proof (induction stacks arbitrary: news)
  case (Cons s stacks)
  then obtain r1 where r1: "accept_stack d rules c s news = Some r1"
    by (cases "accept_stack d rules c s news") auto
  with Cons accept_stack_mono [OF r1 assms(2)] show ?case by (cases r1) auto
qed simp

lemma accept_code_points_returns:
  assumes "wf_grammar rules" "\<forall>s \<in> set stacks. resting rules s" "\<And>s. stack_ok rules s \<Longrightarrow> halts rules s"
  shows "\<exists>d. \<forall>k \<ge> d. accept_code_points k rules cs stacks \<noteq> None"
  using assms(2)
proof (induction cs arbitrary: stacks)
  case (Cons c cs)
  from accept_each_returns [OF assms(1) Cons.prems assms(3), of c] obtain d1 where
    "\<And>k. d1 \<le> k \<Longrightarrow> llama_grammar_accept k rules stacks c \<noteq> None" by (auto simp: llama_grammar_accept_def)
  then obtain r1 where r1: "llama_grammar_accept d1 rules stacks c = Some r1" by blast
  from accept_spec [OF assms(1) Cons.prems r1] obtain out1 where
    o1: "r1 = Inr out1" "\<forall>s \<in> set out1. resting rules s" by metis
  from Cons.IH [OF o1(2)] obtain d2 where d2: "\<And>k. d2 \<le> k \<Longrightarrow> accept_code_points k rules cs out1 \<noteq> None" by blast
  have "accept_code_points k rules (c # cs) stacks \<noteq> None" if "max d1 d2 \<le> k" for k
  proof -
    have "d1 \<le> k" using that by simp
    from accept_each_mono [OF r1 [unfolded llama_grammar_accept_def] this]
    have "llama_grammar_accept k rules stacks c = Some r1" by (simp add: llama_grammar_accept_def)
    with d2 [of k] that o1(1) show ?thesis by simp
  qed
  then show ?case by blast
qed simp

lemma initial_stacks_return:
  assumes "wf_grammar rules" "start < length rules" "\<And>s. stack_ok rules s \<Longrightarrow> halts rules s"
  shows "\<exists>d. initial_stacks d rules start \<noteq> None"
proof -
  obtain qs where qs: "alternates_of rules start = Inr qs" "\<And>q. q \<in> set qs \<Longrightarrow> good_rest (elems_at rules q)"
    using alternates_of_good [OF assms(1,2)] by metis
  have "halts rules s" if "q \<in> set qs" "push_ptr rules q [] = Inr s" for q s
  proof (rule assms(3))
    from push_ptr_ok [OF qs(2) [OF that(1)], of "[]"] that(2) show "stack_ok rules s" by auto
  qed
  with halts_each [of qs "\<lambda>q. push_ptr rules q []" rules] obtain d where
    "\<And>news. advance_each (llama_grammar_advance_stack d rules) (\<lambda>q. push_ptr rules q []) qs news \<noteq> None"
    by blast
  with qs(1) show ?thesis by (intro exI [of _ d]) (simp add: initial_stacks_def del: not_None_eq)
qed

lemma initial_stacks_mono:
  assumes "initial_stacks d rules start = Some r" "d \<le> k"
  shows "initial_stacks k rules start = Some r"
  using assms advance_each_mono [OF advance_mono [OF _ assms(2)]]
  by (cases "alternates_of rules start") (auto simp: initial_stacks_def)

lemma accept_code_points_mono:
  assumes "accept_code_points d rules cs stacks = Some r" "d \<le> k"
  shows "accept_code_points k rules cs stacks = Some r"
  using assms(1)
proof (induction cs arbitrary: stacks)
  case (Cons c cs)
  then obtain r1 where r1: "llama_grammar_accept d rules stacks c = Some r1"
    by (cases "llama_grammar_accept d rules stacks c") auto
  from accept_each_mono [OF r1 [unfolded llama_grammar_accept_def] assms(2)]
  have "llama_grammar_accept k rules stacks c = Some r1" by (simp add: llama_grammar_accept_def)
  with Cons r1 show ?case by (cases r1) auto
qed simp

section \<open>Grammars that the check lets through\<close>

definition lr_checked :: "llama_grammar_rules \<Rightarrow> bool fuelled" where
  "lr_checked rules = check_left_recursion (length rules + 1) rules [0..<length rules] (lr_start (length rules))"

lemma lr_checked_returns:
  assumes "wf_grammar rules"
  obtains b where "lr_checked rules = Some (Inr b)"
proof -
  have "mbe_ok rules (lr_start (length rules))" by (rule lr_start_ok)
  then have "lr_sizes (length rules) (lr_start (length rules))" by (simp add: mbe_ok_def)
  moreover have "\<forall>b \<in> set (lr_in_progress (lr_start (length rules))). \<not> b" by (simp add: lr_start_def)
  moreover have "set [0..<length rules] \<subseteq> {..<length rules}" by auto
  ultimately show ?thesis unfolding lr_checked_def using check_total [OF assms(1)] that by (metis lr_checked_def)
qed

lemma checked_halts:
  assumes "wf_grammar rules" "visibly_empty rules" "lr_checked rules = Some (Inr False)" "stack_ok rules s"
  shows "halts rules s"
proof (rule all_halt [OF assms(1,2) _ assms(4)])
  from check_ok [OF assms(1) _ lr_start_ok, of "[0..<length rules]" "length rules + 1"] assms(3)
  show "v \<in> Wellfounded.acc (left_edges rules)" if "v < length rules" for v
    using that by (auto simp: atLeast0LessThan lr_checked_def)
qed

lemma init_checked:
  assumes "wf_grammar rules" "lr_checked rules = Some (Inr b)"
  shows "llama_grammar_init_impl depth rules start =
    (if b then Some (Inr None)
     else fuel_bind (initial_stacks depth rules start) (\<lambda>stacks.
       Some (Inr (Some \<lparr>g_rules = rules, g_stacks = stacks, g_partial_utf8 = fresh_utf8\<rparr>))))"
  using assms(2) by (simp add: llama_grammar_init_impl_def copy_rules_wf [OF assms(1)] lr_checked_def)

lemma initial_stacks_checked:
  assumes "wf_grammar rules" "visibly_empty rules" "start < length rules" "lr_checked rules = Some (Inr False)"
  obtains d stacks where "\<And>k. d \<le> k \<Longrightarrow> initial_stacks k rules start = Some (Inr stacks)"
    "\<forall>s \<in> set stacks. resting rules s"
proof -
  from initial_stacks_return [OF assms(1,3) checked_halts [OF assms(1,2,4)]] obtain d r where
    d: "initial_stacks d rules start = Some r" by blast
  from initial_stacks_spec [OF assms(1,3) d] obtain out where
    o: "r = Inr out" "\<forall>s \<in> set out. resting rules s" by blast
  with initial_stacks_mono [OF d] show ?thesis by (intro that [of d out]) simp_all
qed

text \<open>C2: The automaton accepts exactly the language of the grammar.  For a well-formed grammar that the
  left recursion check lets through and in which every rule that can be empty has an alternate that is
  empty as written, setting up the automaton returns a grammar at every depth from some depth on, and for
  every input \<open>w\<close> there is a depth from which on reading it returns stacks: the empty stack, which allows the
  end of generation, is among them exactly when the start rule derives \<open>w\<close>, and what they still accept
  are exactly the continuations of \<open>w\<close> in the language.\<close>

theorem automaton_language:
  assumes "wf_grammar rules" and "start < length rules" and "visibly_empty rules"
    and "check_left_recursion (length rules + 1) rules [0..<length rules] (lr_start (length rules)) = Some (Inr False)"
  shows "\<exists>d g. (\<forall>depth \<ge> d. llama_grammar_init_impl depth rules start = Some (Inr (Some g)))
    \<and> (\<forall>w. \<exists>m stacks. (\<forall>n \<ge> m. accept_code_points n (g_rules g) w (g_stacks g) = Some (Inr stacks))
         \<and> ([] \<in> set stacks \<longleftrightarrow> rule_word rules start w)
         \<and> (\<forall>v. stacks_lang rules stacks v \<longleftrightarrow> rule_word rules start (w @ v)))"
proof -
  have c: "lr_checked rules = Some (Inr False)" using assms(4) by (simp add: lr_checked_def)
  obtain d stacks0 where d: "\<And>k. d \<le> k \<Longrightarrow> initial_stacks k rules start = Some (Inr stacks0)"
    "\<forall>s \<in> set stacks0. resting rules s"
    by (rule initial_stacks_checked [OF assms(1,3,2) c]) blast
  define g where "g = \<lparr>g_rules = rules, g_stacks = stacks0, g_partial_utf8 = fresh_utf8\<rparr>"
  have init: "llama_grammar_init_impl depth rules start = Some (Inr (Some g))" if "d \<le> depth" for depth
    using d(1) [OF that] by (simp add: init_checked [OF assms(1) c] g_def)
  have "\<exists>m stacks. (\<forall>n \<ge> m. accept_code_points n (g_rules g) w (g_stacks g) = Some (Inr stacks))
      \<and> ([] \<in> set stacks \<longleftrightarrow> rule_word rules start w)
      \<and> (\<forall>v. stacks_lang rules stacks v \<longleftrightarrow> rule_word rules start (w @ v))" for w
  proof -
    from accept_code_points_returns [OF assms(1) d(2) checked_halts [OF assms(1,3) c], of w] obtain m r where
      m: "accept_code_points m (g_rules g) w (g_stacks g) = Some r" by (auto simp: g_def)
    from automaton_language_run [OF assms(1,2) init [OF order_refl] m] accept_code_points_mono [OF m] show ?thesis
      by blast
  qed
  with init show ?thesis by blast
qed

lemma ab_visibly: "visibly_empty ab_rules"
  by (simp add: visibly_empty_def ab_rules_def alternates_of_def elems_at_def is_end_of_sequence_def)

lemma ab_checked: "check_left_recursion (length ab_rules + 1) ab_rules [0..<length ab_rules] (lr_start (length ab_rules))
    = Some (Inr False)"
  by (simp add: ab_rules_def lr_start_def is_end_of_sequence_def numeral_2_eq_2)

theorem automaton_language_witness: "rule_word ab_rules 0 [97, 98]"
proof -
  have r: "0 < length ab_rules" by (simp add: ab_rules_def)
  from automaton_language [OF ab_wf r ab_visibly ab_checked] obtain d g where
    g: "\<forall>depth \<ge> d. llama_grammar_init_impl depth ab_rules 0 = Some (Inr (Some g))"
    and l: "\<forall>w. \<exists>m stacks. (\<forall>n \<ge> m. accept_code_points n (g_rules g) w (g_stacks g) = Some (Inr stacks))
         \<and> ([] \<in> set stacks \<longleftrightarrow> rule_word ab_rules 0 w)
         \<and> (\<forall>v. stacks_lang ab_rules stacks v \<longleftrightarrow> rule_word ab_rules 0 (w @ v))" by blast
  note eval = ab_rules_def grammar_eval
  from g have "llama_grammar_init_impl (Suc d) ab_rules 0 = Some (Inr (Some g))" by simp
  then have gs: "g_stacks g = [[(0, 0)], [(0, 3)]]" "g_rules g = ab_rules" by (auto simp: eval numeral_2_eq_2)
  from l obtain m stacks where "\<forall>n \<ge> m. accept_code_points n ab_rules [97, 98] [[(0, 0)], [(0, 3)]] = Some (Inr stacks)"
    and s: "[] \<in> set stacks \<longleftrightarrow> rule_word ab_rules 0 [97, 98]" unfolding gs by blast
  then have "accept_code_points (Suc (Suc m)) ab_rules [97, 98] [[(0, 0)], [(0, 3)]] = Some (Inr stacks)"
    by (metis le_SucI order_refl)
  moreover from ab_run have "accept_code_points (Suc (Suc m)) ab_rules [97, 98] [[(0, 0)], [(0, 3)]] = Some (Inr [[]])"
    by (rule accept_code_points_mono) simp
  ultimately show ?thesis using s by simp
qed

section \<open>A left recursion that the check misses\<close>

text \<open>\<^verbatim>\<open>root ::= b root | "x"\<close>, \<^verbatim>\<open>b ::= c\<close>, \<^verbatim>\<open>c ::= | "y"\<close>: \<open>b\<close> can be empty, but has no empty
  alternate.\<close>

definition hidden_rules :: llama_grammar_rules where
  "hidden_rules =
     [[Elem LLAMA_GRETYPE_RULE_REF 1, Elem LLAMA_GRETYPE_RULE_REF 0, ALT_elem, Elem LLAMA_GRETYPE_CHAR 120, END_elem],
      [Elem LLAMA_GRETYPE_RULE_REF 2, END_elem],
      [ALT_elem, Elem LLAMA_GRETYPE_CHAR 121, END_elem]]"

definition hidden_grammar :: string where
  "hidden_grammar = ''root ::= b root | [x]'' @ [newline] @ ''b ::= c'' @ [newline] @ ''c ::= | [y]''"

lemma hidden_parse: "parse hidden_grammar = Some (Inr \<lparr>gp_symbol_ids = [(''root'', 0), (''b'', 1), (''c'', 2)],
    gp_rules = hidden_rules\<rparr>)"
  by (simp add: hidden_grammar_def hidden_rules_def parse_eval descent_eval Let_def cong: bind_weak_cong)

lemma hidden_wf: "wf_grammar hidden_rules"
  by (simp add: hidden_rules_def wf_grammar_def wf_rule_def)

lemma hidden_check:
  "check_left_recursion 4 hidden_rules [0, 1, 2] (lr_start 3) = Some (Inr False)"
  by (simp add: hidden_rules_def lr_start_def is_end_of_sequence_def numeral_eq_Suc cong: bind_weak_cong)

text \<open>Two steps of the advance bring the stack of the start rule back on top.\<close>

lemma hidden_loops:
  "llama_grammar_advance_stack d hidden_rules [(0, 0)] news = None"
proof (induction d arbitrary: news rule: less_induct)
  case (less d)
  have e: "elems_at hidden_rules (0, 0) = hidden_rules ! 0" "elems_at hidden_rules (0, 1) = drop 1 (hidden_rules ! 0)"
    "elems_at hidden_rules (1, 0) = hidden_rules ! 1"
    by (simp_all add: elems_at_def hidden_rules_def)
  have a: "alternates_of hidden_rules 1 = Inr [(1, 0)]" "alternates_of hidden_rules 2 = Inr [(2, 0), (2, 1)]"
    "alternates_of hidden_rules 0 = Inr [(0, 0), (0, 3)]"
    by (simp_all add: alternates_of_def hidden_rules_def)
  have s: "alt_stack hidden_rules [(0, 0)] (1, 0) = Inr [(0, 1), (1, 0)]"
    "alt_stack hidden_rules [(0, 1), (1, 0)] (2, 0) = Inr [(0, 1)]"
    "alt_stack hidden_rules [(0, 1)] (0, 0) = Inr [(0, 0)]"
    by (simp_all add: alt_stack_def push_ptr_def elem_at_def elems_at_def next_ptr_def is_end_of_sequence_def hidden_rules_def)
  have t: "elem_at hidden_rules (0, 0) = Inr (Elem LLAMA_GRETYPE_RULE_REF 1)"
    "elem_at hidden_rules (1, 0) = Inr (Elem LLAMA_GRETYPE_RULE_REF 2)"
    "elem_at hidden_rules (0, 1) = Inr (Elem LLAMA_GRETYPE_RULE_REF 0)"
    by (simp_all add: elem_at_def elems_at_def hidden_rules_def)
  have third: "llama_grammar_advance_stack k hidden_rules [(0, 1)] n = None" if "k < d" for k n
    using less.IH [of "k - 1"] that by (cases k) (simp_all add: advance_Suc t a s del: One_nat_def)
  have second: "llama_grammar_advance_stack k hidden_rules [(0, 1), (1, 0)] n = None" if "k < d" for k n
    using third [of "k - 1"] that by (cases k) (simp_all add: advance_Suc t a s del: One_nat_def)
  show ?case
    using second [of "d - 1"] by (cases d) (simp_all add: advance_Suc t a s del: One_nat_def)
qed

text \<open>C35: A left recursion through a rule that is empty only by way of another rule is not detected: for
  \<^verbatim>\<open>root ::= b root | [x]\<close>, \<^verbatim>\<open>b ::= c\<close>, \<^verbatim>\<open>c ::= | [y]\<close> the parser succeeds and the check finds
  nothing, but building the first stacks does not end at any depth of recursion.\<close>

theorem hidden_left_recursion:
  "parse hidden_grammar = Some (Inr \<lparr>gp_symbol_ids = [(''root'', 0), (''b'', 1), (''c'', 2)], gp_rules = hidden_rules\<rparr>)
   \<and> check_left_recursion 4 hidden_rules [0, 1, 2] (lr_start 3) = Some (Inr False)
   \<and> (\<forall>depth. llama_grammar_init_text depth hidden_grammar ''root'' = None)"
proof (intro conjI allI)
  fix depth
  have n: "length hidden_rules = 3" "hidden_rules \<noteq> []" by (simp_all add: hidden_rules_def)
  have a: "alternates_of hidden_rules 0 = Inr [(0, 0), (0, 3)]"
    by (simp add: alternates_of_def hidden_rules_def)
  have "push_ptr hidden_rules (0, 0) [] = Inr [(0, 0)]"
    by (simp add: push_ptr_def elem_at_def elems_at_def is_end_of_sequence_def hidden_rules_def)
  then have "initial_stacks depth hidden_rules 0 = None"
    by (simp add: initial_stacks_def a hidden_loops)
  moreover have "[0..<3] = [0, 1, 2 :: nat]" by (simp add: upt_rec)
  ultimately show "llama_grammar_init_text depth hidden_grammar ''root'' = None"
    using hidden_check
    by (simp add: llama_grammar_init_text_def hidden_parse llama_grammar_init_impl_def n copy_rules_wf [OF hidden_wf])
qed (rule hidden_parse, rule hidden_check)

end
