(* ===== verification/GrammarMask.thy ===== *)
theory GrammarMask
  imports GrammarTerm
begin

text \<open>
  Masking of tokens: what \<^verbatim>\<open>llama_grammar_reject_candidates\<close> rejects, that a token which keeps its
  logit can be accepted, that masking, accepting and reading return, and what the test on a partial character decides.
\<close>

section \<open>Chains of accepted code points\<close>

fun chain :: "llama_grammar_rules \<Rightarrow> nat list \<Rightarrow> llama_grammar_stack \<Rightarrow> llama_grammar_stack \<Rightarrow> bool" where
  "chain rules [] s t \<longleftrightarrow> t = s"
| "chain rules (c # cs) s t \<longleftrightarrow> (\<exists>u. accepts rules c s u \<and> chain rules cs u t)"

lemma accept_set:
  assumes "wf_grammar rules" "\<forall>s \<in> set stacks. resting rules s" "llama_grammar_accept n rules stacks c = Some r"
  shows "\<exists>out. r = Inr out \<and> set out = {t. \<exists>s \<in> set stacks. accepts rules c s t} \<and> (\<forall>s \<in> set out. resting rules s)"
  using assms by (rule accept_spec) (intro exI conjI, assumption+)

lemma accept_code_points_set:
  assumes "wf_grammar rules" "\<forall>s \<in> set stacks. resting rules s"
    and "accept_code_points n rules cs stacks = Some r"
  shows "\<exists>out. r = Inr out \<and> set out = {t. \<exists>s \<in> set stacks. chain rules cs s t}"
  using assms(2,3)
proof (induction cs arbitrary: stacks)
  case (Cons c cs)
  obtain r1 where r1: "llama_grammar_accept n rules stacks c = Some r1"
    using Cons.prems(2) by (cases "llama_grammar_accept n rules stacks c") auto
  from accept_set [OF assms(1) Cons.prems(1) r1] obtain out1 where
    o: "r1 = Inr out1" "set out1 = {t. \<exists>s \<in> set stacks. accepts rules c s t}" "\<forall>s \<in> set out1. resting rules s"
    by blast
  with Cons.prems(2) r1 have "accept_code_points n rules cs out1 = Some r" by simp
  from Cons.IH [OF o(3) this] obtain out where
    out: "r = Inr out" "set out = {t. \<exists>s \<in> set out1. chain rules cs s t}" by blast
  have "set out = {t. \<exists>s \<in> set stacks. chain rules (c # cs) s t}"
    by (rule set_eqI) (auto simp: out(2) o(2))
  with out(1) show ?case by blast
qed auto

section \<open>What is rejected\<close>

text \<open>The code points of a candidate that are still to be read.\<close>

definition tok_rest :: "llama_grammar_candidate \<Rightarrow> nat list" where
  "tok_rest tok = takeWhile (\<lambda>c. c \<noteq> 0) (drop (gc_pos tok) (gc_piece tok))"

definition tok_ok :: "llama_grammar_candidate \<Rightarrow> bool" where
  "tok_ok tok \<longleftrightarrow> 0 \<in> set (drop (gc_pos tok) (gc_piece tok))"

definition ends_well :: "llama_grammar_rules \<Rightarrow> llama_partial_utf8 \<Rightarrow> llama_grammar_stack \<Rightarrow> bool" where
  "ends_well rules pu s \<longleftrightarrow> pu_n_remain pu = 0
     \<or> s \<noteq> [] \<and> llama_grammar_match_partial_char (elems_at rules (last s)) pu = Inr True"

definition survives :: "llama_grammar_rules \<Rightarrow> llama_grammar_candidate \<Rightarrow> llama_grammar_stack \<Rightarrow> bool" where
  "survives rules tok s \<longleftrightarrow> (\<exists>t. chain rules (tok_rest tok) s t \<and> ends_well rules (gc_partial tok) t)"

lemma tok_cases:
  assumes "tok_ok tok"
  obtains (finished) "gc_code_point tok = Inr 0" "tok_rest tok = []"
  | (more) c where "gc_code_point tok = Inr c" "c \<noteq> 0" "tok_ok (tok\<lparr>gc_pos := gc_pos tok + 1\<rparr>)"
      "tok_rest tok = c # tok_rest (tok\<lparr>gc_pos := gc_pos tok + 1\<rparr>)"
proof -
  obtain c cs where d: "drop (gc_pos tok) (gc_piece tok) = c # cs"
    using assms by (cases "drop (gc_pos tok) (gc_piece tok)") (auto simp: tok_ok_def)
  then have p: "gc_code_point tok = Inr c" "drop (gc_pos tok + 1) (gc_piece tok) = cs"
    by (auto simp: gc_code_point_def vec_at_def nth_via_drop)
      (metis drop_all list.distinct(1) not_le, metis drop_Suc drop_tl list.sel(3))
  show ?thesis
  proof (cases "c = 0")
    case True
    with p(1) d show ?thesis by (intro finished) (simp_all add: tok_rest_def)
  next
    case False
    with p d assms show ?thesis by (intro more [of c]) (auto simp: tok_rest_def tok_ok_def)
  qed
qed

lemma match_partial_total:
  "match_range c f es = Inr r \<Longrightarrow> \<exists>b. match_partial_range low high positive es = Inr b"
proof (induction c f es arbitrary: r rule: match_range.induct)
  case (3 chr found e e1 es)
  show ?case
  proof (cases "ge_type e1 = LLAMA_GRETYPE_CHAR_RNG_UPPER")
    case True
    with 3 show ?thesis by (fastforce simp: Let_def split: if_splits)
  next
    case False
    with 3 show ?thesis by (fastforce simp: Let_def split: if_splits)
  qed
qed simp_all

lemma match_partial_char_total:
  assumes "llama_grammar_match_char es c = Inr r"
  shows "\<exists>b. llama_grammar_match_partial_char es pu = Inr b"
proof -
  from assms obtain r' where "match_range c False es = Inr r'" "is_positive_char es \<or> is_negative_char es"
    by (auto simp: llama_grammar_match_char_def rbind_eq_Inr_iff split: if_splits)
  with match_partial_total show ?thesis by (auto simp: llama_grammar_match_partial_char_def Let_def)
qed

lemma survives_empty_stack:
  "tok_ok tok \<Longrightarrow> rejected_at_end tok = Inr (\<not> survives rules tok [])"
  by (erule tok_cases) (auto simp: rejected_at_end_def survives_def accepts_def ends_well_def)

lemma filter_result_set:
  "(\<And>x. x \<in> set xs \<Longrightarrow> P x = Inr (Q x)) \<Longrightarrow> filter_result P xs = Inr (filter Q xs)"
  by (induction xs) auto

lemma sort_candidates_spec:
  assumes "\<forall>tok \<in> set toks. \<exists>d. sort_candidate es tok = Inr d"
  shows "\<exists>rejects nexts. sort_candidates es toks = Inr (rejects, nexts)
    \<and> set rejects = {tok \<in> set toks. sort_candidate es tok = Inr (Some True)}
    \<and> set nexts = (\<lambda>tok. tok\<lparr>gc_pos := gc_pos tok + 1\<rparr>) ` {tok \<in> set toks. sort_candidate es tok = Inr None}"
  using assms
proof (induction toks)
  case (Cons tok toks)
  then obtain d rejects nexts where "sort_candidate es tok = Inr d" "sort_candidates es toks = Inr (rejects, nexts)"
    "set rejects = {tok \<in> set toks. sort_candidate es tok = Inr (Some True)}"
    "set nexts = (\<lambda>tok. tok\<lparr>gc_pos := gc_pos tok + 1\<rparr>) ` {tok \<in> set toks. sort_candidate es tok = Inr None}"
    by auto
  then show ?case by auto
qed simp

lemma reject_each_spec:
  assumes f: "\<And>s toks r. s \<in> set stacks \<Longrightarrow> \<forall>tok \<in> set toks. tok_ok tok \<Longrightarrow> f s toks = Some r \<Longrightarrow>
      \<exists>rejects. r = Inr rejects \<and> set rejects = {tok \<in> set toks. \<not> survives rules tok s}"
    and "\<forall>tok \<in> set toks. tok_ok tok" "reject_each f stacks toks = Some r"
  shows "\<exists>rejects. r = Inr rejects \<and> set rejects = {tok \<in> set toks. \<forall>s \<in> set stacks. \<not> survives rules tok s}"
  using assms
proof (induction stacks arbitrary: toks)
  case (Cons s stacks)
  obtain r1 where r1: "f s toks = Some r1" using Cons.prems(3) by (cases "f s toks") auto
  from Cons.prems(1) [OF _ Cons.prems(2) r1] obtain out1 where
    o: "r1 = Inr out1" "set out1 = {tok \<in> set toks. \<not> survives rules tok s}" by auto
  with Cons.prems r1 have run: "reject_each f stacks out1 = Some r" "\<forall>tok \<in> set out1. tok_ok tok" by auto
  have "\<exists>rejects. r = Inr rejects \<and> set rejects = {tok \<in> set out1. \<forall>s \<in> set stacks. \<not> survives rules tok s}"
    by (rule Cons.IH [OF Cons.prems(1) run(2,1)]) simp_all
  with o(2) show ?case by auto
qed auto

lemma reject_for_stack_spec:
  assumes "wf_grammar rules" "resting rules s" "\<forall>tok \<in> set toks. tok_ok tok"
    and "reject_candidates_for_stack n depth rules s toks = Some r"
  shows "\<exists>rejects. r = Inr rejects \<and> set rejects = {tok \<in> set toks. \<not> survives rules tok s}"
  using assms(2-)
proof (induction n arbitrary: s toks r)
  case (Suc n)
  show ?case
  proof (cases "s = []")
    case True
    with Suc.prems filter_result_set [of toks rejected_at_end "\<lambda>tok. \<not> survives rules tok []"]
    show ?thesis by (auto simp: survives_empty_stack)
  next
    case False
    define es where "es = elems_at rules (last s)"
    from resting_top [OF Suc.prems(1) False] obtain rest s' where
      m: "\<And>c. \<exists>f. llama_grammar_match_char es c = Inr (f, rest)"
      and p: "push_ptr rules (ptr_to rules (last s) rest) (butlast s) = Inr s'" "stack_ok rules s'"
      unfolding es_def by metis
    have acc: "accepts rules c s u \<longleftrightarrow> llama_grammar_match_char es c = Inr (True, rest) \<and> advances rules s' u" for c u
    proof -
      obtain f where "llama_grammar_match_char es c = Inr (f, rest)" using m by blast
      with p False show ?thesis by (auto simp: accepts_def es_def)
    qed
    have dec: "\<exists>d. sort_candidate es tok = Inr d"
      "sort_candidate es tok = Inr (Some True) \<Longrightarrow> \<not> survives rules tok s"
      "sort_candidate es tok = Inr (Some False) \<Longrightarrow> survives rules tok s"
      "sort_candidate es tok = Inr None \<Longrightarrow>
        survives rules tok s \<longleftrightarrow> (\<exists>u. advances rules s' u \<and> survives rules (tok\<lparr>gc_pos := gc_pos tok + 1\<rparr>) u)"
      if "tok_ok tok" for tok
    proof -
      from m [of 0] obtain f0 where "llama_grammar_match_char es 0 = Inr (f0, rest)" by blast
      from match_partial_char_total [OF this] obtain b where
        b: "llama_grammar_match_partial_char es (gc_partial tok) = Inr b" by blast
      from that have "(\<exists>d. sort_candidate es tok = Inr d) \<and>
        (sort_candidate es tok = Inr (Some True) \<longrightarrow> \<not> survives rules tok s) \<and>
        (sort_candidate es tok = Inr (Some False) \<longrightarrow> survives rules tok s) \<and>
        (sort_candidate es tok = Inr None \<longrightarrow>
        (survives rules tok s \<longleftrightarrow> (\<exists>u. advances rules s' u \<and> survives rules (tok\<lparr>gc_pos := gc_pos tok + 1\<rparr>) u)))"
      proof (cases rule: tok_cases)
        case finished
        with b False show ?thesis by (auto simp: sort_candidate_def survives_def ends_well_def es_def)
      next
        case (more c)
        obtain f where f: "llama_grammar_match_char es c = Inr (f, rest)" using m by blast
        with more acc show ?thesis by (auto simp: sort_candidate_def survives_def)
      qed
      then show "\<exists>d. sort_candidate es tok = Inr d"
        "sort_candidate es tok = Inr (Some True) \<Longrightarrow> \<not> survives rules tok s"
        "sort_candidate es tok = Inr (Some False) \<Longrightarrow> survives rules tok s"
        "sort_candidate es tok = Inr None \<Longrightarrow>
        survives rules tok s \<longleftrightarrow> (\<exists>u. advances rules s' u \<and> survives rules (tok\<lparr>gc_pos := gc_pos tok + 1\<rparr>) u)"
        by blast+
    qed
    have ok: "\<forall>tok \<in> set toks. \<exists>d. sort_candidate es tok = Inr d" using dec(1) Suc.prems(2) by blast
    from sort_candidates_spec [OF this] obtain rejects nexts where sc: "sort_candidates es toks = Inr (rejects, nexts)"
      "set rejects = {tok \<in> set toks. sort_candidate es tok = Inr (Some True)}"
      "set nexts = (\<lambda>tok. tok\<lparr>gc_pos := gc_pos tok + 1\<rparr>) ` {tok \<in> set toks. sort_candidate es tok = Inr None}"
      by blast
    obtain f0 where f0: "llama_grammar_match_char es 0 = Inr (f0, rest)" using m by blast
    define adv where "adv = llama_grammar_advance_stack depth rules s' []"
    have step: "fuel_bind adv (\<lambda>next_stacks.
        fuel_bind (reject_candidates (reject_candidates_for_stack n depth rules) next_stacks nexts)
          (\<lambda>nr. Some (Inr (rejects @ map (\<lambda>tok. tok\<lparr>gc_pos := gc_pos tok - 1\<rparr>) nr)))) = Some r"
      using Suc.prems(3) False sc(1) f0 p(1) by (simp add: es_def adv_def)
    then obtain r1 where r1: "adv = Some r1" by (cases adv) auto
    from advance_spec [OF assms(1) p(2) r1 [unfolded adv_def]] obtain out1 where
      o1: "r1 = Inr out1" "set out1 = Collect (advances rules s')" "out1 \<noteq> []" by fastforce
    define rej where "rej = reject_candidates (reject_candidates_for_stack n depth rules) out1 nexts"
    have step2: "fuel_bind rej (\<lambda>nr. Some (Inr (rejects @ map (\<lambda>tok. tok\<lparr>gc_pos := gc_pos tok - 1\<rparr>) nr))) = Some r"
      using step r1 o1(1) by (simp add: rej_def)
    then obtain r2 where r2: "rej = Some r2" by (cases rej) auto
    have nexts_ok: "\<forall>tok \<in> set nexts. tok_ok tok"
    proof
      fix tok assume "tok \<in> set nexts"
      then obtain tok0 where t: "tok0 \<in> set toks" "sort_candidate es tok0 = Inr None" "tok = tok0\<lparr>gc_pos := gc_pos tok0 + 1\<rparr>"
        unfolding sc(3) by blast
      from Suc.prems(2) t(1) have "tok_ok tok0" by blast
      then show "tok_ok tok"
        by (rule tok_cases) (use t in \<open>auto simp: sort_candidate_def rbind_eq_Inr_iff split: if_splits\<close>)
    qed
    have "\<exists>nr. r2 = Inr nr \<and> set nr = {tok \<in> set nexts. \<forall>u \<in> set out1. \<not> survives rules tok u}"
    proof (cases "nexts = []")
      case True
      with r2 o1(3) show ?thesis by (auto simp: rej_def reject_candidates_def)
    next
      case ne: False
      show ?thesis
      proof (rule reject_each_spec [OF _ nexts_ok])
        show "reject_each (reject_candidates_for_stack n depth rules) out1 nexts = Some r2"
          using r2 o1(3) ne by (simp add: rej_def reject_candidates_def)
        show "\<exists>rejects. q = Inr rejects \<and> set rejects = {tok \<in> set ts. \<not> survives rules tok u}"
          if "u \<in> set out1" "\<forall>tok \<in> set ts. tok_ok tok" "reject_candidates_for_stack n depth rules u ts = Some q" for u ts q
        proof (rule Suc.IH [OF _ that(2,3)])
          from that(1) o1(2) have "advances rules s' u" by simp
          with advances_ok [OF _ assms(1) p(2)] advances_at_char show "resting rules u" by (auto simp: resting_def)
        qed
      qed
    qed
    then obtain nr where nr: "r2 = Inr nr" "set nr = {tok \<in> set nexts. \<forall>u \<in> set out1. \<not> survives rules tok u}" by blast
    have undo: "(\<lambda>tok. tok\<lparr>gc_pos := gc_pos tok - 1\<rparr>) ` set nr =
        {tok \<in> set toks. sort_candidate es tok = Inr None \<and> \<not> survives rules tok s}"
    proof -
      have "(\<lambda>tok. tok\<lparr>gc_pos := gc_pos tok - 1\<rparr>) ` set nr =
          {tok \<in> set toks. sort_candidate es tok = Inr None
             \<and> (\<forall>u. advances rules s' u \<longrightarrow> \<not> survives rules (tok\<lparr>gc_pos := gc_pos tok + 1\<rparr>) u)}"
        unfolding nr(2) sc(3) o1(2) by (force simp: image_iff)
      also have "\<dots> = {tok \<in> set toks. sort_candidate es tok = Inr None \<and> \<not> survives rules tok s}"
        using dec(4) Suc.prems(2) by blast
      finally show ?thesis .
    qed
    have "r = Inr (rejects @ map (\<lambda>tok. tok\<lparr>gc_pos := gc_pos tok - 1\<rparr>) nr)"
      using step2 r2 nr(1) by simp
    moreover have "set rejects \<union> (\<lambda>tok. tok\<lparr>gc_pos := gc_pos tok - 1\<rparr>) ` set nr = {tok \<in> set toks. \<not> survives rules tok s}"
    proof (intro set_eqI iffI)
      fix tok assume "tok \<in> set rejects \<union> (\<lambda>tok. tok\<lparr>gc_pos := gc_pos tok - 1\<rparr>) ` set nr"
      with dec(2) Suc.prems(2) show "tok \<in> {tok \<in> set toks. \<not> survives rules tok s}"
        unfolding undo sc(2) by blast
    next
      fix tok assume t: "tok \<in> {tok \<in> set toks. \<not> survives rules tok s}"
      with ok obtain d where d: "sort_candidate es tok = Inr d" by blast
      consider "d = None" | "d = Some True" | "d = Some False" by (cases d) auto
      then show "tok \<in> set rejects \<union> (\<lambda>tok. tok\<lparr>gc_pos := gc_pos tok - 1\<rparr>) ` set nr"
        unfolding undo sc(2) by cases (use t d dec(3) [of tok] Suc.prems(2) in auto)
    qed
    ultimately show ?thesis by simp
  qed
qed simp

section \<open>A token that keeps its logit can be accepted\<close>

definition g_ok :: "llama_grammar \<Rightarrow> bool" where
  "g_ok g \<longleftrightarrow> wf_grammar (g_rules g) \<and> g_stacks g \<noteq> [] \<and> (\<forall>s \<in> set (g_stacks g). resting (g_rules g) s)"

lemma init_g_ok:
  assumes "wf_grammar rules" "start < length rules" "llama_grammar_init_impl depth rules start = Some (Inr (Some g))"
  shows "g_ok g"
proof -
  note parts = init_parts [OF assms(1,3)]
  from initial_stacks_spec [OF assms(1,2) parts(2)] have
    "g_stacks g \<noteq> [] \<and> (\<forall>s \<in> set (g_stacks g). resting rules s)" by auto
  with assms(1) parts(1) show ?thesis by (simp add: g_ok_def)
qed

definition candidate :: "llama_partial_utf8 \<Rightarrow> nat \<Rightarrow> string \<Rightarrow> llama_grammar_candidate" where
  "candidate pu i piece = \<lparr>gc_index = i, gc_piece = fst (decode_utf8 piece pu), gc_pos = 0,
     gc_partial = snd (decode_utf8 piece pu)\<rparr>"

lemma decode_ends: "\<exists>xs. fst (decode_utf8 s pu) = xs @ [0]"
  using decode_seqs_ends by (auto simp: decode_utf8_def split: option.splits)

lemma candidate_ok: "tok_ok (candidate pu i piece)"
  using decode_ends [of piece pu] by (auto simp: tok_ok_def candidate_def)

lemma grammar_candidates_spec:
  assumes "grammar_candidates v allow pu k toks = Inr (data, cands)"
  shows "length data = length toks \<and> (\<forall>tok \<in> set cands. tok_ok tok)
    \<and> (\<forall>j < length toks. \<forall>t l. data ! j = (t, Some l) \<longrightarrow> toks ! j = (t, Some l)
         \<and> (if v_is_eog v t then allow
            else \<exists>piece. v_piece v t = Some piece \<and> candidate pu (k + j) piece \<in> set cands))"
  using assms
proof (induction toks arbitrary: k data cands)
  case (Cons x toks)
  obtain t0 l0 where x: "x = (t0, l0)" by (cases x)
  from Cons.prems x obtain piece rest cs where p: "v_piece v t0 = Some piece"
    "grammar_candidates v allow pu (k + 1) toks = Inr (rest, cs)"
    by (auto simp: rbind_eq_Inr_iff split: option.splits)
  note ih = Cons.IH [OF p(2)]
  have split_nth: "(\<forall>j < length (x # toks). Q j) \<longleftrightarrow> Q 0 \<and> (\<forall>j < length toks. Q (Suc j))" for Q
    by (auto simp: less_Suc_eq_0_disj)
  from Cons.prems x p have d: "data = (if v_is_eog v t0 then (t0, if allow then l0 else None) # rest
      else if piece = [] \<or> hd piece = CHR 0x00 then (t0, None) # rest else (t0, l0) # rest)"
    "cands = (if v_is_eog v t0 \<or> piece = [] \<or> hd piece = CHR 0x00 then cs else candidate pu k piece # cs)"
    by (auto simp: candidate_def split: if_splits)
  have shift: "k + 1 + j = k + Suc j" for j by simp
  have tail: "\<forall>j < length toks. \<forall>t l. rest ! j = (t, Some l) \<longrightarrow> toks ! j = (t, Some l)
       \<and> (if v_is_eog v t then allow
          else \<exists>piece. v_piece v t = Some piece \<and> candidate pu (k + Suc j) piece \<in> set cands)"
    using ih d(2) unfolding shift by (metis (no_types, lifting) list.set_intros(2))
  have rest: "length rest = length toks" "\<forall>tok \<in> set cs. tok_ok tok" using ih by auto
  show ?case unfolding split_nth
  proof (intro conjI)
    show "length data = length (x # toks)" using rest d(1) by simp
    show "\<forall>tok \<in> set cands. tok_ok tok" using rest(2) d(2) by (auto simp: candidate_ok)
    show "\<forall>t l. data ! 0 = (t, Some l) \<longrightarrow> (x # toks) ! 0 = (t, Some l)
       \<and> (if v_is_eog v t then allow
          else \<exists>piece. v_piece v t = Some piece \<and> candidate pu (k + 0) piece \<in> set cands)"
      using p(1) d by (auto simp: x)
    show "\<forall>j < length toks. \<forall>t l. data ! Suc j = (t, Some l) \<longrightarrow> (x # toks) ! Suc j = (t, Some l)
       \<and> (if v_is_eog v t then allow
          else \<exists>piece. v_piece v t = Some piece \<and> candidate pu (k + Suc j) piece \<in> set cands)"
      using tail d(1) by auto
  qed
qed simp

lemma foldl_mask:
  assumes "foldl (\<lambda>d tok. mask d (gc_index tok)) data rejects ! j = (t, Some l)"
    and "\<forall>tok \<in> set rejects. gc_index tok < length data" "j < length data"
  shows "data ! j = (t, Some l) \<and> (\<forall>tok \<in> set rejects. gc_index tok \<noteq> j)"
  using assms
proof (induction rejects arbitrary: data)
  case (Cons tok rejects)
  then have "mask data (gc_index tok) ! j = (t, Some l) \<and> (\<forall>tok \<in> set rejects. gc_index tok \<noteq> j)"
    by (intro Cons.IH) (auto simp: mask_def)
  with Cons.prems show ?case by (cases "gc_index tok = j") (auto simp: mask_def)
qed simp

lemma grammar_candidates_index:
  "grammar_candidates v allow pu k toks = Inr (data, cands) \<Longrightarrow> tok \<in> set cands \<Longrightarrow> gc_index tok < k + length toks"
proof (induction toks arbitrary: k data cands)
  case (Cons x toks)
  obtain t0 l0 where x: "x = (t0, l0)" by (cases x)
  from Cons.prems(1) x obtain piece rest cs where p: "v_piece v t0 = Some piece"
    "grammar_candidates v allow pu (k + 1) toks = Inr (rest, cs)"
    by (auto simp: rbind_eq_Inr_iff split: option.splits)
  from Cons.prems(1) x p have "set cands \<subseteq> insert (candidate pu k piece) (set cs)"
    by (auto simp: candidate_def split: if_splits)
  with Cons.IH [OF p(2)] Cons.prems(2) show ?case by (auto simp: candidate_def)
qed simp

lemma reject_spec:
  assumes "g_ok g" "\<forall>tok \<in> set toks. tok_ok tok" "toks \<noteq> []"
    and "llama_grammar_reject_candidates n depth (g_rules g) (g_stacks g) toks = Some r"
  shows "\<exists>rejects. r = Inr rejects
    \<and> set rejects = {tok \<in> set toks. \<forall>s \<in> set (g_stacks g). \<not> survives (g_rules g) tok s}"
proof (rule reject_each_spec [OF _ assms(2)])
  show "reject_each (reject_candidates_for_stack n depth (g_rules g)) (g_stacks g) toks = Some r"
    using assms by (simp add: llama_grammar_reject_candidates_def reject_candidates_def g_ok_def)
  show "\<exists>rejects. q = Inr rejects \<and> set rejects = {tok \<in> set ts. \<not> survives (g_rules g) tok s}"
    if "s \<in> set (g_stacks g)" "\<forall>tok \<in> set ts. tok_ok tok"
      "reject_candidates_for_stack n depth (g_rules g) s ts = Some q" for s ts q
    using assms(1) that by (intro reject_for_stack_spec) (auto simp: g_ok_def)
qed

lemma masked_token_not_refused:
  assumes "g_ok g"
    and "llama_grammar_apply_impl n depth v g cur_p = Some (Inr out)"
    and "i < length cur_p" and "out ! i = (t, Some l)"
    and "\<forall>piece. v_piece v t = Some piece \<longrightarrow> 0 \<notin> set (butlast (fst (decode_utf8 piece (g_partial_utf8 g))))"
    and "llama_grammar_accept_impl m v g t = Some r"
  shows "cur_p ! i = (t, Some l) \<and> (\<exists>g'. r = Inr g' \<and> g_ok g' \<and> g_rules g' = g_rules g)"
proof -
  define pu where "pu = g_partial_utf8 g"
  from assms(2) obtain data cands rejects where
    gc: "grammar_candidates v ([] \<in> set (g_stacks g)) pu 0 cur_p = Inr (data, cands)"
    and rj: "llama_grammar_reject_candidates n depth (g_rules g) (g_stacks g) cands = Some (Inr rejects)"
    and out: "out = foldl (\<lambda>d tok. mask d (gc_index tok)) data rejects"
    by (auto simp: llama_grammar_apply_impl_def fuel_bind_Inr pu_def)
  note spec = grammar_candidates_spec [OF gc]
  have sub: "set rejects = {tok \<in> set cands. \<forall>s \<in> set (g_stacks g). \<not> survives (g_rules g) tok s}"
  proof (cases "cands = []")
    case True
    with rj show ?thesis
      by (auto simp: llama_grammar_reject_candidates_def reject_candidates_def split: if_splits)
  next
    case False
    from reject_spec [OF assms(1) _ False rj] spec show ?thesis by auto
  qed
  have "data ! i = (t, Some l) \<and> (\<forall>tok \<in> set rejects. gc_index tok \<noteq> i)"
    by (rule foldl_mask) (use assms(3,4) out sub spec grammar_candidates_index [OF gc] in auto)
  with spec assms(3) have d: "cur_p ! i = (t, Some l)" "\<forall>tok \<in> set rejects. gc_index tok \<noteq> i"
    "if v_is_eog v t then [] \<in> set (g_stacks g)
     else \<exists>piece. v_piece v t = Some piece \<and> candidate pu i piece \<in> set cands" by auto
  show ?thesis
  proof (cases "v_is_eog v t")
    case True
    with d assms(1,6) show ?thesis by (auto simp: llama_grammar_accept_impl_def)
  next
    case False
    with d(3) obtain piece where p: "v_piece v t = Some piece" "candidate pu i piece \<in> set cands" by auto
    with d(2) sub obtain s where s: "s \<in> set (g_stacks g)" "survives (g_rules g) (candidate pu i piece) s"
      by (fastforce simp: candidate_def)
    obtain xs where xs: "fst (decode_utf8 piece pu) = xs @ [0]" using decode_ends by blast
    have "0 \<notin> set xs" using assms(5) p(1) xs by (auto simp: pu_def)
    then have "takeWhile (\<lambda>c. c \<noteq> 0) (xs @ [0]) = xs" by (subst takeWhile_append2) (auto intro!: gr0I)
    then have "tok_rest (candidate pu i piece) = xs" by (simp add: tok_rest_def candidate_def xs)
    with s(2) obtain u where u: "chain (g_rules g) xs s u" by (auto simp: survives_def)
    from assms(6) False p(1) xs obtain q where q: "accept_code_points m (g_rules g) xs (g_stacks g) = Some q"
      by (cases "accept_code_points m (g_rules g) xs (g_stacks g)")
        (auto simp: llama_grammar_accept_impl_def pu_def Let_def)
    have ok: "wf_grammar (g_rules g)" "\<forall>s \<in> set (g_stacks g). resting (g_rules g) s"
      using assms(1) by (auto simp: g_ok_def)
    from accept_code_points_set [OF ok q] accept_code_points_spec [OF ok q] obtain stacks where
      st: "q = Inr stacks" "set stacks = {t. \<exists>s \<in> set (g_stacks g). chain (g_rules g) xs s t}"
        "\<forall>s \<in> set stacks. resting (g_rules g) s" by auto
    with u s(1) have "stacks \<noteq> []" by auto
    with assms(6) False p(1) xs q st ok(1) d(1) show ?thesis
      by (simp add: llama_grammar_accept_impl_def pu_def [symmetric] Let_def) (auto simp: g_ok_def)
  qed
qed

definition sample_vocab :: vocab where
  "sample_vocab = \<lparr>v_piece = (\<lambda>t. if t = 1 then Some ''a'' else if t = 2 then Some ''c'' else None),
     v_is_eog = (\<lambda>t. False)\<rparr>"

definition ab_grammar :: llama_grammar where
  "ab_grammar = \<lparr>g_rules = ab_rules, g_stacks = [[(0, 0)], [(0, 3)]], g_partial_utf8 = fresh_utf8\<rparr>"

lemma ab_g_ok: "g_ok ab_grammar"
  unfolding ab_grammar_def by (rule init_g_ok [OF ab_wf _ ab_init]) (simp add: ab_rules_def)

lemma ab_masked: "llama_grammar_apply_impl (Suc (Suc 0)) (Suc (Suc 0)) sample_vocab ab_grammar [(1, Some (5 :: nat)), (2, Some 7)] =
    Some (Inr [(1, Some 5), (2, None)])"
  by (simp add: llama_grammar_apply_impl_def llama_grammar_reject_candidates_def reject_candidates_def
      sort_candidate_def gc_code_point_def sample_vocab_def ab_grammar_def ab_rules_def grammar_eval decode_eval
      mask_def cong: bind_weak_cong)

section \<open>Masking terminates\<close>

definition short_toks :: "nat \<Rightarrow> llama_grammar_candidate set" where
  "short_toks k = {tok. tok_ok tok \<and> length (tok_rest tok) \<le> k}"

lemma sort_candidates_rest:
  assumes "set toks \<subseteq> short_toks k" and m: "\<And>c. \<exists>f. llama_grammar_match_char es c = Inr (f, rest)"
  shows "\<exists>rejects nexts. sort_candidates es toks = Inr (rejects, nexts)
    \<and> (\<forall>tok \<in> set nexts. tok_ok tok \<and> length (tok_rest tok) < k)"
  using assms(1)
proof (induction toks)
  case (Cons tok toks)
  then have t: "tok_ok tok" "length (tok_rest tok) \<le> k" by (auto simp: short_toks_def)
  from t(1) have "\<exists>d. sort_candidate es tok = Inr d \<and> (d = None \<longrightarrow>
      tok_ok (tok\<lparr>gc_pos := gc_pos tok + 1\<rparr>) \<and> length (tok_rest (tok\<lparr>gc_pos := gc_pos tok + 1\<rparr>)) < k)"
  proof (cases rule: tok_cases)
    case finished
    from m [of 0] match_partial_char_total obtain b where
      "llama_grammar_match_partial_char es (gc_partial tok) = Inr b" by metis
    with finished show ?thesis by (simp add: sort_candidate_def)
  next
    case (more c)
    from m [of c] obtain f where "llama_grammar_match_char es c = Inr (f, rest)" by blast
    with more t(2) show ?thesis by (simp add: sort_candidate_def)
  qed
  with Cons show ?case by auto
qed simp

lemma reject_each_returns:
  assumes "\<And>s ts. s \<in> set stacks \<Longrightarrow> set ts \<subseteq> A \<Longrightarrow> \<exists>out. f s ts = Some (Inr out) \<and> set out \<subseteq> A"
  shows "set ts \<subseteq> A \<Longrightarrow> \<exists>out. reject_each f stacks ts = Some (Inr out) \<and> set out \<subseteq> A"
  using assms
proof (induction stacks arbitrary: ts)
  case (Cons s stacks)
  from Cons.prems(2) [of s ts] Cons.prems(1) obtain out where
    "f s ts = Some (Inr out)" "set out \<subseteq> A" by auto
  with Cons.IH [of out] Cons.prems(2) show ?case by auto
qed simp

text \<open>One level of the recursion: the stacks it goes on with do not depend on the candidates.\<close>

lemma reject_step:
  assumes "wf_grammar rules" "\<And>s. stack_ok rules s \<Longrightarrow> halts rules s" "resting rules s" "s \<noteq> []"
  obtains d1 out1 where "\<forall>u \<in> set out1. resting rules u"
    "\<And>n d toks k. d1 \<le> d \<Longrightarrow> set toks \<subseteq> short_toks k \<Longrightarrow>
       (\<And>nexts. nexts \<noteq> [] \<Longrightarrow> \<forall>tok \<in> set nexts. tok_ok tok \<and> length (tok_rest tok) < k \<Longrightarrow>
          \<exists>out. reject_each (reject_candidates_for_stack n d rules) out1 nexts = Some (Inr out)) \<Longrightarrow>
       reject_candidates_for_stack (Suc n) d rules s toks \<noteq> None"
proof -
  define es where "es = elems_at rules (last s)"
  from resting_top [OF assms(3,4)] obtain rest s' where
    m: "\<And>c. \<exists>f. llama_grammar_match_char es c = Inr (f, rest)"
    and p: "push_ptr rules (ptr_to rules (last s) rest) (butlast s) = Inr s'" "stack_ok rules s'"
    unfolding es_def by metis
  from assms(2) [OF p(2)] obtain d1 r1 where r1: "llama_grammar_advance_stack d1 rules s' [] = Some r1"
    unfolding halts_def by blast
  from advance_spec [OF assms(1) p(2) r1] obtain out1 where
    o1: "r1 = Inr out1" "set out1 = Collect (advances rules s')" "out1 \<noteq> []" by fastforce
  show ?thesis
  proof (rule that [of out1 d1])
    show "\<forall>u \<in> set out1. resting rules u"
      using o1(2) advances_ok [OF _ assms(1) p(2)] advances_at_char by (auto simp: resting_def)
    fix n d k :: nat and toks
    assume d: "d1 \<le> d" and toks: "set toks \<subseteq> short_toks k"
      and each: "\<And>nexts. nexts \<noteq> [] \<Longrightarrow> \<forall>tok \<in> set nexts. tok_ok tok \<and> length (tok_rest tok) < k \<Longrightarrow>
          \<exists>out. reject_each (reject_candidates_for_stack n d rules) out1 nexts = Some (Inr out)"
    from sort_candidates_rest [OF toks m] obtain rejects nexts where
      sc: "sort_candidates es toks = Inr (rejects, nexts)"
        "\<forall>tok \<in> set nexts. tok_ok tok \<and> length (tok_rest tok) < k" by blast
    obtain f0 where f0: "llama_grammar_match_char es 0 = Inr (f0, rest)" using m by blast
    have "\<exists>out. reject_candidates (reject_candidates_for_stack n d rules) out1 nexts = Some (Inr out)"
      using each [OF _ sc(2)] o1(3) by (cases "nexts = []") (auto simp: reject_candidates_def)
    then show "reject_candidates_for_stack (Suc n) d rules s toks \<noteq> None"
      using assms(4) sc(1) f0 p(1) advance_mono [OF r1 d] o1(1) by (auto simp: es_def)
  qed
qed

lemma reject_for_stack_subset:
  assumes "wf_grammar rules" "resting rules s" "set toks \<subseteq> short_toks k"
    and "reject_candidates_for_stack n d rules s toks \<noteq> None"
  shows "\<exists>out. reject_candidates_for_stack n d rules s toks = Some (Inr out) \<and> set out \<subseteq> short_toks k"
proof -
  from assms(4) obtain r where r: "reject_candidates_for_stack n d rules s toks = Some r" by blast
  have "\<forall>tok \<in> set toks. tok_ok tok" using assms(3) by (auto simp: short_toks_def)
  from reject_for_stack_spec [OF assms(1,2) this r] r assms(3) show ?thesis by auto
qed

text \<open>The first fuel counts the code points of a candidate, the second is a depth for the stacks that can be
  reached within that many code points.\<close>

lemma reject_for_stack_returns:
  assumes "wf_grammar rules" "\<And>s. stack_ok rules s \<Longrightarrow> halts rules s"
  shows "resting rules s \<Longrightarrow> \<exists>d0. \<forall>d n toks. d0 \<le> d \<longrightarrow> k < n \<longrightarrow> set toks \<subseteq> short_toks k \<longrightarrow>
    (\<exists>out. reject_candidates_for_stack n d rules s toks = Some (Inr out) \<and> set out \<subseteq> short_toks k)"
proof (induction k arbitrary: s rule: less_induct)
  case (less k)
  show ?case
  proof (cases "s = []")
    case True
    have "reject_candidates_for_stack n d rules s toks \<noteq> None" if "k < n" for n d toks
      using that True by (cases n) simp_all
    with reject_for_stack_subset [OF assms(1) less.prems] show ?thesis by (intro exI [of _ 0]) simp
  next
    case False
    obtain d1 out1 where o: "\<forall>u \<in> set out1. resting rules u" and
      step: "\<And>n d toks k. d1 \<le> d \<Longrightarrow> set toks \<subseteq> short_toks k \<Longrightarrow>
       (\<And>nexts. nexts \<noteq> [] \<Longrightarrow> \<forall>tok \<in> set nexts. tok_ok tok \<and> length (tok_rest tok) < k \<Longrightarrow>
          \<exists>out. reject_each (reject_candidates_for_stack n d rules) out1 nexts = Some (Inr out)) \<Longrightarrow>
       reject_candidates_for_stack (Suc n) d rules s toks \<noteq> None"
      using reject_step [OF assms less.prems False] by metis
    have "\<exists>d2. \<forall>u \<in> set out1. \<forall>d n toks. d2 \<le> d \<longrightarrow> k - 1 < n \<longrightarrow> k \<noteq> 0 \<longrightarrow> set toks \<subseteq> short_toks (k - 1) \<longrightarrow>
        (\<exists>out. reject_candidates_for_stack n d rules u toks = Some (Inr out) \<and> set out \<subseteq> short_toks (k - 1))"
      using o
    proof (induction out1)
      case (Cons u us)
      then obtain d2 where d2: "\<forall>u \<in> set us. \<forall>d n toks. d2 \<le> d \<longrightarrow> k - 1 < n \<longrightarrow> k \<noteq> 0 \<longrightarrow> set toks \<subseteq> short_toks (k - 1) \<longrightarrow>
        (\<exists>out. reject_candidates_for_stack n d rules u toks = Some (Inr out) \<and> set out \<subseteq> short_toks (k - 1))" by auto
      obtain d3 where d3: "\<forall>d n toks. d3 \<le> d \<longrightarrow> k - 1 < n \<longrightarrow> k \<noteq> 0 \<longrightarrow> set toks \<subseteq> short_toks (k - 1) \<longrightarrow>
        (\<exists>out. reject_candidates_for_stack n d rules u toks = Some (Inr out) \<and> set out \<subseteq> short_toks (k - 1))"
        using less.IH [of "k - 1" u] Cons.prems by (cases "k = 0") auto
      show ?case by (intro exI [of _ "max d2 d3"]) (use d2 d3 in auto)
    qed simp
    then obtain d2 where d2: "\<And>u d n toks. u \<in> set out1 \<Longrightarrow> d2 \<le> d \<Longrightarrow> k - 1 < n \<Longrightarrow> k \<noteq> 0 \<Longrightarrow> set toks \<subseteq> short_toks (k - 1) \<Longrightarrow>
        \<exists>out. reject_candidates_for_stack n d rules u toks = Some (Inr out) \<and> set out \<subseteq> short_toks (k - 1)" by blast
    have "reject_candidates_for_stack n d rules s toks \<noteq> None"
      if d: "max d1 d2 \<le> d" and n: "k < n" and toks: "set toks \<subseteq> short_toks k" for d n toks
    proof -
      from n obtain n' where n': "n = Suc n'" "k \<le> n'" by (cases n) auto
      have "\<exists>out. reject_each (reject_candidates_for_stack n' d rules) out1 nexts = Some (Inr out)"
        if "nexts \<noteq> []" "\<forall>tok \<in> set nexts. tok_ok tok \<and> length (tok_rest tok) < k" for nexts
      proof -
        from that have k: "k \<noteq> 0" by (cases nexts) auto
        with that(2) have "set nexts \<subseteq> short_toks (k - 1)" by (auto simp: short_toks_def)
        with reject_each_returns [of out1 "short_toks (k - 1)" "reject_candidates_for_stack n' d rules" nexts]
          d2 [of _ d n'] d n'(2) k show ?thesis by fastforce
      qed
      with step [of d toks k n'] d toks n'(1) show ?thesis by simp
    qed
    with reject_for_stack_subset [OF assms(1) less.prems] show ?thesis by (intro exI [of _ "max d1 d2"]) simp
  qed
qed

lemma reject_each_all_return:
  assumes "wf_grammar rules" "\<And>s. stack_ok rules s \<Longrightarrow> halts rules s" "\<forall>s \<in> set stacks. resting rules s"
  shows "\<exists>d0. \<forall>d n toks. d0 \<le> d \<longrightarrow> k < n \<longrightarrow> set toks \<subseteq> short_toks k \<longrightarrow>
    (\<exists>out. reject_each (reject_candidates_for_stack n d rules) stacks toks = Some (Inr out) \<and> set out \<subseteq> short_toks k)"
  using assms(3)
proof (induction stacks)
  case (Cons s stacks)
  then obtain d1 where d1: "\<forall>d n toks. d1 \<le> d \<longrightarrow> k < n \<longrightarrow> set toks \<subseteq> short_toks k \<longrightarrow>
    (\<exists>out. reject_each (reject_candidates_for_stack n d rules) stacks toks = Some (Inr out) \<and> set out \<subseteq> short_toks k)" by auto
  from reject_for_stack_returns [OF assms(1,2), of s k] Cons.prems obtain d2 where
    d2: "\<forall>d n toks. d2 \<le> d \<longrightarrow> k < n \<longrightarrow> set toks \<subseteq> short_toks k \<longrightarrow>
    (\<exists>out. reject_candidates_for_stack n d rules s toks = Some (Inr out) \<and> set out \<subseteq> short_toks k)" by auto
  show ?case
  proof (intro exI [of _ "max d1 d2"] allI impI)
    fix d n toks assume a: "max d1 d2 \<le> d" "k < n" "set toks \<subseteq> short_toks k"
    then have "d2 \<le> d" "d1 \<le> d" by simp_all
    with d2 a obtain out where "reject_candidates_for_stack n d rules s toks = Some (Inr out)" "set out \<subseteq> short_toks k" by blast
    with d1 a(2) \<open>d1 \<le> d\<close> show "\<exists>out. reject_each (reject_candidates_for_stack n d rules) (s # stacks) toks = Some (Inr out)
      \<and> set out \<subseteq> short_toks k" by simp
  qed
qed simp

section \<open>Grammars that are run safely\<close>

definition safe_grammar :: "llama_grammar \<Rightarrow> bool" where
  "safe_grammar g \<longleftrightarrow> g_ok g \<and> visibly_empty (g_rules g) \<and> lr_checked (g_rules g) = Some (Inr False)"

lemma safe_halts: "safe_grammar g \<Longrightarrow> stack_ok (g_rules g) s \<Longrightarrow> halts (g_rules g) s"
  by (auto simp: safe_grammar_def g_ok_def intro: checked_halts)

lemma init_safe:
  assumes "wf_grammar rules" "start < length rules" "visibly_empty rules"
    and "llama_grammar_init_impl depth rules start = Some (Inr (Some g))"
  shows "safe_grammar g"
  using init_g_ok [OF assms(1,2,4)] init_parts [OF assms(1,4)] assms(3) by (simp add: safe_grammar_def lr_checked_def)

lemma safe_reads:
  assumes "safe_grammar g"
  obtains n stacks where "accept_code_points n (g_rules g) cs (g_stacks g) = Some (Inr stacks)"
    "\<forall>s \<in> set stacks. resting (g_rules g) s"
proof -
  have g: "wf_grammar (g_rules g)" "\<forall>s \<in> set (g_stacks g). resting (g_rules g) s"
    using assms by (auto simp: safe_grammar_def g_ok_def)
  from accept_code_points_returns [OF g safe_halts [OF assms], of cs] obtain n r where
    n: "accept_code_points n (g_rules g) cs (g_stacks g) = Some r" by blast
  from accept_code_points_spec [OF g n] n that show ?thesis by blast
qed

lemma safe_accept_returns:
  assumes "safe_grammar g"
  shows "\<exists>m r. llama_grammar_accept_impl m v g t = Some r"
proof (cases "v_piece v t")
  case (Some piece)
  obtain n stacks where "accept_code_points n (g_rules g) (butlast (fst (decode_utf8 piece (g_partial_utf8 g))))
      (g_stacks g) = Some (Inr stacks)"
    by (rule safe_reads [OF assms])
  with Some show ?thesis by (intro exI [of _ n]) (simp add: llama_grammar_accept_impl_def Let_def)
qed (simp add: llama_grammar_accept_impl_def)

lemma safe_accept:
  assumes "safe_grammar g" "llama_grammar_accept_impl m v g t = Some (Inr g')"
  shows "safe_grammar g' \<and> g_rules g' = g_rules g"
proof (cases "v_is_eog v t")
  case True
  with assms show ?thesis by (auto simp: llama_grammar_accept_impl_def split: if_splits)
next
  case False
  have g: "wf_grammar (g_rules g)" "\<forall>s \<in> set (g_stacks g). resting (g_rules g) s"
    using assms(1) by (auto simp: safe_grammar_def g_ok_def)
  from assms(2) False obtain piece stacks where s: "stacks \<noteq> []"
    "accept_code_points m (g_rules g) (butlast (fst (decode_utf8 piece (g_partial_utf8 g)))) (g_stacks g) = Some (Inr stacks)"
    "g' = g\<lparr>g_stacks := stacks, g_partial_utf8 := snd (decode_utf8 piece (g_partial_utf8 g))\<rparr>"
    by (auto simp: llama_grammar_accept_impl_def Let_def fuel_bind_Inr split: option.splits if_splits)
  from accept_code_points_spec [OF g s(2)] s(1,3) assms(1) show ?thesis
    by (auto simp: safe_grammar_def g_ok_def)
qed

lemma grammar_candidates_total:
  "\<forall>t \<in> fst ` set toks. v_piece v t \<noteq> None \<Longrightarrow> \<exists>data cands. grammar_candidates v allow pu k toks = Inr (data, cands)"
proof (induction toks arbitrary: k)
  case (Cons x toks)
  obtain t l where x: "x = (t, l)" by (cases x)
  from Cons obtain data cands where "grammar_candidates v allow pu (k + 1) toks = Inr (data, cands)" by fastforce
  with Cons.prems x show ?case by auto
qed simp

lemma safe_mask:
  assumes "safe_grammar g" "\<forall>t \<in> fst ` set cur_p. v_piece v t \<noteq> None"
  shows "\<exists>n d out. llama_grammar_apply_impl n d v g cur_p = Some (Inr out)"
proof -
  have g: "wf_grammar (g_rules g)" "\<forall>s \<in> set (g_stacks g). resting (g_rules g) s" "g_stacks g \<noteq> []"
    using assms(1) by (auto simp: safe_grammar_def g_ok_def)
  from grammar_candidates_total [OF assms(2)] obtain data cands where
    gc: "grammar_candidates v ([] \<in> set (g_stacks g)) (g_partial_utf8 g) 0 cur_p = Inr (data, cands)" by blast
  define k where "k = Max (insert 0 ((\<lambda>tok. length (tok_rest tok)) ` set cands))"
  have k: "set cands \<subseteq> short_toks k"
    using grammar_candidates_spec [OF gc] by (auto simp: short_toks_def k_def)
  from reject_each_all_return [OF g(1) safe_halts [OF assms(1)] g(2), of k] k obtain d out where
    "reject_each (reject_candidates_for_stack (Suc k) d (g_rules g)) (g_stacks g) cands = Some (Inr out)" by blast
  then have "\<exists>rejects. llama_grammar_reject_candidates (Suc k) d (g_rules g) (g_stacks g) cands = Some (Inr rejects)"
    using g(3) by (simp add: llama_grammar_reject_candidates_def reject_candidates_def)
  with gc show ?thesis by (intro exI [of _ "Suc k"] exI [of _ d]) (auto simp: llama_grammar_apply_impl_def)
qed

inductive token_run :: "vocab \<Rightarrow> llama_grammar \<Rightarrow> int list \<Rightarrow> llama_grammar \<Rightarrow> bool" for v where
  run_done: "token_run v g [] g"
| run_token: "llama_grammar_accept_impl m v g t = Some (Inr g1) \<Longrightarrow> token_run v g1 ts g2 \<Longrightarrow> token_run v g (t # ts) g2"

lemma token_run_safe: "token_run v g ts g' \<Longrightarrow> safe_grammar g \<Longrightarrow> safe_grammar g'"
  by (induction rule: token_run.induct) (auto dest: safe_accept)

text \<open>C4: Running a grammar never hangs: for a well-formed grammar in which every rule that can be empty has
  an alternate that is empty as written, setting up the automaton returns, with the null pointer or a
  grammar; and whatever tokens have been accepted since, masking any tokens of the vocabulary returns
  without an exception, accepting any token returns, and any text of code points is read to an end without an
  assertion failure.  The depth of recursion that is enough depends on the grammar and on what is read.\<close>

theorem grammar_never_hangs:
  assumes "wf_grammar rules" and "start < length rules" and "visibly_empty rules"
  shows "(\<exists>depth g. llama_grammar_init_impl depth rules start = Some (Inr g))
    \<and> (\<forall>depth g v ts g'. llama_grammar_init_impl depth rules start = Some (Inr (Some g)) \<longrightarrow> token_run v g ts g' \<longrightarrow>
         (\<forall>cur_p :: 'l token_data list. (\<forall>t \<in> fst ` set cur_p. v_piece v t \<noteq> None) \<longrightarrow>
            (\<exists>n d out. llama_grammar_apply_impl n d v g' cur_p = Some (Inr out)))
         \<and> (\<forall>t. \<exists>m r. llama_grammar_accept_impl m v g' t = Some r)
         \<and> (\<forall>cs. \<exists>n stacks. accept_code_points n (g_rules g') cs (g_stacks g') = Some (Inr stacks)))"
proof (intro conjI allI impI)
  obtain b where b: "lr_checked rules = Some (Inr b)" by (rule lr_checked_returns [OF assms(1)])
  show "\<exists>depth g. llama_grammar_init_impl depth rules start = Some (Inr g)"
  proof (cases b)
    case False
    obtain d stacks where "\<And>k. d \<le> k \<Longrightarrow> initial_stacks k rules start = Some (Inr stacks)"
      by (rule initial_stacks_checked [OF assms(1,3,2)]) (use b False in auto)
    with False show ?thesis by (intro exI [of _ d]) (simp add: init_checked [OF assms(1) b])
  qed (simp add: init_checked [OF assms(1) b])
next
  fix depth g v ts g' assume init: "llama_grammar_init_impl depth rules start = Some (Inr (Some g))"
    and run: "token_run v g ts g'"
  note safe = token_run_safe [OF run init_safe [OF assms init]]
  show "\<exists>n d out. llama_grammar_apply_impl n d v g' cur_p = Some (Inr out)"
    if "\<forall>t \<in> fst ` set cur_p. v_piece v t \<noteq> None" for cur_p :: "'l token_data list"
    by (rule safe_mask [OF safe that])
  show "\<exists>m r. llama_grammar_accept_impl m v g' t = Some r" for t by (rule safe_accept_returns [OF safe])
  show "\<exists>n stacks. accept_code_points n (g_rules g') cs (g_stacks g') = Some (Inr stacks)" for cs
    by (rule safe_reads [OF safe]) blast
qed

lemma ab_safe: "safe_grammar ab_grammar"
  using ab_g_ok ab_visibly ab_checked by (simp add: safe_grammar_def lr_checked_def ab_grammar_def)

theorem grammar_never_hangs_witness:
  "\<exists>n d out. llama_grammar_apply_impl n d sample_vocab ab_grammar [(1, Some (5 :: nat)), (2, Some 7)] = Some (Inr out)"
proof -
  have r: "0 < length ab_rules" by (simp add: ab_rules_def)
  have init: "llama_grammar_init_impl (Suc 0) ab_rules 0 = Some (Inr (Some ab_grammar))"
    using ab_init by (simp add: ab_grammar_def)
  have "\<forall>t \<in> fst ` set [(1, Some (5 :: nat)), (2, Some 7)]. v_piece sample_vocab t \<noteq> None"
    by (simp add: sample_vocab_def)
  with grammar_never_hangs [OF ab_wf r ab_visibly, THEN conjunct2, rule_format, OF init run_done] show ?thesis by blast
qed

text \<open>C3: Masking and accepting agree.  For a grammar in a state that a well-formed grammar, in which every
  rule that can be empty has an alternate that is empty as written, has when it is loaded and after every
  accepted token: a token whose logit is not
  \<open>-INFINITY\<close> after masking is one of those given with the logit it had, accepting it returns and does not
  abort, and the grammar is again in such a state.  The piece of the token must not contain a NUL code
  point, which would end it early for the mask only.\<close>

theorem masked_token_accepted:
  assumes "safe_grammar g"
    and "llama_grammar_apply_impl n depth v g cur_p = Some (Inr out)"
    and "i < length cur_p" and "out ! i = (t, Some l)"
    and "\<forall>piece. v_piece v t = Some piece \<longrightarrow> 0 \<notin> set (butlast (fst (decode_utf8 piece (g_partial_utf8 g))))"
  shows "cur_p ! i = (t, Some l)
    \<and> (\<exists>m g'. llama_grammar_accept_impl m v g t = Some (Inr g') \<and> safe_grammar g' \<and> g_rules g' = g_rules g)"
proof -
  obtain m r where m: "llama_grammar_accept_impl m v g t = Some r" using safe_accept_returns [OF assms(1)] by blast
  have "g_ok g" using assms(1) by (simp add: safe_grammar_def)
  from masked_token_not_refused [OF this assms(2-5) m] obtain g' where
    "cur_p ! i = (t, Some l)" "r = Inr g'" by blast
  with m safe_accept [OF assms(1), of m v t g'] show ?thesis by blast
qed

theorem masked_token_accepted_witness:
  "\<exists>m g'. llama_grammar_accept_impl m sample_vocab ab_grammar 1 = Some (Inr g') \<and> safe_grammar g'"
proof -
  have "\<forall>piece. v_piece sample_vocab 1 = Some piece \<longrightarrow>
      0 \<notin> set (butlast (fst (decode_utf8 piece (g_partial_utf8 ab_grammar))))"
    by (simp add: sample_vocab_def ab_grammar_def decode_eval)
  from masked_token_accepted [OF ab_safe ab_masked, of 0 1 5, OF _ _ this] show ?thesis by auto
qed

section \<open>Partial characters\<close>

lemma shifted_or: "or (v * 2 ^ k) (2 ^ k - 1 :: nat) = v * 2 ^ k + (2 ^ k - 1)"
proof -
  have "or (push_bit k v) (Bit_Operations.mask k) = push_bit k v + (Bit_Operations.mask k :: nat)"
    by (rule disjunctive_add [symmetric]) (auto simp: bit_simps)
  then show ?thesis by (simp add: push_bit_eq_mult mask_eq_exp_minus_1)
qed







text \<open>The comment on \<^verbatim>\<open>llama_grammar_match_partial_char\<close> promises an answer whether some continuation
  matches; for an inverse range it answers no as soon as one continuation is excluded: with the first
  byte of a two-byte character read, any single excluded character of its block of 64 rules out the
  other 63.\<close>

theorem inverse_range_overrejects:
  assumes "2 \<le> v" and "v < 2 ^ 14" and "v * 64 \<le> x" and "x < v * 64 + 64"
  shows "llama_grammar_match_partial_char [Elem LLAMA_GRETYPE_CHAR_NOT x, END_elem] \<lparr>pu_value = v, pu_n_remain = 1\<rparr> = Inr False
    \<and> (\<forall>c \<in> {v * 64 ..< v * 64 + 64} - {x}.
         llama_grammar_match_char [Elem LLAMA_GRETYPE_CHAR_NOT x, END_elem] c = Inr (True, [END_elem]))"
proof -
  have "v * 64 < 2 ^ 32" using assms(2) by simp
  then have "partial_low v 1 = v * 64" "partial_high v 1 = v * 64 + 63"
    using assms(1) shifted_or [of v 6] by (simp_all add: partial_low_def partial_high_def)
  with assms show ?thesis
    by (auto simp: llama_grammar_match_partial_char_def llama_grammar_match_char_def is_positive_char_def
        is_negative_char_def)
qed

theorem inverse_range_overrejects_witness:
  "llama_grammar_match_partial_char [Elem LLAMA_GRETYPE_CHAR_NOT 0xE9, END_elem] \<lparr>pu_value = 3, pu_n_remain = 1\<rparr> = Inr False"
  using inverse_range_overrejects [of 3 "0xE9"] by simp

end
