(* ===== verification/HbtRing.thy ===== *)
theory HbtRing
  imports Cpp_Prelude
begin

text \<open>
  The byte ring buffer of the performance monitor (\<^verbatim>\<open>src/hbt/src/ringbuffer\<close>): header and data
  (\<^verbatim>\<open>RingBuffer.h\<close>), one \<^verbatim>\<open>Producer\<close> and one \<^verbatim>\<open>Consumer\<close> attached to it.  Positions and sizes are
  64-bit words, so the head and the tail wrap around as the atomics of the header do.  A pointer into
  the data is given by the bytes it points to when the call returns.  The two things the code does
  not decide itself are arguments: whether a weak compare-and-exchange succeeds, and whether
  \<^verbatim>\<open>realloc\<close> finds memory for a size.  The conditions of \<^verbatim>\<open>HBT_DCHECK\<close> are not
  part of a release build; they are facts about the reachable states.
\<close>

unbundle bit_operations_syntax

type_synonym byte = "8 word"

datatype errno = EPERM | EAGAIN | EBUSY | EINVAL | ENOSPC | ENODATA

section \<open>Header and data\<close>

record ring_sys =
  hr_size :: "64 word"       \<comment> \<open>\<^verbatim>\<open>kDataPoolByteSize\<close>\<close>
  hr_mask :: "64 word"       \<comment> \<open>\<^verbatim>\<open>kDataModMask\<close>\<close>
  hr_head :: "64 word"
  hr_tail :: "64 word"
  hr_wtx :: bool             \<comment> \<open>\<^verbatim>\<open>in_write_tx\<close>\<close>
  hr_rtx :: bool             \<comment> \<open>\<^verbatim>\<open>in_read_tx\<close>\<close>
  hr_data :: "byte list"
  pr_tx :: "64 word"         \<comment> \<open>\<^verbatim>\<open>tx_size_\<close> of the producer\<close>
  co_tx :: "64 word"         \<comment> \<open>\<^verbatim>\<open>tx_size_\<close> of the consumer\<close>
  co_aux :: "64 word"        \<comment> \<open>\<^verbatim>\<open>aux_buffer_size_\<close> of the consumer\<close>

type_synonym 'a rop = "ring_sys \<Rightarrow> (errno + 'a) \<times> ring_sys"

definition isPow2 :: "64 word \<Rightarrow> bool" where
  "isPow2 n \<longleftrightarrow> 0 < n \<and> (n - 1) AND n = 0"

definition or_shift :: "nat \<Rightarrow> 64 word \<Rightarrow> 64 word" where
  "or_shift d n = n OR drop_bit d n"

definition nextPow2 :: "64 word \<Rightarrow> 64 word" where
  "nextPow2 n =
     or_shift 32 (or_shift 16 (or_shift 8 (or_shift 4 (or_shift 2 (or_shift 1 (n - 1)))))) + 1"

text \<open>A new ring; the bytes of fresh memory are arbitrary.\<close>

definition new_ring :: "64 word \<Rightarrow> byte list \<Rightarrow> ring_sys" where
  "new_ring min_data_byte_size memory =
     \<lparr>hr_size = nextPow2 min_data_byte_size, hr_mask = nextPow2 min_data_byte_size - 1,
      hr_head = 0, hr_tail = 0, hr_wtx = False, hr_rtx = False, hr_data = memory,
      pr_tx = 0, co_tx = 0, co_aux = 0\<rparr>"

definition usedSizeWeak :: "ring_sys \<Rightarrow> 64 word" where
  "usedSizeWeak s = hr_head s - hr_tail s"

definition freeSizeWeak :: "ring_sys \<Rightarrow> 64 word" where
  "freeSizeWeak s = hr_size s - usedSizeWeak s"

definition incHead :: "64 word \<Rightarrow> ring_sys \<Rightarrow> ring_sys" where
  "incHead n s = s\<lparr>hr_head := hr_head s + n\<rparr>"

definition incTail :: "64 word \<Rightarrow> ring_sys \<Rightarrow> ring_sys" where
  "incTail n s = s\<lparr>hr_tail := hr_tail s + n\<rparr>"

definition header_drop :: "ring_sys \<Rightarrow> ring_sys" where
  "header_drop s = s\<lparr>hr_tail := hr_head s\<rparr>"

definition header_dropN :: "64 word \<Rightarrow> ring_sys \<Rightarrow> ring_sys" where
  "header_dropN n s = s\<lparr>hr_tail := hr_tail s + n\<rparr>"

section \<open>Memory\<close>

definition memcpy :: "byte list \<Rightarrow> nat \<Rightarrow> byte list \<Rightarrow> byte list" where
  "memcpy dst p src = take p dst @ src @ drop (p + length src) dst"

definition bytes_at :: "byte list \<Rightarrow> nat \<Rightarrow> nat \<Rightarrow> byte list" where
  "bytes_at mem p n = take n (drop p mem)"

text \<open>The bytes of an unsigned integer of a given size, lowest first.\<close>

primrec encode_le :: "nat \<Rightarrow> nat \<Rightarrow> byte list" where
  "encode_le 0 v = []"
| "encode_le (Suc n) v = of_nat v # encode_le n (v div 256)"

fun decode_le :: "byte list \<Rightarrow> nat" where
  "decode_le [] = 0"
| "decode_le (b # bs) = unat b + 256 * decode_le bs"

section \<open>Producer\<close>

definition startWriteTx :: "bool \<Rightarrow> unit rop" where
  "startWriteTx cas s =
     (if hr_wtx s then (Inl EBUSY, s)
      else if \<not> cas then (Inl EAGAIN, s)
      else (Inr (), s\<lparr>hr_wtx := True\<rparr>))"

text \<open>The two branches of the copy: the bytes fit before the end of the data, or wrap around.\<close>

definition ring_write :: "64 word \<Rightarrow> 64 word \<Rightarrow> 64 word \<Rightarrow> byte list \<Rightarrow> byte list \<Rightarrow> byte list" where
  "ring_write pool start fin d data =
     (if start < fin then memcpy data (unat start) d
      else
        let size0 = unat (pool - start)
        in memcpy (memcpy data (unat start) (take size0 d)) 0 (take (unat fin) (drop size0 d)))"

definition copyToRingBuffer :: "byte list \<Rightarrow> 64 word \<Rightarrow> 64 word rop" where
  "copyToRingBuffer d rb_offset s =
     (let sz = of_nat (length d); used = hr_head s - hr_tail s in
      if d = [] then (Inl EINVAL, s)
      else if sz > hr_size s then (Inl EINVAL, s)
      else if used > hr_size s then (Inl EPERM, s)
      else if rb_offset + sz > hr_size s - used then (Inl ENOSPC, s)
      else
        let start = (rb_offset + hr_head s) AND hr_mask s; fin = (start + sz) AND hr_mask s
        in (Inr sz, s\<lparr>hr_data := ring_write (hr_size s) start fin d (hr_data s), pr_tx := pr_tx s + sz\<rparr>))"

definition writeInTx :: "byte list \<Rightarrow> 64 word rop" where
  "writeInTx d s = (if \<not> hr_wtx s then (Inl EINVAL, s) else copyToRingBuffer d (pr_tx s) s)"

text \<open>\<^verbatim>\<open>n\<close> is \<^verbatim>\<open>sizeof(TSize)\<close>.\<close>

definition writeInTxWithSize :: "nat \<Rightarrow> byte list \<Rightarrow> 64 word rop" where
  "writeInTxWithSize n d s =
     (if \<not> hr_wtx s then (Inl EINVAL, s)
      else
        case copyToRingBuffer (encode_le n (length d)) (pr_tx s) s of
          (Inl e, s1) \<Rightarrow> (Inl e, s1)
        | (Inr k, s1) \<Rightarrow>
            (case copyToRingBuffer d (pr_tx s1) s1 of
               (Inl e, s2) \<Rightarrow> (Inl e, s2)
             | (Inr k2, s2) \<Rightarrow> (Inr (k + k2), s2)))"

definition commitWriteTx :: "unit rop" where
  "commitWriteTx s =
     (if \<not> hr_wtx s then (Inl EINVAL, s)
      else (Inr (), (incHead (pr_tx s) s)\<lparr>pr_tx := 0, hr_wtx := False\<rparr>))"

definition cancelWriteTx :: "64 word rop" where
  "cancelWriteTx s =
     (if \<not> hr_wtx s then (Inl EINVAL, s)
      else (Inr (pr_tx s), s\<lparr>pr_tx := 0, hr_wtx := False\<rparr>))"

definition writeInTxSizedChunk :: "nat \<Rightarrow> byte list \<Rightarrow> 64 word rop" where
  "writeInTxSizedChunk n str s =
     (if \<not> hr_wtx s then (Inl EINVAL, s)
      else if length str > 256 ^ n - 1 then (Inl EINVAL, s)
      else writeInTxWithSize n str s)"

text \<open>The high-level operations: a transaction around one write, cancelled when the write fails.\<close>

definition write_tx :: "bool \<Rightarrow> 64 word rop \<Rightarrow> 64 word rop" where
  "write_tx cas op s =
     (case startWriteTx cas s of
        (Inl e, s1) \<Rightarrow> (Inl e, s1)
      | (Inr _, s1) \<Rightarrow>
          (case op s1 of
             (Inl e, s2) \<Rightarrow> (Inl e, snd (cancelWriteTx s2))
           | (Inr k, s2) \<Rightarrow> (Inr k, snd (commitWriteTx s2))))"

definition ring_put :: "bool \<Rightarrow> byte list \<Rightarrow> 64 word rop" where
  "ring_put cas d = write_tx cas (writeInTx d)"

definition writeSizedChunk :: "bool \<Rightarrow> nat \<Rightarrow> byte list \<Rightarrow> 64 word rop" where
  "writeSizedChunk cas n str = write_tx cas (writeInTxSizedChunk n str)"

definition producer_dropN :: "bool \<Rightarrow> 64 word \<Rightarrow> unit rop" where
  "producer_dropN cas n s =
     (if n > hr_size s then (Inl EINVAL, s)
      else if \<not> (\<not> hr_rtx s \<and> cas) then (Inl EAGAIN, s)
      else (Inr (), (header_dropN n s)\<lparr>hr_rtx := False\<rparr>))"

section \<open>Consumer\<close>

definition startReadTransaction :: "bool \<Rightarrow> unit rop" where
  "startReadTransaction cas s =
     (if hr_rtx s then (Inl EBUSY, s)
      else if \<not> cas then (Inl EAGAIN, s)
      else (Inr (), s\<lparr>hr_rtx := True\<rparr>))"

text \<open>The bytes read, and whether the copy buffer was resized; \<^term>\<open>None\<close> is the null pointer.\<close>

definition readFromRingBuffer :: "(64 word \<Rightarrow> bool) \<Rightarrow> bool \<Rightarrow> bool \<Rightarrow> 64 word \<Rightarrow> 64 word
    \<Rightarrow> ring_sys \<Rightarrow> (byte list \<times> bool) option \<times> ring_sys" where
  "readFromRingBuffer mem kAlwaysCopy kCanResizeCopyBuffer sz buffer_size s =
     (if \<not> kCanResizeCopyBuffer \<and> buffer_size < sz then (None, s)
      else if sz = 0 then (None, s)
      else if sz > hr_size s then (None, s)
      else if co_tx s + sz > hr_head s - hr_tail s then (None, s)
      else
        let start = (co_tx s + hr_tail s) AND hr_mask s; fin = (start + sz) AND hr_mask s;
            s1 = s\<lparr>co_tx := co_tx s + sz\<rparr>; resize = buffer_size < sz
        in if \<not> (kAlwaysCopy \<or> start \<ge> fin) then
             (Some (bytes_at (hr_data s) (unat start) (unat sz), False), s1)
           else if resize \<and> \<not> mem sz then (None, s)
           else if start < fin then
             (Some (bytes_at (hr_data s) (unat start) (unat sz), resize), s1)
           else
             (Some (bytes_at (hr_data s) (unat start) (unat (hr_size s - start))
                    @ bytes_at (hr_data s) 0 (unat fin), resize), s1))"

definition read_ptr :: "(64 word \<Rightarrow> bool) \<Rightarrow> 64 word \<Rightarrow> ring_sys \<Rightarrow> byte list option \<times> ring_sys" where
  "read_ptr mem sz s =
     (if sz = 0 then (None, s)
      else
        case readFromRingBuffer mem False True sz (co_aux s) s of
          (None, s1) \<Rightarrow> (None, s1)
        | (Some (bs, resized), s1) \<Rightarrow> (Some bs, if resized then s1\<lparr>co_aux := sz\<rparr> else s1))"

definition readInTx :: "(64 word \<Rightarrow> bool) \<Rightarrow> 64 word \<Rightarrow> byte list rop" where
  "readInTx mem sz s =
     (if \<not> hr_rtx s then (Inl EINVAL, s)
      else if sz > hr_size s then (Inl EINVAL, s)
      else
        case read_ptr mem sz s of
          (None, s1) \<Rightarrow> (Inl ENODATA, s1)
        | (Some bs, s1) \<Rightarrow> (Inr bs, s1))"

definition readInTxWithSize :: "(64 word \<Rightarrow> bool) \<Rightarrow> nat \<Rightarrow> byte list rop" where
  "readInTxWithSize mem n s =
     (if \<not> hr_rtx s then (Inl EINVAL, s)
      else
        case readInTx mem (of_nat n) s of
          (Inl e, s1) \<Rightarrow> (Inl e, s1)
        | (Inr bs, s1) \<Rightarrow> readInTx mem (of_nat (decode_le bs)) s1)"

definition copyInTx :: "64 word \<Rightarrow> byte list rop" where
  "copyInTx sz s =
     (if \<not> hr_rtx s then (Inl EINVAL, s)
      else if sz = 0 then (Inr [], s)
      else if sz > hr_size s then (Inl EINVAL, s)
      else
        case readFromRingBuffer (\<lambda>_. False) True False sz sz s of
          (None, s1) \<Rightarrow> (Inl ENODATA, s1)
        | (Some (bs, resized), s1) \<Rightarrow> (if resized then (Inl EPERM, s1) else (Inr bs, s1)))"

definition commitReadTx :: "unit rop" where
  "commitReadTx s =
     (if \<not> hr_rtx s then (Inl EINVAL, s)
      else (Inr (), (incTail (co_tx s) s)\<lparr>co_tx := 0, hr_rtx := False\<rparr>))"

definition cancelReadTx :: "64 word rop" where
  "cancelReadTx s =
     (if \<not> hr_rtx s then (Inl EINVAL, s)
      else (Inr (co_tx s), s\<lparr>co_tx := 0, hr_rtx := False\<rparr>))"

definition dropInTx :: "64 word rop" where
  "dropInTx s =
     (if \<not> hr_rtx s then (Inl EINVAL, s)
      else (Inr (co_tx s), (header_drop (s\<lparr>co_tx := 0\<rparr>))\<lparr>hr_rtx := False\<rparr>))"

text \<open>The first position of a byte between two positions.\<close>

definition find_byte :: "byte \<Rightarrow> byte list \<Rightarrow> nat \<Rightarrow> nat \<Rightarrow> nat option" where
  "find_byte b data lo hi = find (\<lambda>i. data ! i = b) [lo..<hi]"

definition findInBufferInTx :: "bool \<Rightarrow> byte \<Rightarrow> ring_sys \<Rightarrow> errno + 64 word" where
  "findInBufferInTx kContiguous kElem s =
     (if \<not> hr_rtx s then Inl EINVAL
      else if hr_tail s + co_tx s = hr_head s then Inl ENODATA
      else
        let start = (co_tx s + hr_tail s) AND hr_mask s; fin = hr_head s AND hr_mask s; wrap = start \<ge> fin in
        if kContiguous then Inr (if wrap then hr_size s - start else fin - start)
        else
          case find_byte kElem (hr_data s) (unat start) (unat (if wrap then hr_size s else fin)) of
            Some i \<Rightarrow> Inr (of_nat i - start + 1)
          | None \<Rightarrow>
              if wrap then
                (case find_byte kElem (hr_data s) 0 (unat fin) of
                   Some i \<Rightarrow> Inr (hr_size s - start + of_nat i + 1)
                 | None \<Rightarrow> Inl ENODATA)
              else Inl ENODATA)"

text \<open>A chunk is a pointer into the data and a length.\<close>

definition readInTxChunk :: "bool \<Rightarrow> byte \<Rightarrow> (64 word \<times> 64 word) rop" where
  "readInTxChunk kContiguous kStopByte s =
     (if \<not> hr_rtx s then (Inl EINVAL, s)
      else
        case findInBufferInTx kContiguous kStopByte s of
          Inl e \<Rightarrow> (Inl e, s)
        | Inr n \<Rightarrow> (Inr ((co_tx s + hr_tail s) AND hr_mask s, n), s\<lparr>co_tx := co_tx s + n\<rparr>))"

text \<open>\<^verbatim>\<open>std::clamp\<close> with its bounds in the wrong order is undefined.\<close>

definition seekInTx :: "64 word \<Rightarrow> ring_sys \<Rightarrow> ((errno + 64 word) \<times> ring_sys) result" where
  "seekInTx pos s =
     (if \<not> hr_rtx s then Inr (Inl EINVAL, s)
      else if hr_head s < hr_tail s then Inl Undefined_Behaviour
      else
        let n = max (hr_tail s) (min pos (hr_head s)) - hr_tail s
        in Inr (Inr n, s\<lparr>co_tx := n\<rparr>))"

definition relSeekInTx :: "int \<Rightarrow> ring_sys \<Rightarrow> ((errno + 64 word) \<times> ring_sys) result" where
  "relSeekInTx delta s =
     (if \<not> hr_rtx s then Inr (Inl EINVAL, s)
      else
        let sz = sint (hr_head s) - sint (hr_tail s); to = sint (co_tx s) + delta in
        if \<not> in_int64 sz \<or> \<not> in_int64 to \<or> sz < 0 then Inl Undefined_Behaviour
        else
          let n = word_of_int (max 0 (min to sz))
          in Inr (Inr n, s\<lparr>co_tx := n\<rparr>))"

definition releaseAuxBuffer :: "ring_sys \<Rightarrow> ring_sys" where
  "releaseAuxBuffer s = (if co_aux s = 0 then s else s\<lparr>co_aux := 0\<rparr>)"

definition destroyConsumer :: "ring_sys \<Rightarrow> ring_sys" where
  "destroyConsumer s = releaseAuxBuffer (if hr_rtx s then snd (cancelReadTx s) else s)"

section \<open>High-level operations of the consumer\<close>

definition ring_drop :: "bool \<Rightarrow> 64 word rop" where
  "ring_drop cas s =
     (case startReadTransaction cas s of
        (Inl e, s1) \<Rightarrow> (Inl e, s1)
      | (Inr _, s1) \<Rightarrow> dropInTx s1)"

definition consumer_dropN :: "bool \<Rightarrow> 64 word \<Rightarrow> unit rop" where
  "consumer_dropN cas n s =
     (case startReadTransaction cas s of
        (Inl e, s1) \<Rightarrow> (Inl e, s1)
      | (Inr _, s1) \<Rightarrow> (Inr (), (header_dropN (min (usedSizeWeak s1) n) s1)\<lparr>hr_rtx := False\<rparr>))"

text \<open>A transaction around one read, cancelled when the read fails.\<close>

definition read_tx :: "bool \<Rightarrow> 'a rop \<Rightarrow> 'a rop" where
  "read_tx cas op s =
     (case startReadTransaction cas s of
        (Inl e, s1) \<Rightarrow> (Inl e, s1)
      | (Inr _, s1) \<Rightarrow>
          (case op s1 of
             (Inl e, s2) \<Rightarrow> (Inl e, snd (cancelReadTx s2))
           | (Inr x, s2) \<Rightarrow> (Inr x, snd (commitReadTx s2))))"

definition ring_copy :: "bool \<Rightarrow> 64 word \<Rightarrow> byte list rop" where
  "ring_copy cas sz = read_tx cas (copyInTx sz)"

text \<open>The transaction stays open for the caller to commit.\<close>

definition startReadTx :: "(64 word \<Rightarrow> bool) \<Rightarrow> bool \<Rightarrow> 64 word \<Rightarrow> byte list rop" where
  "startReadTx mem cas sz s =
     (if sz > hr_size s then (Inl EINVAL, s)
      else
        case startReadTransaction cas s of
          (Inl e, s1) \<Rightarrow> (Inl e, s1)
        | (Inr _, s1) \<Rightarrow>
            (case readInTx mem sz s1 of
               (Inl e, s2) \<Rightarrow> (Inl e, snd (cancelReadTx s2))
             | (Inr bs, s2) \<Rightarrow> (Inr bs, s2)))"

definition ring_get :: "(64 word \<Rightarrow> bool) \<Rightarrow> bool \<Rightarrow> 64 word \<Rightarrow> byte list rop" where
  "ring_get mem cas sz s =
     (case startReadTx mem cas sz s of
        (Inl e, s1) \<Rightarrow> (Inl e, s1)
      | (Inr bs, s1) \<Rightarrow> (Inr bs, snd (commitReadTx s1)))"

text \<open>The number of bytes consumed, and the chunk.\<close>

definition readSizedChunk :: "(64 word \<Rightarrow> bool) \<Rightarrow> bool \<Rightarrow> nat \<Rightarrow> (nat \<times> byte list) rop" where
  "readSizedChunk mem cas n s =
     (case read_tx cas (readInTxWithSize mem n) s of
        (Inl e, s1) \<Rightarrow> (Inl e, s1)
      | (Inr bs, s1) \<Rightarrow> (Inr (n + length bs, bs), s1))"

text \<open>The string is built from the pointer and the length: past the end of the data that is undefined.\<close>

definition readChunk :: "bool \<Rightarrow> bool \<Rightarrow> byte \<Rightarrow> ring_sys \<Rightarrow> ((errno + byte list) \<times> ring_sys) result" where
  "readChunk cas kContiguous kStopByte s =
     (case startReadTransaction cas s of
        (Inl e, s1) \<Rightarrow> Inr (Inl e, s1)
      | (Inr _, s1) \<Rightarrow>
          (case readInTxChunk kContiguous kStopByte s1 of
             (Inl e, s2) \<Rightarrow> Inr (Inl e, snd (cancelReadTx s2))
           | (Inr (start, n), s2) \<Rightarrow>
               if unat start + unat n > length (hr_data s2) then Inl Undefined_Behaviour
               else Inr (Inr (bytes_at (hr_data s2) (unat start) (unat n)), snd (commitReadTx s2))))"

end
