(* ===== verification/HbtQueue.thy ===== *)
theory HbtQueue
  imports HbtRing Transitions
begin

text \<open>
  The ring buffer of \<open>HbtRing\<close> implements a queue of bytes with transactions.  The data,
  rotated to start at the tail, holds the committed bytes, then the bytes of the open write
  transaction; in that view neither branch of the copies wraps.
\<close>

section \<open>Positions\<close>

lemma unat_and_mask: "unat ((w :: 64 word) AND mask k) = unat w mod 2 ^ k"
  by (simp flip: take_bit_eq_mask add: unsigned_take_bit_eq take_bit_nat_def)

lemma unat_plus_mod: "k \<le> 64 \<Longrightarrow> unat ((a :: 64 word) + b) mod 2 ^ k = (unat a + unat b) mod 2 ^ k"
  using mod_mod_cancel [of "2 ^ k" "2 ^ 64" "unat a + unat b"]
  by (simp add: unat_word_ariths le_imp_power_dvd del: power_numeral power_numeral_odd power_numeral_even)

lemma unat_slot: "k \<le> 64 \<Longrightarrow> unat (((a :: 64 word) + b) AND mask k) = (unat a + unat b) mod 2 ^ k"
  by (simp add: unat_and_mask unat_plus_mod)

lemma mod_shift:
  assumes "(q :: nat) < n"
  shows "(t + q) mod n = (if t mod n + q < n then t mod n + q else t mod n + q - n)"
proof -
  have "(t + q) mod n = (t mod n + q) mod n" by (simp add: mod_add_left_eq)
  also have "\<dots> = (if t mod n + q < n then t mod n + q else t mod n + q - n)"
  proof (cases "t mod n + q < n")
    case False
    have "t mod n < n" using assms by simp
    with assms have "t mod n + q - n < n" by linarith
    with False show ?thesis by (simp add: le_mod_geq)
  qed simp
  finally show ?thesis .
qed

lemma unat_of_nat64: "n < 2 ^ 64 \<Longrightarrow> unat (of_nat n :: 64 word) = n"
  by (simp add: unsigned_of_nat take_bit_nat_def)

lemma unat_length: "length d < 2 ^ 64 \<Longrightarrow> unat (of_nat (length d) :: 64 word) = length d"
  by (simp add: unsigned_of_nat take_bit_nat_def)

lemma unat_exp: "k < 64 \<Longrightarrow> unat (2 ^ k :: 64 word) = 2 ^ k"
  using unat_length [of "replicate (2 ^ k) ()"] power_strict_increasing [of k 64 "2 :: nat"] by simp

lemma unat_plus_small: "unat a + unat b < 2 ^ 64 \<Longrightarrow> unat ((a :: 64 word) + b) = unat a + unat b"
  by (simp add: unat_word_ariths)

section \<open>Copies in the rotated view\<close>

lemma length_memcpy [simp]: "p + length src \<le> length dst \<Longrightarrow> length (memcpy dst p src) = length dst"
  by (simp add: memcpy_def)

lemma nth_memcpy: "p + length src \<le> length dst \<Longrightarrow> i < length dst \<Longrightarrow>
    memcpy dst p src ! i = (if p \<le> i \<and> i < p + length src then src ! (i - p) else dst ! i)"
  by (auto simp: memcpy_def nth_append min_def)

definition wrap_write :: "nat \<Rightarrow> byte list \<Rightarrow> byte list \<Rightarrow> byte list" where
  "wrap_write st d data =
     (let n = length data in
      if st + length d < n then memcpy data st d
      else memcpy (memcpy data st (take (n - st) d)) 0 (drop (n - st) d))"

lemma length_wrap_write [simp]:
  "st < length data \<Longrightarrow> length d \<le> length data \<Longrightarrow> length (wrap_write st d data) = length data"
  by (simp add: wrap_write_def Let_def)

lemma nth_wrap_write:
  assumes "st < length data" "length d \<le> length data" "i < length data"
  shows "wrap_write st d data ! i =
    (if st \<le> i \<and> i < st + length d then d ! (i - st)
     else if i + length data < st + length d then d ! (i + length data - st) else data ! i)"
  using assms by (auto simp: wrap_write_def Let_def nth_memcpy intro!: arg_cong [where f = "(!) d"])

lemma rotate_wrap_write:
  assumes "q + length d \<le> length data" "q < length data"
  shows "rotate t (wrap_write ((t + q) mod length data) d data) = memcpy (rotate t data) q d"
proof (rule nth_equalityI)
  have lt: "(t + q) mod length data < length data" using assms by (intro mod_less_divisor) (cases data, auto)
  then show "length (rotate t (wrap_write ((t + q) mod length data) d data)) = length (memcpy (rotate t data) q d)"
    using assms by simp
  fix i assume "i < length (rotate t (wrap_write ((t + q) mod length data) d data))"
  with assms lt have i: "i < length data" by simp
  define n where "n = length data"
  define u where "u = t mod n"
  have n: "n > 0" and u: "u < n" using i by (auto simp: n_def u_def intro: mod_less_divisor)
  have q: "(t + q) mod n = (if u + q < n then u + q else u + q - n)"
    using assms u by (simp add: u_def n_def mod_shift)
  have j: "(t + i) mod n = (if u + i < n then u + i else u + i - n)"
    using i u by (simp add: u_def n_def mod_shift)
  have "rotate t (wrap_write ((t + q) mod n) d data) ! i = wrap_write ((t + q) mod n) d data ! ((t + i) mod n)"
    using i assms n by (simp add: nth_rotate n_def)
  also have "\<dots> = (if q \<le> i \<and> i < q + length d then d ! (i - q) else data ! ((t + i) mod n))"
    using assms i u q j
    by (subst nth_wrap_write) (auto simp: n_def [symmetric] split: if_splits intro!: arg_cong [where f = "(!) d"])
  also have "\<dots> = memcpy (rotate t data) q d ! i"
    using i assms by (simp add: nth_memcpy nth_rotate n_def)
  finally show "rotate t (wrap_write ((t + q) mod length data) d data) ! i = memcpy (rotate t data) q d ! i"
    by (simp add: n_def)
qed

definition wrap_read :: "nat \<Rightarrow> nat \<Rightarrow> byte list \<Rightarrow> byte list" where
  "wrap_read st m data =
     (let n = length data in
      if st + m < n then bytes_at data st m
      else bytes_at data st (n - st) @ bytes_at data 0 (st + m - n))"

lemma rotate_wrap_read:
  assumes "q + m \<le> length data" "q < length data"
  shows "wrap_read ((t + q) mod length data) m data = take m (drop q (rotate t data))"
proof (rule nth_equalityI)
  define n where "n = length data"
  define u where "u = t mod n"
  have n: "n > 0" and u: "u < n" using assms by (auto simp: n_def u_def intro: mod_less_divisor)
  have q: "(t + q) mod n = (if u + q < n then u + q else u + q - n)"
    using assms u by (simp add: u_def n_def mod_shift)
  show len: "length (wrap_read ((t + q) mod length data) m data) = length (take m (drop q (rotate t data)))"
    using assms u q by (auto simp: wrap_read_def bytes_at_def Let_def n_def [symmetric] split: if_splits)
  fix i assume "i < length (wrap_read ((t + q) mod length data) m data)"
  with len assms have i: "i < m" by simp
  have j: "(t + (q + i)) mod n = (if u + (q + i) < n then u + (q + i) else u + (q + i) - n)"
    using i u assms by (simp add: u_def n_def mod_shift)
  show "wrap_read ((t + q) mod length data) m data ! i = take m (drop q (rotate t data)) ! i"
    using i assms u q j
    by (auto simp: wrap_read_def bytes_at_def Let_def n_def [symmetric] nth_append nth_rotate add.assoc
        split: if_splits intro!: arg_cong [where f = "(!) data"])
qed

section \<open>The queue of bytes\<close>

record byte_queue =
  q_cap :: nat
  q_bytes :: "byte list"               \<comment> \<open>committed and not yet dropped\<close>
  q_write :: "byte list option"        \<comment> \<open>the open write transaction\<close>
  q_read :: "nat option"               \<comment> \<open>bytes read in the open read transaction\<close>

definition q_start_write :: "bool \<Rightarrow> byte_queue \<Rightarrow> (errno + unit) \<times> byte_queue" where
  "q_start_write cas q =
     (if q_write q \<noteq> None then (Inl EBUSY, q)
      else if \<not> cas then (Inl EAGAIN, q) else (Inr (), q\<lparr>q_write := Some []\<rparr>))"

definition q_append :: "byte list \<Rightarrow> byte_queue \<Rightarrow> (errno + nat) \<times> byte_queue" where
  "q_append d q =
     (case q_write q of
        None \<Rightarrow> (Inl EINVAL, q)
      | Some p \<Rightarrow>
          if d = [] \<or> q_cap q < length d then (Inl EINVAL, q)
          else if q_cap q < length (q_bytes q) + length p + length d then (Inl ENOSPC, q)
          else (Inr (length d), q\<lparr>q_write := Some (p @ d)\<rparr>))"

definition q_commit_write :: "byte_queue \<Rightarrow> (errno + unit) \<times> byte_queue" where
  "q_commit_write q =
     (case q_write q of
        None \<Rightarrow> (Inl EINVAL, q)
      | Some p \<Rightarrow> (Inr (), q\<lparr>q_bytes := q_bytes q @ p, q_write := None\<rparr>))"

definition q_cancel_write :: "byte_queue \<Rightarrow> (errno + nat) \<times> byte_queue" where
  "q_cancel_write q =
     (case q_write q of
        None \<Rightarrow> (Inl EINVAL, q)
      | Some p \<Rightarrow> (Inr (length p), q\<lparr>q_write := None\<rparr>))"

definition q_start_read :: "bool \<Rightarrow> byte_queue \<Rightarrow> (errno + unit) \<times> byte_queue" where
  "q_start_read cas q =
     (if q_read q \<noteq> None then (Inl EBUSY, q)
      else if \<not> cas then (Inl EAGAIN, q) else (Inr (), q\<lparr>q_read := Some 0\<rparr>))"

definition q_take :: "nat \<Rightarrow> byte_queue \<Rightarrow> (errno + byte list) \<times> byte_queue" where
  "q_take n q =
     (case q_read q of
        None \<Rightarrow> (Inl EINVAL, q)
      | Some k \<Rightarrow>
          if q_cap q < n then (Inl EINVAL, q)
          else if n = 0 \<or> length (q_bytes q) < k + n then (Inl ENODATA, q)
          else (Inr (take n (drop k (q_bytes q))), q\<lparr>q_read := Some (k + n)\<rparr>))"

definition q_commit_read :: "byte_queue \<Rightarrow> (errno + unit) \<times> byte_queue" where
  "q_commit_read q =
     (case q_read q of
        None \<Rightarrow> (Inl EINVAL, q)
      | Some k \<Rightarrow> (Inr (), q\<lparr>q_bytes := drop k (q_bytes q), q_read := None\<rparr>))"

definition q_cancel_read :: "byte_queue \<Rightarrow> (errno + nat) \<times> byte_queue" where
  "q_cancel_read q =
     (case q_read q of
        None \<Rightarrow> (Inl EINVAL, q)
      | Some k \<Rightarrow> (Inr k, q\<lparr>q_read := None\<rparr>))"

definition q_drop_in_tx :: "byte_queue \<Rightarrow> (errno + nat) \<times> byte_queue" where
  "q_drop_in_tx q =
     (case q_read q of
        None \<Rightarrow> (Inl EINVAL, q)
      | Some k \<Rightarrow> (Inr k, q\<lparr>q_bytes := [], q_read := None\<rparr>))"

text \<open>Dropping more than there is empties the queue.\<close>

definition q_drop_n :: "bool \<Rightarrow> nat \<Rightarrow> byte_queue \<Rightarrow> (errno + unit) \<times> byte_queue" where
  "q_drop_n cas n q =
     (if q_read q \<noteq> None then (Inl EBUSY, q)
      else if \<not> cas then (Inl EAGAIN, q)
      else (Inr (), q\<lparr>q_bytes := drop n (q_bytes q)\<rparr>))"

section \<open>Invariant and abstraction\<close>

definition used :: "ring_sys \<Rightarrow> nat" where
  "used s = unat (hr_head s - hr_tail s)"

definition ring_inv :: "ring_sys \<Rightarrow> bool" where
  "ring_inv s \<longleftrightarrow>
     (\<exists>k \<le> 62. hr_size s = 2 ^ k \<and> hr_mask s = mask k \<and> length (hr_data s) = 2 ^ k)
     \<and> used s + unat (pr_tx s) \<le> length (hr_data s) \<and> unat (co_tx s) \<le> used s
     \<and> (\<not> hr_wtx s \<longrightarrow> pr_tx s = 0) \<and> (\<not> hr_rtx s \<longrightarrow> co_tx s = 0)"

definition ring_view :: "ring_sys \<Rightarrow> byte list" where
  "ring_view s = rotate (unat (hr_tail s)) (hr_data s)"

definition contents :: "ring_sys \<Rightarrow> byte list" where
  "contents s = take (used s) (ring_view s)"

definition pending :: "ring_sys \<Rightarrow> byte list" where
  "pending s = take (unat (pr_tx s)) (drop (used s) (ring_view s))"

definition queue_of :: "ring_sys \<Rightarrow> byte_queue" where
  "queue_of s =
     \<lparr>q_cap = length (hr_data s), q_bytes = contents s,
      q_write = (if hr_wtx s then Some (pending s) else None),
      q_read = (if hr_rtx s then Some (unat (co_tx s)) else None)\<rparr>"

lemma ring_invE:
  assumes "ring_inv s"
  obtains k where "k \<le> 62" "hr_size s = 2 ^ k" "hr_mask s = mask k" "length (hr_data s) = 2 ^ k"
    "unat (hr_size s) = length (hr_data s)" "length (hr_data s) < 2 ^ 63"
    "used s + unat (pr_tx s) \<le> length (hr_data s)" "unat (co_tx s) \<le> used s"
proof -
  obtain k where k: "k \<le> 62" "hr_size s = 2 ^ k" "hr_mask s = mask k" "length (hr_data s) = 2 ^ k"
    using assms unfolding ring_inv_def by blast
  have "(2 :: nat) ^ k < 2 ^ 63" using k by (intro power_strict_increasing) auto
  with k assms that show thesis by (simp add: ring_inv_def unat_exp)
qed

lemma length_ring_view [simp]: "length (ring_view s) = length (hr_data s)"
  by (simp add: ring_view_def)

lemma length_contents: "ring_inv s \<Longrightarrow> length (contents s) = used s"
  by (auto simp: contents_def elim!: ring_invE)

lemma length_pending: "ring_inv s \<Longrightarrow> length (pending s) = unat (pr_tx s)"
  by (auto simp: pending_def elim!: ring_invE)

text \<open>A word added to the tail, as a position in the data.\<close>

lemma tail_slot:
  assumes "ring_inv s"
  shows "unat ((a + hr_tail s) AND hr_mask s) = (unat (hr_tail s) + unat a) mod length (hr_data s)"
  using assms by (elim ring_invE) (simp add: unat_slot add.commute)

lemma head_slot:
  assumes "ring_inv s"
  shows "unat ((a + hr_head s) AND hr_mask s) = (unat (hr_tail s) + (used s + unat a)) mod length (hr_data s)"
proof -
  obtain k where k: "k \<le> 62" "hr_mask s = mask k" "length (hr_data s) = 2 ^ k"
    using assms by (elim ring_invE)
  have "unat ((a + hr_head s) AND hr_mask s) = unat ((a + (hr_head s - hr_tail s)) + hr_tail s) mod 2 ^ k"
    using k by (simp add: unat_and_mask)
  also have "\<dots> = (unat (a + (hr_head s - hr_tail s)) mod 2 ^ k + unat (hr_tail s)) mod 2 ^ k"
    using k by (subst unat_plus_mod) (simp, simp only: mod_add_left_eq)
  also have "unat (a + (hr_head s - hr_tail s)) mod 2 ^ k = (unat a + used s) mod 2 ^ k"
    using k by (simp add: unat_plus_mod used_def)
  also have "((unat a + used s) mod 2 ^ k + unat (hr_tail s)) mod 2 ^ k
      = (unat a + used s + unat (hr_tail s)) mod 2 ^ k"
    by (simp add: mod_simps)
  finally show ?thesis using k by (simp add: ac_simps)
qed

section \<open>One write and one read\<close>

lemma ring_write_wrap:
  assumes "unat pool = length data" "unat st < length data" "unat fin = (unat st + length d) mod length data"
    and "d \<noteq> []" "length d \<le> length data"
  shows "ring_write pool st fin d data = wrap_write (unat st) d data"
proof (cases "unat st + length d < length data")
  case True
  with assms have "unat fin = unat st + length d" by simp
  with assms True show ?thesis by (simp add: ring_write_def wrap_write_def word_less_nat_alt)
next
  case False
  with assms have fin: "unat fin = unat st + length d - length data"
    by (simp add: le_mod_geq)
  with assms have "\<not> st < fin" by (simp add: word_less_nat_alt)
  moreover have "unat (pool - st) = length data - unat st"
    using assms by (simp add: unat_sub word_le_nat_alt)
  ultimately show ?thesis using assms False fin
    by (simp add: ring_write_def wrap_write_def Let_def)
qed

lemma ring_read_wrap:
  assumes "unat pool = length data" "unat st < length data" "unat fin = (unat st + m) mod length data"
    and "0 < m" "m \<le> length data"
  shows "(if st < fin then bytes_at data (unat st) m
          else bytes_at data (unat st) (unat (pool - st)) @ bytes_at data 0 (unat fin))
    = wrap_read (unat st) m data"
proof (cases "unat st + m < length data")
  case True
  with assms have "unat fin = unat st + m" by simp
  with assms True show ?thesis by (simp add: wrap_read_def word_less_nat_alt)
next
  case False
  with assms have fin: "unat fin = unat st + m - length data"
    by (simp add: le_mod_geq)
  with assms have "\<not> st < fin" by (simp add: word_less_nat_alt)
  moreover have "unat (pool - st) = length data - unat st"
    using assms by (simp add: unat_sub word_le_nat_alt)
  ultimately show ?thesis using assms False fin
    by (simp add: wrap_read_def Let_def)
qed

text \<open>A copy into the ring succeeds exactly when there is space, and appends to the open transaction.\<close>

lemma copyToRingBuffer_eq:
  assumes "ring_inv s" "length d < 2 ^ 63"
  shows "copyToRingBuffer d (pr_tx s) s =
    (if d = [] \<or> length (hr_data s) < length d then (Inl EINVAL, s)
     else if length (hr_data s) < used s + unat (pr_tx s) + length d then (Inl ENOSPC, s)
     else (Inr (of_nat (length d)),
           s\<lparr>hr_data := wrap_write ((unat (hr_tail s) + (used s + unat (pr_tx s))) mod length (hr_data s)) d (hr_data s),
             pr_tx := pr_tx s + of_nat (length d)\<rparr>))"
proof -
  have len: "unat (of_nat (length d) :: 64 word) = length d" using assms(2) by (intro unat_length) simp
  from assms(1) show ?thesis
  proof (elim ring_invE)
    fix k
    assume k: "k \<le> 62" "hr_size s = 2 ^ k" "hr_mask s = mask k" "length (hr_data s) = 2 ^ k"
      and sz: "unat (hr_size s) = length (hr_data s)" "length (hr_data s) < 2 ^ 63"
      and u: "used s + unat (pr_tx s) \<le> length (hr_data s)" "unat (co_tx s) \<le> used s"
    have big: "of_nat (length d) > hr_size s \<longleftrightarrow> length (hr_data s) < length d"
      using sz len by (simp add: word_less_nat_alt)
    have ok: "\<not> hr_head s - hr_tail s > hr_size s"
      using u sz by (simp add: word_less_nat_alt used_def)
    have space: "pr_tx s + of_nat (length d) > hr_size s - (hr_head s - hr_tail s)
        \<longleftrightarrow> length (hr_data s) < used s + unat (pr_tx s) + length d" if "length d \<le> length (hr_data s)"
    proof -
      have "unat (pr_tx s + of_nat (length d)) = unat (pr_tx s) + length d"
        using u sz that len by (subst unat_plus_small) auto
      moreover have "unat (hr_size s - (hr_head s - hr_tail s)) = length (hr_data s) - used s"
        using u sz by (simp add: unat_sub word_le_nat_alt used_def)
      ultimately show ?thesis using u by (simp add: word_less_nat_alt) linarith
    qed
    have pos: "0 < length (hr_data s)" using k by simp
    define st where "st = (pr_tx s + hr_head s) AND hr_mask s"
    have st: "unat st = (unat (hr_tail s) + (used s + unat (pr_tx s))) mod length (hr_data s)"
      using assms(1) by (simp add: st_def head_slot)
    have fin: "unat ((st + of_nat (length d)) AND hr_mask s) = (unat st + length d) mod length (hr_data s)"
      using k len by (simp add: unat_slot)
    have copied: "ring_write (hr_size s) st ((st + of_nat (length d)) AND hr_mask s) d (hr_data s)
      = wrap_write (unat st) d (hr_data s)" if "d \<noteq> []" "length d \<le> length (hr_data s)"
      using that sz(1) pos fin st by (intro ring_write_wrap) auto
    show ?thesis
      using big ok space copied st by (auto simp: copyToRingBuffer_def Let_def st_def [symmetric])
  qed
qed

text \<open>Whether a read of some bytes has to be put together from both ends of the data.\<close>

definition read_wraps :: "64 word \<Rightarrow> ring_sys \<Rightarrow> bool" where
  "read_wraps sz s \<longleftrightarrow>
     (let start = (co_tx s + hr_tail s) AND hr_mask s in start \<ge> (start + sz) AND hr_mask s)"

text \<open>A read succeeds exactly when there are enough bytes and memory for the copy, and gives the next
  bytes of the queue.\<close>

lemma readFromRingBuffer_eq:
  assumes "ring_inv s"
  shows "readFromRingBuffer mem always resizable sz buffer_size s =
    (let copies = always \<or> read_wraps sz s in
     if \<not> resizable \<and> buffer_size < sz \<or> sz = 0 \<or> length (hr_data s) < unat sz
        \<or> used s < unat (co_tx s) + unat sz \<or> copies \<and> buffer_size < sz \<and> \<not> mem sz then (None, s)
     else (Some (take (unat sz) (drop (unat (co_tx s)) (contents s)), copies \<and> buffer_size < sz),
           s\<lparr>co_tx := co_tx s + sz\<rparr>))"
  using assms
proof (elim ring_invE)
  fix k
  assume k: "k \<le> 62" "hr_size s = 2 ^ k" "hr_mask s = mask k" "length (hr_data s) = 2 ^ k"
    and sz: "unat (hr_size s) = length (hr_data s)" "length (hr_data s) < 2 ^ 63"
    and u: "used s + unat (pr_tx s) \<le> length (hr_data s)" "unat (co_tx s) \<le> used s"
  define st fin where "st = (co_tx s + hr_tail s) AND hr_mask s" and "fin = (st + sz) AND hr_mask s"
  have pos: "0 < length (hr_data s)" using k by simp
  have st: "unat st = (unat (hr_tail s) + unat (co_tx s)) mod length (hr_data s)"
    using assms by (simp add: st_def tail_slot)
  have fin: "unat fin = (unat st + unat sz) mod length (hr_data s)"
    using k by (simp add: unat_slot fin_def)
  have big: "sz > hr_size s \<longleftrightarrow> length (hr_data s) < unat sz"
    using sz by (simp add: word_less_nat_alt)
  have enough: "co_tx s + sz > hr_head s - hr_tail s \<longleftrightarrow> used s < unat (co_tx s) + unat sz"
    if "unat sz \<le> length (hr_data s)"
    using u sz that by (simp add: word_less_nat_alt used_def unat_plus_small)
  have bytes: "wrap_read (unat st) (unat sz) (hr_data s) = take (unat sz) (drop (unat (co_tx s)) (contents s))"
    if "sz \<noteq> 0" "unat (co_tx s) + unat sz \<le> used s"
  proof -
    have "0 < unat sz" using that by (simp add: unat_gt_0)
    then have "wrap_read (unat st) (unat sz) (hr_data s) = take (unat sz) (drop (unat (co_tx s)) (ring_view s))"
      using that u unfolding st by (subst rotate_wrap_read) (auto simp: ring_view_def)
    then show ?thesis using that by (simp add: contents_def drop_take min_def)
  qed
  have copied: "(if st < fin then bytes_at (hr_data s) (unat st) (unat sz)
        else bytes_at (hr_data s) (unat st) (unat (hr_size s - st)) @ bytes_at (hr_data s) 0 (unat fin))
      = take (unat sz) (drop (unat (co_tx s)) (contents s))"
    if "sz \<noteq> 0" "unat sz \<le> length (hr_data s)" "unat (co_tx s) + unat sz \<le> used s"
    using that bytes sz(1) pos st fin by (subst ring_read_wrap) (auto simp: unat_gt_0)
  have wraps: "read_wraps sz s \<longleftrightarrow> fin \<le> st"
    by (simp add: read_wraps_def Let_def st_def fin_def)
  show ?thesis
    using big enough copied
    by (auto simp: readFromRingBuffer_def Let_def wraps st_def [symmetric] fin_def [symmetric] not_le not_less
        split: if_splits)
qed

end
