(* ===== verification/HbtRefine.thy ===== *)
theory HbtRefine
  imports HbtQueue
begin

text \<open>
  The operations of producer and consumer simulate those of the queue of bytes, in every order and
  however the two sides interleave.
\<close>

section \<open>Steps on the rotated view\<close>

lemma used_le: "ring_inv s \<Longrightarrow> used s + unat (pr_tx s) \<le> length (hr_data s)"
  by (simp add: ring_inv_def)

text \<open>Moving the tail forward drops bytes and leaves the open write transaction alone.\<close>

lemma advance_tail:
  assumes "ring_inv s" "unat c \<le> used s"
  shows "used (s\<lparr>hr_tail := hr_tail s + c\<rparr>) = used s - unat c"
    and "contents (s\<lparr>hr_tail := hr_tail s + c\<rparr>) = drop (unat c) (contents s)"
    and "pending (s\<lparr>hr_tail := hr_tail s + c\<rparr>) = pending s"
proof -
  let ?s = "s\<lparr>hr_tail := hr_tail s + c\<rparr>"
  have le: "used s + unat (pr_tx s) \<le> length (hr_data s)" using assms used_le by blast
  have "used ?s = unat (hr_head s - (hr_tail s + c))" by (simp add: used_def)
  also have "hr_head s - (hr_tail s + c) = (hr_head s - hr_tail s) - c" by simp
  also have "unat ((hr_head s - hr_tail s) - c) = used s - unat c"
    using assms(2) unfolding used_def by (intro unat_sub) (simp add: word_le_nat_alt)
  finally show u: "used ?s = used s - unat c" .
  obtain k where k: "k \<le> 62" "length (hr_data s) = 2 ^ k" using assms(1) by (elim ring_invE)
  have "unat (hr_tail s + c) mod length (hr_data s) = (unat (hr_tail s) + unat c) mod length (hr_data s)"
    using k by (simp add: unat_plus_mod)
  then have "ring_view ?s = rotate (unat c) (ring_view s)"
    unfolding ring_view_def by (simp add: rotate_rotate add.commute) (metis rotate_conv_mod)
  moreover have "unat c \<le> length (ring_view s)" using assms(2) le by simp
  ultimately have view: "ring_view ?s = drop (unat c) (ring_view s) @ take (unat c) (ring_view s)"
    by (cases "unat c = length (ring_view s)") (simp_all add: rotate_drop_take)
  show "contents ?s = drop (unat c) (contents s)"
    using assms(2) le by (simp add: contents_def u view drop_take)
  show "pending ?s = pending s"
    using assms(2) le by (simp add: pending_def u view)
qed

text \<open>Moving the head over the open write transaction commits it.\<close>

lemma advance_head:
  assumes "ring_inv s"
  shows "used (s\<lparr>hr_head := hr_head s + pr_tx s\<rparr>) = used s + unat (pr_tx s)"
    and "contents (s\<lparr>hr_head := hr_head s + pr_tx s\<rparr>) = contents s @ pending s"
proof -
  let ?s = "s\<lparr>hr_head := hr_head s + pr_tx s\<rparr>"
  have le: "used s + unat (pr_tx s) \<le> length (hr_data s)" "length (hr_data s) < 2 ^ 63"
    using assms by (auto elim!: ring_invE)
  have "used ?s = unat (hr_head s + pr_tx s - hr_tail s)" by (simp add: used_def)
  also have "hr_head s + pr_tx s - hr_tail s = (hr_head s - hr_tail s) + pr_tx s" by simp
  also have "unat ((hr_head s - hr_tail s) + pr_tx s) = used s + unat (pr_tx s)"
    using le unfolding used_def by (intro unat_plus_small) simp
  finally show u: "used ?s = used s + unat (pr_tx s)" .
  show "contents ?s = contents s @ pending s"
    by (simp add: contents_def pending_def u take_add ring_view_def)
qed

text \<open>Writing appends to the open transaction.\<close>

lemma append_pending:
  assumes "ring_inv s" "used s + unat (pr_tx s) + length d \<le> length (hr_data s)" "d \<noteq> []"
    and "s1 = s\<lparr>hr_data := wrap_write ((unat (hr_tail s) + (used s + unat (pr_tx s))) mod length (hr_data s)) d (hr_data s),
             pr_tx := pr_tx s + of_nat (length d)\<rparr>"
  shows "used s1 = used s" "length (hr_data s1) = length (hr_data s)"
    and "unat (pr_tx s1) = unat (pr_tx s) + length d"
    and "contents s1 = contents s" "pending s1 = pending s @ d"
proof -
  have lt: "length (hr_data s) < 2 ^ 63" using assms(1) by (elim ring_invE)
  have pos: "used s + unat (pr_tx s) < length (hr_data s)" using assms(2,3) by (cases d) auto
  show u: "used s1 = used s" using assms(4) by (simp add: used_def)
  show l: "length (hr_data s1) = length (hr_data s)"
  proof -
    have "(unat (hr_tail s) + (used s + unat (pr_tx s))) mod length (hr_data s) < length (hr_data s)"
      using pos by (intro mod_less_divisor) linarith
    then show ?thesis using assms(2,4) by (simp del: mod_less_divisor)
  qed
  have "unat (of_nat (length d) :: 64 word) = length d" using lt assms(2) by (intro unat_length) simp
  then show p: "unat (pr_tx s1) = unat (pr_tx s) + length d"
    using lt assms(2,4) by (simp add: unat_plus_small)
  have view: "ring_view s1 = memcpy (ring_view s) (used s + unat (pr_tx s)) d"
    using assms(2,4) pos by (simp add: ring_view_def rotate_wrap_write)
  have le: "used s \<le> length (hr_data s)" "used s + unat (pr_tx s) \<le> length (hr_data s)"
    using assms(2) by linarith+
  then show "contents s1 = contents s" by (simp add: contents_def u view memcpy_def)
  show "pending s1 = pending s @ d"
    using assms(2) le by (simp add: pending_def u p view memcpy_def take_drop add.commute)
qed

section \<open>Agreement of the operations\<close>

type_synonym answer = "errno + nat \<times> byte list"

definition answer :: "('a \<Rightarrow> nat \<times> byte list) \<Rightarrow> (errno + 'a) \<times> 's \<Rightarrow> answer \<times> 's" where
  "answer f r = (map_sum id f (fst r), snd r)"

definition q_copy :: "nat \<Rightarrow> byte_queue \<Rightarrow> (errno + byte list) \<times> byte_queue" where
  "q_copy n q = (if n = 0 \<and> q_read q \<noteq> None then (Inr [], q) else q_take n q)"

lemma inv_updates:
  assumes "ring_inv s"
  shows "ring_inv (s\<lparr>hr_wtx := True\<rparr>)" "ring_inv (s\<lparr>hr_rtx := True\<rparr>)"
    and "ring_inv (s\<lparr>pr_tx := 0, hr_wtx := False\<rparr>)" "ring_inv (s\<lparr>co_tx := 0, hr_rtx := False\<rparr>)"
    and "ring_inv (s\<lparr>co_aux := a\<rparr>)"
  using assms by (auto simp: ring_inv_def used_def)

lemma views_unchanged [simp]:
  "used (s\<lparr>hr_wtx := b\<rparr>) = used s" "used (s\<lparr>hr_rtx := b\<rparr>) = used s"
  "used (s\<lparr>pr_tx := n\<rparr>) = used s" "used (s\<lparr>co_tx := n\<rparr>) = used s" "used (s\<lparr>co_aux := n\<rparr>) = used s"
  "contents (s\<lparr>hr_wtx := b\<rparr>) = contents s" "contents (s\<lparr>hr_rtx := b\<rparr>) = contents s"
  "contents (s\<lparr>pr_tx := n\<rparr>) = contents s" "contents (s\<lparr>co_tx := n\<rparr>) = contents s"
  "contents (s\<lparr>co_aux := n\<rparr>) = contents s"
  "pending (s\<lparr>hr_wtx := b\<rparr>) = pending s" "pending (s\<lparr>hr_rtx := b\<rparr>) = pending s"
  "pending (s\<lparr>co_tx := n\<rparr>) = pending s" "pending (s\<lparr>co_aux := n\<rparr>) = pending s"
  by (simp_all add: used_def contents_def pending_def ring_view_def)

text \<open>An operation and its specification agree on the answer and on the queue.\<close>

definition agrees :: "'o \<times> ring_sys \<Rightarrow> 'o \<times> byte_queue \<Rightarrow> bool" where
  "agrees r q \<longleftrightarrow> fst r = fst q \<and> queue_of (snd r) = snd q \<and> ring_inv (snd r)"

lemma agrees_answer: "agrees (answer f r) (answer g q) \<longleftrightarrow>
    map_sum id f (fst r) = map_sum id g (fst q) \<and> queue_of (snd r) = snd q \<and> ring_inv (snd r)"
  by (simp add: agrees_def answer_def)

lemma start_write_agrees:
  "ring_inv s \<Longrightarrow> agrees (answer f (startWriteTx cas s)) (answer f (q_start_write cas (queue_of s)))"
  by (auto simp: agrees_answer startWriteTx_def q_start_write_def queue_of_def inv_updates ring_inv_def
      pending_def used_def contents_def ring_view_def)

lemma start_read_agrees:
  "ring_inv s \<Longrightarrow> agrees (answer f (startReadTransaction cas s)) (answer f (q_start_read cas (queue_of s)))"
  by (auto simp: agrees_answer startReadTransaction_def q_start_read_def queue_of_def inv_updates ring_inv_def
      pending_def used_def contents_def ring_view_def)

lemma cancel_write_agrees: "ring_inv s \<Longrightarrow>
    agrees (answer (\<lambda>n. (unat n, [])) (cancelWriteTx s)) (answer (\<lambda>n. (n, [])) (q_cancel_write (queue_of s)))"
  by (auto simp: agrees_answer cancelWriteTx_def q_cancel_write_def queue_of_def inv_updates length_pending)

lemma cancel_read_agrees: "ring_inv s \<Longrightarrow>
    agrees (answer (\<lambda>n. (unat n, [])) (cancelReadTx s)) (answer (\<lambda>n. (n, [])) (q_cancel_read (queue_of s)))"
  by (auto simp: agrees_answer cancelReadTx_def q_cancel_read_def queue_of_def inv_updates)

lemma write_agrees:
  assumes "ring_inv s" "length d < 2 ^ 63"
  shows "agrees (answer (\<lambda>n. (unat n, [])) (writeInTx d s)) (answer (\<lambda>n. (n, [])) (q_append d (queue_of s)))"
proof (cases "hr_wtx s \<and> d \<noteq> [] \<and> used s + unat (pr_tx s) + length d \<le> length (hr_data s)")
  case True
  define s1 where "s1 = s\<lparr>hr_data := wrap_write ((unat (hr_tail s) + (used s + unat (pr_tx s))) mod length (hr_data s)) d (hr_data s),
             pr_tx := pr_tx s + of_nat (length d)\<rparr>"
  have "used s + unat (pr_tx s) + length d \<le> length (hr_data s)" "d \<noteq> []" using True by auto
  note s1 = append_pending [OF assms(1) this s1_def]
  have "writeInTx d s = (Inr (of_nat (length d)), s1)"
    using True assms by (simp add: writeInTx_def copyToRingBuffer_eq s1_def)
  moreover have "ring_inv s1"
    using assms(1) True s1 by (auto simp: ring_inv_def) (auto simp: s1_def)
  moreover have "unat (of_nat (length d) :: 64 word) = length d" using assms(2) by (intro unat_length) simp
  moreover have "queue_of s1 = (queue_of s)\<lparr>q_write := Some (pending s @ d)\<rparr>"
    using True s1 by (simp add: queue_of_def) (simp add: s1_def)
  moreover have "q_append d (queue_of s) = (Inr (length d), (queue_of s)\<lparr>q_write := Some (pending s @ d)\<rparr>)"
    using True assms(1) by (simp add: q_append_def queue_of_def length_contents length_pending)
  ultimately show ?thesis by (simp add: agrees_answer)
next
  case False
  then show ?thesis
    using assms by (auto simp: agrees_answer writeInTx_def copyToRingBuffer_eq q_append_def queue_of_def
        length_contents length_pending)
qed

lemma take_agrees:
  assumes "ring_inv s"
  shows "agrees (answer f (readInTx (\<lambda>_. True) n s)) (answer f (q_take (unat n) (queue_of s)))"
    and "agrees (answer f (copyInTx n s)) (answer f (q_copy (unat n) (queue_of s)))"
proof -
  have big: "n > hr_size s \<longleftrightarrow> length (hr_data s) < unat n"
    using assms by (elim ring_invE) (simp add: word_less_nat_alt)
  have lt: "length (hr_data s) < 2 ^ 63" using assms by (elim ring_invE)
  have co: "unat (co_tx s + n) = unat (co_tx s) + unat n" if "unat (co_tx s) + unat n \<le> used s"
    using that lt used_le [OF assms] by (intro unat_plus_small) simp
  have inv: "ring_inv (s\<lparr>co_tx := co_tx s + n\<rparr>)" "ring_inv (s\<lparr>co_tx := co_tx s + n, co_aux := a\<rparr>)"
    if "unat (co_tx s) + unat n \<le> used s" "hr_rtx s" for a
    using assms that co by (simp_all add: ring_inv_def)
  show "agrees (answer f (readInTx (\<lambda>_. True) n s)) (answer f (q_take (unat n) (queue_of s)))"
    using assms big co inv
    by (auto simp: agrees_answer readInTx_def read_ptr_def readFromRingBuffer_eq Let_def q_take_def queue_of_def
        length_contents unat_eq_0 not_less)
  show "agrees (answer f (copyInTx n s)) (answer f (q_copy (unat n) (queue_of s)))"
    using assms big co inv
    by (auto simp: agrees_answer copyInTx_def readFromRingBuffer_eq Let_def q_copy_def q_take_def queue_of_def
        length_contents unat_eq_0 not_less)
qed

lemma commit_write_agrees:
  assumes "ring_inv s"
  shows "agrees (answer f (commitWriteTx s)) (answer f (q_commit_write (queue_of s)))"
proof -
  note a = advance_head [OF assms]
  let ?s = "s\<lparr>hr_head := hr_head s + pr_tx s\<rparr>"
  have eq: "snd (commitWriteTx s) = ?s\<lparr>pr_tx := 0, hr_wtx := False\<rparr>" if "hr_wtx s"
    using that by (simp add: commitWriteTx_def incHead_def)
  have "ring_inv (?s\<lparr>pr_tx := 0, hr_wtx := False\<rparr>)"
    using assms a(1) by (auto simp: ring_inv_def)
  then show ?thesis
    using a(2) by (auto simp: agrees_answer commitWriteTx_def incHead_def q_commit_write_def queue_of_def assms
        ac_simps)
qed

lemma tail_moved:
  assumes "ring_inv s" "unat c \<le> used s"
  shows "ring_inv ((s\<lparr>hr_tail := hr_tail s + c\<rparr>)\<lparr>co_tx := 0, hr_rtx := False\<rparr>)"
    and "queue_of ((s\<lparr>hr_tail := hr_tail s + c\<rparr>)\<lparr>co_tx := 0, hr_rtx := False\<rparr>)
      = (queue_of s)\<lparr>q_bytes := drop (unat c) (contents s), q_read := None\<rparr>"
proof -
  note a = advance_tail [OF assms]
  show "ring_inv ((s\<lparr>hr_tail := hr_tail s + c\<rparr>)\<lparr>co_tx := 0, hr_rtx := False\<rparr>)"
    using assms(1) a(1) by (auto simp: ring_inv_def)
  show "queue_of ((s\<lparr>hr_tail := hr_tail s + c\<rparr>)\<lparr>co_tx := 0, hr_rtx := False\<rparr>)
      = (queue_of s)\<lparr>q_bytes := drop (unat c) (contents s), q_read := None\<rparr>"
    by (simp add: queue_of_def a)
qed

lemma commit_read_agrees:
  assumes "ring_inv s"
  shows "agrees (answer f (commitReadTx s)) (answer f (q_commit_read (queue_of s)))"
proof (cases "hr_rtx s")
  case True
  have "unat (co_tx s) \<le> used s" using assms by (elim ring_invE)
  note m = tail_moved [OF assms this]
  have "snd (commitReadTx s) = (s\<lparr>hr_tail := hr_tail s + co_tx s\<rparr>)\<lparr>co_tx := 0, hr_rtx := False\<rparr>"
    using True by (simp add: commitReadTx_def incTail_def)
  with m True show ?thesis
    by (simp add: agrees_answer q_commit_read_def) (simp add: queue_of_def commitReadTx_def)
qed (use assms in \<open>simp add: agrees_answer commitReadTx_def q_commit_read_def queue_of_def\<close>)

lemma drop_in_tx_agrees:
  assumes "ring_inv s"
  shows "agrees (answer (\<lambda>n. (unat n, [])) (dropInTx s)) (answer (\<lambda>n. (n, [])) (q_drop_in_tx (queue_of s)))"
proof (cases "hr_rtx s")
  case True
  have "unat (hr_head s - hr_tail s) \<le> used s" by (simp add: used_def)
  note m = tail_moved [OF assms this]
  have "snd (dropInTx s) = (s\<lparr>hr_tail := hr_tail s + (hr_head s - hr_tail s)\<rparr>)\<lparr>co_tx := 0, hr_rtx := False\<rparr>"
    using True by (simp add: dropInTx_def header_drop_def)
  moreover have "drop (unat (hr_head s - hr_tail s)) (contents s) = []"
    using assms by (simp add: length_contents flip: used_def)
  ultimately show ?thesis using m True
    by (simp add: agrees_answer q_drop_in_tx_def) (simp add: queue_of_def dropInTx_def)
qed (use assms in \<open>simp add: agrees_answer dropInTx_def q_drop_in_tx_def queue_of_def\<close>)

lemma drop_n_agrees:
  assumes "ring_inv s"
  shows "agrees (answer f (consumer_dropN cas n s)) (answer f (q_drop_n cas (unat n) (queue_of s)))"
proof (cases "\<not> hr_rtx s \<and> cas")
  case True
  define c where "c = min (hr_head s - hr_tail s) n"
  have c: "unat c = min (used s) (unat n)" by (auto simp: c_def used_def min_def word_le_nat_alt)
  then have "unat c \<le> used s" by simp
  note m = tail_moved [OF assms this]
  have "co_tx s = 0" using True assms by (simp add: ring_inv_def)
  then have "snd (consumer_dropN cas n s) = (s\<lparr>hr_tail := hr_tail s + c\<rparr>)\<lparr>co_tx := 0, hr_rtx := False\<rparr>"
    using True by (simp add: consumer_dropN_def startReadTransaction_def header_dropN_def usedSizeWeak_def c_def)
  moreover have "drop (unat c) (contents s) = drop (unat n) (contents s)"
    using assms by (auto simp: c length_contents min_def)
  ultimately show ?thesis using m True
    by (simp add: agrees_answer q_drop_n_def) (simp add: queue_of_def consumer_dropN_def startReadTransaction_def)
qed (use assms in \<open>auto simp: agrees_answer consumer_dropN_def startReadTransaction_def q_drop_n_def queue_of_def\<close>)

section \<open>Whole transactions\<close>

lemma agrees_bind:
  assumes "agrees (answer f r) (answer g q)"
    and "\<And>x s1 y q1. r = (Inr x, s1) \<Longrightarrow> q = (Inr y, q1) \<Longrightarrow> f x = g y \<Longrightarrow> queue_of s1 = q1 \<Longrightarrow> ring_inv s1
      \<Longrightarrow> agrees (answer f' (k x s1)) (answer g' (l y q1))"
  shows "agrees (answer f' (case r of (Inl e, s1) \<Rightarrow> (Inl e, s1) | (Inr x, s1) \<Rightarrow> k x s1))
    (answer g' (case q of (Inl e, q1) \<Rightarrow> (Inl e, q1) | (Inr y, q1) \<Rightarrow> l y q1))"
proof -
  obtain x s1 y q1 where rq: "r = (x, s1)" "q = (y, q1)" by (metis prod.exhaust)
  with assms show ?thesis
    by (cases x; cases y) (auto simp: agrees_answer)
qed

definition q_write_tx :: "bool \<Rightarrow> (byte_queue \<Rightarrow> (errno + 'a) \<times> byte_queue) \<Rightarrow> byte_queue
    \<Rightarrow> (errno + 'a) \<times> byte_queue" where
  "q_write_tx cas op q =
     (case q_start_write cas q of
        (Inl e, q1) \<Rightarrow> (Inl e, q1)
      | (Inr _, q1) \<Rightarrow>
          (case op q1 of
             (Inl e, q2) \<Rightarrow> (Inl e, snd (q_cancel_write q2))
           | (Inr x, q2) \<Rightarrow> (Inr x, snd (q_commit_write q2))))"

definition q_read_tx :: "bool \<Rightarrow> (byte_queue \<Rightarrow> (errno + 'a) \<times> byte_queue) \<Rightarrow> byte_queue
    \<Rightarrow> (errno + 'a) \<times> byte_queue" where
  "q_read_tx cas op q =
     (case q_start_read cas q of
        (Inl e, q1) \<Rightarrow> (Inl e, q1)
      | (Inr _, q1) \<Rightarrow>
          (case op q1 of
             (Inl e, q2) \<Rightarrow> (Inl e, snd (q_cancel_read q2))
           | (Inr x, q2) \<Rightarrow> (Inr x, snd (q_commit_read q2))))"

lemma agrees_state: "agrees (answer f r) (answer g q) \<Longrightarrow> queue_of (snd r) = snd q \<and> ring_inv (snd r)"
  by (simp add: agrees_answer)

lemmas state_of_commit_write = agrees_state [OF commit_write_agrees]
lemmas state_of_cancel_write = agrees_state [OF cancel_write_agrees]
lemmas state_of_commit_read = agrees_state [OF commit_read_agrees]
lemmas state_of_cancel_read = agrees_state [OF cancel_read_agrees]

lemma write_tx_agrees:
  assumes "ring_inv s" "\<And>s. ring_inv s \<Longrightarrow> agrees (answer f (op s)) (answer g (qop (queue_of s)))"
  shows "agrees (answer f (write_tx cas op s)) (answer g (q_write_tx cas qop (queue_of s)))"
  unfolding write_tx_def q_write_tx_def
proof (rule agrees_bind [OF start_write_agrees [OF assms(1)]])
  fix x s1 y q1 assume "queue_of s1 = q1" "ring_inv s1"
  with assms(2) [of s1] show "agrees
      (answer f (case op s1 of (Inl e, s2) \<Rightarrow> (Inl e, snd (cancelWriteTx s2)) | (Inr k, s2) \<Rightarrow> (Inr k, snd (commitWriteTx s2))))
      (answer g (case qop q1 of (Inl e, q2) \<Rightarrow> (Inl e, snd (q_cancel_write q2)) | (Inr x, q2) \<Rightarrow> (Inr x, snd (q_commit_write q2))))"
    using state_of_commit_write state_of_cancel_write
    by (cases "op s1"; cases "qop q1"; cases "fst (op s1)"; cases "fst (qop q1)") (auto simp: agrees_answer)
qed

lemma read_tx_agrees:
  assumes "ring_inv s" "\<And>s. ring_inv s \<Longrightarrow> agrees (answer f (op s)) (answer g (qop (queue_of s)))"
  shows "agrees (answer f (read_tx cas op s)) (answer g (q_read_tx cas qop (queue_of s)))"
  unfolding read_tx_def q_read_tx_def
proof (rule agrees_bind [OF start_read_agrees [OF assms(1)]])
  fix x s1 y q1 assume "queue_of s1 = q1" "ring_inv s1"
  with assms(2) [of s1] show "agrees
      (answer f (case op s1 of (Inl e, s2) \<Rightarrow> (Inl e, snd (cancelReadTx s2)) | (Inr x, s2) \<Rightarrow> (Inr x, snd (commitReadTx s2))))
      (answer g (case qop q1 of (Inl e, q2) \<Rightarrow> (Inl e, snd (q_cancel_read q2)) | (Inr x, q2) \<Rightarrow> (Inr x, snd (q_commit_read q2))))"
    using state_of_commit_read state_of_cancel_read
    by (cases "op s1"; cases "qop q1"; cases "fst (op s1)"; cases "fst (qop q1)") (auto simp: agrees_answer)
qed

text \<open>Chunks with a size prefix of \<open>n\<close> bytes.\<close>

definition q_append_sized :: "nat \<Rightarrow> byte list \<Rightarrow> byte_queue \<Rightarrow> (errno + nat) \<times> byte_queue" where
  "q_append_sized n d q =
     (if q_write q = None \<or> length d > 256 ^ n - 1 then (Inl EINVAL, q)
      else
        case q_append (encode_le n (length d)) q of
          (Inl e, q1) \<Rightarrow> (Inl e, q1)
        | (Inr k, q1) \<Rightarrow>
            (case q_append d q1 of
               (Inl e, q2) \<Rightarrow> (Inl e, q2)
             | (Inr k2, q2) \<Rightarrow> (Inr (k + k2), q2)))"

definition q_take_sized :: "nat \<Rightarrow> byte_queue \<Rightarrow> (errno + byte list) \<times> byte_queue" where
  "q_take_sized n q =
     (if q_read q = None then (Inl EINVAL, q)
      else
        case q_take n q of
          (Inl e, q1) \<Rightarrow> (Inl e, q1)
        | (Inr bs, q1) \<Rightarrow> q_take (decode_le bs) q1)"

lemma length_encode_le [simp]: "length (encode_le n v) = n"
  by (induction n arbitrary: v) simp_all

lemma decode_encode_le: "v < 256 ^ n \<Longrightarrow> decode_le (encode_le n v) = v"
proof (induction n arbitrary: v)
  case (Suc n)
  then have "v div 256 < 256 ^ n" by (simp add: less_mult_imp_div_less mult.commute)
  with Suc.IH have "decode_le (encode_le n (v div 256)) = v div 256" by blast
  moreover have "unat (of_nat v :: 8 word) = v mod 256" by (simp add: unsigned_of_nat take_bit_nat_def)
  ultimately show ?case by simp
qed simp

lemma decode_le_less: "decode_le bs < 256 ^ length bs"
proof (induction bs)
  case (Cons b bs)
  have "unat b < 256" using unsigned_less [of b] by simp
  with Cons show ?case by simp
qed simp

lemma copyToRingBuffer_wtx: "hr_wtx (snd (copyToRingBuffer d off s)) = hr_wtx s"
  by (simp add: copyToRingBuffer_def Let_def)

lemma writeInTxWithSize_eq: "hr_wtx s \<Longrightarrow> writeInTxWithSize n d s =
    (case writeInTx (encode_le n (length d)) s of
       (Inl e, s1) \<Rightarrow> (Inl e, s1)
     | (Inr k, s1) \<Rightarrow> (case writeInTx d s1 of (Inl e, s2) \<Rightarrow> (Inl e, s2) | (Inr k2, s2) \<Rightarrow> (Inr (k + k2), s2)))"
  using copyToRingBuffer_wtx [of "encode_le n (length d)" "pr_tx s" s]
  by (auto simp: writeInTxWithSize_def writeInTx_def split: prod.splits sum.splits)

lemma append_sized_agrees:
  assumes "ring_inv s" "length d < 2 ^ 63" "n \<le> 8"
  shows "agrees (answer (\<lambda>n. (unat n, [])) (writeInTxSizedChunk n d s))
    (answer (\<lambda>n. (n, [])) (q_append_sized n d (queue_of s)))"
proof (cases "hr_wtx s \<and> \<not> length d > 256 ^ n - 1")
  case True
  have "length (encode_le n (length d)) < 2 ^ 63" using assms(3) by simp
  note a = write_agrees [OF assms(1) this]
  have "agrees (answer (\<lambda>n. (unat n, [])) (case writeInTx (encode_le n (length d)) s of
          (Inl e, s1) \<Rightarrow> (Inl e, s1)
        | (Inr k, s1) \<Rightarrow> (case writeInTx d s1 of (Inl e, s2) \<Rightarrow> (Inl e, s2) | (Inr k2, s2) \<Rightarrow> (Inr (k + k2), s2))))
     (answer (\<lambda>n. (n, [])) (case q_append (encode_le n (length d)) (queue_of s) of
          (Inl e, q1) \<Rightarrow> (Inl e, q1)
        | (Inr k, q1) \<Rightarrow> (case q_append d q1 of (Inl e, q2) \<Rightarrow> (Inl e, q2) | (Inr k2, q2) \<Rightarrow> (Inr (k + k2), q2))))"
  proof (rule agrees_bind [OF a], rule agrees_bind)
    fix x :: "64 word" and s1 y q1
    assume s1: "queue_of s1 = q1" "ring_inv s1" and r: "q_append (encode_le n (length d)) (queue_of s) = (Inr y, q1)"
      and x: "(unat x, []) = (y, [] :: byte list)"
    show "agrees (answer (\<lambda>n. (unat n, [])) (writeInTx d s1)) (answer (\<lambda>n. (n, [])) (q_append d q1))"
      using write_agrees [OF s1(2) assms(2)] s1(1) by simp
    fix x2 :: "64 word" and s2 y2 q2
    assume s2: "queue_of s2 = q2" "ring_inv s2" and r2: "q_append d q1 = (Inr y2, q2)"
      and x2: "(unat x2, []) = (y2, [] :: byte list)"
    have "y = n" "y2 = length d"
      using r r2 by (auto simp: q_append_def split: option.splits if_splits)
    then have "unat (x + x2) = y + y2"
      using x x2 assms(2,3) by (subst unat_plus_small) auto
    then show "agrees (answer (\<lambda>n. (unat n, [])) (Inr (x + x2), s2)) (answer (\<lambda>n. (n, [])) (Inr (y + y2), q2))"
      using s2 by (simp add: agrees_answer)
  qed
  with True show ?thesis
    by (simp add: writeInTxSizedChunk_def writeInTxWithSize_eq q_append_sized_def) (simp add: queue_of_def)
next
  case False
  then show ?thesis
    using assms(1) by (auto simp: agrees_answer writeInTxSizedChunk_def q_append_sized_def queue_of_def)
qed

lemma take_sized_agrees:
  assumes "ring_inv s" "n \<le> 8"
  shows "agrees (answer f (readInTxWithSize (\<lambda>_. True) n s)) (answer f (q_take_sized n (queue_of s)))"
proof (cases "hr_rtx s")
  case True
  have n: "unat (of_nat n :: 64 word) = n" using assms(2) by (simp add: unsigned_of_nat take_bit_nat_def)
  have "agrees (answer f (case readInTx (\<lambda>_. True) (of_nat n) s of
          (Inl e, s1) \<Rightarrow> (Inl e, s1) | (Inr bs, s1) \<Rightarrow> readInTx (\<lambda>_. True) (of_nat (decode_le bs)) s1))
      (answer f (case q_take n (queue_of s) of
          (Inl e, q1) \<Rightarrow> (Inl e, q1) | (Inr bs, q1) \<Rightarrow> q_take (decode_le bs) q1))"
  proof (rule agrees_bind)
    show "agrees (answer (Pair 0) (readInTx (\<lambda>_. True) (of_nat n) s)) (answer (Pair 0) (q_take n (queue_of s)))"
      using take_agrees(1) [OF assms(1), of "Pair 0" "of_nat n"] n by simp
    fix bs s1 bs' q1
    assume "q_take n (queue_of s) = (Inr bs', q1)" "(0 :: nat, bs) = (0, bs')" "queue_of s1 = q1" "ring_inv s1"
    then have r: "q_take n (queue_of s) = (Inr bs', q1)" "bs = bs'" "queue_of s1 = q1" "ring_inv s1"
      by simp_all
    then have "length bs \<le> 8" using assms(2) by (auto simp: q_take_def split: option.splits if_splits)
    then have "(256 :: nat) ^ length bs \<le> 256 ^ 8" by (intro power_increasing) auto
    with decode_le_less [of bs] have "decode_le bs < 2 ^ 64" by simp
    then have "unat (of_nat (decode_le bs) :: 64 word) = decode_le bs"
      by (simp add: unsigned_of_nat take_bit_nat_def)
    with r take_agrees(1) [OF r(4), of f "of_nat (decode_le bs)"]
    show "agrees (answer f (readInTx (\<lambda>_. True) (of_nat (decode_le bs)) s1)) (answer f (q_take (decode_le bs') q1))"
      by simp
  qed
  with True show ?thesis
    by (simp add: readInTxWithSize_def q_take_sized_def) (simp add: queue_of_def)
next
  case False
  with assms(1) show ?thesis
    by (simp add: agrees_answer readInTxWithSize_def q_take_sized_def queue_of_def)
qed

definition q_get :: "bool \<Rightarrow> nat \<Rightarrow> byte_queue \<Rightarrow> (errno + byte list) \<times> byte_queue" where
  "q_get cas n q = (if q_cap q < n then (Inl EINVAL, q) else q_read_tx cas (q_take n) q)"

lemma ring_get_eq: "ring_get mem cas sz s =
    (if sz > hr_size s then (Inl EINVAL, s) else read_tx cas (readInTx mem sz) s)"
  by (auto simp: ring_get_def startReadTx_def read_tx_def split: prod.splits sum.splits)

lemma get_agrees:
  assumes "ring_inv s"
  shows "agrees (answer f (ring_get (\<lambda>_. True) cas n s)) (answer f (q_get cas (unat n) (queue_of s)))"
proof -
  have big: "n > hr_size s \<longleftrightarrow> length (hr_data s) < unat n"
    using assms by (elim ring_invE) (simp add: word_less_nat_alt)
  show ?thesis
  proof (cases "n > hr_size s")
    case True
    with big assms show ?thesis by (simp add: ring_get_eq q_get_def agrees_answer queue_of_def)
  next
    case False
    then have "\<not> q_cap (queue_of s) < unat n" using big by (simp add: queue_of_def)
    moreover have "agrees (answer f (read_tx cas (readInTx (\<lambda>_. True) n) s))
        (answer f (q_read_tx cas (q_take (unat n)) (queue_of s)))"
      by (intro read_tx_agrees take_agrees assms)
    ultimately show ?thesis using False by (simp add: ring_get_eq q_get_def)
  qed
qed

definition q_get_sized :: "bool \<Rightarrow> nat \<Rightarrow> byte_queue \<Rightarrow> (errno + byte list) \<times> byte_queue" where
  "q_get_sized cas n = q_read_tx cas (q_take_sized n)"

lemma get_sized_agrees:
  assumes "ring_inv s" "n \<le> 8"
  shows "agrees (answer (\<lambda>x. x) (readSizedChunk (\<lambda>_. True) cas n s))
    (answer (\<lambda>bs. (n + length bs, bs)) (q_get_sized cas n (queue_of s)))"
proof -
  have "agrees (answer (\<lambda>bs. (n + length bs, bs)) (read_tx cas (readInTxWithSize (\<lambda>_. True) n) s))
      (answer (\<lambda>bs. (n + length bs, bs)) (q_get_sized cas n (queue_of s)))"
    unfolding q_get_sized_def by (intro read_tx_agrees take_sized_agrees assms)
  then show ?thesis
    by (auto simp: readSizedChunk_def agrees_answer split: prod.splits sum.splits)
qed

definition q_drop :: "bool \<Rightarrow> byte_queue \<Rightarrow> (errno + nat) \<times> byte_queue" where
  "q_drop cas q =
     (case q_start_read cas q of (Inl e, q1) \<Rightarrow> (Inl e, q1) | (Inr _, q1) \<Rightarrow> q_drop_in_tx q1)"

lemma drop_agrees:
  assumes "ring_inv s"
  shows "agrees (answer (\<lambda>n. (unat n, [])) (ring_drop cas s)) (answer (\<lambda>n. (n, [])) (q_drop cas (queue_of s)))"
  unfolding ring_drop_def q_drop_def
  by (rule agrees_bind [OF start_read_agrees [OF assms]]) (use drop_in_tx_agrees in auto)

section \<open>Operations\<close>

datatype ring_op =
    Start_Write bool | Write_In_Tx "byte list" | Commit_Write | Cancel_Write
  | Start_Read bool | Read_In_Tx "64 word" | Copy_In_Tx "64 word" | Commit_Read | Cancel_Read
  | Drop_In_Tx | Drop_N bool "64 word"
  | Put bool "byte list" | Put_Sized bool nat "byte list" | Drop_All bool
  | Copy bool "64 word" | Get bool "64 word" | Get_Sized bool nat

fun run_op :: "ring_op \<Rightarrow> ring_sys \<Rightarrow> answer \<times> ring_sys" where
  "run_op (Start_Write cas) s = answer (\<lambda>_. (0, [])) (startWriteTx cas s)"
| "run_op (Write_In_Tx d) s = answer (\<lambda>n. (unat n, [])) (writeInTx d s)"
| "run_op Commit_Write s = answer (\<lambda>_. (0, [])) (commitWriteTx s)"
| "run_op Cancel_Write s = answer (\<lambda>n. (unat n, [])) (cancelWriteTx s)"
| "run_op (Start_Read cas) s = answer (\<lambda>_. (0, [])) (startReadTransaction cas s)"
| "run_op (Read_In_Tx n) s = answer (\<lambda>bs. (length bs, bs)) (readInTx (\<lambda>_. True) n s)"
| "run_op (Copy_In_Tx n) s = answer (\<lambda>bs. (length bs, bs)) (copyInTx n s)"
| "run_op Commit_Read s = answer (\<lambda>_. (0, [])) (commitReadTx s)"
| "run_op Cancel_Read s = answer (\<lambda>n. (unat n, [])) (cancelReadTx s)"
| "run_op Drop_In_Tx s = answer (\<lambda>n. (unat n, [])) (dropInTx s)"
| "run_op (Drop_N cas n) s = answer (\<lambda>_. (0, [])) (consumer_dropN cas n s)"
| "run_op (Put cas d) s = answer (\<lambda>n. (unat n, [])) (ring_put cas d s)"
| "run_op (Put_Sized cas n d) s = answer (\<lambda>n. (unat n, [])) (writeSizedChunk cas n d s)"
| "run_op (Drop_All cas) s = answer (\<lambda>n. (unat n, [])) (ring_drop cas s)"
| "run_op (Copy cas n) s = answer (\<lambda>bs. (length bs, bs)) (ring_copy cas n s)"
| "run_op (Get cas n) s = answer (\<lambda>bs. (length bs, bs)) (ring_get (\<lambda>_. True) cas n s)"
| "run_op (Get_Sized cas n) s = answer (\<lambda>x. x) (readSizedChunk (\<lambda>_. True) cas n s)"

fun spec_op :: "ring_op \<Rightarrow> byte_queue \<Rightarrow> answer \<times> byte_queue" where
  "spec_op (Start_Write cas) q = answer (\<lambda>_. (0, [])) (q_start_write cas q)"
| "spec_op (Write_In_Tx d) q = answer (\<lambda>n. (n, [])) (q_append d q)"
| "spec_op Commit_Write q = answer (\<lambda>_. (0, [])) (q_commit_write q)"
| "spec_op Cancel_Write q = answer (\<lambda>n. (n, [])) (q_cancel_write q)"
| "spec_op (Start_Read cas) q = answer (\<lambda>_. (0, [])) (q_start_read cas q)"
| "spec_op (Read_In_Tx n) q = answer (\<lambda>bs. (length bs, bs)) (q_take (unat n) q)"
| "spec_op (Copy_In_Tx n) q = answer (\<lambda>bs. (length bs, bs)) (q_copy (unat n) q)"
| "spec_op Commit_Read q = answer (\<lambda>_. (0, [])) (q_commit_read q)"
| "spec_op Cancel_Read q = answer (\<lambda>n. (n, [])) (q_cancel_read q)"
| "spec_op Drop_In_Tx q = answer (\<lambda>n. (n, [])) (q_drop_in_tx q)"
| "spec_op (Drop_N cas n) q = answer (\<lambda>_. (0, [])) (q_drop_n cas (unat n) q)"
| "spec_op (Put cas d) q = answer (\<lambda>n. (n, [])) (q_write_tx cas (q_append d) q)"
| "spec_op (Put_Sized cas n d) q = answer (\<lambda>n. (n, [])) (q_write_tx cas (q_append_sized n d) q)"
| "spec_op (Drop_All cas) q = answer (\<lambda>n. (n, [])) (q_drop cas q)"
| "spec_op (Copy cas n) q = answer (\<lambda>bs. (length bs, bs)) (q_read_tx cas (q_copy (unat n)) q)"
| "spec_op (Get cas n) q = answer (\<lambda>bs. (length bs, bs)) (q_get cas (unat n) q)"
| "spec_op (Get_Sized cas n) q = answer (\<lambda>bs. (n + length bs, bs)) (q_get_sized cas n q)"

text \<open>No object is larger than half the address space, and no integer larger than eight bytes.\<close>

fun ring_op_ok :: "ring_op \<Rightarrow> bool" where
  "ring_op_ok (Write_In_Tx d) \<longleftrightarrow> length d < 2 ^ 63"
| "ring_op_ok (Put cas d) \<longleftrightarrow> length d < 2 ^ 63"
| "ring_op_ok (Put_Sized cas n d) \<longleftrightarrow> length d < 2 ^ 63 \<and> n \<le> 8"
| "ring_op_ok (Get_Sized cas n) \<longleftrightarrow> n \<le> 8"
| "ring_op_ok _ \<longleftrightarrow> True"

lemma put_agrees:
  assumes "ring_inv s" "length d < 2 ^ 63"
  shows "agrees (answer (\<lambda>n. (unat n, [])) (ring_put cas d s))
    (answer (\<lambda>n. (n, [])) (q_write_tx cas (q_append d) (queue_of s)))"
  unfolding ring_put_def by (intro write_tx_agrees write_agrees assms)

lemma put_sized_agrees:
  assumes "ring_inv s" "length d < 2 ^ 63" "n \<le> 8"
  shows "agrees (answer (\<lambda>n. (unat n, [])) (writeSizedChunk cas n d s))
    (answer (\<lambda>n. (n, [])) (q_write_tx cas (q_append_sized n d) (queue_of s)))"
  unfolding writeSizedChunk_def by (intro write_tx_agrees append_sized_agrees assms)

lemma copy_agrees:
  "ring_inv s \<Longrightarrow> agrees (answer f (ring_copy cas n s)) (answer f (q_read_tx cas (q_copy (unat n)) (queue_of s)))"
  unfolding ring_copy_def by (intro read_tx_agrees take_agrees)

lemmas op_agrees =
  start_write_agrees write_agrees commit_write_agrees cancel_write_agrees start_read_agrees take_agrees
  commit_read_agrees cancel_read_agrees drop_in_tx_agrees drop_n_agrees put_agrees put_sized_agrees
  copy_agrees get_agrees get_sized_agrees drop_agrees

lemma run_op_agrees: "ring_inv s \<Longrightarrow> ring_op_ok op \<Longrightarrow> agrees (run_op op s) (spec_op op (queue_of s))"
  by (cases op) (simp_all add: op_agrees)

interpretation hbt: io_refinement run_op spec_op queue_of ring_inv ring_op_ok
  by unfold_locales (use run_op_agrees in \<open>auto simp: agrees_def\<close>)

section \<open>A new ring\<close>

lemma bit_or_shift: "bit (or_shift d n) i \<longleftrightarrow> bit n i \<or> bit n (i + d)"
  by (simp add: or_shift_def bit_or_iff bit_drop_bit_eq add.commute)

text \<open>Each step of the loop doubles the distance over which a set bit is spread downwards.\<close>

definition spread :: "nat \<Rightarrow> 64 word \<Rightarrow> 64 word \<Rightarrow> bool" where
  "spread c m w \<longleftrightarrow> (\<forall>i. bit w i \<longleftrightarrow> (\<exists>d < c. bit m (i + d)))"

lemma spread_1: "spread 1 m m"
  by (simp add: spread_def)

lemma spread_double:
  assumes "spread c m w"
  shows "spread (2 * c) m (or_shift c w)"
  unfolding spread_def
proof
  fix i
  have "bit (or_shift c w) i \<longleftrightarrow> (\<exists>d < c. bit m (i + d)) \<or> (\<exists>d < c. bit m (i + c + d))"
    using assms by (simp add: bit_or_shift spread_def)
  also have "\<dots> \<longleftrightarrow> (\<exists>d < 2 * c. bit m (i + d))"
  proof
    assume "(\<exists>d < c. bit m (i + d)) \<or> (\<exists>d < c. bit m (i + c + d))"
    then show "\<exists>d < 2 * c. bit m (i + d)"
    proof
      assume "\<exists>d < c. bit m (i + c + d)"
      then obtain d where "d < c" "bit m (i + (c + d))" by (auto simp: add.assoc)
      then show ?thesis by (intro exI [of _ "c + d"]) simp
    next
      assume "\<exists>d < c. bit m (i + d)"
      then obtain d where "d < c" "bit m (i + d)" by blast
      then show ?thesis by (intro exI [of _ d]) simp
    qed
  next
    assume "\<exists>d < 2 * c. bit m (i + d)"
    then obtain d where "d < 2 * c" "bit m (i + d)" by blast
    then show "(\<exists>d < c. bit m (i + d)) \<or> (\<exists>d < c. bit m (i + c + d))"
      by (cases "d < c") (auto intro: exI [of _ "d - c"])
  qed
  finally show "bit (or_shift c w) i \<longleftrightarrow> (\<exists>d < 2 * c. bit m (i + d))" .
qed

lemma spread_64:
  "spread 64 m (or_shift 32 (or_shift 16 (or_shift 8 (or_shift 4 (or_shift 2 (or_shift 1 m))))))"
  using spread_double [OF spread_double [OF spread_double [OF spread_double [OF spread_double
    [OF spread_double [OF spread_1]]]]]] by simp

lemma bit_word_div: "bit (w :: 64 word) j \<longleftrightarrow> odd (unat w div 2 ^ j)"
  by (simp add: bit_unsigned_iff flip: bit_iff_odd)

lemma nextPow2_exp:
  assumes "0 < n" "n \<le> 2 ^ 62"
  obtains k where "k \<le> 62" "nextPow2 n = 2 ^ k" "unat n \<le> 2 ^ k" "\<forall>j. unat n \<le> 2 ^ j \<longrightarrow> k \<le> j"
proof -
  define m where "m = n - 1"
  have n0: "n \<noteq> 0" using assms(1) by auto
  then have m: "unat m = unat n - 1" "0 < unat n" by (simp_all add: m_def unat_minus_one unat_gt_0)
  have "unat n \<le> 2 ^ 62" using assms(2) unat_exp [of 62] by (simp add: word_le_nat_alt)
  with m have m62: "unat m < 2 ^ 62" by linarith
  define k where "k = (LEAST k. unat m < 2 ^ k)"
  have k: "unat m < 2 ^ k" unfolding k_def by (rule LeastI [of "\<lambda>k. unat m < 2 ^ k" 62]) (rule m62)
  have k62: "k \<le> 62" unfolding k_def by (rule Least_le [of "\<lambda>k. unat m < 2 ^ k"]) (rule m62)
  have least: "k \<le> j" if "unat m < 2 ^ j" for j unfolding k_def using that by (rule Least_le)
  have high: "j < k" if "bit m j" for j
  proof (rule ccontr)
    assume "\<not> j < k"
    then have "unat m < 2 ^ j" using k by (meson le_less_trans less_le_trans linorder_not_less one_le_numeral power_increasing order.strict_trans2)
    then have "unat m div 2 ^ j = 0" by simp
    with that show False by (simp add: bit_word_div)
  qed
  have top: "bit m (k - 1)" if "0 < k"
  proof -
    have "\<not> unat m < 2 ^ (k - 1)" using least [of "k - 1"] that by auto
    moreover have "(2 :: nat) ^ k = 2 * 2 ^ (k - 1)" using that by (cases k) auto
    ultimately have "unat m div 2 ^ (k - 1) = 1" using k
      by (intro div_nat_eqI) auto
    then show ?thesis by (simp add: bit_word_div)
  qed
  let ?w = "or_shift 32 (or_shift 16 (or_shift 8 (or_shift 4 (or_shift 2 (or_shift 1 m)))))"
  have "bit ?w i \<longleftrightarrow> i < k" for i
  proof
    assume "bit ?w i"
    then obtain d where "bit m (i + d)" using spread_64 [of m] by (auto simp: spread_def)
    then show "i < k" using high by fastforce
  next
    assume i: "i < k"
    then have "bit m (i + (k - 1 - i))" "k - 1 - i < 64" using top k62 by auto
    then show "bit ?w i" using spread_64 [of m] unfolding spread_def by blast
  qed
  then have "?w = mask k" using k62 by (intro bit_word_eqI) (auto simp: bit_mask_iff)
  then have "nextPow2 n = 2 ^ k" by (simp add: nextPow2_def m_def mask_eq_decr_exp)
  moreover have "unat n \<le> 2 ^ k" using k m by linarith
  moreover have "\<forall>j. unat n \<le> 2 ^ j \<longrightarrow> k \<le> j" using least m by auto
  ultimately show thesis using that k62 by blast
qed

lemma new_ring_inv:
  assumes "0 < n" "n \<le> 2 ^ 62" "length memory = unat (nextPow2 n)"
  shows "ring_inv (new_ring n memory)"
  using assms(1,2)
proof (rule nextPow2_exp)
  fix k assume k: "k \<le> 62" "nextPow2 n = 2 ^ k"
  with assms(3) have "length memory = 2 ^ k" by (simp add: unat_exp)
  with k show ?thesis by (auto simp: ring_inv_def new_ring_def used_def mask_eq_decr_exp)
qed

definition empty_queue :: "nat \<Rightarrow> byte_queue" where
  "empty_queue n = \<lparr>q_cap = n, q_bytes = [], q_write = None, q_read = None\<rparr>"

lemma new_ring_queue: "queue_of (new_ring n memory) = empty_queue (length memory)"
  by (simp add: queue_of_def new_ring_def contents_def used_def empty_queue_def)

text \<open>C15: A new ring buffer answers every sequence of these operations of its producer and its consumer, in
  whatever order they interleave (the transactions with their reads, copies, writes, commits, cancels and drops,
  and the atomic writes, reads and drops of the consumer, with or without a size; not the drop of the
  producer, the seeks and the chunks without a size; memory for a copy is always found), as a bounded queue of bytes with one write and one read transaction
  does: nothing written is lost, duplicated or reordered, an uncommitted write is never seen, a
  cancelled read is read again, and the errors are exactly those of the queue.\<close>

theorem ring_refines_queue:
  assumes "0 < n" "n \<le> 2 ^ 62" "length memory = unat (nextPow2 n)" "\<forall>op \<in> set ops. ring_op_ok op"
  shows "fst (run_trace run_op ops (new_ring n memory))
    = fst (run_trace spec_op ops (empty_queue (length memory)))"
  using hbt.trace_refines [OF new_ring_inv [OF assms(1-3)] assms(4)] by (simp add: new_ring_queue)

lemma ring_refines_queue_witness:
  "fst (run_trace run_op
      [Start_Write True, Write_In_Tx [1, 2], Get True 1, Commit_Write, Put True [3, 4, 5], Get True 1,
       Put True [3, 4, 5], Start_Read True, Read_In_Tx 2, Cancel_Read, Copy True 4]
      (new_ring 4 (replicate 4 0)))
   = [Inr (0, []), Inr (2, []), Inl ENODATA, Inr (0, []), Inl ENOSPC, Inr (1, [1]),
      Inr (3, []), Inr (0, []), Inr (2, [2, 3]), Inr (2, []), Inr (4, [2, 3, 4, 5])]"
proof -
  have n: "nextPow2 4 = 4" by (simp add: nextPow2_def or_shift_def)
  show ?thesis
    by (subst ring_refines_queue)
      (simp_all add: n answer_def empty_queue_def q_start_write_def q_append_def q_commit_write_def q_get_def
        q_write_tx_def q_read_tx_def q_take_def q_start_read_def q_cancel_write_def q_commit_read_def
        q_cancel_read_def q_copy_def)
qed

end
