(* ===== verification/HbtChunks.thy ===== *)
theory HbtChunks
  imports HbtRefine
begin

text \<open>
  What the clients of the ring buffer rely on: chunks come out as they went in, whether they carry a
  size prefix or have a fixed size; reading up to a stop byte; and two ways in which the code leaves
  the contract of the queue.
\<close>

section \<open>Channels of chunks\<close>

datatype 'c channel_op = Send 'c | Receive

text \<open>The chunks accepted and the chunks received over a sequence of operations.\<close>

fun transfer :: "('c \<Rightarrow> 's \<Rightarrow> bool \<times> 's) \<Rightarrow> ('s \<Rightarrow> 'c option \<times> 's) \<Rightarrow> 'c channel_op list \<Rightarrow> 's
    \<Rightarrow> 'c list \<times> 'c list \<times> 's" where
  "transfer send receive [] s = ([], [], s)"
| "transfer send receive (Send c # ops) s =
     (case transfer send receive ops (snd (send c s)) of
        (sent, got, s1) \<Rightarrow> (if fst (send c s) then c # sent else sent, got, s1))"
| "transfer send receive (Receive # ops) s =
     (case transfer send receive ops (snd (receive s)) of
        (sent, got, s1) \<Rightarrow> (sent, (case fst (receive s) of None \<Rightarrow> got | Some c \<Rightarrow> c # got), s1))"

text \<open>
  The contract of a channel: a chunk that is sent is appended or refused, a chunk that is received is
  the oldest one.
\<close>

locale chunk_channel =
  fixes send :: "'c \<Rightarrow> 's \<Rightarrow> bool \<times> 's"
    and receive :: "'s \<Rightarrow> 'c option \<times> 's"
    and holds :: "'s \<Rightarrow> 'c list \<Rightarrow> bool"
    and valid :: "'c \<Rightarrow> bool"
  assumes send_holds: "holds s cs \<Longrightarrow> valid c \<Longrightarrow>
      holds (snd (send c s)) (if fst (send c s) then cs @ [c] else cs)"
    and receive_holds: "holds s cs \<Longrightarrow>
      fst (receive s) = (if cs = [] then None else Some (hd cs)) \<and> holds (snd (receive s)) (tl cs)"
begin

lemma transfer_fifo:
  assumes "holds s cs" "\<forall>c. Send c \<in> set ops \<longrightarrow> valid c" "transfer send receive ops s = (sent, got, s1)"
  shows "\<exists>rest. cs @ sent = got @ rest \<and> holds s1 rest"
  using assms
proof (induction ops arbitrary: s cs sent got s1)
  case Nil
  then show ?case by auto
next
  case (Cons op ops)
  show ?case
  proof (cases op)
    case (Send c)
    obtain sent' got' s2 where r: "transfer send receive ops (snd (send c s)) = (sent', got', s2)" by (metis prod_cases3)
    have "valid c" using Cons.prems(2) Send by simp
    from Cons.IH [OF send_holds [OF Cons.prems(1) this] _ r] Cons.prems(2)
    show ?thesis using Cons.prems(3) r Send by (auto split: if_splits)
  next
    case Receive
    obtain sent' got' s2 where r: "transfer send receive ops (snd (receive s)) = (sent', got', s2)" by (metis prod_cases3)
    note h = receive_holds [OF Cons.prems(1)]
    from Cons.IH [OF h [THEN conjunct2] _ r] Cons.prems(2)
    obtain rest where "tl cs @ sent' = got' @ rest" "holds s2 rest" by auto
    then show ?thesis using h Cons.prems(3) r Receive by (cases cs) auto
  qed
qed

end

section \<open>Channels over the ring buffer\<close>

text \<open>The ring buffer between two operations holds the encodings of a list of chunks.\<close>

definition ring_holds :: "('c \<Rightarrow> byte list) \<Rightarrow> ('c \<Rightarrow> bool) \<Rightarrow> ring_sys \<Rightarrow> 'c list \<Rightarrow> bool" where
  "ring_holds enc valid s cs \<longleftrightarrow> ring_inv s \<and> \<not> hr_wtx s \<and> \<not> hr_rtx s
     \<and> contents s = concat (map enc cs) \<and> list_all valid cs"

definition sized_frame :: "nat \<Rightarrow> byte list \<Rightarrow> byte list" where
  "sized_frame n d = encode_le n (length d) @ d"

definition sized_ok :: "nat \<Rightarrow> byte list \<Rightarrow> bool" where
  "sized_ok n d \<longleftrightarrow> d \<noteq> [] \<and> length d < 256 ^ n \<and> length d < 2 ^ 63"

definition send_sized :: "nat \<Rightarrow> byte list \<Rightarrow> ring_sys \<Rightarrow> bool \<times> ring_sys" where
  "send_sized n d s = (let r = writeSizedChunk True n d s in (\<not> isl (fst r), snd r))"

definition receive_sized :: "nat \<Rightarrow> ring_sys \<Rightarrow> byte list option \<times> ring_sys" where
  "receive_sized n s =
     (case readSizedChunk (\<lambda>_. True) True n s of
        (Inl e, s1) \<Rightarrow> (None, s1)
      | (Inr (k, d), s1) \<Rightarrow> (Some d, s1))"

definition send_record :: "byte list \<Rightarrow> ring_sys \<Rightarrow> bool \<times> ring_sys" where
  "send_record d s = (let r = ring_put True d s in (\<not> isl (fst r), snd r))"

definition receive_record :: "nat \<Rightarrow> ring_sys \<Rightarrow> byte list option \<times> ring_sys" where
  "receive_record n s =
     (case ring_get (\<lambda>_. True) True (of_nat n) s of
        (Inl e, s1) \<Rightarrow> (None, s1)
      | (Inr d, s1) \<Rightarrow> (Some d, s1))"

definition record_ok :: "nat \<Rightarrow> byte list \<Rightarrow> bool" where
  "record_ok n d \<longleftrightarrow> length d = n \<and> 0 < n \<and> n < 2 ^ 63"

lemma queue_idle:
  "ring_inv s \<Longrightarrow> \<not> hr_wtx s \<Longrightarrow> \<not> hr_rtx s \<Longrightarrow>
   queue_of s = \<lparr>q_cap = length (hr_data s), q_bytes = contents s, q_write = None, q_read = None\<rparr>"
  by (simp add: queue_of_def)

lemma queue_of_eqD:
  assumes "queue_of s = \<lparr>q_cap = n, q_bytes = bs, q_write = None, q_read = None\<rparr>"
  shows "\<not> hr_wtx s" "\<not> hr_rtx s" "contents s = bs" "length (hr_data s) = n"
  using assms by (auto simp: queue_of_def split: if_splits)

lemmas q_write_defs = q_write_tx_def q_start_write_def q_append_def q_append_sized_def q_commit_write_def
  q_cancel_write_def
lemmas q_read_defs = q_read_tx_def q_start_read_def q_take_def q_take_sized_def q_commit_read_def
  q_cancel_read_def q_get_def q_get_sized_def

text \<open>The state after an operation that agrees with an idle queue.\<close>

lemma holds_after:
  assumes "agrees (answer f r) (answer g q)" "snd q = \<lparr>q_cap = n, q_bytes = concat (map enc cs), q_write = None, q_read = None\<rparr>"
    and "list_all valid cs"
  shows "ring_holds enc valid (snd r) cs"
  using assms queue_of_eqD [of "snd r"] by (simp add: agrees_answer ring_holds_def)

lemma isl_answer: "agrees (answer f r) (answer g q) \<Longrightarrow> isl (fst r) = isl (fst q)"
  by (cases "fst r"; cases "fst q") (auto simp: agrees_answer)

lemma ring_holds_idle: "ring_holds enc valid s cs \<Longrightarrow> queue_of s =
    \<lparr>q_cap = length (hr_data s), q_bytes = concat (map enc cs), q_write = None, q_read = None\<rparr>"
  by (simp add: ring_holds_def queue_idle)

lemma ring_holds_inv: "ring_holds enc valid s cs \<Longrightarrow> ring_inv s"
  by (simp add: ring_holds_def)

lemma ring_holds_cap: "ring_holds enc valid s cs \<Longrightarrow> length (concat (map enc cs)) \<le> length (hr_data s)"
  using used_le [of s] length_contents [of s] by (simp add: ring_holds_def)

lemma send_sized_holds:
  assumes "ring_holds (sized_frame n) (sized_ok n) s cs" "sized_ok n d" "n \<le> 8"
  shows "ring_holds (sized_frame n) (sized_ok n) (snd (send_sized n d s))
    (if fst (send_sized n d s) then cs @ [d] else cs)"
proof -
  have d: "d \<noteq> []" "length d < 256 ^ n" "length d < 2 ^ 63" using assms(2) by (auto simp: sized_ok_def)
  then have n: "0 < n" by (cases n) auto
  then have enc: "encode_le n (length d) \<noteq> []" by (cases n) auto
  note a = put_sized_agrees [OF ring_holds_inv [OF assms(1)] d(3) assms(3), of True]
  have ok: "fst (send_sized n d s) \<longleftrightarrow> \<not> isl (fst (q_write_tx True (q_append_sized n d) (queue_of s)))"
    using isl_answer [OF a] by (simp add: send_sized_def Let_def)
  have st: "snd (send_sized n d s) = snd (writeSizedChunk True n d s)"
    by (simp add: send_sized_def Let_def)
  have q: "snd (q_write_tx True (q_append_sized n d) (queue_of s)) =
    \<lparr>q_cap = length (hr_data s), q_bytes = concat (map (sized_frame n) (if fst (send_sized n d s) then cs @ [d] else cs)),
      q_write = None, q_read = None\<rparr>"
    unfolding ok ring_holds_idle [OF assms(1)]
    using d n enc by (auto simp: q_write_defs sized_frame_def)
  show ?thesis
    unfolding st by (rule holds_after [OF a q]) (use assms in \<open>auto simp: ring_holds_def\<close>)
qed

lemma receive_sized_holds:
  assumes "ring_holds (sized_frame n) (sized_ok n) s cs" "n \<le> 8"
  shows "fst (receive_sized n s) = (if cs = [] then None else Some (hd cs))
    \<and> ring_holds (sized_frame n) (sized_ok n) (snd (receive_sized n s)) (tl cs)"
proof -
  note a = get_sized_agrees [OF ring_holds_inv [OF assms(1)] assms(2), of True]
  have st: "snd (receive_sized n s) = snd (readSizedChunk (\<lambda>_. True) True n s)"
    by (simp add: receive_sized_def split: prod.splits sum.splits)
  have got: "fst (receive_sized n s) = (case fst (q_get_sized True n (queue_of s)) of Inl _ \<Rightarrow> None | Inr d \<Rightarrow> Some d)"
    using a by (auto simp: agrees_answer receive_sized_def split: prod.splits sum.splits)
  have q: "fst (q_get_sized True n (queue_of s)) =
      (if cs = [] then Inl (if length (hr_data s) < n then EINVAL else ENODATA) else Inr (hd cs))
    \<and> snd (q_get_sized True n (queue_of s)) =
      \<lparr>q_cap = length (hr_data s), q_bytes = concat (map (sized_frame n) (tl cs)), q_write = None, q_read = None\<rparr>"
  proof (cases cs)
    case Nil
    then show ?thesis unfolding ring_holds_idle [OF assms(1)] by (auto simp: q_read_defs)
  next
    case (Cons d rest)
    then have d: "d \<noteq> []" "length d < 256 ^ n" using assms(1) by (auto simp: ring_holds_def sized_ok_def)
    then have n: "0 < n" by (cases n) auto
    have "n + length d \<le> length (hr_data s)"
      using ring_holds_cap [OF assms(1)] Cons by (simp add: sized_frame_def)
    with d n Cons show ?thesis unfolding ring_holds_idle [OF assms(1)]
      by (auto simp: q_read_defs sized_frame_def decode_encode_le)
  qed
  have "list_all (sized_ok n) (tl cs)" using assms(1) by (cases cs) (auto simp: ring_holds_def)
  from holds_after [OF a q [THEN conjunct2] this] got q st show ?thesis by simp
qed

lemma send_record_holds:
  assumes "ring_holds id (record_ok n) s cs" "record_ok n d"
  shows "ring_holds id (record_ok n) (snd (send_record d s)) (if fst (send_record d s) then cs @ [d] else cs)"
proof -
  have d: "d \<noteq> []" "length d < 2 ^ 63" using assms(2) by (auto simp: record_ok_def)
  note a = put_agrees [OF ring_holds_inv [OF assms(1)] d(2), of True]
  have ok: "fst (send_record d s) \<longleftrightarrow> \<not> isl (fst (q_write_tx True (q_append d) (queue_of s)))"
    using isl_answer [OF a] by (simp add: send_record_def Let_def)
  have st: "snd (send_record d s) = snd (ring_put True d s)"
    by (simp add: send_record_def Let_def)
  have q: "snd (q_write_tx True (q_append d) (queue_of s)) =
    \<lparr>q_cap = length (hr_data s), q_bytes = concat (map id (if fst (send_record d s) then cs @ [d] else cs)),
      q_write = None, q_read = None\<rparr>"
    unfolding ok ring_holds_idle [OF assms(1)] using d by (auto simp: q_write_defs)
  show ?thesis
    unfolding st by (rule holds_after [OF a q]) (use assms in \<open>auto simp: ring_holds_def\<close>)
qed

lemma receive_record_holds:
  assumes "ring_holds id (record_ok n) s cs"
  shows "fst (receive_record n s) = (if cs = [] then None else Some (hd cs))
    \<and> ring_holds id (record_ok n) (snd (receive_record n s)) (tl cs)"
proof -
  note a = get_agrees [OF ring_holds_inv [OF assms], of "\<lambda>bs. (0, bs)" True "of_nat n"]
  have st: "snd (receive_record n s) = snd (ring_get (\<lambda>_. True) True (of_nat n) s)"
    by (simp add: receive_record_def split: prod.splits sum.splits)
  let ?q = "q_get True (unat (of_nat n :: 64 word)) (queue_of s)"
  have got: "fst (receive_record n s) = (case fst ?q of Inl _ \<Rightarrow> None | Inr d \<Rightarrow> Some d)"
    using a by (cases "fst ?q") (auto simp: agrees_answer receive_record_def split: prod.splits sum.splits)
  have q: "(if cs = [] then isl (fst ?q) else fst ?q = Inr (hd cs)) \<and> snd ?q =
      \<lparr>q_cap = length (hr_data s), q_bytes = concat (map id (tl cs)), q_write = None, q_read = None\<rparr>"
  proof (cases cs)
    case Nil
    then show ?thesis unfolding ring_holds_idle [OF assms] by (auto simp: q_read_defs)
  next
    case (Cons d rest)
    then have d: "length d = n" "0 < n" "n < 2 ^ 63" using assms by (auto simp: ring_holds_def record_ok_def)
    have "length d \<le> length (hr_data s)" using ring_holds_cap [OF assms] Cons by simp
    moreover have "unat (of_nat n :: 64 word) = n" using d by (simp add: unsigned_of_nat take_bit_nat_def)
    ultimately show ?thesis using d Cons unfolding ring_holds_idle [OF assms] by (auto simp: q_read_defs)
  qed
  have "list_all (record_ok n) (tl cs)" using assms by (cases cs) (auto simp: ring_holds_def)
  from holds_after [OF a q [THEN conjunct2] this] got q st show ?thesis
    by (cases "fst ?q") (auto split: if_splits)
qed

interpretation sized: chunk_channel "send_sized n" "receive_sized n"
    "\<lambda>s cs. n \<le> 8 \<and> ring_holds (sized_frame n) (sized_ok n) s cs" "sized_ok n" for n
  by unfold_locales (use send_sized_holds receive_sized_holds in blast)+

interpretation fixed: chunk_channel send_record "receive_record n" "ring_holds id (record_ok n)" "record_ok n" for n
  by unfold_locales (use send_record_holds receive_record_holds in blast)+

lemma new_ring_holds:
  assumes "0 < n" "n \<le> 2 ^ 62" "length memory = unat (nextPow2 n)"
  shows "ring_holds enc valid (new_ring n memory) []"
  using new_ring_inv [OF assms] by (simp add: ring_holds_def) (simp add: new_ring_def contents_def used_def)

text \<open>C27: Whatever the order of writes and reads, the chunks that \<^verbatim>\<open>readSizedChunk\<close> gives are those
  \<^verbatim>\<open>writeSizedChunk\<close> accepted, in their order and unchanged, and the ring holds exactly the
  encodings of the ones not yet read: a refused chunk leaves nothing behind.\<close>

theorem sized_chunks_fifo:
  assumes "0 < n" "n \<le> 2 ^ 62" "length memory = unat (nextPow2 n)" "k \<le> 8"
    and "\<forall>c. Send c \<in> set ops \<longrightarrow> sized_ok k c"
    and "transfer (send_sized k) (receive_sized k) ops (new_ring n memory) = (sent, got, s1)"
  shows "\<exists>rest. sent = got @ rest \<and> contents s1 = concat (map (sized_frame k) rest)"
  using sized.transfer_fifo [OF conjI [OF assms(4) new_ring_holds [OF assms(1-3)]] assms(5,6)]
  by (auto simp: ring_holds_def)

lemma sized_chunks_run:
  "transfer (send_sized 1) (receive_sized 1) [Send [7, 8], Send [9], Receive, Send [9], Receive]
      (new_ring 4 (replicate 4 0))
   = ([[7, 8], [9]], [[7, 8], [9]], \<lparr>hr_size = 4, hr_mask = 3, hr_head = 5, hr_tail = 5, hr_wtx = False,
        hr_rtx = False, hr_data = [9, 7, 8, 1], pr_tx = 0, co_tx = 0, co_aux = 1\<rparr>)"
  by code_simp

lemma sized_chunks_fifo_witness:
  "\<exists>rest. [[7, 8], [9]] = [[7, 8], [9]] @ rest
    \<and> contents \<lparr>hr_size = 4, hr_mask = 3, hr_head = 5, hr_tail = 5, hr_wtx = False, hr_rtx = False,
        hr_data = [9, 7, 8, 1], pr_tx = 0, co_tx = 0, co_aux = 1\<rparr> = concat (map (sized_frame 1) rest)"
proof -
  have n: "nextPow2 4 = 4" by (simp add: nextPow2_def or_shift_def)
  show ?thesis
    by (rule sized_chunks_fifo [OF _ _ _ _ _ sized_chunks_run]) (auto simp: n sized_ok_def)
qed

section \<open>Reading up to a stop byte\<close>

fun first_index :: "'a \<Rightarrow> 'a list \<Rightarrow> nat option" where
  "first_index b [] = None"
| "first_index b (x # xs) = (if x = b then Some 0 else map_option Suc (first_index b xs))"

lemma first_index_less: "first_index b xs = Some i \<Longrightarrow> i < length xs"
  by (induction xs arbitrary: i) (auto split: if_splits)

lemma first_index_append: "first_index b (xs @ ys) =
    (case first_index b xs of Some i \<Rightarrow> Some i | None \<Rightarrow> map_option (\<lambda>i. length xs + i) (first_index b ys))"
proof (induction xs)
  case Nil
  then show ?case by (cases "first_index b ys") auto
next
  case (Cons x xs)
  then show ?case by (cases "first_index b ys") (auto split: option.splits)
qed

lemma find_byte_first_index: "hi \<le> length data \<Longrightarrow>
    find_byte b data lo hi = map_option (\<lambda>i. lo + i) (first_index b (bytes_at data lo (hi - lo)))"
proof (induction "hi - lo" arbitrary: lo)
  case 0
  then show ?case by (simp add: find_byte_def bytes_at_def)
next
  case (Suc n)
  then have lo: "lo < hi" "lo < length data" "hi - lo = Suc (hi - Suc lo)" by auto
  have "bytes_at data lo (hi - lo) = data ! lo # bytes_at data (Suc lo) (hi - Suc lo)"
    using lo by (simp add: bytes_at_def flip: Cons_nth_drop_Suc)
  moreover have "find_byte b data lo hi = (if data ! lo = b then Some lo else find_byte b data (Suc lo) hi)"
    using lo by (simp add: find_byte_def upt_conv_Cons)
  moreover have "find_byte b data (Suc lo) hi = map_option (\<lambda>i. Suc lo + i) (first_index b (bytes_at data (Suc lo) (hi - Suc lo)))"
    using Suc lo by (intro Suc.hyps(1)) auto
  ultimately show ?case
    by (cases "first_index b (bytes_at data (Suc lo) (hi - Suc lo))") auto
qed

text \<open>The bytes not yet read, as the two loops see them.\<close>

definition unread :: "ring_sys \<Rightarrow> byte list" where
  "unread s = drop (unat (co_tx s)) (contents s)"

lemma unread_split:
  assumes "ring_inv s" "unread s \<noteq> []"
  defines "st \<equiv> (co_tx s + hr_tail s) AND hr_mask s" and "fin \<equiv> hr_head s AND hr_mask s"
  shows "unread s = (if st < fin then bytes_at (hr_data s) (unat st) (unat fin - unat st)
      else bytes_at (hr_data s) (unat st) (length (hr_data s) - unat st) @ bytes_at (hr_data s) 0 (unat fin))"
    and "unat st < length (hr_data s)" "unat fin < length (hr_data s)"
    and "unat st = (unat (hr_tail s) + unat (co_tx s)) mod length (hr_data s)"
proof -
  obtain k where k: "k \<le> 62" "hr_mask s = mask k" "length (hr_data s) = 2 ^ k"
      "unat (hr_size s) = length (hr_data s)" "unat (co_tx s) \<le> used s"
    using assms(1) by (elim ring_invE)
  have pos: "0 < length (hr_data s)" using k by simp
  define m where "m = used s - unat (co_tx s)"
  have m: "0 < m" "m \<le> length (hr_data s)"
    using assms(2) used_le [OF assms(1)] length_contents [OF assms(1)] by (auto simp: unread_def m_def)
  show st: "unat st = (unat (hr_tail s) + unat (co_tx s)) mod length (hr_data s)"
    using assms(1) by (simp add: st_def tail_slot)
  then show lt: "unat st < length (hr_data s)" using pos by simp
  have "unat fin = (unat (hr_tail s) + used s) mod length (hr_data s)"
    using head_slot [OF assms(1), of 0] by (simp add: fin_def)
  also have "used s = unat (co_tx s) + m" using k by (simp add: m_def)
  finally have fin: "unat fin = (unat st + m) mod length (hr_data s)"
    by (simp add: st mod_simps add.assoc)
  then show lt2: "unat fin < length (hr_data s)" using pos by simp
  have "unread s = take m (drop (unat (co_tx s)) (ring_view s))"
    by (simp add: unread_def contents_def m_def drop_take)
  also have "\<dots> = wrap_read (unat st) m (hr_data s)"
    using m used_le [OF assms(1)] k unfolding st m_def by (subst rotate_wrap_read) (auto simp: ring_view_def)
  also have "\<dots> = (if st < fin then bytes_at (hr_data s) (unat st) m
      else bytes_at (hr_data s) (unat st) (unat (hr_size s - st)) @ bytes_at (hr_data s) 0 (unat fin))"
    using ring_read_wrap [of "hr_size s" "hr_data s" st fin m] k(4) lt fin m by simp
  also have "unat (hr_size s - st) = length (hr_data s) - unat st"
    using k(4) lt by (simp add: unat_sub word_le_nat_alt)
  finally have eq: "unread s = (if st < fin then bytes_at (hr_data s) (unat st) m
      else bytes_at (hr_data s) (unat st) (length (hr_data s) - unat st) @ bytes_at (hr_data s) 0 (unat fin))" .
  have "st < fin \<Longrightarrow> m = unat fin - unat st"
    using fin lt m mod_shift [of m "length (hr_data s)" "unat st"]
    by (cases "m = length (hr_data s)") (auto simp: word_less_nat_alt split: if_splits)
  with eq show "unread s = (if st < fin then bytes_at (hr_data s) (unat st) (unat fin - unat st)
      else bytes_at (hr_data s) (unat st) (length (hr_data s) - unat st) @ bytes_at (hr_data s) 0 (unat fin))"
    by simp
qed

text \<open>The search finds the first stop byte not yet read, and says how many bytes end with it.\<close>

lemma findInBufferInTx_eq:
  assumes "ring_inv s" "hr_rtx s"
  shows "findInBufferInTx False b s =
    (case first_index b (unread s) of None \<Rightarrow> Inl ENODATA | Some i \<Rightarrow> Inr (of_nat (i + 1)))"
proof (cases "unread s = []")
  case True
  then have "used s \<le> unat (co_tx s)" using length_contents [OF assms(1)] by (simp add: unread_def)
  moreover have "unat (co_tx s) \<le> used s" using assms(1) by (elim ring_invE)
  ultimately have "co_tx s = hr_head s - hr_tail s" by (simp add: used_def word_unat_eq_iff)
  then have "hr_tail s + co_tx s = hr_head s" by simp
  with True assms(2) show ?thesis by (simp add: findInBufferInTx_def)
next
  case False
  define st fin where "st = (co_tx s + hr_tail s) AND hr_mask s" and "fin = hr_head s AND hr_mask s"
  note u = unread_split [OF assms(1) False, folded st_def fin_def]
  have ne: "hr_tail s + co_tx s \<noteq> hr_head s"
  proof
    assume "hr_tail s + co_tx s = hr_head s"
    then have "co_tx s = hr_head s - hr_tail s" by (simp add: algebra_simps)
    then have "unat (co_tx s) = used s" by (simp add: used_def)
    with False length_contents [OF assms(1)] show False by (simp add: unread_def)
  qed
  have size: "unat (hr_size s) = length (hr_data s)" using assms(1) by (elim ring_invE)
  have word: "of_nat (unat st + i) - st + 1 = (of_nat (i + 1) :: 64 word)" for i
    by simp
  have word2: "hr_size s - st + of_nat i + 1 = (of_nat (length (hr_data s) - unat st + i + 1) :: 64 word)" for i
    using size u(2) by (simp add: of_nat_diff flip: size)
  show ?thesis
  proof (cases "st < fin")
    case True
    then have "unat st \<le> unat fin" by (simp add: word_less_nat_alt)
    with True ne assms(2) u(1-3) show ?thesis
      by (cases "first_index b (unread s)")
        (auto simp: findInBufferInTx_def Let_def st_def [symmetric] fin_def [symmetric] find_byte_first_index not_le word)
  next
    case False
    have "find_byte b (hr_data s) (unat st) (unat (hr_size s))
        = map_option (\<lambda>i. unat st + i) (first_index b (bytes_at (hr_data s) (unat st) (length (hr_data s) - unat st)))"
      by (simp add: find_byte_first_index size)
    moreover have "find_byte b (hr_data s) 0 (unat fin) = first_index b (bytes_at (hr_data s) 0 (unat fin))"
      using u(3) find_byte_first_index [of "unat fin" "hr_data s" b 0] by (simp add: option.map_ident)
    moreover have "length (bytes_at (hr_data s) (unat st) (length (hr_data s) - unat st)) = length (hr_data s) - unat st"
      by (simp add: bytes_at_def)
    ultimately show ?thesis using False ne assms(2) u(1)
      by (auto simp: findInBufferInTx_def Let_def st_def [symmetric] fin_def [symmetric] not_less word word2
          first_index_append split: option.splits)
  qed
qed

lemma take_bytes_at: "n \<le> m \<Longrightarrow> take n (bytes_at data st m) = bytes_at data st n"
  by (simp add: bytes_at_def min_def)

lemma readInTxChunk_eq:
  assumes "ring_inv s" "hr_rtx s"
  shows "readInTxChunk False b s =
    (case first_index b (unread s) of
       None \<Rightarrow> (Inl ENODATA, s)
     | Some i \<Rightarrow> (Inr ((co_tx s + hr_tail s) AND hr_mask s, of_nat (i + 1)), s\<lparr>co_tx := co_tx s + of_nat (i + 1)\<rparr>))"
  using assms by (simp add: readInTxChunk_def findInBufferInTx_eq split: option.splits)

text \<open>C28: Reading up to a stop byte gives the bytes up to and including the first one and drops them, and
  reports that there is no data when the byte is not there; but when these bytes go past the physical
  end of the buffer the code hands out a pointer to their first part with the length of both, and the
  string is built from memory behind the buffer.\<close>

theorem read_line_spec:
  assumes "ring_inv s" "\<not> hr_rtx s"
  shows "readChunk True False b s =
    (case first_index b (contents s) of
       None \<Rightarrow> Inr (Inl ENODATA, s)
     | Some i \<Rightarrow>
         if unat (hr_tail s) mod length (hr_data s) + (i + 1) \<le> length (hr_data s)
         then Inr (Inr (take (i + 1) (contents s)), s\<lparr>hr_tail := hr_tail s + of_nat (i + 1)\<rparr>)
         else Inl Undefined_Behaviour)"
proof -
  let ?s = "s\<lparr>hr_rtx := True\<rparr>"
  have inv: "ring_inv ?s" by (rule inv_updates [OF assms(1)])
  have co: "co_tx s = 0" using assms by (simp add: ring_inv_def)
  then have un: "unread ?s = contents s" by (simp add: unread_def)
  have undo: "s\<lparr>hr_rtx := True, co_tx := 0, hr_rtx := False\<rparr> = s" "s\<lparr>hr_rtx := True, co_tx := x, hr_tail := t, co_tx := 0, hr_rtx := False\<rparr> = s\<lparr>hr_tail := t\<rparr>" for x t
    using co assms(2) by (cases s; simp)+
  show ?thesis
  proof (cases "first_index b (contents s)")
    case None
    then show ?thesis using assms(2) readInTxChunk_eq [OF inv, of b] un undo
      by (simp add: readChunk_def startReadTransaction_def cancelReadTx_def)
  next
    case (Some i)
    then have i: "i < length (contents s)" by (rule first_index_less)
    then have ne: "unread ?s \<noteq> []" using un by auto
    define st where "st = hr_tail s AND hr_mask s"
    define fin where "fin = hr_head s AND hr_mask s"
    have u: "contents s = (if st < fin then bytes_at (hr_data s) (unat st) (unat fin - unat st)
        else bytes_at (hr_data s) (unat st) (length (hr_data s) - unat st) @ bytes_at (hr_data s) 0 (unat fin))"
      using unread_split(1) [OF inv ne] by (simp add: un co st_def fin_def cong: if_cong)
    have st: "unat st = unat (hr_tail s) mod length (hr_data s)"
      using unread_split(4) [OF inv ne] by (simp add: co st_def)
    have lt: "length (hr_data s) < 2 ^ 63" using assms(1) by (elim ring_invE)
    have "length (contents s) \<le> length (hr_data s)"
      using used_le [OF assms(1)] length_contents [OF assms(1)] by simp
    then have n: "unat (of_nat (i + 1) :: 64 word) = i + 1" using i lt by (intro unat_of_nat64) simp
    have "bytes_at (hr_data s) (unat st) (i + 1) = take (i + 1) (contents s)"
      if "unat st + (i + 1) \<le> length (hr_data s)"
    proof -
      have "i + 1 \<le> (if st < fin then unat fin - unat st else length (hr_data s) - unat st)"
        using i that u by (auto simp: bytes_at_def split: if_splits)
      then show ?thesis using u that by (auto simp: take_bytes_at take_append bytes_at_def split: if_splits)
    qed
    then show ?thesis using Some assms(2) readInTxChunk_eq [OF inv, of b] un undo n st
      by (simp add: readChunk_def startReadTransaction_def commitReadTx_def incTail_def co flip: st_def)
  qed
qed

lemma read_line_spec_witness:
  "readChunk True False 10
     \<lparr>hr_size = 4, hr_mask = 3, hr_head = 5, hr_tail = 3, hr_wtx = False, hr_rtx = False,
      hr_data = [10, 0, 0, 5], pr_tx = 0, co_tx = 0, co_aux = 0\<rparr> = Inl Undefined_Behaviour"
proof -
  let ?s = "\<lparr>hr_size = 4, hr_mask = 3, hr_head = 5, hr_tail = 3, hr_wtx = False, hr_rtx = False,
      hr_data = [10, 0, 0, 5], pr_tx = 0, co_tx = 0, co_aux = 0\<rparr>"
  have "ring_inv ?s" by (auto simp: ring_inv_def used_def mask_eq_decr_exp intro!: exI [of _ 2])
  moreover have "contents ?s = [5, 10]" by code_simp
  ultimately show ?thesis by (subst read_line_spec) simp_all
qed

section \<open>Dropping by the producer\<close>

text \<open>A tail beyond the head makes the ring look fuller than it can be.\<close>

lemma overrun_used:
  assumes "ring_inv s" "used s < unat n" "n \<le> hr_size s"
  shows "hr_size s < hr_head s - (hr_tail s + n)"
proof -
  have n: "unat n \<le> unat (hr_size s)" using assms(3) by (simp add: word_le_nat_alt)
  have size: "unat (hr_size s) < 2 ^ 63" using assms(1) by (elim ring_invE) simp
  have "hr_head s - (hr_tail s + n) = (hr_head s - hr_tail s) - n" by simp
  then have "unat (hr_head s - (hr_tail s + n)) = unat ((hr_head s - hr_tail s) - n)" by (simp only:)
  also have "\<dots> = used s + 2 ^ 64 - unat n"
    using assms(2) by (simp add: unat_sub_if' used_def)
  finally show ?thesis using n size by (simp add: word_less_nat_alt)
qed

text \<open>Dropping more bytes from the producer's side than the ring holds succeeds and moves the tail
  past the head.  After that every write fails with \<^verbatim>\<open>EPERM\<close>, and a reader is given as many
  bytes as it asks for, although nothing is there.\<close>

theorem producer_drop_overruns:
  assumes "ring_inv s" "\<not> hr_wtx s" "\<not> hr_rtx s" "used s < unat n" "n \<le> hr_size s"
    and "d \<noteq> []" "length d \<le> length (hr_data s)" "0 < m" "m \<le> hr_size s"
  shows "\<exists>s1 bs. producer_dropN True n s = (Inr (), s1) \<and> fst (ring_put True d s1) = Inl EPERM
    \<and> fst (ring_get (\<lambda>_. True) True m s1) = Inr bs \<and> length bs = unat m"
proof -
  define s1 where "s1 = s\<lparr>hr_tail := hr_tail s + n\<rparr>"
  have drop: "producer_dropN True n s = (Inr (), s1)"
    using assms(3,5) by (auto simp: producer_dropN_def header_dropN_def s1_def)
  obtain k where k: "k \<le> 62" "hr_mask s = mask k" "length (hr_data s) = 2 ^ k"
      "unat (hr_size s) = length (hr_data s)" "length (hr_data s) < 2 ^ 63"
    using assms(1) by (elim ring_invE)
  have over: "hr_size s1 < hr_head s1 - hr_tail s1"
    using overrun_used [OF assms(1,4,5)] by (simp add: s1_def)
  have tx: "pr_tx s1 = 0" "co_tx s1 = 0" "hr_wtx s1 = False" "hr_rtx s1 = False"
    using assms(1-3) by (auto simp: s1_def ring_inv_def)
  have "unat (of_nat (length d) :: 64 word) = length d" using assms(7) k by (intro unat_of_nat64) simp
  then have "\<not> of_nat (length d) > hr_size s1" using assms(7) k by (simp add: word_less_nat_alt s1_def)
  with over tx assms(6) have put: "fst (ring_put True d s1) = Inl EPERM"
    by (simp add: ring_put_def write_tx_def startWriteTx_def writeInTx_def copyToRingBuffer_def Let_def)
  define st fin where "st = hr_tail s1 AND hr_mask s1" and "fin = (st + m) AND hr_mask s1"
  have m: "0 < unat m" "unat m \<le> length (hr_data s1)" "m \<noteq> 0"
    using assms(8,9) k by (auto simp: word_less_nat_alt word_le_nat_alt s1_def)
  have st: "unat st = (unat (hr_tail s1) + 0) mod length (hr_data s1)"
    using k by (simp add: st_def s1_def unat_and_mask)
  have fin: "unat fin = (unat st + unat m) mod length (hr_data s1)"
    using k by (simp add: fin_def unat_slot s1_def)
  have pos: "0 < length (hr_data s1)" using k by (simp add: s1_def)
  have bytes: "(if st < fin then bytes_at (hr_data s1) (unat st) (unat m)
      else bytes_at (hr_data s1) (unat st) (unat (hr_size s1 - st)) @ bytes_at (hr_data s1) 0 (unat fin))
    = take (unat m) (rotate (unat (hr_tail s1)) (hr_data s1))"
    using ring_read_wrap [of "hr_size s1" "hr_data s1" st fin "unat m"] k st fin m pos
      rotate_wrap_read [of 0 "unat m" "hr_data s1" "unat (hr_tail s1)"]
    by (simp add: s1_def)
  have "\<not> m > hr_size s1" "\<not> m > hr_head s1 - hr_tail s1" using assms(9) over by (auto simp: s1_def)
  then have "fst (ring_get (\<lambda>_. True) True m s1) = Inr (take (unat m) (rotate (unat (hr_tail s1)) (hr_data s1)))"
    using tx m(3) bytes
    by (auto simp: ring_get_eq read_tx_def startReadTransaction_def readInTx_def read_ptr_def readFromRingBuffer_def
        Let_def st_def [symmetric] fin_def [symmetric] not_le split: if_splits)
  with drop put m(2) show ?thesis by auto
qed

lemma producer_drop_overruns_witness:
  "\<exists>s1 bs. producer_dropN True 2 (new_ring 4 [0, 0, 0, 0]) = (Inr (), s1) \<and> fst (ring_put True [1] s1) = Inl EPERM
    \<and> fst (ring_get (\<lambda>_. True) True 3 s1) = Inr bs \<and> length bs = unat (3 :: 64 word)"
proof (rule producer_drop_overruns)
  have n: "nextPow2 4 = 4" by (simp add: nextPow2_def or_shift_def)
  show "ring_inv (new_ring 4 [0, 0, 0, 0])" by (rule new_ring_inv) (simp_all add: n)
qed (simp_all add: new_ring_def used_def nextPow2_def or_shift_def)

section \<open>Powers of two\<close>

lemma bit_top: "2 ^ k \<le> unat (w :: 64 word) \<Longrightarrow> unat w < 2 ^ (k + 1) \<Longrightarrow> bit w k"
proof -
  assume "2 ^ k \<le> unat w" "unat w < 2 ^ (k + 1)"
  then have "unat w div 2 ^ k = 1" by (intro div_nat_eqI) auto
  then show "bit w k" by (simp add: bit_word_div)
qed

lemma isPow2_iff: "isPow2 n \<longleftrightarrow> (\<exists>k < 64. n = 2 ^ k)"
proof
  assume "isPow2 n"
  then have n: "0 < unat n" "(n - 1) AND n = 0" by (auto simp: isPow2_def unat_gt_0)
  then obtain k where k: "2 ^ k \<le> unat n" "unat n < 2 ^ (k + 1)"
    using ex_power_ivl1 [of 2 "unat n"] by auto
  then have bit: "bit n k" by (rule bit_top)
  then have k64: "k < 64" using bit_imp_le_length by fastforce
  have "unat n = 2 ^ k"
  proof (rule ccontr)
    assume "unat n \<noteq> 2 ^ k"
    moreover have "unat (n - 1) = unat n - 1" using n(1) by (intro unat_minus_one) auto
    ultimately have "2 ^ k \<le> unat (n - 1)" "unat (n - 1) < 2 ^ (k + 1)" using k by linarith+
    then have "bit (n - 1) k" by (rule bit_top)
    with bit have "bit ((n - 1) AND n) k" by (simp add: bit_and_iff)
    with n(2) show False by simp
  qed
  then have "n = 2 ^ k" using k64 by (simp add: word_unat_eq_iff unat_exp)
  with k64 show "\<exists>k < 64. n = 2 ^ k" by blast
next
  assume "\<exists>k < 64. n = 2 ^ k"
  then obtain k where k: "k < 64" "n = 2 ^ k" by blast
  have "mask k AND n = 0"
    using k by (intro bit_word_eqI) (auto simp: bit_and_iff bit_mask_iff bit_exp_iff)
  moreover have "0 < unat n" using k by (simp add: unat_exp)
  ultimately show "isPow2 n" using k by (simp add: isPow2_def mask_eq_decr_exp unat_gt_0 word_greater_zero_iff)
qed

text \<open>The size of a ring buffer is the least power of two that is not below the size asked for.\<close>

theorem nextPow2_least:
  assumes "0 < n" "n \<le> 2 ^ 62"
  shows "isPow2 (nextPow2 n) \<and> n \<le> nextPow2 n \<and> (\<forall>m. isPow2 m \<and> n \<le> m \<longrightarrow> nextPow2 n \<le> m)"
proof -
  obtain k where k: "k \<le> 62" "nextPow2 n = 2 ^ k" "unat n \<le> 2 ^ k" "\<forall>j. unat n \<le> 2 ^ j \<longrightarrow> k \<le> j"
    using nextPow2_exp [OF assms] by metis
  have "nextPow2 n \<le> m" if m: "isPow2 m" "n \<le> m" for m
  proof -
    obtain j where j: "j < 64" "m = 2 ^ j" using m(1) by (auto simp: isPow2_iff)
    with m(2) have "unat n \<le> 2 ^ j" by (simp add: word_le_nat_alt unat_exp)
    with k j show ?thesis by (simp add: word_le_nat_alt unat_exp)
  qed
  with k show ?thesis by (auto simp: isPow2_iff word_le_nat_alt unat_exp intro!: exI [of _ k])
qed

lemma nextPow2_least_witness: "isPow2 (nextPow2 5) \<and> (5 :: 64 word) \<le> nextPow2 5 \<and> nextPow2 5 \<le> 8"
proof -
  have "isPow2 8" by (simp add: isPow2_def)
  with nextPow2_least [of 5] show ?thesis by auto
qed

end
