(* ===== verification/TagStack.thy ===== *)
theory TagStack
  imports Cpp_Prelude
begin

text \<open>
  Tag stacks and the events that change them (\<^verbatim>\<open>src/hbt/src/tagstack/TagStack.h\<close>,
  \<^verbatim>\<open>Event.h\<close>).  A stack is the list of its set tags with the flag that no tag can be missing on
  top.  What the slots of the array above the set tags hold is remembered too, because a copy that
  reaches above the set tags reads them: \<^term>\<open>Some v\<close> when every such slot holds \<open>v\<close>,
  \<^term>\<open>None\<close> when they were never initialised.
\<close>

section \<open>Stacks\<close>

definition kNA :: nat where
  "kNA = 2 ^ 32 - 1"

definition kMaxNumLevels :: nat where
  "kMaxNumLevels = 6"

record stack =
  st_tags :: "nat list"
  st_known :: bool
  st_rest :: "nat option"

definition empty_stack :: stack where
  "empty_stack = \<lparr>st_tags = [], st_known = False, st_rest = Some kNA\<rparr>"

definition na_stack :: "nat \<Rightarrow> bool \<Rightarrow> stack" where
  "na_stack num_set_tags known_num_levels =
     \<lparr>st_tags = replicate num_set_tags kNA, st_known = known_num_levels, st_rest = Some kNA\<rparr>"

text \<open>\<^verbatim>\<open>Stack s({tag}, 1, true)\<close> fills the array with zeros.\<close>

definition thread_stack :: "nat \<Rightarrow> stack" where
  "thread_stack tag = \<lparr>st_tags = [tag], st_known = True, st_rest = Some 0\<rparr>"

text \<open>The first slots of the array, set or not.\<close>

definition first_slots :: "nat \<Rightarrow> stack \<Rightarrow> nat list result" where
  "first_slots n s =
     (if n > kMaxNumLevels then Inl Undefined_Behaviour
      else if n \<le> length (st_tags s) then Inr (take n (st_tags s))
      else
        case st_rest s of
          None \<Rightarrow> Inl Undefined_Behaviour
        | Some v \<Rightarrow> Inr (st_tags s @ replicate (n - length (st_tags s)) v))"

definition copyTruncated :: "nat \<Rightarrow> bool \<Rightarrow> stack \<Rightarrow> stack result" where
  "copyTruncated num_tags_to_copy new_known_num_levels s =
     rbind (first_slots num_tags_to_copy s) (\<lambda>tags.
       Inr \<lparr>st_tags = tags, st_known = new_known_num_levels, st_rest = None\<rparr>)"

definition copyFillUpTo :: "nat \<Rightarrow> nat \<Rightarrow> bool \<Rightarrow> stack \<Rightarrow> stack result" where
  "copyFillUpTo idx tag_at_top new_known_num_levels s =
     (if idx \<ge> kMaxNumLevels then Inl Undefined_Behaviour
      else rbind (first_slots idx s) (\<lambda>tags.
        Inr \<lparr>st_tags = tags @ [tag_at_top], st_known = new_known_num_levels, st_rest = None\<rparr>))"

text \<open>Only the levels that are set in both stacks are compared here; the callers pass no more.\<close>

definition stack_contains :: "stack \<Rightarrow> stack \<Rightarrow> nat \<Rightarrow> bool" where
  "stack_contains t s num_levels =
     (if st_known t \<noteq> st_known s then False
      else if num_levels = 0 then st_tags t = []
      else if length (st_tags t) < num_levels then False
      else take num_levels (st_tags s) = take num_levels (st_tags t))"

definition stack_eq :: "stack \<Rightarrow> stack \<Rightarrow> bool" where
  "stack_eq s t \<longleftrightarrow> st_known s = st_known t \<and> st_tags s = st_tags t"

definition numNAs :: "stack \<Rightarrow> nat" where
  "numNAs s = length (filter (\<lambda>t. t = kNA) (st_tags s))"

definition hasNAs :: "stack \<Rightarrow> bool" where
  "hasNAs s \<longleftrightarrow> 0 < numNAs s"

definition tagToStr :: "nat \<Rightarrow> string" where
  "tagToStr tag = (if tag = kNA then ''<NA>'' else show_nat tag)"

definition show_stack :: "stack \<Rightarrow> string" where
  "show_stack s =
     ''[ '' @ concat (map (\<lambda>t. tagToStr t @ '' '') (st_tags s)) @ (if \<not> st_known s then ''? '' else '''') @ '']''"

lemma hasNAs_iff: "hasNAs s \<longleftrightarrow> kNA \<in> set (st_tags s)"
  by (auto simp: hasNAs_def numNAs_def filter_empty_conv)

lemma stack_eq_refl [simp]: "stack_eq s s"
  by (simp add: stack_eq_def)

lemma stack_eq_sym: "stack_eq s t \<longleftrightarrow> stack_eq t s"
  by (auto simp: stack_eq_def)

lemma stack_eq_trans: "stack_eq s t \<Longrightarrow> stack_eq t u \<Longrightarrow> stack_eq s u"
  by (simp add: stack_eq_def)

lemma first_slots_set: "n \<le> length (st_tags s) \<Longrightarrow> n \<le> kMaxNumLevels \<Longrightarrow> first_slots n s = Inr (take n (st_tags s))"
  by (simp add: first_slots_def)

lemma length_first_slots: "first_slots n s = Inr tags \<Longrightarrow> length tags = n \<and> n \<le> kMaxNumLevels"
  by (auto simp: first_slots_def split: if_splits option.splits)

section \<open>Events\<close>

datatype event_type =
    Ev_Start | Ev_End
  | ThreadCreation | ThreadDestruction
  | SwitchIn | SwitchOutPreempt | SwitchOutYield
  | WriteErrorsStart | WriteErrorsEnd

definition kInvalidTimeStamp :: nat where
  "kInvalidTimeStamp = 2 ^ 64 - 1"

definition kInvalidLevel :: nat where
  "kInvalidLevel = 2 ^ 8 - 1"

record event =
  ev_tstamp :: nat
  ev_type :: event_type
  ev_level :: nat
  ev_comp :: nat
  ev_tag :: nat

definition event_isValid :: "event \<Rightarrow> bool" where
  "event_isValid e \<longleftrightarrow> ev_tstamp e \<noteq> kInvalidTimeStamp"

definition makeStart :: "nat \<Rightarrow> nat \<Rightarrow> nat \<Rightarrow> nat \<Rightarrow> event" where
  "makeStart tstamp level tag cu =
     \<lparr>ev_tstamp = tstamp, ev_type = Ev_Start, ev_level = level, ev_comp = cu, ev_tag = tag\<rparr>"

definition makeEnd :: "nat \<Rightarrow> nat \<Rightarrow> nat \<Rightarrow> event" where
  "makeEnd tstamp level cu =
     \<lparr>ev_tstamp = tstamp, ev_type = Ev_End, ev_level = level, ev_comp = cu, ev_tag = kNA\<rparr>"

definition makeThreadCreation :: "nat \<Rightarrow> nat \<Rightarrow> nat \<Rightarrow> nat \<Rightarrow> event" where
  "makeThreadCreation tstamp level tag cu =
     \<lparr>ev_tstamp = tstamp, ev_type = ThreadCreation, ev_level = level, ev_comp = cu, ev_tag = tag\<rparr>"

definition makeThreadDestruction :: "nat \<Rightarrow> nat \<Rightarrow> nat \<Rightarrow> nat \<Rightarrow> event" where
  "makeThreadDestruction tstamp level tag cu =
     \<lparr>ev_tstamp = tstamp, ev_type = ThreadDestruction, ev_level = level, ev_comp = cu, ev_tag = tag\<rparr>"

definition makeSwitchIn :: "nat \<Rightarrow> nat \<Rightarrow> nat \<Rightarrow> nat \<Rightarrow> event" where
  "makeSwitchIn tstamp level tag cu =
     \<lparr>ev_tstamp = tstamp, ev_type = SwitchIn, ev_level = level, ev_comp = cu, ev_tag = tag\<rparr>"

definition makeSwitchOutPreempt :: "nat \<Rightarrow> nat \<Rightarrow> nat \<Rightarrow> event" where
  "makeSwitchOutPreempt tstamp level cu =
     \<lparr>ev_tstamp = tstamp, ev_type = SwitchOutPreempt, ev_level = level, ev_comp = cu, ev_tag = kNA\<rparr>"

definition makeSwitchOutYield :: "nat \<Rightarrow> nat \<Rightarrow> nat \<Rightarrow> event" where
  "makeSwitchOutYield tstamp level cu =
     \<lparr>ev_tstamp = tstamp, ev_type = SwitchOutYield, ev_level = level, ev_comp = cu, ev_tag = kNA\<rparr>"

definition makeWriteErrorsStart :: "nat \<Rightarrow> nat \<Rightarrow> event" where
  "makeWriteErrorsStart tstamp cu =
     \<lparr>ev_tstamp = tstamp, ev_type = WriteErrorsStart, ev_level = kInvalidLevel, ev_comp = cu, ev_tag = kNA\<rparr>"

definition makeWriteErrorsEnd :: "nat \<Rightarrow> nat \<Rightarrow> event" where
  "makeWriteErrorsEnd tstamp cu =
     \<lparr>ev_tstamp = tstamp, ev_type = WriteErrorsEnd, ev_level = kInvalidLevel, ev_comp = cu, ev_tag = kNA\<rparr>"

definition isThreadLifetime :: "event \<Rightarrow> bool" where
  "isThreadLifetime e \<longleftrightarrow> ev_type e = ThreadCreation \<or> ev_type e = ThreadDestruction"

definition isSwitchOut :: "event \<Rightarrow> bool" where
  "isSwitchOut e \<longleftrightarrow> ev_type e = SwitchOutPreempt \<or> ev_type e = SwitchOutYield"

definition isSwitch :: "event \<Rightarrow> bool" where
  "isSwitch e \<longleftrightarrow> ev_type e = SwitchIn \<or> isSwitchOut e"

definition isPhase :: "event \<Rightarrow> bool" where
  "isPhase e \<longleftrightarrow> ev_type e = Ev_Start \<or> ev_type e = Ev_End"

definition isOut :: "event \<Rightarrow> bool" where
  "isOut e \<longleftrightarrow> isSwitchOut e \<or> ev_type e = Ev_End"

definition isIn :: "event \<Rightarrow> bool" where
  "isIn e \<longleftrightarrow> ev_type e = SwitchIn \<or> ev_type e = Ev_Start"

text \<open>The compute unit takes no part in the comparison.\<close>

definition event_eq :: "event \<Rightarrow> event \<Rightarrow> bool" where
  "event_eq e f \<longleftrightarrow> ev_tstamp e = ev_tstamp f \<and> ev_type e = ev_type f \<and> ev_level e = ev_level f \<and> ev_tag e = ev_tag f"

definition happenedBefore :: "event \<Rightarrow> event \<Rightarrow> bool" where
  "happenedBefore e f =
     (if ev_tstamp e > ev_tstamp f then False
      else ev_tstamp e < ev_tstamp f \<or> ev_comp e < ev_comp f)"

end
