(* ===== verification/Slicer.thy ===== *)
theory Slicer
  imports TagStack
begin

text \<open>
  The slicer of the performance monitor (\<^verbatim>\<open>src/hbt/src/tagstack/Slicer.h\<close>): it reads a stream of
  events and writes, for each compute unit (group), the slices of time in which a tag stack was
  active.  Stack states are never removed, so a pointer to one is its position in the list of all
  states; the dormant lists hold such positions.  A state that is pushed on a list while it is linked
  corrupts the intrusive list: that is undefined behaviour, as is reading a slot of a stack that was
  never initialised.  \<^verbatim>\<open>HBT_ARG_CHECK\<close> throws \<^term>\<open>Invalid_Argument\<close>; the debug
  checks are not part of a release build.  The stream is a list of events, the writer of the slices
  always succeeds.
\<close>

section \<open>State\<close>

datatype transition_type = NA | Analysis | ThreadPreempted | ThreadYield | PhaseChange

record slice =
  sc_tstamp :: nat
  sc_duration :: nat
  sc_stack_id :: nat
  sc_swin :: transition_type
  sc_swout :: transition_type

definition tstampEnd :: "slice \<Rightarrow> nat" where
  "tstampEnd s = sc_tstamp s + sc_duration s"

definition hasSwinThread :: "slice \<Rightarrow> bool" where
  "hasSwinThread s \<longleftrightarrow> sc_swin s = ThreadPreempted \<or> sc_swin s = ThreadYield"

definition hasSwoutThread :: "slice \<Rightarrow> bool" where
  "hasSwoutThread s \<longleftrightarrow> sc_swout s = ThreadPreempted \<or> sc_swout s = ThreadYield"

text \<open>\<^verbatim>\<open>findSliceAt\<close>, as it is written: the first slice that starts at or after the time stamp
  and ends before it.\<close>

definition findSliceAt :: "slice list \<Rightarrow> nat \<Rightarrow> nat option" where
  "findSliceAt slices tstamp =
     find (\<lambda>i. \<not> (sc_tstamp (slices ! i) < tstamp \<or> tstampEnd (slices ! i) \<ge> tstamp)) [0..<length slices]"

definition kInvalidTagStackId :: nat where
  "kInvalidTagStackId = 2 ^ 64 - 1"

record switch_in =
  si_tstamp :: nat
  si_type :: transition_type

definition no_swin :: switch_in where
  "no_swin = \<lparr>si_tstamp = kInvalidTimeStamp, si_type = NA\<rparr>"

record tag_stack_state =
  ss_id :: nat
  ss_parent :: nat
  ss_stack :: stack
  ss_cum_active_time :: nat
  ss_num_swins :: nat
  ss_num_swouts :: nat
  ss_last_swin :: "switch_in list"

record slicer_stats =
  n_processed :: nat
  n_error_start :: nat
  n_error_end :: nat
  n_error_out_sync :: nat
  n_dropped :: nat
  n_out_of_order :: nat
  n_slices_completed :: nat
  n_logic_errors :: nat

record slicer =
  sl_events :: "event list"
  sl_slices :: "slice list list"
  sl_last_ts :: nat
  sl_active :: "nat option list"
  sl_dormant :: "nat \<Rightarrow> nat list"
  sl_states :: "tag_stack_state list"
  sl_next_id :: nat
  sl_write_errors :: "32 word"
  sl_stats :: slicer_stats

type_synonym 'a slicing = "slicer \<Rightarrow> ('a \<times> slicer) result"

definition zero_stats :: slicer_stats where
  "zero_stats = \<lparr>n_processed = 0, n_error_start = 0, n_error_end = 0, n_error_out_sync = 0, n_dropped = 0,
     n_out_of_order = 0, n_slices_completed = 0, n_logic_errors = 0\<rparr>"

definition make_slicer :: "event list \<Rightarrow> nat \<Rightarrow> slicer result" where
  "make_slicer events num_groups =
     (if num_groups = 0 then Inl Invalid_Argument
      else Inr \<lparr>sl_events = events, sl_slices = replicate num_groups [], sl_last_ts = 0,
        sl_active = replicate num_groups None, sl_dormant = (\<lambda>_. []), sl_states = [], sl_next_id = 0,
        sl_write_errors = 0, sl_stats = zero_stats\<rparr>)"

section \<open>Stack states\<close>

definition markSwitchIn :: "nat \<Rightarrow> nat \<Rightarrow> transition_type \<Rightarrow> tag_stack_state \<Rightarrow> tag_stack_state result" where
  "markSwitchIn group_idx tstamp swin_type ss =
     (if group_idx \<ge> length (ss_last_swin ss) then Inl Out_Of_Range
      else if si_tstamp (ss_last_swin ss ! group_idx) \<noteq> kInvalidTimeStamp then Inl Invalid_Argument
      else Inr (ss\<lparr>ss_last_swin := (ss_last_swin ss)[group_idx := \<lparr>si_tstamp = tstamp, si_type = swin_type\<rparr>],
                   ss_num_swins := ss_num_swins ss + 1\<rparr>))"

text \<open>The active time is summed up in 64 bits and wraps around.\<close>

definition markSwitchOut :: "nat \<Rightarrow> nat \<Rightarrow> tag_stack_state \<Rightarrow> tag_stack_state result" where
  "markSwitchOut group_idx tstamp ss =
     (if group_idx \<ge> length (ss_last_swin ss) then Inl Out_Of_Range
      else if tstamp < si_tstamp (ss_last_swin ss ! group_idx) then Inl Invalid_Argument
      else Inr (ss\<lparr>ss_cum_active_time := (ss_cum_active_time ss + (tstamp - si_tstamp (ss_last_swin ss ! group_idx))) mod 2 ^ 64,
                   ss_num_swouts := ss_num_swouts ss + 1,
                   ss_last_swin := (ss_last_swin ss)[group_idx := no_swin]\<rparr>))"

definition restart :: "tag_stack_state \<Rightarrow> tag_stack_state" where
  "restart ss = ss\<lparr>ss_last_swin := map (\<lambda>_. no_swin) (ss_last_swin ss)\<rparr>"

text \<open>Whether a stack can be active in several groups at the same time.\<close>

definition isAliased :: "bool \<Rightarrow> stack \<Rightarrow> bool" where
  "isAliased kHandleTID0 s \<longleftrightarrow> kHandleTID0 \<and> st_tags s = [0] \<or> st_tags s = [] \<or> hasNAs s"

definition find_state :: "slicer \<Rightarrow> stack \<Rightarrow> nat option" where
  "find_state s st = find (\<lambda>i. stack_eq (ss_stack (sl_states s ! i)) st) [0..<length (sl_states s)]"

text \<open>Whether a state is in a dormant list, and taking it out.\<close>

definition is_linked :: "slicer \<Rightarrow> nat \<Rightarrow> bool" where
  "is_linked s i =
     (case st_tags (ss_stack (sl_states s ! i)) of [] \<Rightarrow> False | t # _ \<Rightarrow> i \<in> set (sl_dormant s t))"

definition unlink :: "nat \<Rightarrow> slicer \<Rightarrow> slicer" where
  "unlink i s =
     (case st_tags (ss_stack (sl_states s ! i)) of
        [] \<Rightarrow> s
      | t # _ \<Rightarrow> s\<lparr>sl_dormant := (sl_dormant s)(t := removeAll i (sl_dormant s t))\<rparr>)"

definition push_dormant :: "nat \<Rightarrow> slicer \<Rightarrow> slicer result" where
  "push_dormant i s =
     (if is_linked s i then Inl Undefined_Behaviour
      else
        case st_tags (ss_stack (sl_states s ! i)) of
          [] \<Rightarrow> Inl Undefined_Behaviour
        | t # _ \<Rightarrow> Inr (s\<lparr>sl_dormant := (sl_dormant s)(t := i # sl_dormant s t)\<rparr>))"

definition activateStackState :: "nat \<Rightarrow> nat \<Rightarrow> nat \<Rightarrow> transition_type \<Rightarrow> slicer \<Rightarrow> slicer result" where
  "activateStackState group_idx i ts swin_type s =
     (if sl_active s ! group_idx \<noteq> None then Inl Invalid_Argument
      else
        rbind (markSwitchIn group_idx ts swin_type (sl_states s ! i)) (\<lambda>ss.
          Inr (s\<lparr>sl_active := (sl_active s)[group_idx := Some i], sl_states := (sl_states s)[i := ss]\<rparr>)))"

text \<open>A slice of no duration is not written.\<close>

definition completeSlice :: "nat \<Rightarrow> nat \<Rightarrow> transition_type \<Rightarrow> slicer \<Rightarrow> slicer result" where
  "completeSlice group_idx ts swout_type s =
     (if ts = kInvalidTimeStamp \<or> sl_states s = [] then Inl Invalid_Argument
      else
        case sl_active s ! group_idx of
          None \<Rightarrow> Inl Invalid_Argument
        | Some i \<Rightarrow>
            let ss = sl_states s ! i in
            if group_idx \<ge> length (ss_last_swin ss) then Inl Out_Of_Range
            else
              let swin = ss_last_swin ss ! group_idx in
              if si_tstamp swin = kInvalidTimeStamp \<or> ts < si_tstamp swin then Inl Invalid_Argument
              else
                let dur = ts - si_tstamp swin;
                    s1 = (if dur > 0 then
                            s\<lparr>sl_slices := (sl_slices s)[group_idx := sl_slices s ! group_idx
                               @ [\<lparr>sc_tstamp = si_tstamp swin, sc_duration = dur, sc_stack_id = ss_id ss,
                                   sc_swin = si_type swin, sc_swout = swout_type\<rparr>]]\<rparr>
                          else s)
                in rbind (markSwitchOut group_idx ts ss) (\<lambda>ss1.
                     Inr (s1\<lparr>sl_states := (sl_states s1)[i := ss1],
                       sl_stats := (sl_stats s1)\<lparr>n_slices_completed := n_slices_completed (sl_stats s1) + 1\<rparr>\<rparr>)))"

text \<open>A state for a stack, after states for the stacks below it; the number of a stack that is there
  already is used up.\<close>

definition emplace_state :: "stack \<Rightarrow> nat \<Rightarrow> slicer \<Rightarrow> nat \<times> slicer" where
  "emplace_state st parent_sid s =
     (case find_state s st of
        Some i \<Rightarrow> (i, s\<lparr>sl_next_id := sl_next_id s + 1\<rparr>)
      | None \<Rightarrow>
          (length (sl_states s),
           s\<lparr>sl_states := sl_states s @ [\<lparr>ss_id = sl_next_id s, ss_parent = parent_sid, ss_stack = st,
               ss_cum_active_time = 0, ss_num_swins = 0, ss_num_swouts = 0,
               ss_last_swin = replicate (length (sl_slices s)) no_swin\<rparr>],
             sl_next_id := sl_next_id s + 1\<rparr>))"

function createStackState :: "stack \<Rightarrow> nat slicing" where
  "createStackState st s =
     (if st_tags st = [] then Inr (emplace_state st kInvalidTagStackId s)
      else if length (st_tags st) > kMaxNumLevels + 1 then Inl Undefined_Behaviour
      else
        let parent = \<lparr>st_tags = butlast (st_tags st), st_known = st_known st, st_rest = None\<rparr> in
        case find_state s parent of
          Some p \<Rightarrow> Inr (emplace_state st (ss_id (sl_states s ! p)) s)
        | None \<Rightarrow>
            rbind (createStackState parent s) (\<lambda>(p, s1).
              Inr (emplace_state st (ss_id (sl_states s1 ! p)) s1)))"
  by pat_completeness auto
termination
  by (relation "measure (\<lambda>(st, _). length (st_tags st))") auto

definition activateStackStateExactMatch :: "nat \<Rightarrow> stack \<Rightarrow> nat \<Rightarrow> transition_type \<Rightarrow> slicer \<Rightarrow> slicer result" where
  "activateStackStateExactMatch group_idx new_stack tstamp swin_type s =
     (case find_state s new_stack of
        None \<Rightarrow>
          rbind (createStackState new_stack s) (\<lambda>(i, s1). activateStackState group_idx i tstamp swin_type s1)
      | Some i \<Rightarrow> activateStackState group_idx i tstamp swin_type (if is_linked s i then unlink i s else s))"

definition activateStackStateThatContains :: "bool \<Rightarrow> nat \<Rightarrow> stack \<Rightarrow> nat \<Rightarrow> nat \<Rightarrow> transition_type
    \<Rightarrow> slicer \<Rightarrow> slicer result" where
  "activateStackStateThatContains tid0 group_idx st num_levels tstamp swin_type s =
     (if isAliased tid0 st \<or> st_tags st = [] then Inl Invalid_Argument
      else
        case find (\<lambda>i. stack_contains (ss_stack (sl_states s ! i)) st num_levels) (sl_dormant s (hd (st_tags st))) of
          Some i \<Rightarrow> activateStackState group_idx i tstamp swin_type (unlink i s)
        | None \<Rightarrow> activateStackStateExactMatch group_idx (st\<lparr>st_known := False\<rparr>) tstamp swin_type s)"

definition resetState :: "slicer \<Rightarrow> slicer" where
  "resetState s = s\<lparr>sl_active := map (\<lambda>_. None) (sl_active s), sl_dormant := (\<lambda>_. []),
     sl_states := map restart (sl_states s)\<rparr>"

section \<open>Events\<close>

definition prepareNext :: "nat \<Rightarrow> slicer \<Rightarrow> event option" where
  "prepareNext stop_ts s =
     (case sl_events s of [] \<Rightarrow> None | e # _ \<Rightarrow> if ev_tstamp e \<le> stop_ts then Some e else None)"

definition count :: "(slicer_stats \<Rightarrow> slicer_stats) \<Rightarrow> slicer \<Rightarrow> slicer" where
  "count f s = s\<lparr>sl_stats := f (sl_stats s)\<rparr>"

text \<open>What every branch does with an event it is done with.\<close>

definition finish_event :: "event \<Rightarrow> slicer \<Rightarrow> slicer" where
  "finish_event ev s =
     count (\<lambda>st. st\<lparr>n_processed := n_processed st + 1\<rparr>)
       (s\<lparr>sl_last_ts := ev_tstamp ev, sl_events := tl (sl_events s)\<rparr>)"

definition handleWriteErrors :: "event \<Rightarrow> slicer \<Rightarrow> bool \<times> slicer" where
  "handleWriteErrors ev s =
     (if ev_type ev = WriteErrorsEnd then
        (True, (count (\<lambda>st. st\<lparr>n_error_end := n_error_end st + 1\<rparr>) (finish_event ev s))
                 \<lparr>sl_write_errors := sl_write_errors s - 1\<rparr>)
      else if ev_type ev = WriteErrorsStart then
        (True, (resetState (count (\<lambda>st. st\<lparr>n_error_start := n_error_start st + 1\<rparr>) (finish_event ev s)))
                 \<lparr>sl_write_errors := sl_write_errors s + 1\<rparr>)
      else if sl_write_errors s \<noteq> 0 then
        (True, count (\<lambda>st. st\<lparr>n_dropped := n_dropped st + 1\<rparr>) (finish_event ev s))
      else (False, s))"

definition handleThreadLifetime :: "event \<Rightarrow> bool slicing" where
  "handleThreadLifetime ev s =
     (if \<not> isThreadLifetime ev then Inr (False, s)
      else if ev_level ev \<noteq> 0 then
        Inr (True, count (\<lambda>st. st\<lparr>n_dropped := n_dropped st + 1, n_logic_errors := n_logic_errors st + 1\<rparr>)
          (finish_event ev s))
      else if ev_type ev = ThreadCreation then
        rbind (createStackState (thread_stack (ev_tag ev)) s) (\<lambda>(i, s1).
        rbind (push_dormant i s1) (\<lambda>s2. Inr (True, finish_event ev s2)))
      else Inr (True, finish_event ev s))"

text \<open>The active state of the group becomes dormant, and its slice ends.  The branch for a state that
  is not linked right after it was pushed cannot be taken.\<close>

definition handleLastState :: "bool \<Rightarrow> event \<Rightarrow> transition_type \<Rightarrow> slicer \<Rightarrow> slicer result" where
  "handleLastState tid0 ev sw_type s =
     (case sl_active s ! ev_comp ev of
        None \<Rightarrow> Inr s
      | Some i \<Rightarrow>
          rbind (if isAliased tid0 (ss_stack (sl_states s ! i)) then Inr s else push_dormant i s) (\<lambda>s1.
          rbind (completeSlice (ev_comp ev) (ev_tstamp ev) sw_type s1) (\<lambda>s2.
            Inr (s2\<lparr>sl_active := (sl_active s2)[ev_comp ev := None]\<rparr>))))"

definition eventToTransitionType :: "event \<Rightarrow> transition_type result" where
  "eventToTransitionType ev =
     (case ev_type ev of
        Ev_Start \<Rightarrow> Inr PhaseChange
      | Ev_End \<Rightarrow> Inr PhaseChange
      | SwitchIn \<Rightarrow> Inr ThreadYield
      | SwitchOutYield \<Rightarrow> Inr ThreadYield
      | SwitchOutPreempt \<Rightarrow> Inr ThreadPreempted
      | _ \<Rightarrow> Inl Assert_Failure)"

definition out_of_sync :: "event \<Rightarrow> stack \<Rightarrow> bool" where
  "out_of_sync ev last_stack \<longleftrightarrow>
     st_known last_stack \<and> st_tags last_stack \<noteq> [] \<and> length (st_tags last_stack) \<le> ev_level ev"

definition already_active :: "event \<Rightarrow> stack \<Rightarrow> bool" where
  "already_active ev last_stack \<longleftrightarrow>
     ev_level ev < length (st_tags last_stack) \<and> st_tags last_stack ! ev_level ev \<noteq> kNA"

text \<open>The last stack of the group; the level of a stack is 8 bits wide.\<close>

definition get_last_stack :: "event \<Rightarrow> nat option \<Rightarrow> slicer \<Rightarrow> stack" where
  "get_last_stack ev last_state s =
     (case last_state of
        Some i \<Rightarrow> ss_stack (sl_states s ! i)
      | None \<Rightarrow> na_stack ((ev_level ev + (if isOut ev then 1 else 0)) mod 256) (isPhase ev))"

text \<open>A switch or phase event, up to the point where it is completed.\<close>

definition handle_out :: "event \<Rightarrow> transition_type \<Rightarrow> stack \<Rightarrow> slicer \<Rightarrow> slicer result" where
  "handle_out ev sw_type last_stack s =
     (if out_of_sync ev last_stack then
        Inr (resetState (count (\<lambda>st. st\<lparr>n_error_out_sync := n_error_out_sync st + 1\<rparr>) (finish_event ev s)))
      else
        rbind (copyTruncated (ev_level ev) True last_stack) (\<lambda>st.
        rbind (activateStackStateExactMatch (ev_comp ev) st (ev_tstamp ev) sw_type s) (\<lambda>s1.
          Inr (finish_event ev s1))))"

definition handle_in :: "bool \<Rightarrow> event \<Rightarrow> transition_type \<Rightarrow> stack \<Rightarrow> slicer \<Rightarrow> slicer result" where
  "handle_in tid0 ev sw_type last_stack s =
     (if already_active ev last_stack then Inr (resetState (finish_event ev s))
      else
        rbind (copyFillUpTo (ev_level ev) (ev_tag ev) (st_known last_stack \<or> isPhase ev) last_stack) (\<lambda>bottom.
        rbind (if isAliased tid0 bottom \<or> isPhase ev
               then activateStackStateExactMatch (ev_comp ev) bottom (ev_tstamp ev) sw_type s
               else activateStackStateThatContains tid0 (ev_comp ev) bottom (ev_level ev + 1) (ev_tstamp ev) sw_type s)
          (\<lambda>s1. Inr (finish_event ev s1))))"

definition handle_transition :: "bool \<Rightarrow> event \<Rightarrow> slicer \<Rightarrow> slicer result" where
  "handle_transition tid0 ev s =
     rbind (eventToTransitionType ev) (\<lambda>sw_type.
     rbind (handleLastState tid0 ev sw_type s) (\<lambda>s1.
     let last_stack = get_last_stack ev (sl_active s ! ev_comp ev) s1 in
       if isOut ev then handle_out ev sw_type last_stack s1 else handle_in tid0 ev sw_type last_stack s1))"

text \<open>One event that is in order and not past the stop time.\<close>

definition process_event :: "bool \<Rightarrow> event \<Rightarrow> slicer \<Rightarrow> slicer result" where
  "process_event tid0 ev s =
     (case handleWriteErrors ev s of
        (True, s1) \<Rightarrow> Inr s1
      | (False, s1) \<Rightarrow>
          if \<not> (isThreadLifetime ev \<or> isSwitch ev \<or> isPhase ev) then Inl Assert_Failure
          else
            rbind (handleThreadLifetime ev s1) (\<lambda>(handled, s2).
              if handled then Inr s2 else handle_transition tid0 ev s2))"

definition out_of_order :: "event \<Rightarrow> slicer \<Rightarrow> slicer" where
  "out_of_order ev s =
     (resetState (count (\<lambda>st. st\<lparr>n_out_of_order := n_out_of_order st + 1\<rparr>) s))\<lparr>sl_last_ts := ev_tstamp ev\<rparr>"

function processNext :: "bool \<Rightarrow> nat \<Rightarrow> nat \<Rightarrow> slicer \<Rightarrow> (nat \<times> slicer) result" where
  "processNext tid0 max_num_events stop_ts s =
     (if max_num_events = 0 then Inr (0, s)
      else
        case prepareNext stop_ts s of
          None \<Rightarrow> Inr (0, s)
        | Some ev \<Rightarrow>
            if ev_comp ev \<ge> length (sl_active s) \<or> ev_comp ev \<ge> length (sl_slices s) then Inl Assert_Failure
            else if ev_tstamp ev < sl_last_ts s then processNext tid0 max_num_events stop_ts (out_of_order ev s)
            else
              rbind (process_event tid0 ev s) (\<lambda>s1.
              rbind (processNext tid0 (max_num_events - 1) stop_ts s1) (\<lambda>(n, s2). Inr (n + 1, s2))))"
  by pat_completeness auto
termination
  by (relation "measures [\<lambda>(_, n, _, _). n,
      \<lambda>(_, _, _, s). case sl_events s of [] \<Rightarrow> 0 | e # _ \<Rightarrow> if ev_tstamp e < sl_last_ts s then 1 else 0]")
    (auto simp: prepareNext_def out_of_order_def resetState_def count_def split: list.splits if_splits)

declare createStackState.simps [simp del] processNext.simps [simp del]

end
