(* ===== verification/SlicerProofs.thy ===== *)
theory SlicerProofs
  imports Slicer Transitions
begin

text \<open>
  What the slicer keeps true: a state counts as switched in exactly in the groups where it is active,
  the time it is credited with is the time of the slices written for it, no check for a wrong argument
  ever fails, and as long as no event comes out of order the slices of a group follow one another.
\<close>

section \<open>Invariant\<close>

abbreviation swin :: "slicer \<Rightarrow> nat \<Rightarrow> nat \<Rightarrow> nat" where
  "swin s i g \<equiv> si_tstamp (ss_last_swin (sl_states s ! i) ! g)"

definition time_in :: "nat \<Rightarrow> slice list \<Rightarrow> nat" where
  "time_in sid slices = sum_list (map (\<lambda>sl. if sc_stack_id sl = sid then sc_duration sl else 0) slices)"

definition groups_ok :: "nat \<Rightarrow> slicer \<Rightarrow> bool" where
  "groups_ok T s \<longleftrightarrow>
     length (sl_slices s) = length (sl_active s)
     \<and> (\<forall>i < length (sl_states s). length (ss_last_swin (sl_states s ! i)) = length (sl_active s))
     \<and> (\<forall>g < length (sl_active s). \<forall>i. sl_active s ! g = Some i \<longrightarrow> i < length (sl_states s) \<and> swin s i g \<le> T)
     \<and> (\<forall>i < length (sl_states s). \<forall>g < length (sl_active s).
          swin s i g = kInvalidTimeStamp \<longleftrightarrow> sl_active s ! g \<noteq> Some i)
     \<and> (\<forall>t. \<forall>i \<in> set (sl_dormant s t). i < length (sl_states s))"

definition ids_ok :: "slicer \<Rightarrow> bool" where
  "ids_ok s \<longleftrightarrow>
     (\<forall>i < length (sl_states s). ss_id (sl_states s ! i) < sl_next_id s)
     \<and> (\<forall>i < length (sl_states s). \<forall>j < i. ss_id (sl_states s ! j) < ss_id (sl_states s ! i))
     \<and> (\<forall>sl \<in> set (concat (sl_slices s)). sc_stack_id sl < sl_next_id s)"

definition times_ok :: "slicer \<Rightarrow> bool" where
  "times_ok s \<longleftrightarrow>
     (\<forall>i < length (sl_states s).
        ss_cum_active_time (sl_states s ! i) = time_in (ss_id (sl_states s ! i)) (concat (sl_slices s)) mod 2 ^ 64)
     \<and> n_slices_completed (sl_stats s) = sum_list (map ss_num_swouts (sl_states s))"

text \<open>The slices of a group follow one another, and end before the active state came in.\<close>

definition in_sequence :: "slice list \<Rightarrow> bool" where
  "in_sequence slices \<longleftrightarrow> sorted_wrt (\<lambda>a b. tstampEnd a \<le> sc_tstamp b) slices"

definition order_ok :: "nat \<Rightarrow> slicer \<Rightarrow> bool" where
  "order_ok T s \<longleftrightarrow>
     (\<forall>g < length (sl_active s). in_sequence (sl_slices s ! g)
        \<and> (\<forall>sl \<in> set (sl_slices s ! g). 0 < sc_duration sl \<and> tstampEnd sl \<le> T
             \<and> (\<forall>i. sl_active s ! g = Some i \<longrightarrow> tstampEnd sl \<le> swin s i g)))"

definition slicer_inv :: "nat \<Rightarrow> slicer \<Rightarrow> bool" where
  "slicer_inv T s \<longleftrightarrow> groups_ok T s \<and> ids_ok s \<and> times_ok s
     \<and> (n_out_of_order (sl_stats s) = 0 \<longrightarrow> order_ok T s)"

lemma slicer_inv_mono: "slicer_inv T s \<Longrightarrow> T \<le> T' \<Longrightarrow> slicer_inv T' s"
  unfolding slicer_inv_def groups_ok_def order_ok_def by (meson order_trans)

lemma groups_okD:
  assumes "groups_ok T s"
  shows "length (sl_slices s) = length (sl_active s)"
    and "i < length (sl_states s) \<Longrightarrow> length (ss_last_swin (sl_states s ! i)) = length (sl_active s)"
    and "g < length (sl_active s) \<Longrightarrow> sl_active s ! g = Some i \<Longrightarrow> i < length (sl_states s) \<and> swin s i g \<le> T"
    and "i < length (sl_states s) \<Longrightarrow> g < length (sl_active s) \<Longrightarrow>
      swin s i g = kInvalidTimeStamp \<longleftrightarrow> sl_active s ! g \<noteq> Some i"
    and "i \<in> set (sl_dormant s t) \<Longrightarrow> i < length (sl_states s)"
  using assms by (auto simp: groups_ok_def)

section \<open>Operations that leave the states alone\<close>

text \<open>Changing only the stream, the last time stamp, the counters other than the completed slices and
  the out of order events, or the dormant lists.\<close>

lemma slicer_inv_frame:
  assumes "slicer_inv T s" "sl_slices s1 = sl_slices s" "sl_active s1 = sl_active s" "sl_states s1 = sl_states s"
    and "sl_next_id s \<le> sl_next_id s1"
    and "n_slices_completed (sl_stats s1) = n_slices_completed (sl_stats s)"
    and "n_out_of_order (sl_stats s) \<le> n_out_of_order (sl_stats s1)"
    and "\<And>t. set (sl_dormant s1 t) \<subseteq> {..<length (sl_states s)}"
  shows "slicer_inv T s1"
proof -
  have "groups_ok T s1" using assms(1-4,8) by (auto simp: slicer_inv_def groups_ok_def)
  moreover have "ids_ok s1" using assms(1-5) unfolding slicer_inv_def ids_ok_def by (metis order.strict_trans2)
  moreover have "times_ok s1" using assms(1-4,6) by (simp add: slicer_inv_def times_ok_def)
  moreover have "order_ok T s1" if "n_out_of_order (sl_stats s1) = 0"
    using assms(1-4,7) that by (simp add: slicer_inv_def order_ok_def)
  ultimately show ?thesis by (simp add: slicer_inv_def)
qed

lemma dormant_less: "slicer_inv T s \<Longrightarrow> i \<in> set (sl_dormant s t) \<Longrightarrow> i < length (sl_states s)"
  by (auto simp: slicer_inv_def groups_ok_def)

lemma finish_event_inv: "slicer_inv T s \<Longrightarrow> slicer_inv T (finish_event ev s)"
  by (rule slicer_inv_frame [where s = s]) (auto simp: finish_event_def count_def dest: dormant_less)

lemma unlink_inv: "slicer_inv T s \<Longrightarrow> slicer_inv T (unlink i s)"
  by (rule slicer_inv_frame [where s = s])
    (auto simp: unlink_def split: list.splits if_splits dest: dormant_less)

lemma push_dormant_inv: "slicer_inv T s \<Longrightarrow> i < length (sl_states s) \<Longrightarrow> push_dormant i s = Inr s1 \<Longrightarrow> slicer_inv T s1"
  by (rule slicer_inv_frame [where s = s])
    (auto simp: push_dormant_def split: list.splits if_splits dest: dormant_less)

lemma push_dormant_cases:
  assumes "push_dormant i s = r"
  obtains "r = Inl Undefined_Behaviour"
  | s1 where "r = Inr s1" "sl_active s1 = sl_active s" "sl_states s1 = sl_states s" "sl_slices s1 = sl_slices s"
      "sl_last_ts s1 = sl_last_ts s" "sl_events s1 = sl_events s" "sl_stats s1 = sl_stats s"
  using assms by (auto simp: push_dormant_def split: list.splits if_splits)

section \<open>Activation\<close>

lemma activateStackState_inv:
  assumes "slicer_inv T s" "g < length (sl_active s)" "sl_active s ! g = None" "i < length (sl_states s)"
    and "T \<noteq> kInvalidTimeStamp"
  shows "\<exists>s1. activateStackState g i T ty s = Inr s1 \<and> slicer_inv T s1
    \<and> length (sl_active s1) = length (sl_active s) \<and> sl_stats s1 = sl_stats s \<and> sl_events s1 = sl_events s"
proof -
  have gr: "groups_ok T s" using assms(1) by (simp add: slicer_inv_def)
  note d = groups_okD [OF gr]
  have free: "swin s i g = kInvalidTimeStamp" using d(4) [OF assms(4,2)] assms(3) by auto
  define ss where "ss = (sl_states s ! i)\<lparr>ss_last_swin := (ss_last_swin (sl_states s ! i))[g := \<lparr>si_tstamp = T, si_type = ty\<rparr>],
                   ss_num_swins := ss_num_swins (sl_states s ! i) + 1\<rparr>"
  define s1 where "s1 = s\<lparr>sl_active := (sl_active s)[g := Some i], sl_states := (sl_states s)[i := ss]\<rparr>"
  have eq: "activateStackState g i T ty s = Inr s1"
    using assms(2-4) d(2) [OF assms(4)] free by (simp add: activateStackState_def markSwitchIn_def ss_def s1_def)
  have sw: "swin s1 j h = (if j = i \<and> h = g then T else swin s j h)" if "j < length (sl_states s)" "h < length (sl_active s)" for j h
    using that d(2) [OF assms(4)] assms(4) by (cases "j = i") (auto simp: s1_def ss_def nth_list_update)
  have ac: "sl_active s1 ! h = (if h = g then Some i else sl_active s ! h)" if "h < length (sl_active s)" for h
    using that by (simp add: s1_def nth_list_update)
  have len: "length (sl_states s1) = length (sl_states s)" "length (sl_active s1) = length (sl_active s)"
    by (simp_all add: s1_def)
  have lens: "length (ss_last_swin (sl_states s1 ! j)) = length (sl_active s)" if "j < length (sl_states s)" for j
    using that d(2) by (cases "j = i") (auto simp: s1_def ss_def)
  have fr: "sl_dormant s1 = sl_dormant s" "sl_slices s1 = sl_slices s" by (simp_all add: s1_def)
  have "groups_ok T s1"
    unfolding groups_ok_def len fr
    using d(1,3,4,5) sw ac lens assms(3-5) by auto
  moreover have "ids_ok s1"
  proof -
    have "ss_id (sl_states s1 ! j) = ss_id (sl_states s ! j)" for j
      using assms(4) by (cases "j = i") (auto simp: s1_def ss_def)
    then show ?thesis using assms(1) len by (simp add: slicer_inv_def ids_ok_def) (simp add: s1_def)
  qed
  moreover have "times_ok s1"
  proof -
    have "ss_id (sl_states s1 ! j) = ss_id (sl_states s ! j)"
      "ss_cum_active_time (sl_states s1 ! j) = ss_cum_active_time (sl_states s ! j)" for j
      using assms(4) by (cases "j = i"; auto simp: s1_def ss_def)+
    moreover have "map ss_num_swouts (sl_states s1) = map ss_num_swouts (sl_states s)"
      using assms(4) by (auto simp: s1_def ss_def map_update intro: nth_equalityI simp: nth_list_update)
    ultimately show ?thesis using assms(1) len by (simp add: slicer_inv_def times_ok_def) (simp add: s1_def)
  qed
  moreover have "order_ok T s1" if "n_out_of_order (sl_stats s) = 0"
  proof -
    have "order_ok T s" using assms(1) that by (simp add: slicer_inv_def)
    then show ?thesis
      unfolding order_ok_def len fr using ac sw d(3) assms(4) by auto
  qed
  ultimately show ?thesis using eq len by (auto simp: slicer_inv_def s1_def)
qed

section \<open>Completion\<close>

lemma time_in_append: "time_in sid (xs @ ys) = time_in sid xs + time_in sid ys"
  by (simp add: time_in_def)

lemma time_in_update:
  "g < length xss \<Longrightarrow> time_in sid (concat (xss[g := xss ! g @ ys])) = time_in sid (concat xss) + time_in sid ys"
proof (induction xss arbitrary: g)
  case (Cons xs xss)
  then show ?case by (cases g) (auto simp: time_in_append)
qed simp

text \<open>The slice that ends at \<open>T\<close> in a group: it is written unless it has no duration, and the group is
  free afterwards.\<close>

definition end_slice :: "nat \<Rightarrow> nat \<Rightarrow> transition_type \<Rightarrow> slicer \<Rightarrow> slicer result" where
  "end_slice g T ty s =
     rbind (completeSlice g T ty s) (\<lambda>s2. Inr (s2\<lparr>sl_active := (sl_active s2)[g := None]\<rparr>))"

lemma end_slice_inv:
  assumes "slicer_inv T s" "g < length (sl_active s)" "sl_active s ! g = Some i" "T \<noteq> kInvalidTimeStamp"
  shows "\<exists>s1. end_slice g T ty s = Inr s1 \<and> slicer_inv T s1 \<and> sl_active s1 = (sl_active s)[g := None]
    \<and> length (sl_states s1) = length (sl_states s) \<and> sl_events s1 = sl_events s
    \<and> n_out_of_order (sl_stats s1) = n_out_of_order (sl_stats s)"
proof -
  have gr: "groups_ok T s" using assms(1) by (simp add: slicer_inv_def)
  note d = groups_okD [OF gr]
  have i: "i < length (sl_states s)" "swin s i g \<le> T" using d(3) [OF assms(2,3)] by auto
  have on: "swin s i g \<noteq> kInvalidTimeStamp" using d(4) [OF i(1) assms(2)] assms(3) by simp
  let ?ss = "sl_states s ! i"
  let ?n = "length (ss_last_swin ?ss)"
  have n: "?n = length (sl_active s)" using d(2) [OF i(1)] .
  define dur where "dur = T - swin s i g"
  define new where "new = (if dur > 0 then [\<lparr>sc_tstamp = swin s i g, sc_duration = dur, sc_stack_id = ss_id ?ss,
                  sc_swin = si_type (ss_last_swin ?ss ! g), sc_swout = ty\<rparr>] else [])"
  define ss where "ss = ?ss\<lparr>ss_cum_active_time := (ss_cum_active_time ?ss + dur) mod 2 ^ 64,
                   ss_num_swouts := ss_num_swouts ?ss + 1, ss_last_swin := (ss_last_swin ?ss)[g := no_swin]\<rparr>"
  define s1 where "s1 = s\<lparr>sl_slices := (sl_slices s)[g := sl_slices s ! g @ new],
      sl_states := (sl_states s)[i := ss],
      sl_stats := (sl_stats s)\<lparr>n_slices_completed := n_slices_completed (sl_stats s) + 1\<rparr>,
      sl_active := (sl_active s)[g := None]\<rparr>"
  have ne: "sl_states s \<noteq> []" using i(1) by auto
  have eq: "end_slice g T ty s = Inr s1"
    using assms(2-4) i on n ne d(1)
    by (auto simp: end_slice_def completeSlice_def Let_def markSwitchOut_def s1_def ss_def new_def dur_def)
  have len: "length (sl_states s1) = length (sl_states s)" "length (sl_active s1) = length (sl_active s)"
      "length (sl_slices s1) = length (sl_active s)"
    using d(1) by (simp_all add: s1_def)
  have sw: "swin s1 j h = (if j = i \<and> h = g then kInvalidTimeStamp else swin s j h)"
    if "j < length (sl_states s)" "h < length (sl_active s)" for j h
    using that n i(1) by (cases "j = i") (auto simp: s1_def ss_def no_swin_def nth_list_update)
  have ac: "sl_active s1 ! h = (if h = g then None else sl_active s ! h)" if "h < length (sl_active s)" for h
    using that by (simp add: s1_def nth_list_update)
  have lens: "length (ss_last_swin (sl_states s1 ! j)) = length (sl_active s)" if "j < length (sl_states s)" for j
    using that d(2) by (cases "j = i") (auto simp: s1_def ss_def)
  have id: "ss_id (sl_states s1 ! j) = ss_id (sl_states s ! j)" for j
    using i(1) by (cases "j = i") (auto simp: s1_def ss_def)
  have sl: "sl_slices s1 ! h = (if h = g then sl_slices s ! h @ new else sl_slices s ! h)" if "h < length (sl_active s)" for h
    using that d(1) by (simp add: s1_def nth_list_update)
  have fr: "sl_dormant s1 = sl_dormant s" by (simp add: s1_def)
  have g1: "groups_ok T s1"
    unfolding groups_ok_def len fr using d(3,4,5) sw ac lens assms(3) by auto
  have sub: "set (concat (sl_slices s1)) \<subseteq> set (concat (sl_slices s)) \<union> set new"
    using assms(2) d(1) by (auto simp: s1_def dest!: subsetD [OF set_update_subset_insert]) (metis nth_mem)
  have ids: "ids_ok s" using assms(1) by (simp add: slicer_inv_def)
  have fresh: "sc_stack_id x < sl_next_id s" if "x \<in> set (concat (sl_slices s1))" for x
  proof (cases "x \<in> set new")
    case True
    then show ?thesis using ids i(1) by (auto simp: new_def ids_ok_def split: if_splits)
  next
    case False
    with sub that have "x \<in> set (concat (sl_slices s))" by blast
    with ids show ?thesis unfolding ids_ok_def by blast
  qed
  have nx: "sl_next_id s1 = sl_next_id s" by (simp add: s1_def)
  have g2: "ids_ok s1"
    unfolding ids_ok_def len id nx using ids fresh unfolding ids_ok_def by blast
  have times: "time_in sid (concat (sl_slices s1)) = time_in sid (concat (sl_slices s)) + (if sid = ss_id ?ss then dur else 0)" for sid
    using assms(2) d(1) by (simp add: s1_def time_in_update) (simp add: new_def time_in_def)
  have inj: "ss_id (sl_states s ! j) = ss_id ?ss \<longleftrightarrow> j = i" if "j < length (sl_states s)" for j
    using assms(1) i(1) that unfolding slicer_inv_def ids_ok_def
    by (metis linorder_neqE_nat order_less_irrefl)
  have g3: "times_ok s1"
    unfolding times_ok_def len
  proof (intro conjI allI impI)
    fix j assume j: "j < length (sl_states s)"
    have "ss_cum_active_time (sl_states s ! j) = time_in (ss_id (sl_states s ! j)) (concat (sl_slices s)) mod 2 ^ 64"
      using assms(1) j by (simp add: slicer_inv_def times_ok_def)
    moreover from this have "ss_cum_active_time (sl_states s1 ! j)
        = (ss_cum_active_time (sl_states s ! j) + (if j = i then dur else 0)) mod 2 ^ 64"
      using i(1) by (simp add: s1_def ss_def nth_list_update)
    ultimately show "ss_cum_active_time (sl_states s1 ! j)
        = time_in (ss_id (sl_states s1 ! j)) (concat (sl_slices s1)) mod 2 ^ 64"
      using inj [OF j] by (simp add: id times mod_add_left_eq)
  next
    have "sum_list (map ss_num_swouts ((sl_states s)[i := ss])) = sum_list (map ss_num_swouts (sl_states s)) + 1"
      using i(1) member_le_sum_list [of "ss_num_swouts ?ss" "map ss_num_swouts (sl_states s)"]
      by (simp add: map_update sum_list_update ss_def)
    then show "n_slices_completed (sl_stats s1) = sum_list (map ss_num_swouts (sl_states s1))"
      using assms(1) by (simp add: s1_def slicer_inv_def times_ok_def)
  qed
  have g4: "order_ok T s1" if "n_out_of_order (sl_stats s) = 0"
  proof -
    have o: "order_ok T s" using assms(1) that by (simp add: slicer_inv_def)
    have new: "\<forall>x \<in> set new. 0 < sc_duration x \<and> tstampEnd x = T \<and> sc_tstamp x = swin s i g"
      using i(2) by (simp add: new_def tstampEnd_def dur_def)
    have og: "in_sequence (sl_slices s ! h)" "\<forall>sl \<in> set (sl_slices s ! h). 0 < sc_duration sl \<and> tstampEnd sl \<le> T
        \<and> (\<forall>i. sl_active s ! h = Some i \<longrightarrow> tstampEnd sl \<le> swin s i h)" if "h < length (sl_active s)" for h
      using o that by (simp_all add: order_ok_def)
    have "sorted_wrt (\<lambda>a b. tstampEnd a \<le> sc_tstamp b) new" by (simp add: new_def)
    moreover have "\<forall>a \<in> set (sl_slices s ! g). \<forall>b \<in> set new. tstampEnd a \<le> sc_tstamp b"
      using og(2) [OF assms(2)] new assms(3) by simp
    ultimately have "in_sequence (sl_slices s ! g @ new)"
      using og(1) [OF assms(2)] by (simp add: in_sequence_def sorted_wrt_append)
    then show ?thesis
      unfolding order_ok_def len using og ac sw sl new d(3) by (simp add: ball_Un)
  qed
  have "slicer_inv T s1" using g1 g2 g3 g4 by (simp add: slicer_inv_def s1_def)
  with eq show ?thesis by (auto simp: s1_def)
qed

section \<open>New states\<close>

lemma find_Some_upt: "find P [0..<n] = Some i \<Longrightarrow> i < n \<and> P i"
  by (auto simp: find_Some_iff)

lemma find_state_less: "find_state s st = Some i \<Longrightarrow> i < length (sl_states s)"
  by (auto simp: find_state_def dest: find_Some_upt)

lemma sum_list_zero: "\<forall>x \<in> set xs. f x = (0 :: nat) \<Longrightarrow> sum_list (map f xs) = 0"
  by (induction xs) auto

lemma time_in_fresh: "\<forall>sl \<in> set xs. sc_stack_id sl < n \<Longrightarrow> time_in n xs = 0"
  unfolding time_in_def by (rule sum_list_zero) auto

lemma emplace_state_inv:
  assumes "slicer_inv T s" "emplace_state st p s = (i, s1)"
  shows "slicer_inv T s1 \<and> i < length (sl_states s1) \<and> sl_active s1 = sl_active s \<and> sl_slices s1 = sl_slices s
    \<and> sl_stats s1 = sl_stats s \<and> sl_events s1 = sl_events s"
proof (cases "find_state s st")
  case (Some j)
  then have "s1 = s\<lparr>sl_next_id := sl_next_id s + 1\<rparr>" "i = j" using assms(2) by (auto simp: emplace_state_def)
  moreover have "slicer_inv T (s\<lparr>sl_next_id := sl_next_id s + 1\<rparr>)"
    using assms(1) by (rule slicer_inv_frame) (auto dest: dormant_less [OF assms(1)])
  ultimately show ?thesis using find_state_less [OF Some] by simp
next
  case None
  define ss where "ss = \<lparr>ss_id = sl_next_id s, ss_parent = p, ss_stack = st, ss_cum_active_time = 0,
      ss_num_swins = 0, ss_num_swouts = 0, ss_last_swin = replicate (length (sl_slices s)) no_swin\<rparr>"
  have s1: "s1 = s\<lparr>sl_states := sl_states s @ [ss], sl_next_id := sl_next_id s + 1\<rparr>" and i: "i = length (sl_states s)"
    using assms(2) None by (auto simp: emplace_state_def ss_def)
  have inv: "groups_ok T s" "ids_ok s" "times_ok s" using assms(1) by (auto simp: slicer_inv_def)
  note d = groups_okD [OF inv(1)]
  have "groups_ok T s1"
    unfolding groups_ok_def
    using d by (auto simp: s1 nth_append ss_def no_swin_def less_Suc_eq)
  moreover have "ids_ok s1"
    using inv(2) by (auto simp: ids_ok_def s1 nth_append ss_def less_Suc_eq)
  moreover have "time_in (sl_next_id s) (concat (sl_slices s)) = 0"
    using inv(2) by (intro time_in_fresh) (simp add: ids_ok_def)
  then have "times_ok s1"
    using inv(3) by (auto simp: times_ok_def s1 nth_append ss_def less_Suc_eq)
  moreover have "order_ok T s1" if "n_out_of_order (sl_stats s) = 0"
    using assms(1) that d(3) by (auto simp: slicer_inv_def order_ok_def s1 nth_append)
  ultimately have "slicer_inv T s1" by (simp add: slicer_inv_def s1)
  then show ?thesis by (simp add: s1 i)
qed

text \<open>The result of an operation on a state with the invariant: undefined behaviour, or a state with the
  invariant in which the groups, the slices and the counters are as before.\<close>

definition keeps :: "nat \<Rightarrow> slicer \<Rightarrow> slicer \<Rightarrow> bool" where
  "keeps T s s1 \<longleftrightarrow> slicer_inv T s1 \<and> length (sl_active s1) = length (sl_active s)
     \<and> sl_events s1 = sl_events s \<and> n_out_of_order (sl_stats s1) = n_out_of_order (sl_stats s)"

lemma createStackState_inv:
  assumes "slicer_inv T s"
  shows "createStackState st s = Inl Undefined_Behaviour \<or>
    (\<exists>i s1. createStackState st s = Inr (i, s1) \<and> keeps T s s1 \<and> i < length (sl_states s1)
      \<and> sl_active s1 = sl_active s)"
  using assms
proof (induction "length (st_tags st)" arbitrary: st)
  case 0
  obtain i s1 where e: "emplace_state st kInvalidTagStackId s = (i, s1)" by (metis prod.exhaust)
  from emplace_state_inv [OF 0(2) e] e 0 show ?case
    by (auto simp: createStackState.simps [of st] keeps_def)
next
  case (Suc n)
  let ?parent = "\<lparr>st_tags = butlast (st_tags st), st_known = st_known st, st_rest = None\<rparr>"
  have ne: "st_tags st \<noteq> []" using Suc.hyps(2) by auto
  consider "length (st_tags st) > kMaxNumLevels + 1"
    | p where "\<not> length (st_tags st) > kMaxNumLevels + 1" "find_state s ?parent = Some p"
    | "\<not> length (st_tags st) > kMaxNumLevels + 1" "find_state s ?parent = None"
    by (cases "find_state s ?parent") auto
  then show ?case
  proof cases
    case 1
    with ne show ?thesis by (simp add: createStackState.simps [of st])
  next
    case 2
    obtain i s1 where e: "emplace_state st (ss_id (sl_states s ! p)) s = (i, s1)" by (metis prod.exhaust)
    from emplace_state_inv [OF Suc.prems e] e 2 ne show ?thesis
      by (simp add: createStackState.simps [of st] keeps_def)
  next
    case 3
    have "n = length (st_tags ?parent)" using Suc.hyps(2) by simp
    from Suc.hyps(1) [OF this Suc.prems] show ?thesis
    proof
      assume "createStackState ?parent s = Inl Undefined_Behaviour"
      with 3 ne show ?thesis by (simp add: createStackState.simps [of st])
    next
      assume "\<exists>i s1. createStackState ?parent s = Inr (i, s1) \<and> keeps T s s1 \<and> i < length (sl_states s1)
        \<and> sl_active s1 = sl_active s"
      then obtain p s1 where p: "createStackState ?parent s = Inr (p, s1)" "keeps T s s1" "sl_active s1 = sl_active s"
        by blast
      obtain i s2 where e: "emplace_state st (ss_id (sl_states s1 ! p)) s1 = (i, s2)" by (metis prod.exhaust)
      have "slicer_inv T s1" using p(2) by (simp add: keeps_def)
      from emplace_state_inv [OF this e] e p 3 ne show ?thesis
        by (simp add: createStackState.simps [of st] keeps_def)
    qed
  qed
qed

text \<open>Once the group is free, every way of activating a stack succeeds or is undefined.\<close>

lemma activate_keeps:
  assumes "slicer_inv T s" "g < length (sl_active s)" "sl_active s ! g = None" "i < length (sl_states s)"
    and "T \<noteq> kInvalidTimeStamp"
  shows "\<exists>s1. activateStackState g i T ty s = Inr s1 \<and> keeps T s s1"
proof -
  obtain s1 where "activateStackState g i T ty s = Inr s1" "slicer_inv T s1"
      "length (sl_active s1) = length (sl_active s)" "sl_stats s1 = sl_stats s" "sl_events s1 = sl_events s"
    using activateStackState_inv [OF assms] by blast
  then show ?thesis by (simp add: keeps_def)
qed

lemma unlink_frame [simp]: "sl_active (unlink i s) = sl_active s" "sl_states (unlink i s) = sl_states s"
  "sl_events (unlink i s) = sl_events s" "sl_stats (unlink i s) = sl_stats s"
  by (auto simp: unlink_def split: list.splits)

lemma exact_match_keeps:
  assumes "slicer_inv T s" "g < length (sl_active s)" "sl_active s ! g = None" "T \<noteq> kInvalidTimeStamp"
  shows "activateStackStateExactMatch g st T ty s = Inl Undefined_Behaviour \<or>
    (\<exists>s1. activateStackStateExactMatch g st T ty s = Inr s1 \<and> keeps T s s1)"
proof (cases "find_state s st")
  case None
  from createStackState_inv [OF assms(1), of st] show ?thesis
  proof (elim disjE exE conjE)
    fix i s1 assume c: "createStackState st s = Inr (i, s1)" "keeps T s s1" "i < length (sl_states s1)" "sl_active s1 = sl_active s"
    have "\<exists>s2. activateStackState g i T ty s1 = Inr s2 \<and> keeps T s1 s2"
      using c assms by (intro activate_keeps) (auto simp: keeps_def)
    with c None show ?thesis by (auto simp: activateStackStateExactMatch_def keeps_def)
  qed (simp add: None activateStackStateExactMatch_def)
next
  case (Some i)
  let ?s = "if is_linked s i then unlink i s else s"
  have "\<exists>s2. activateStackState g i T ty ?s = Inr s2 \<and> keeps T ?s s2"
    using assms find_state_less [OF Some] unlink_inv [OF assms(1)] by (intro activate_keeps) auto
  with Some show ?thesis by (auto simp: activateStackStateExactMatch_def keeps_def split: if_splits)
qed

lemma that_contains_keeps:
  assumes "slicer_inv T s" "g < length (sl_active s)" "sl_active s ! g = None" "T \<noteq> kInvalidTimeStamp"
    and "\<not> isAliased tid0 st"
  shows "activateStackStateThatContains tid0 g st n T ty s = Inl Undefined_Behaviour \<or>
    (\<exists>s1. activateStackStateThatContains tid0 g st n T ty s = Inr s1 \<and> keeps T s s1)"
proof -
  have ne: "st_tags st \<noteq> []" using assms(5) by (auto simp: isAliased_def)
  let ?f = "find (\<lambda>i. stack_contains (ss_stack (sl_states s ! i)) st n) (sl_dormant s (hd (st_tags st)))"
  show ?thesis
  proof (cases ?f)
    case None
    with assms ne exact_match_keeps [OF assms(1-4), of "st\<lparr>st_known := False\<rparr>"] show ?thesis
      by (simp add: activateStackStateThatContains_def)
  next
    case (Some i)
    then have "i < length (sl_states s)"
      by (auto simp: find_Some_iff intro: dormant_less [OF assms(1)] nth_mem)
    then have "\<exists>s2. activateStackState g i T ty (unlink i s) = Inr s2 \<and> keeps T (unlink i s) s2"
      using assms unlink_inv [OF assms(1)] by (intro activate_keeps) auto
    with Some assms(5) ne show ?thesis by (auto simp: activateStackStateThatContains_def keeps_def)
  qed
qed

section \<open>Events\<close>

lemma resetState_parts:
  assumes "slicer_inv T s"
  shows "groups_ok T' (resetState s)" "ids_ok (resetState s)" "times_ok (resetState s)"
    and "n_out_of_order (sl_stats s) = 0 \<Longrightarrow> order_ok T (resetState s)"
proof -
  have inv: "groups_ok T s" "ids_ok s" "times_ok s" using assms by (auto simp: slicer_inv_def)
  show "groups_ok T' (resetState s)"
    using inv(1) by (auto simp: groups_ok_def resetState_def restart_def no_swin_def)
  show "ids_ok (resetState s)"
    using inv(2) by (auto simp: ids_ok_def resetState_def restart_def)
  have r: "ss_num_swouts (restart ss) = ss_num_swouts ss" "ss_id (restart ss) = ss_id ss"
    "ss_cum_active_time (restart ss) = ss_cum_active_time ss" for ss
    by (simp_all add: restart_def)
  show "times_ok (resetState s)"
    using inv(3) by (simp add: times_ok_def resetState_def comp_def r)
  show "order_ok T (resetState s)" if "n_out_of_order (sl_stats s) = 0"
    using assms that by (auto simp: slicer_inv_def order_ok_def resetState_def)
qed

lemma resetState_inv: "slicer_inv T s \<Longrightarrow> slicer_inv T (resetState s)"
  using resetState_parts [of T s] by (simp add: slicer_inv_def) (simp add: resetState_def)

text \<open>An event that has been dealt with: the invariant at its time stamp, which is the last one seen.\<close>

definition handled :: "event \<Rightarrow> slicer \<Rightarrow> slicer \<Rightarrow> bool" where
  "handled ev s s1 \<longleftrightarrow> slicer_inv (ev_tstamp ev) s1 \<and> sl_last_ts s1 = ev_tstamp ev
     \<and> length (sl_active s1) = length (sl_active s) \<and> sl_events s1 = tl (sl_events s)
     \<and> n_out_of_order (sl_stats s1) = n_out_of_order (sl_stats s)"

lemma handled_finish:
  assumes "keeps (ev_tstamp ev) s s1"
  shows "handled ev s (finish_event ev s1)"
  using assms finish_event_inv [of "ev_tstamp ev" s1 ev]
  by (simp add: handled_def keeps_def) (simp add: finish_event_def count_def)

lemma handled_frame:
  assumes "handled ev s s1" "sl_slices s2 = sl_slices s1" "sl_active s2 = sl_active s1" "sl_states s2 = sl_states s1"
    and "sl_next_id s2 = sl_next_id s1" "sl_dormant s2 = sl_dormant s1" "sl_last_ts s2 = sl_last_ts s1"
    and "sl_events s2 = sl_events s1" "n_slices_completed (sl_stats s2) = n_slices_completed (sl_stats s1)"
    and "n_out_of_order (sl_stats s2) = n_out_of_order (sl_stats s1)"
  shows "handled ev s s2"
  using assms slicer_inv_frame [of "ev_tstamp ev" s1 s2] dormant_less [of "ev_tstamp ev" s1]
  by (auto simp: handled_def)

lemma handled_reset: "handled ev s s1 \<Longrightarrow> handled ev s (resetState s1)"
  using resetState_inv [of "ev_tstamp ev" s1] by (simp add: handled_def) (simp add: resetState_def)

lemma keeps_refl: "slicer_inv T s \<Longrightarrow> keeps T s s"
  by (simp add: keeps_def)

lemma keeps_trans: "keeps T s s1 \<Longrightarrow> keeps T s1 s2 \<Longrightarrow> keeps T s s2"
  by (simp add: keeps_def)

lemma push_dormant_keeps:
  assumes "slicer_inv T s" "i < length (sl_states s)"
  shows "push_dormant i s = Inl Undefined_Behaviour \<or>
    (\<exists>s1. push_dormant i s = Inr s1 \<and> keeps T s s1 \<and> sl_active s1 = sl_active s)"
proof -
  obtain r where r: "push_dormant i s = r" by blast
  then show ?thesis
  proof (cases rule: push_dormant_cases)
    case 1
    with r show ?thesis by simp
  next
    case (2 s1)
    have p: "push_dormant i s = Inr s1" using r 2(1) by (rule trans)
    have "keeps T s s1" using push_dormant_inv [OF assms p] 2(2-) unfolding keeps_def by metis
    with p 2(2) show ?thesis by blast
  qed
qed

lemma handleWriteErrors_handled:
  assumes "slicer_inv (ev_tstamp ev) s" "handleWriteErrors ev s = (True, s1)"
  shows "handled ev s s1"
proof -
  note f = handled_finish [OF keeps_refl [OF assms(1)]]
  have c: "handled ev s (count g (finish_event ev s))"
    if "\<And>st. n_slices_completed (g st) = n_slices_completed st" "\<And>st. n_out_of_order (g st) = n_out_of_order st" for g
    by (rule handled_frame [OF f]) (simp_all add: count_def that)
  consider "ev_type ev = WriteErrorsEnd" | "ev_type ev = WriteErrorsStart"
    | "ev_type ev \<noteq> WriteErrorsEnd" "ev_type ev \<noteq> WriteErrorsStart" by blast
  then show ?thesis
  proof cases
    case 1
    with assms(2) have "s1 = (count (\<lambda>st. st\<lparr>n_error_end := n_error_end st + 1\<rparr>) (finish_event ev s))
        \<lparr>sl_write_errors := sl_write_errors s - 1\<rparr>" by (simp add: handleWriteErrors_def)
    moreover have "handled ev s (count (\<lambda>st. st\<lparr>n_error_end := n_error_end st + 1\<rparr>) (finish_event ev s))"
      by (rule c) simp_all
    ultimately show ?thesis by (auto elim: handled_frame)
  next
    case 2
    with assms(2) have "s1 = (resetState (count (\<lambda>st. st\<lparr>n_error_start := n_error_start st + 1\<rparr>) (finish_event ev s)))
        \<lparr>sl_write_errors := sl_write_errors s + 1\<rparr>" by (simp add: handleWriteErrors_def)
    moreover have h: "handled ev s (resetState (count (\<lambda>st. st\<lparr>n_error_start := n_error_start st + 1\<rparr>) (finish_event ev s)))"
      by (rule handled_reset, rule c) simp_all
    ultimately show ?thesis
      by (simp only:) (rule handled_frame [OF h], simp_all)
  next
    case 3
    with assms(2) have "s1 = count (\<lambda>st. st\<lparr>n_dropped := n_dropped st + 1\<rparr>) (finish_event ev s)"
      by (auto simp: handleWriteErrors_def split: if_splits)
    then show ?thesis by (simp only:) (rule c, simp_all)
  qed
qed

lemma creation_handled:
  assumes "slicer_inv (ev_tstamp ev) s"
  shows "rbind (createStackState st s) (\<lambda>(i, s1). rbind (push_dormant i s1) (\<lambda>s2. Inr (True, finish_event ev s2)))
      = Inl Undefined_Behaviour
    \<or> (\<exists>s1. rbind (createStackState st s) (\<lambda>(i, s1). rbind (push_dormant i s1) (\<lambda>s2. Inr (True, finish_event ev s2)))
      = Inr (True, s1) \<and> handled ev s s1)"
  using createStackState_inv [OF assms, of st]
proof (elim disjE exE conjE)
  fix i s1
  assume k: "createStackState st s = Inr (i, s1)" "keeps (ev_tstamp ev) s s1" "i < length (sl_states s1)"
  have "slicer_inv (ev_tstamp ev) s1" using k(2) by (simp add: keeps_def)
  from push_dormant_keeps [OF this k(3)] show ?thesis
  proof (elim disjE exE conjE)
    fix s2 assume "push_dormant i s1 = Inr s2" "keeps (ev_tstamp ev) s1 s2"
    with handled_finish [OF keeps_trans [OF k(2) this(2)]] k(1) show ?thesis by simp
  qed (simp add: k(1))
qed simp

lemma handleThreadLifetime_handled:
  assumes "slicer_inv (ev_tstamp ev) s"
  shows "handleThreadLifetime ev s = Inl Undefined_Behaviour
    \<or> handleThreadLifetime ev s = Inr (False, s) \<and> \<not> isThreadLifetime ev
    \<or> (\<exists>s1. handleThreadLifetime ev s = Inr (True, s1) \<and> handled ev s s1)"
proof -
  note f = handled_finish [OF keeps_refl [OF assms]]
  have c: "handled ev s (count (\<lambda>st. st\<lparr>n_dropped := n_dropped st + 1, n_logic_errors := n_logic_errors st + 1\<rparr>) (finish_event ev s))"
    by (rule handled_frame [OF f]) (simp_all add: count_def)
  show ?thesis
    unfolding handleThreadLifetime_def
    using c f creation_handled [OF assms, of "thread_stack (ev_tag ev)"] by (simp only: if_True if_False split: if_split) blast
qed

text \<open>The active stack of the group becomes dormant and its slice ends: the group is free.\<close>

lemma end_slice_keeps:
  assumes "keeps T s s1" "sl_active s1 = sl_active s" "g < length (sl_active s)" "sl_active s ! g = Some i"
    and "T \<noteq> kInvalidTimeStamp"
  shows "\<exists>s2. end_slice g T ty s1 = Inr s2 \<and> keeps T s s2 \<and> sl_active s2 ! g = None"
proof -
  have "slicer_inv T s1" "g < length (sl_active s1)" "sl_active s1 ! g = Some i"
    using assms by (auto simp: keeps_def)
  from end_slice_inv [OF this assms(5), of ty] obtain s2 where s2: "end_slice g T ty s1 = Inr s2" "slicer_inv T s2"
      "sl_active s2 = (sl_active s1)[g := None]" "sl_events s2 = sl_events s1"
      "n_out_of_order (sl_stats s2) = n_out_of_order (sl_stats s1)"
    by blast
  then have "keeps T s s2" "sl_active s2 ! g = None" using assms by (simp_all add: keeps_def)
  with s2(1) show ?thesis by blast
qed

lemma handleLastState_split:
  assumes "sl_active s ! ev_comp ev = Some i"
  shows "handleLastState tid0 ev ty s =
      rbind (if isAliased tid0 (ss_stack (sl_states s ! i)) then Inr s else push_dormant i s)
        (end_slice (ev_comp ev) (ev_tstamp ev) ty)"
  by (simp add: handleLastState_def assms end_slice_def [abs_def])

lemma active_less: "slicer_inv T s \<Longrightarrow> g < length (sl_active s) \<Longrightarrow> sl_active s ! g = Some i \<Longrightarrow> i < length (sl_states s)"
  using groups_okD(3) [of T s g i] by (simp add: slicer_inv_def)

lemma handleLastState_frees:
  assumes "slicer_inv (ev_tstamp ev) s" "ev_comp ev < length (sl_active s)" "ev_tstamp ev \<noteq> kInvalidTimeStamp"
  shows "handleLastState tid0 ev ty s = Inl Undefined_Behaviour \<or>
    (\<exists>s1. handleLastState tid0 ev ty s = Inr s1 \<and> keeps (ev_tstamp ev) s s1 \<and> sl_active s1 ! ev_comp ev = None)"
proof (cases "sl_active s ! ev_comp ev")
  case None
  then show ?thesis using keeps_refl [OF assms(1)] by (simp add: handleLastState_def)
next
  case (Some i)
  note ends = end_slice_keeps [OF _ _ assms(2) Some assms(3), of _ ty] and split = handleLastState_split [OF Some, of tid0 ty]
  show ?thesis
  proof (cases "isAliased tid0 (ss_stack (sl_states s ! i))")
    case True
    with ends [OF keeps_refl [OF assms(1)]] split show ?thesis by auto
  next
    case False
    with push_dormant_keeps [OF assms(1) active_less [OF assms(1,2) Some]] ends split show ?thesis by auto
  qed
qed

text \<open>What an operation may give: undefined behaviour, or the event dealt with.\<close>

definition deals :: "event \<Rightarrow> slicer \<Rightarrow> slicer result \<Rightarrow> bool" where
  "deals ev s r \<longleftrightarrow> r = Inl Undefined_Behaviour \<or> (\<exists>s1. r = Inr s1 \<and> handled ev s s1)"

lemma deals_bind:
  assumes "r = Inl Undefined_Behaviour \<or> (\<exists>s1. r = Inr s1 \<and> keeps (ev_tstamp ev) s s1)"
    and "\<And>s1. r = Inr s1 \<Longrightarrow> keeps (ev_tstamp ev) s s1 \<Longrightarrow> deals ev s (f s1)"
  shows "deals ev s (rbind r f)"
  using assms by (auto simp: deals_def)

lemma deals_finish: "keeps (ev_tstamp ev) s s1 \<Longrightarrow> deals ev s (Inr (finish_event ev s1))"
  using handled_finish by (auto simp: deals_def)

lemma deals_keeps: "deals ev s1 r \<Longrightarrow> keeps (ev_tstamp ev) s s1 \<Longrightarrow> deals ev s r"
  by (auto simp: deals_def handled_def keeps_def)

lemma stack_result: "copyTruncated n k st = Inl e \<Longrightarrow> e = Undefined_Behaviour"
  "copyFillUpTo n t k st = Inl e \<Longrightarrow> e = Undefined_Behaviour"
  by (auto simp: copyTruncated_def copyFillUpTo_def first_slots_def split: if_splits option.splits)

lemma deals_stack:
  assumes "\<And>e. r = Inl e \<Longrightarrow> e = Undefined_Behaviour" "\<And>st. r = Inr st \<Longrightarrow> deals ev s (f st)"
  shows "deals ev s (rbind r f)"
  using assms by (cases r) (auto simp: deals_def)

lemma handle_out_deals:
  assumes "slicer_inv (ev_tstamp ev) s" "ev_comp ev < length (sl_active s)" "sl_active s ! ev_comp ev = None"
    and "ev_tstamp ev \<noteq> kInvalidTimeStamp"
  shows "deals ev s (handle_out ev ty st s)"
proof (cases "out_of_sync ev st")
  case True
  note f = handled_finish [OF keeps_refl [OF assms(1)]]
  have "handled ev s (count (\<lambda>st. st\<lparr>n_error_out_sync := n_error_out_sync st + 1\<rparr>) (finish_event ev s))"
    by (rule handled_frame [OF f]) (simp_all add: count_def)
  from handled_reset [OF this] True show ?thesis by (simp add: handle_out_def deals_def)
next
  case False
  have "deals ev s (rbind (activateStackStateExactMatch (ev_comp ev) st' (ev_tstamp ev) ty s) (\<lambda>s1. Inr (finish_event ev s1)))"
    for st'
    by (intro deals_bind deals_finish exact_match_keeps assms)
  with False show ?thesis
    by (simp add: handle_out_def) (rule deals_stack, simp_all add: stack_result)
qed

lemma handle_in_deals:
  assumes "slicer_inv (ev_tstamp ev) s" "ev_comp ev < length (sl_active s)" "sl_active s ! ev_comp ev = None"
    and "ev_tstamp ev \<noteq> kInvalidTimeStamp"
  shows "deals ev s (handle_in tid0 ev ty st s)"
proof (cases "already_active ev st")
  case True
  from handled_reset [OF handled_finish [OF keeps_refl [OF assms(1)]]] True show ?thesis
    by (simp add: handle_in_def deals_def)
next
  case False
  have "deals ev s (rbind (if isAliased tid0 b \<or> isPhase ev
          then activateStackStateExactMatch (ev_comp ev) b (ev_tstamp ev) ty s
          else activateStackStateThatContains tid0 (ev_comp ev) b (ev_level ev + 1) (ev_tstamp ev) ty s)
          (\<lambda>s1. Inr (finish_event ev s1)))" for b
    by (cases "isAliased tid0 b \<or> isPhase ev")
      (simp_all, (intro deals_bind deals_finish exact_match_keeps that_contains_keeps assms; simp)+)
  with False show ?thesis
    unfolding handle_in_def by (simp only: if_False) (rule deals_stack, erule stack_result)
qed

lemma transition_type: "isSwitch ev \<or> isPhase ev \<Longrightarrow> \<exists>ty. eventToTransitionType ev = Inr ty"
  by (auto simp: isSwitch_def isSwitchOut_def isPhase_def eventToTransitionType_def)

lemma handle_transition_deals:
  assumes "slicer_inv (ev_tstamp ev) s" "ev_comp ev < length (sl_active s)" "ev_tstamp ev \<noteq> kInvalidTimeStamp"
    and "isSwitch ev \<or> isPhase ev"
  shows "deals ev s (handle_transition tid0 ev s)"
proof -
  obtain ty where ty: "eventToTransitionType ev = Inr ty" using transition_type [OF assms(4)] by blast
  have "deals ev s (if isOut ev then handle_out ev ty st s1 else handle_in tid0 ev ty st s1)"
    if "keeps (ev_tstamp ev) s s1" "sl_active s1 ! ev_comp ev = None" for s1 st
  proof -
    have "slicer_inv (ev_tstamp ev) s1" "ev_comp ev < length (sl_active s1)"
      using that(1) assms(2) by (simp_all add: keeps_def)
    from handle_out_deals [OF this that(2) assms(3)] handle_in_deals [OF this that(2) assms(3)]
    show ?thesis using deals_keeps [OF _ that(1)] by simp
  qed
  with handleLastState_frees [OF assms(1-3), of tid0 ty] show ?thesis
    unfolding handle_transition_def Let_def ty rbind_simps by (elim disjE exE conjE) (simp add: deals_def, simp)
qed

lemma process_event_deals:
  assumes "slicer_inv (ev_tstamp ev) s" "ev_comp ev < length (sl_active s)" "ev_tstamp ev \<noteq> kInvalidTimeStamp"
  shows "deals ev s (process_event tid0 ev s)"
proof (cases "handleWriteErrors ev s")
  case (Pair b s1)
  show ?thesis
  proof (cases b)
    case True
    with Pair handleWriteErrors_handled [OF assms(1)] show ?thesis by (simp add: process_event_def deals_def)
  next
    case False
    with Pair have s1: "s1 = s" and ty: "ev_type ev \<noteq> WriteErrorsEnd" "ev_type ev \<noteq> WriteErrorsStart"
      by (auto simp: handleWriteErrors_def split: if_splits)
    from ty have k: "isThreadLifetime ev \<or> isSwitch ev \<or> isPhase ev"
      by (cases "ev_type ev") (auto simp: isThreadLifetime_def isSwitch_def isSwitchOut_def isPhase_def)
    from handleThreadLifetime_handled [OF assms(1)] show ?thesis
    proof (elim disjE exE conjE)
      assume "handleThreadLifetime ev s = Inr (False, s)" "\<not> isThreadLifetime ev"
      with Pair False s1 k handle_transition_deals [OF assms] show ?thesis by (simp add: process_event_def)
    qed (use Pair False s1 k in \<open>simp_all add: process_event_def deals_def\<close>)
  qed
qed

section \<open>Batches\<close>

lemma out_of_order_inv:
  assumes "slicer_inv T s"
  shows "slicer_inv (ev_tstamp ev) (out_of_order ev s)"
proof -
  let ?s = "count (\<lambda>st. st\<lparr>n_out_of_order := n_out_of_order st + 1\<rparr>) s"
  have "slicer_inv T ?s"
    using assms by (rule slicer_inv_frame) (auto simp: count_def dest: dormant_less [OF assms])
  note p = resetState_parts(1) [OF this, of "ev_tstamp ev"] resetState_parts(2,3) [OF this]
  have "n_out_of_order (sl_stats (out_of_order ev s)) \<noteq> 0"
    by (simp add: out_of_order_def resetState_def count_def)
  with p show ?thesis
    unfolding slicer_inv_def by (simp add: out_of_order_def groups_ok_def ids_ok_def times_ok_def)
qed

definition stream_ok :: "slicer \<Rightarrow> bool" where
  "stream_ok s \<longleftrightarrow> slicer_inv (sl_last_ts s) s
     \<and> (\<forall>e \<in> set (sl_events s). event_isValid e \<and> ev_comp e < length (sl_active s))"

lemma prepareNext_Some: "prepareNext stop s = Some ev \<longleftrightarrow> (\<exists>es. sl_events s = ev # es) \<and> ev_tstamp ev \<le> stop"
  by (auto simp: prepareNext_def split: list.splits if_splits)

lemma processNext_deals:
  assumes "stream_ok s"
  shows "processNext tid0 m stop s = Inl Undefined_Behaviour \<or>
    (\<exists>k s1. processNext tid0 m stop s = Inr (k, s1) \<and> stream_ok s1 \<and> length (sl_active s1) = length (sl_active s)
      \<and> k \<le> m \<and> sl_events s1 = drop k (sl_events s) \<and> (k = m \<or> prepareNext stop s1 = None))"
  using assms
proof (induction tid0 m stop s rule: processNext.induct)
  case (1 tid0 m stop s)
  show ?case
  proof (cases "m = 0 \<or> prepareNext stop s = None")
    case True
    with 1(3) show ?thesis by (auto simp: processNext.simps [of tid0 m])
  next
    case False
    then obtain ev es where m: "m \<noteq> 0" and ev: "prepareNext stop s = Some ev" "sl_events s = ev # es"
      using prepareNext_Some by fastforce
    have valid: "ev_tstamp ev \<noteq> kInvalidTimeStamp" "ev_comp ev < length (sl_active s)" "ev_comp ev < length (sl_slices s)"
      and inv: "slicer_inv (sl_last_ts s) s"
      using 1(3) ev(2) by (auto simp: stream_ok_def event_isValid_def slicer_inv_def groups_ok_def)
    note comp = valid(2,3)
    show ?thesis
    proof (cases "ev_tstamp ev < sl_last_ts s")
      case True
      have "stream_ok (out_of_order ev s)"
        using 1(3) out_of_order_inv [OF inv, of ev]
        by (auto simp: stream_ok_def) (auto simp: out_of_order_def resetState_def count_def)
      from 1(1) [OF m ev(1) _ True this] comp m ev(1) True show ?thesis
        by (simp add: processNext.simps [of tid0 m] out_of_order_def resetState_def count_def)
    next
      case False
      then have "slicer_inv (ev_tstamp ev) s" using inv by (intro slicer_inv_mono [OF inv]) simp
      from process_event_deals [OF this valid(2,1), of tid0] consider "process_event tid0 ev s = Inl Undefined_Behaviour"
        | s1 where "process_event tid0 ev s = Inr s1" "handled ev s s1" by (auto simp: deals_def)
      then show ?thesis
      proof cases
        case 1
        with m ev(1) comp False show ?thesis by (simp add: processNext.simps [of tid0 m])
      next
        case (2 s1)
        have "stream_ok s1"
          using 2(2) \<open>stream_ok s\<close> ev(2) by (auto simp: stream_ok_def handled_def)
        from 1(2) [OF m ev(1) _ False this] comp
        have "processNext tid0 (m - 1) stop s1 = Inl Undefined_Behaviour \<or>
          (\<exists>k s2. processNext tid0 (m - 1) stop s1 = Inr (k, s2) \<and> stream_ok s2 \<and> length (sl_active s2) = length (sl_active s1)
            \<and> k \<le> m - 1 \<and> sl_events s2 = drop k (sl_events s1) \<and> (k = m - 1 \<or> prepareNext stop s2 = None))" by simp
        with m ev comp False 2 show ?thesis
          by (elim disjE exE conjE) (simp_all add: processNext.simps [of tid0 m] handled_def drop_Cons')
      qed
    qed
  qed
qed

end
