(* ===== verification/SlicerClaims.thy ===== *)
theory SlicerClaims
  imports SlicerProofs
begin

text \<open>
  What the slicer promises to its user, over sessions: batches of events that arrive, each followed by
  one call of \<^term>\<open>processNext\<close>.
\<close>

lemmas event_run = makeStart_def makeEnd_def makeThreadCreation_def makeThreadDestruction_def makeSwitchIn_def
  makeSwitchOutPreempt_def makeSwitchOutYield_def makeWriteErrorsStart_def makeWriteErrorsEnd_def
  kInvalidTimeStamp_def kInvalidLevel_def kNA_def kMaxNumLevels_def isThreadLifetime_def isSwitchOut_def
  isSwitch_def isPhase_def isOut_def isIn_def

lemmas stack_run = empty_stack_def na_stack_def thread_stack_def first_slots_def copyTruncated_def
  copyFillUpTo_def stack_contains_def stack_eq_def hasNAs_iff

lemmas slicer_run = event_run stack_run make_slicer_def zero_stats_def no_swin_def markSwitchIn_def markSwitchOut_def
  restart_def isAliased_def find_state_def is_linked_def unlink_def push_dormant_def activateStackState_def
  completeSlice_def emplace_state_def createStackState.simps activateStackStateExactMatch_def
  activateStackStateThatContains_def resetState_def prepareNext_def count_def finish_event_def
  handleWriteErrors_def handleThreadLifetime_def handleLastState_def eventToTransitionType_def out_of_sync_def
  already_active_def get_last_stack_def handle_out_def handle_in_def handle_transition_def process_event_def
  out_of_order_def processNext.simps kInvalidTagStackId_def Let_def upt_rec nth_Cons'

section \<open>Sessions\<close>

fun slicer_session :: "bool \<Rightarrow> (event list \<times> nat \<times> nat) list \<Rightarrow> slicer \<Rightarrow> slicer result" where
  "slicer_session tid0 [] s = Inr s"
| "slicer_session tid0 ((events, max_num_events, stop_ts) # calls) s =
     rbind (processNext tid0 max_num_events stop_ts (s\<lparr>sl_events := sl_events s @ events\<rparr>))
       (\<lambda>(_, s1). slicer_session tid0 calls s1)"

definition session_ok :: "nat \<Rightarrow> (event list \<times> nat \<times> nat) list \<Rightarrow> bool" where
  "session_ok n calls \<longleftrightarrow> (\<forall>(events, _) \<in> set calls. \<forall>e \<in> set events. event_isValid e \<and> ev_comp e < n)"

lemma stream_ok_feed:
  assumes "stream_ok s" "\<forall>e \<in> set events. event_isValid e \<and> ev_comp e < length (sl_active s)"
  shows "stream_ok (s\<lparr>sl_events := sl_events s @ events\<rparr>)"
proof -
  have inv: "slicer_inv (sl_last_ts s) s" using assms(1) by (simp add: stream_ok_def)
  have "slicer_inv (sl_last_ts s) (s\<lparr>sl_events := sl_events s @ events\<rparr>)"
    using inv by (rule slicer_inv_frame) (auto dest: dormant_less [OF inv])
  then show ?thesis using assms by (auto simp: stream_ok_def)
qed

lemma session_deals:
  assumes "stream_ok s" "session_ok (length (sl_active s)) calls"
  shows "slicer_session tid0 calls s = Inl Undefined_Behaviour \<or>
    (\<exists>s1. slicer_session tid0 calls s = Inr s1 \<and> stream_ok s1 \<and> length (sl_active s1) = length (sl_active s))"
  using assms
proof (induction calls arbitrary: s)
  case (Cons call calls)
  obtain events m stop where call: "call = (events, m, stop)" by (cases call) auto
  let ?s = "s\<lparr>sl_events := sl_events s @ events\<rparr>"
  have "stream_ok ?s" using Cons.prems by (intro stream_ok_feed) (auto simp: session_ok_def call)
  from processNext_deals [OF this, of tid0 m stop] consider "processNext tid0 m stop ?s = Inl Undefined_Behaviour"
    | k s1 where "processNext tid0 m stop ?s = Inr (k, s1)" "stream_ok s1" "length (sl_active s1) = length (sl_active ?s)"
    by blast
  then show ?case
  proof cases
    case 1
    then show ?thesis by (simp add: call)
  next
    case (2 k s1)
    have "session_ok (length (sl_active s1)) calls"
      using Cons.prems(2) 2(3) by (auto simp: session_ok_def)
    from Cons.IH [OF 2(2) this] 2(1,3) show ?thesis by (simp add: call)
  qed
qed simp

lemma make_slicer_ok: "make_slicer [] n = Inr s \<Longrightarrow> stream_ok s \<and> length (sl_active s) = n"
  by (auto simp: make_slicer_def stream_ok_def slicer_inv_def groups_ok_def ids_ok_def times_ok_def order_ok_def
      in_sequence_def time_in_def zero_stats_def split: if_splits)

lemma session_result:
  assumes "make_slicer [] n = Inr s0" "session_ok n calls" "slicer_session tid0 calls s0 = Inr s"
  shows "slicer_inv (sl_last_ts s) s \<and> length (sl_active s) = n"
  using session_deals [of s0 calls tid0] make_slicer_ok [OF assms(1)] assms(2,3) by (auto simp: stream_ok_def)

lemma slices_in_order_group:
  assumes "make_slicer [] n = Inr s0" "session_ok n calls" "slicer_session tid0 calls s0 = Inr s"
    and "n_out_of_order (sl_stats s) = 0" "g < n"
  shows "in_sequence (sl_slices s ! g)
    \<and> list_all (\<lambda>sl. 0 < sc_duration sl \<and> tstampEnd sl \<le> sl_last_ts s) (sl_slices s ! g)"
  using session_result [OF assms(1-3)] assms(4,5) by (simp add: slicer_inv_def order_ok_def list_all_iff)

section \<open>Properties\<close>

text \<open>C19: For every session of valid events that name a compute unit of the slicer, in any order of time
  and of any kind, no check of an argument and no assertion of the slicer fails and no access is out of
  range: the session either runs through, or comes to undefined behaviour (a state linked twice, or a
  tag that was never set is read), after which nothing is claimed; a check never throws.\<close>

theorem slicer_never_throws:
  assumes "make_slicer [] n = Inr s0" "session_ok n calls"
  shows "slicer_session tid0 calls s0 = Inl Undefined_Behaviour
    \<or> (\<exists>s. slicer_session tid0 calls s0 = Inr s \<and> length (sl_active s) = n)"
  using session_deals [of s0 calls tid0] make_slicer_ok [OF assms(1)] assms(2) by auto

definition two_switches :: "(event list \<times> nat \<times> nat) list" where
  "two_switches = [([makeSwitchIn 10 0 7 0, makeSwitchOutYield 25 0 0], 10, 100), ([makeSwitchIn 20 0 7 0], 10, 100)]"

theorem slicer_never_throws_witness:
  "slicer_session True two_switches (projr (make_slicer [] 2)) = Inl Undefined_Behaviour
    \<or> (\<exists>s. slicer_session True two_switches (projr (make_slicer [] 2)) = Inr s \<and> length (sl_active s) = 2)"
  by (rule slicer_never_throws)
    (simp_all add: make_slicer_def two_switches_def session_ok_def event_isValid_def makeSwitchIn_def
      makeSwitchOutYield_def kInvalidTimeStamp_def)

text \<open>C20: After every session that runs through, the time a tag stack is credited with is the sum of the
  durations of the slices written for it, on all compute units, modulo the 64 bits of the counter, and the
  number of completed slices is the number of times a stack was switched out: no active time is lost or
  counted twice, resets, write errors and out of order events included.\<close>

theorem slices_accounted:
  assumes "make_slicer [] n = Inr s0" "session_ok n calls" "slicer_session tid0 calls s0 = Inr s"
  shows "map ss_cum_active_time (sl_states s)
      = map (\<lambda>ss. time_in (ss_id ss) (concat (sl_slices s)) mod 2 ^ 64) (sl_states s)
    \<and> n_slices_completed (sl_stats s) = sum_list (map ss_num_swouts (sl_states s))"
  using session_result [OF assms] by (auto simp: slicer_inv_def times_ok_def in_set_conv_nth)

definition one_thread :: "(event list \<times> nat \<times> nat) list" where
  "one_thread = [([makeSwitchIn 10 0 7 0, makeSwitchIn 12 0 8 1, makeSwitchOutYield 25 0 0], 10, 100),
     ([makeSwitchOutPreempt 30 0 1, makeSwitchIn 31 0 7 1, makeSwitchOutYield 40 0 1], 10, 100)]"

lemma one_thread_ok: "session_ok 2 one_thread"
  by (simp add: one_thread_def session_ok_def event_isValid_def makeSwitchIn_def makeSwitchOutYield_def
      makeSwitchOutPreempt_def kInvalidTimeStamp_def)

abbreviation one_thread_end :: slicer where
  "one_thread_end \<equiv> projr (slicer_session True one_thread (projr (make_slicer [] 2)))"

lemma one_thread_runs: "slicer_session True one_thread (projr (make_slicer [] 2)) = Inr one_thread_end"
proof -
  have "\<not> isl (slicer_session True one_thread (projr (make_slicer [] 2)))"
    by (simp add: slicer_run one_thread_def)
  then show ?thesis by (simp add: isl_def)
qed

theorem slices_accounted_witness:
  "map ss_cum_active_time (sl_states one_thread_end)
      = map (\<lambda>ss. time_in (ss_id ss) (concat (sl_slices one_thread_end)) mod 2 ^ 64) (sl_states one_thread_end)
    \<and> n_slices_completed (sl_stats one_thread_end) = sum_list (map ss_num_swouts (sl_states one_thread_end))"
  by (rule slices_accounted [OF _ one_thread_ok one_thread_runs]) (simp add: make_slicer_def)

text \<open>C21: As long as no event came out of order, the slices written for a compute unit follow one another
  without overlap, each of a positive duration and none reaching past the time of the last event.\<close>

theorem slices_in_order:
  assumes "make_slicer [] n = Inr s0" "session_ok n calls" "slicer_session tid0 calls s0 = Inr s"
    and "n_out_of_order (sl_stats s) = 0" "g < n"
  shows "in_sequence (sl_slices s ! g)
    \<and> list_all (\<lambda>sl. 0 < sc_duration sl \<and> tstampEnd sl \<le> sl_last_ts s) (sl_slices s ! g)"
  by (rule slices_in_order_group [OF assms])

theorem slices_in_order_witness:
  "in_sequence (sl_slices one_thread_end ! 1)
    \<and> list_all (\<lambda>sl. 0 < sc_duration sl \<and> tstampEnd sl \<le> sl_last_ts one_thread_end) (sl_slices one_thread_end ! 1)"
proof (rule slices_in_order [OF _ one_thread_ok one_thread_runs])
  show "n_out_of_order (sl_stats one_thread_end) = 0" by (simp add: slicer_run one_thread_def)
qed (simp_all add: make_slicer_def)

text \<open>A call that returns has consumed exactly the number of events it reports, from the front of the
  stream and in their order; it reports fewer than asked for only when the stream has no event left up to
  the stop time.\<close>

theorem batch_consumes:
  assumes "make_slicer [] n = Inr s0" "session_ok n calls" "slicer_session tid0 calls s0 = Inr s"
    and "processNext tid0 m stop s = Inr (k, s1)"
  shows "k \<le> m \<and> sl_events s1 = drop k (sl_events s) \<and> (k = m \<or> prepareNext stop s1 = None)"
proof -
  have "stream_ok s"
    using session_deals [of s0 calls tid0] make_slicer_ok [OF assms(1)] assms(2,3) by auto
  from processNext_deals [OF this, of tid0 m stop] assms(4) show ?thesis by auto
qed

theorem batch_consumes_witness:
  "0 \<le> (5 :: nat) \<and> sl_events one_thread_end = drop 0 (sl_events one_thread_end)
    \<and> (0 = (5 :: nat) \<or> prepareNext 9 one_thread_end = None)"
proof (rule batch_consumes [OF _ one_thread_ok one_thread_runs])
  show "processNext True 5 9 one_thread_end = Inr (0, one_thread_end)" by (simp add: slicer_run one_thread_def)
qed (simp add: make_slicer_def)

text \<open>\<^verbatim>\<open>findSliceAt\<close> never finds a slice: both of its conditions leave out the slices that hold the time
  stamp.\<close>

lemma findSliceAt_never: "findSliceAt slices tstamp = None"
  by (auto simp: findSliceAt_def tstampEnd_def find_None_iff)

text \<open>A thread that is created twice with the same tag (a thread number used again) corrupts the list
  of dormant stacks: the state of the first thread is pushed while it is linked.\<close>

theorem double_creation_corrupts:
  assumes "t1 \<le> t2" "t2 \<le> stop" "event_isValid (makeThreadCreation t2 0 tag cu)" "cu < n"
  shows "rbind (make_slicer [makeThreadCreation t1 0 tag cu, makeThreadCreation t2 0 tag cu] n)
    (processNext tid0 (m + 2) stop) = Inl Undefined_Behaviour"
proof -
  have "t1 \<le> stop" using assms(1,2) by simp
  then show ?thesis using assms by (simp add: slicer_run)
qed

theorem double_creation_corrupts_witness:
  "rbind (make_slicer [makeThreadCreation 5 0 42 1, makeThreadCreation 9 0 42 1] 4)
    (processNext True (8 + 2) 100) = Inl Undefined_Behaviour"
  by (rule double_creation_corrupts) (simp_all add: event_isValid_def event_run)

lemma dropped_while_in_error:
  assumes "sl_write_errors s \<noteq> 0" "sl_events s = es" "sorted_wrt (\<lambda>e f. ev_tstamp e \<le> ev_tstamp f) es"
    and "\<forall>e \<in> set es. ev_type e \<noteq> WriteErrorsStart \<and> ev_type e \<noteq> WriteErrorsEnd \<and> sl_last_ts s \<le> ev_tstamp e
      \<and> ev_tstamp e \<le> stop \<and> ev_comp e < length (sl_active s) \<and> ev_comp e < length (sl_slices s)"
  shows "\<exists>s1. processNext tid0 (length es + m) stop s = Inr (length es, s1) \<and> sl_slices s1 = sl_slices s
    \<and> n_dropped (sl_stats s1) = n_dropped (sl_stats s) + length es"
  using assms
proof (induction es arbitrary: s)
  case Nil
  then show ?case by (simp add: processNext.simps [of tid0 m] prepareNext_def)
next
  case (Cons e es)
  define s1 where "s1 = count (\<lambda>st. st\<lparr>n_dropped := n_dropped st + 1\<rparr>) (finish_event e s)"
  have s1: "sl_write_errors s1 = sl_write_errors s" "sl_events s1 = es" "sl_last_ts s1 = ev_tstamp e"
      "sl_active s1 = sl_active s" "sl_slices s1 = sl_slices s" "n_dropped (sl_stats s1) = n_dropped (sl_stats s) + 1"
    using Cons.prems(2) by (simp_all add: s1_def count_def finish_event_def)
  have p: "process_event tid0 e s = Inr s1"
    using Cons.prems(1,4) by (simp add: process_event_def handleWriteErrors_def s1_def)
  have "prepareNext stop s = Some e" using Cons.prems(2,4) by (simp add: prepareNext_def)
  then have "processNext tid0 (length (e # es) + m) stop s =
      rbind (processNext tid0 (length es + m) stop s1) (\<lambda>(n, s2). Inr (n + 1, s2))"
    using Cons.prems(4) p by (simp add: processNext.simps [of tid0 "Suc (length es + m)"])
  moreover have "\<exists>s2. processNext tid0 (length es + m) stop s1 = Inr (length es, s2) \<and> sl_slices s2 = sl_slices s1
    \<and> n_dropped (sl_stats s2) = n_dropped (sl_stats s1) + length es"
    using Cons.prems s1 by (intro Cons.IH) simp_all
  ultimately show ?case using s1 by auto
qed

text \<open>An end of write errors that was not started wraps the number of active write errors around: every
  switch, phase and thread event after it is dropped and no slice is written, however many there are.\<close>

theorem stray_error_end_drops_all:
  assumes "make_slicer (makeWriteErrorsEnd t cu # es) n = Inr s0" "cu < n" "t \<le> stop"
    and "sorted_wrt (\<lambda>e f. ev_tstamp e \<le> ev_tstamp f) es"
    and "\<forall>e \<in> set es. ev_type e \<noteq> WriteErrorsStart \<and> ev_type e \<noteq> WriteErrorsEnd \<and> t \<le> ev_tstamp e
      \<and> ev_tstamp e \<le> stop \<and> ev_comp e < n"
  shows "\<exists>s. processNext tid0 (length es + 1) stop s0 = Inr (length es + 1, s)
    \<and> sl_slices s = replicate n [] \<and> n_dropped (sl_stats s) = length es"
proof -
  let ?e = "makeWriteErrorsEnd t cu"
  define s1 where "s1 = (count (\<lambda>st. st\<lparr>n_error_end := n_error_end st + 1\<rparr>) (finish_event ?e s0))
      \<lparr>sl_write_errors := - 1\<rparr>"
  have s0: "sl_write_errors s0 = 0" "sl_events s0 = ?e # es" "sl_last_ts s0 = 0" "length (sl_active s0) = n"
      "sl_slices s0 = replicate n []" "n_dropped (sl_stats s0) = 0"
    using assms(1) by (auto simp: make_slicer_def zero_stats_def split: if_splits)
  have s1: "sl_write_errors s1 = - 1" "sl_events s1 = es" "sl_last_ts s1 = t" "length (sl_active s1) = n"
      "sl_slices s1 = replicate n []" "n_dropped (sl_stats s1) = 0"
    using s0 by (simp_all add: s1_def count_def finish_event_def makeWriteErrorsEnd_def)
  have p: "process_event tid0 ?e s0 = Inr s1"
    using s0(1) by (simp add: process_event_def handleWriteErrors_def s1_def makeWriteErrorsEnd_def)
  have "prepareNext stop s0 = Some ?e" using s0(2) assms(3) by (simp add: prepareNext_def makeWriteErrorsEnd_def)
  then have "processNext tid0 (length es + 1) stop s0 =
      rbind (processNext tid0 (length es + 0) stop s1) (\<lambda>(n, s2). Inr (n + 1, s2))"
    using s0 assms(2) p by (simp add: processNext.simps [of tid0 "Suc (length es)"] makeWriteErrorsEnd_def)
  moreover have "\<exists>s2. processNext tid0 (length es + 0) stop s1 = Inr (length es, s2) \<and> sl_slices s2 = sl_slices s1
    \<and> n_dropped (sl_stats s2) = n_dropped (sl_stats s1) + length es"
    using assms(4,5) s1 by (intro dropped_while_in_error) simp_all
  ultimately show ?thesis using s1 by auto
qed

theorem stray_error_end_drops_all_witness:
  "\<exists>s. processNext True (length [makeSwitchIn 6 0 42 0, makeSwitchOutYield 9 0 0] + 1) 100
      (projr (make_slicer [makeWriteErrorsEnd 5 0, makeSwitchIn 6 0 42 0, makeSwitchOutYield 9 0 0] 1))
        = Inr (length [makeSwitchIn 6 0 42 0, makeSwitchOutYield 9 0 0] + 1, s)
    \<and> sl_slices s = replicate 1 [] \<and> n_dropped (sl_stats s) = length [makeSwitchIn 6 0 42 0, makeSwitchOutYield 9 0 0]"
  by (rule stray_error_end_drops_all [where t = 5 and cu = 0])
    (simp_all add: make_slicer_def makeSwitchIn_def makeSwitchOutYield_def)

end
