(* ===== verification/SlicerSwitch.thy ===== *)
theory SlicerSwitch
  imports SlicerClaims
begin

text \<open>
  Streams of thread switches that a scheduler can produce: a thread runs on one compute unit at a time.
  For them the slicer never comes to undefined behaviour.  What runs where is followed in a list with one
  entry for each unit; a tag that is missing, and tag 0 where it stands for idle processors, may run on
  several units.
\<close>

section \<open>What a scheduler may do\<close>

definition shareable :: "bool \<Rightarrow> nat \<Rightarrow> bool" where
  "shareable tid0 t \<longleftrightarrow> t = kNA \<or> tid0 \<and> t = 0"

definition step_ok :: "bool \<Rightarrow> nat option list \<Rightarrow> nat \<Rightarrow> event \<Rightarrow> bool" where
  "step_ok tid0 run d e =
     (case ev_type e of
        SwitchIn \<Rightarrow> ev_level e = 0 \<and> (shareable tid0 (ev_tag e)
          \<or> (\<forall>c < length run. c \<noteq> ev_comp e \<longrightarrow> run ! c \<noteq> Some (ev_tag e)))
      | SwitchOutPreempt \<Rightarrow> ev_level e = 0
      | SwitchOutYield \<Rightarrow> ev_level e = 0
      | WriteErrorsStart \<Rightarrow> d + 1 < 2 ^ 32
      | WriteErrorsEnd \<Rightarrow> 0 < d
      | ThreadDestruction \<Rightarrow> True
      | _ \<Rightarrow> False)"

definition run_step :: "event \<Rightarrow> nat option list \<Rightarrow> nat option list" where
  "run_step e run =
     (case ev_type e of
        SwitchIn \<Rightarrow> run[ev_comp e := Some (ev_tag e)]
      | SwitchOutPreempt \<Rightarrow> run[ev_comp e := None]
      | SwitchOutYield \<Rightarrow> run[ev_comp e := None]
      | _ \<Rightarrow> run)"

definition depth_step :: "event \<Rightarrow> nat \<Rightarrow> nat" where
  "depth_step e d = (case ev_type e of WriteErrorsStart \<Rightarrow> d + 1 | WriteErrorsEnd \<Rightarrow> d - 1 | _ \<Rightarrow> d)"

fun switches_ok :: "bool \<Rightarrow> nat option list \<Rightarrow> nat \<Rightarrow> event list \<Rightarrow> bool" where
  "switches_ok tid0 run d [] = True"
| "switches_ok tid0 run d (e # es) =
     (step_ok tid0 run d e \<and> switches_ok tid0 (run_step e run) (depth_step e d) es)"

section \<open>What the slicer knows of it\<close>

abbreviation tags_of :: "slicer \<Rightarrow> nat \<Rightarrow> nat list" where
  "tags_of s i \<equiv> st_tags (ss_stack (sl_states s ! i))"

definition runs_ok :: "bool \<Rightarrow> nat option list \<Rightarrow> bool" where
  "runs_ok tid0 run \<longleftrightarrow> (\<forall>g < length run. \<forall>h < length run. \<forall>t. run ! g = Some t \<and> run ! h = Some t \<and> g \<noteq> h
     \<longrightarrow> shareable tid0 t)"

definition switch_inv :: "bool \<Rightarrow> nat option list \<Rightarrow> nat \<Rightarrow> slicer \<Rightarrow> bool" where
  "switch_inv tid0 run d s \<longleftrightarrow>
     length run = length (sl_active s) \<and> runs_ok tid0 run
     \<and> sl_write_errors s = of_nat d \<and> d < 2 ^ 32
     \<and> (d \<noteq> 0 \<longrightarrow> (\<forall>g < length run. sl_active s ! g = None))
     \<and> (\<forall>i < length (sl_states s). length (tags_of s i) \<le> 1)
     \<and> (\<forall>t. \<forall>i \<in> set (sl_dormant s t). i < length (sl_states s) \<and> tags_of s i = [t])
     \<and> (\<forall>g < length run. \<forall>i. sl_active s ! g = Some i \<longrightarrow>
          i < length (sl_states s)
          \<and> (tags_of s i = [] \<or> (\<exists>t. tags_of s i = [t] \<and> run ! g = Some t
              \<and> (shareable tid0 t \<or> i \<notin> set (sl_dormant s t)))))"

lemma switch_invD:
  assumes "switch_inv tid0 run d s"
  shows "length run = length (sl_active s)" "runs_ok tid0 run" "sl_write_errors s = of_nat d" "d < 2 ^ 32"
    and "d \<noteq> 0 \<Longrightarrow> g < length run \<Longrightarrow> sl_active s ! g = None"
    and "i < length (sl_states s) \<Longrightarrow> length (tags_of s i) \<le> 1"
    and "i \<in> set (sl_dormant s t) \<Longrightarrow> i < length (sl_states s) \<and> tags_of s i = [t]"
    and "g < length run \<Longrightarrow> sl_active s ! g = Some i \<Longrightarrow> i < length (sl_states s)
      \<and> (tags_of s i = [] \<or> (\<exists>t. tags_of s i = [t] \<and> run ! g = Some t
              \<and> (shareable tid0 t \<or> i \<notin> set (sl_dormant s t))))"
  using assms by (auto simp: switch_inv_def)

lemma aliased_iff: "length (st_tags st) \<le> 1 \<Longrightarrow>
    isAliased tid0 st \<longleftrightarrow> st_tags st = [] \<or> (\<exists>t. st_tags st = [t] \<and> shareable tid0 t)"
  by (cases "st_tags st") (auto simp: isAliased_def hasNAs_iff shareable_def)

section \<open>How the operations change stacks, groups and lists\<close>

definition same_stacks :: "slicer \<Rightarrow> slicer \<Rightarrow> bool" where
  "same_stacks s s1 \<longleftrightarrow> length (sl_states s1) = length (sl_states s)
     \<and> (\<forall>i < length (sl_states s). ss_stack (sl_states s1 ! i) = ss_stack (sl_states s ! i))
     \<and> sl_write_errors s1 = sl_write_errors s"

lemma markSwitchIn_stack: "markSwitchIn g T ty ss = Inr ss1 \<Longrightarrow> ss_stack ss1 = ss_stack ss"
  by (auto simp: markSwitchIn_def split: if_splits)

lemma markSwitchOut_stack: "markSwitchOut g T ss = Inr ss1 \<Longrightarrow> ss_stack ss1 = ss_stack ss"
  by (auto simp: markSwitchOut_def split: if_splits)

lemma stack_update: "ss_stack x = ss_stack (xs ! i) \<Longrightarrow> ss_stack (xs[i := x] ! j) = ss_stack (xs ! j)"
  by (cases "i < length xs"; cases "j = i") (auto simp: list_update_beyond)

lemma activate_changes:
  assumes "activateStackState g i T ty s = Inr s1"
  shows "same_stacks s s1 \<and> sl_active s1 = (sl_active s)[g := Some i] \<and> sl_dormant s1 = sl_dormant s"
  using assms by (auto simp: activateStackState_def same_stacks_def rbind_eq_Inr_iff
      intro!: stack_update dest: markSwitchIn_stack split: if_splits)

lemma completeSlice_changes:
  assumes "completeSlice g T ty s = Inr s1"
  shows "same_stacks s s1 \<and> sl_active s1 = sl_active s \<and> sl_dormant s1 = sl_dormant s"
  using assms by (auto simp: completeSlice_def same_stacks_def Let_def rbind_eq_Inr_iff
      intro!: stack_update dest: markSwitchOut_stack split: if_splits option.splits)

lemma end_slice_changes:
  assumes "end_slice g T ty s = Inr s1"
  shows "same_stacks s s1 \<and> sl_active s1 = (sl_active s)[g := None] \<and> sl_dormant s1 = sl_dormant s"
  using assms completeSlice_changes by (fastforce simp: end_slice_def same_stacks_def rbind_eq_Inr_iff)

lemma finish_changes: "same_stacks s (finish_event ev s)" "sl_active (finish_event ev s) = sl_active s"
  "sl_dormant (finish_event ev s) = sl_dormant s"
  by (simp_all add: same_stacks_def finish_event_def count_def)

text \<open>Going to a state with the same stacks keeps the invariant when the new groups and lists are right.\<close>

lemma switch_inv_same:
  assumes "switch_inv tid0 run d s" "same_stacks s s1" "length (sl_active s1) = length (sl_active s)"
    and "\<And>t i. i \<in> set (sl_dormant s1 t) \<Longrightarrow> i < length (sl_states s) \<and> tags_of s i = [t]"
    and "\<And>g. g < length run \<Longrightarrow> d \<noteq> 0 \<Longrightarrow> sl_active s1 ! g = None"
    and "\<And>g i. g < length run \<Longrightarrow> sl_active s1 ! g = Some i \<Longrightarrow> i < length (sl_states s)
      \<and> (tags_of s i = [] \<or> (\<exists>t. tags_of s i = [t] \<and> run ! g = Some t
              \<and> (shareable tid0 t \<or> i \<notin> set (sl_dormant s1 t))))"
  shows "switch_inv tid0 run d s1"
proof -
  note v = switch_invD [OF assms(1)]
  note n = assms(2) [unfolded same_stacks_def]
  have "length (tags_of s1 i) \<le> 1" if "i < length (sl_states s1)" for i using n v(6) [of i] that by simp
  moreover have "i < length (sl_states s1) \<and> tags_of s1 i = [t]" if "i \<in> set (sl_dormant s1 t)" for i t
    using n assms(4) [OF that] by simp
  moreover have "i < length (sl_states s1)
      \<and> (tags_of s1 i = [] \<or> (\<exists>t. tags_of s1 i = [t] \<and> run ! g = Some t
              \<and> (shareable tid0 t \<or> i \<notin> set (sl_dormant s1 t))))"
    if "g < length run" "sl_active s1 ! g = Some i" for g i using n assms(6) [OF that] by simp
  moreover have "length run = length (sl_active s1)" "sl_write_errors s1 = of_nat d" using v(1,3) n assms(3) by simp_all
  ultimately show ?thesis unfolding switch_inv_def using v(2,4) assms(5) by blast
qed

lemma switch_inv_finish: "switch_inv tid0 run d s \<Longrightarrow> switch_inv tid0 run d (finish_event ev s)"
  by (rule switch_inv_same [where s = s]) (auto simp: finish_changes dest: switch_invD(5,7,8))

lemma switch_inv_count: "switch_inv tid0 run d s \<Longrightarrow> switch_inv tid0 run d (count f s)"
  by (rule switch_inv_same [where s = s]) (auto simp: same_stacks_def count_def dest: switch_invD(5,7,8))

lemma switch_inv_reset: "switch_inv tid0 run d s \<Longrightarrow> switch_inv tid0 run d (resetState s)"
  by (rule switch_inv_same [where s = s])
    (auto simp: same_stacks_def resetState_def restart_def dest: switch_invD(1))

section \<open>Switching out the last state\<close>

lemma push_switch:
  assumes "switch_inv tid0 run d s" "g < length run" "sl_active s ! g = Some i"
    and "\<not> isAliased tid0 (ss_stack (sl_states s ! i))"
  shows "\<exists>t. push_dormant i s = Inr (s\<lparr>sl_dormant := (sl_dormant s)(t := i # sl_dormant s t)\<rparr>)
    \<and> tags_of s i = [t] \<and> i < length (sl_states s) \<and> run ! g = Some t \<and> \<not> shareable tid0 t"
proof -
  note v = switch_invD [OF assms(1)]
  from v(8) [OF assms(2,3)] v(6) [of i] assms(4) obtain t where
    "tags_of s i = [t]" "run ! g = Some t" "\<not> shareable tid0 t" "i \<notin> set (sl_dormant s t)" "i < length (sl_states s)"
    by (auto simp: aliased_iff)
  then show ?thesis by (simp add: push_dormant_def is_linked_def)
qed

lemma handleLastState_switch:
  assumes "switch_inv tid0 run d s" "slicer_inv (ev_tstamp ev) s" "ev_comp ev < length (sl_active s)"
    and "ev_tstamp ev \<noteq> kInvalidTimeStamp"
  shows "\<exists>s1. handleLastState tid0 ev ty s = Inr s1 \<and> switch_inv tid0 run d s1 \<and> keeps (ev_tstamp ev) s s1
    \<and> sl_active s1 ! ev_comp ev = None \<and> same_stacks s s1"
proof (cases "sl_active s ! ev_comp ev")
  case None
  then show ?thesis using assms(1) keeps_refl [OF assms(2)] by (simp add: handleLastState_def same_stacks_def)
next
  case (Some i)
  note v = switch_invD [OF assms(1)]
  let ?g = "ev_comp ev"
  have g: "?g < length run" using v(1) assms(3) by simp
  note ends = end_slice_keeps [OF _ _ assms(3) Some assms(4), of _ ty]
  have d: "d = 0" using v(5) [OF _ g] Some by auto
  show ?thesis
  proof (cases "isAliased tid0 (ss_stack (sl_states s ! i))")
    case True
    from ends [OF keeps_refl [OF assms(2)]] obtain s2 where s2: "end_slice ?g (ev_tstamp ev) ty s = Inr s2"
      "keeps (ev_tstamp ev) s s2" "sl_active s2 ! ?g = None" by auto
    note c = end_slice_changes [OF s2(1)]
    have "switch_inv tid0 run d s2"
    proof (rule switch_inv_same [OF assms(1)])
      show "j < length (sl_states s) \<and> (tags_of s j = [] \<or> (\<exists>u. tags_of s j = [u] \<and> run ! h = Some u
          \<and> (shareable tid0 u \<or> j \<notin> set (sl_dormant s2 u))))"
        if "h < length run" "sl_active s2 ! h = Some j" for h j
        using that c v(1) v(8) [of h j] by (cases "h = ?g") auto
    qed (use c d v(7) in auto)
    then show ?thesis using s2 c handleLastState_split [OF Some, of tid0 ty] True by auto
  next
    case False
    from push_switch [OF assms(1) g Some False] obtain t where p:
      "push_dormant i s = Inr (s\<lparr>sl_dormant := (sl_dormant s)(t := i # sl_dormant s t)\<rparr>)"
      "tags_of s i = [t]" "i < length (sl_states s)" "run ! ?g = Some t" "\<not> shareable tid0 t" by blast
    let ?s = "s\<lparr>sl_dormant := (sl_dormant s)(t := i # sl_dormant s t)\<rparr>"
    have k: "keeps (ev_tstamp ev) s ?s" using push_dormant_keeps [OF assms(2) p(3)] p(1) by auto
    from ends [OF k] obtain s2 where s2: "end_slice ?g (ev_tstamp ev) ty ?s = Inr s2"
      "keeps (ev_tstamp ev) s s2" "sl_active s2 ! ?g = None" by auto
    from end_slice_changes [OF s2(1)] have c: "same_stacks s s2" "sl_active s2 = (sl_active s)[?g := None]"
      "sl_dormant s2 = (sl_dormant s)(t := i # sl_dormant s t)" by (simp_all add: same_stacks_def)
    have other: "j \<noteq> i" if "h < length run" "h \<noteq> ?g" "sl_active s ! h = Some j" for h j
    proof
      assume "j = i"
      with v(8) [OF that(1,3)] p(2) have "run ! h = Some t" by auto
      with v(2) g that(1,2) p(4,5) show False unfolding runs_ok_def by blast
    qed
    have "switch_inv tid0 run d s2"
    proof (rule switch_inv_same [OF assms(1) c(1)])
      show "j < length (sl_states s) \<and> (tags_of s j = [] \<or> (\<exists>u. tags_of s j = [u] \<and> run ! h = Some u
          \<and> (shareable tid0 u \<or> j \<notin> set (sl_dormant s2 u))))"
        if "h < length run" "sl_active s2 ! h = Some j" for h j
        using that c(2,3) v(1) v(8) [of h j] other [of h j] g by (cases "h = ?g") (auto split: if_splits)
    qed (use c d v(7) p(2,3) in \<open>auto split: if_splits\<close>)
    then show ?thesis using s2 c handleLastState_split [OF Some, of tid0 ty] False p(1) by auto
  qed
qed

section \<open>Switching in the next one\<close>

lemma switch_inv_activate:
  assumes "switch_inv tid0 run 0 s" "activateStackState g i T ty s = Inr s1" "g < length run" "i < length (sl_states s)"
    and "tags_of s i = [] \<or> (\<exists>t. tags_of s i = [t] \<and> run ! g = Some t \<and> (shareable tid0 t \<or> i \<notin> set (sl_dormant s t)))"
  shows "switch_inv tid0 run 0 s1"
proof -
  note c = activate_changes [OF assms(2)] and v = switch_invD [OF assms(1)]
  show ?thesis
  proof (rule switch_inv_same [OF assms(1)])
    show "j < length (sl_states s) \<and> (tags_of s j = [] \<or> (\<exists>u. tags_of s j = [u] \<and> run ! h = Some u
        \<and> (shareable tid0 u \<or> j \<notin> set (sl_dormant s1 u))))"
      if "h < length run" "sl_active s1 ! h = Some j" for h j
      using that c v(1) v(8) [of h j] assms(3-5) by (cases "h = g") auto
  qed (use c v(7) in auto)
qed

lemma unlink_changes: "same_stacks s (unlink i s)" "set (sl_dormant (unlink i s) t) \<subseteq> set (sl_dormant s t)"
  "tags_of s i = [t] \<Longrightarrow> i \<notin> set (sl_dormant (unlink i s) t)"
  by (auto simp: unlink_def same_stacks_def split: list.splits if_splits)

lemma switch_inv_unlink:
  assumes "switch_inv tid0 run d s"
  shows "switch_inv tid0 run d (unlink i s)"
proof -
  note v = switch_invD [OF assms] and u = unlink_changes [where s = s and i = i]
  show ?thesis
  proof (rule switch_inv_same [OF assms u(1)])
    show "j < length (sl_states s) \<and> (tags_of s j = [] \<or> (\<exists>t. tags_of s j = [t] \<and> run ! h = Some t
        \<and> (shareable tid0 t \<or> j \<notin> set (sl_dormant (unlink i s) t))))"
      if "h < length run" "sl_active (unlink i s) ! h = Some j" for h j
      using that v(8) [of h j] u(2) by auto
  qed (use v(5) in simp, use v(7) u(2) in blast, use v(5) in simp)
qed

definition extends :: "slicer \<Rightarrow> slicer \<Rightarrow> bool" where
  "extends s s1 \<longleftrightarrow> length (sl_states s) \<le> length (sl_states s1)
     \<and> (\<forall>i < length (sl_states s). sl_states s1 ! i = sl_states s ! i)
     \<and> (\<forall>i < length (sl_states s1). length (sl_states s) \<le> i \<longrightarrow> length (tags_of s1 i) \<le> 1)
     \<and> sl_active s1 = sl_active s \<and> sl_dormant s1 = sl_dormant s \<and> sl_write_errors s1 = sl_write_errors s"

lemma extends_trans:
  assumes "extends s s1" "extends s1 s2"
  shows "extends s s2"
proof -
  note a = assms [unfolded extends_def]
  have "length (tags_of s2 i) \<le> 1" if "i < length (sl_states s2)" "length (sl_states s) \<le> i" for i
    using a that by (cases "i < length (sl_states s1)") auto
  then show ?thesis using a by (simp add: extends_def)
qed

lemma switch_inv_extends:
  assumes "switch_inv tid0 run d s" "extends s s1"
  shows "switch_inv tid0 run d s1"
proof -
  note v = switch_invD [OF assms(1)] and x = assms(2) [unfolded extends_def]
  have "length (tags_of s1 i) \<le> 1" if "i < length (sl_states s1)" for i
    using x v(6) [of i] that by (cases "i < length (sl_states s)") auto
  moreover have "i < length (sl_states s1) \<and> tags_of s1 i = [t]" if "i \<in> set (sl_dormant s1 t)" for i t
    using x v(7) [of i t] that by auto
  moreover have "i < length (sl_states s1)
      \<and> (tags_of s1 i = [] \<or> (\<exists>t. tags_of s1 i = [t] \<and> run ! g = Some t
              \<and> (shareable tid0 t \<or> i \<notin> set (sl_dormant s1 t))))"
    if "g < length run" "sl_active s1 ! g = Some i" for g i using x v(8) [of g i] that by auto
  moreover have "length run = length (sl_active s1)" "sl_write_errors s1 = of_nat d" using v(1,3) x by simp_all
  moreover have "d \<noteq> 0 \<longrightarrow> (\<forall>g < length run. sl_active s1 ! g = None)" using v(5) x by simp
  ultimately show ?thesis unfolding switch_inv_def using v(2,4) by blast
qed

lemma emplace_extends:
  assumes "emplace_state st p s = (i, s1)" "length (st_tags st) \<le> 1"
  shows "extends s s1 \<and> i < length (sl_states s1) \<and> stack_eq (ss_stack (sl_states s1 ! i)) st"
proof (cases "find_state s st")
  case None
  with assms show ?thesis by (auto simp: emplace_state_def extends_def nth_append stack_eq_def)
next
  case (Some j)
  with assms show ?thesis by (auto simp: emplace_state_def extends_def find_state_def dest!: find_Some_upt)
qed

lemma create_extends:
  assumes "length (st_tags st) \<le> 1"
  shows "\<exists>i s1. createStackState st s = Inr (i, s1) \<and> extends s s1 \<and> i < length (sl_states s1)
    \<and> stack_eq (ss_stack (sl_states s1 ! i)) st"
proof -
  have e: "\<exists>i s1. Inr (emplace_state st p s0) = (Inr (i, s1) :: (nat \<times> slicer) result) \<and> extends s0 s1
      \<and> i < length (sl_states s1) \<and> stack_eq (ss_stack (sl_states s1 ! i)) st" for p s0
    using emplace_extends [of st p s0] assms by (cases "emplace_state st p s0") auto
  show ?thesis
  proof (cases "st_tags st = []")
    case True
    with e show ?thesis by (simp add: createStackState.simps [of st])
  next
    case False
    let ?parent = "\<lparr>st_tags = [], st_known = st_known st, st_rest = None\<rparr>"
    from assms have b: "butlast (st_tags st) = []" by (cases "st_tags st") auto
    show ?thesis
    proof (cases "find_state s ?parent")
      case None
      obtain p s1 where p: "emplace_state ?parent kInvalidTagStackId s = (p, s1)" by (metis prod.exhaust)
      with emplace_extends [OF this] b have x: "extends s s1" by simp
      have "createStackState ?parent s = Inr (p, s1)" using p by (simp add: createStackState.simps)
      then have "createStackState st s = Inr (emplace_state st (ss_id (sl_states s1 ! p)) s1)"
        using False b None assms by (simp add: createStackState.simps [of st] kMaxNumLevels_def)
      with e [of "ss_id (sl_states s1 ! p)" s1] extends_trans [OF x] show ?thesis by metis
    next
      case (Some p)
      with e False b assms show ?thesis by (simp add: createStackState.simps [of st] kMaxNumLevels_def)
    qed
  qed
qed

definition fits :: "nat option list \<Rightarrow> nat \<Rightarrow> nat list \<Rightarrow> bool" where
  "fits run g tags \<longleftrightarrow> tags = [] \<or> (\<exists>t. tags = [t] \<and> run ! g = Some t)"

lemma fits_length: "fits run g tags \<Longrightarrow> length tags \<le> 1"
  by (auto simp: fits_def)

lemma activate_switch:
  assumes "switch_inv tid0 run 0 s" "slicer_inv T s" "g < length (sl_active s)" "sl_active s ! g = None"
    and "T \<noteq> kInvalidTimeStamp" "i < length (sl_states s)" "fits run g (tags_of s i)"
    and "\<And>t. tags_of s i = [t] \<Longrightarrow> i \<notin> set (sl_dormant s t)"
  shows "\<exists>s1. activateStackState g i T ty s = Inr s1 \<and> switch_inv tid0 run 0 s1"
proof -
  have "g < length run" using switch_invD(1) [OF assms(1)] assms(3) by simp
  moreover obtain s1 where "activateStackState g i T ty s = Inr s1"
    using activate_keeps [OF assms(2-4,6,5)] by blast
  ultimately show ?thesis
    using switch_inv_activate [OF assms(1), of g i T ty s1] assms(6-8) by (auto simp: fits_def)
qed

lemma find_state_None: "find_state s st = None \<Longrightarrow> i < length (sl_states s) \<Longrightarrow> \<not> stack_eq (ss_stack (sl_states s ! i)) st"
  by (auto simp: find_state_def find_None_iff)

lemma exact_match_switch:
  assumes "switch_inv tid0 run 0 s" "slicer_inv T s" "g < length (sl_active s)" "sl_active s ! g = None"
    and "T \<noteq> kInvalidTimeStamp" "fits run g (st_tags st)"
  shows "\<exists>s1. activateStackStateExactMatch g st T ty s = Inr s1 \<and> switch_inv tid0 run 0 s1"
proof (cases "find_state s st")
  case None
  from create_extends [OF fits_length [OF assms(6)], of s] obtain i s2 where
    c: "createStackState st s = Inr (i, s2)" "extends s s2" "i < length (sl_states s2)"
      "stack_eq (ss_stack (sl_states s2 ! i)) st" by blast
  have "keeps T s s2" "sl_active s2 = sl_active s" using createStackState_inv [OF assms(2), of st] c(1) by auto
  then have k: "slicer_inv T s2" "g < length (sl_active s2)" "sl_active s2 ! g = None"
    using assms(3,4) by (simp_all add: keeps_def)
  have new: "\<not> i < length (sl_states s)" using find_state_None [OF None, of i] c(2,4) by (auto simp: extends_def)
  have "\<exists>s1. activateStackState g i T ty s2 = Inr s1 \<and> switch_inv tid0 run 0 s1"
  proof (rule activate_switch [OF switch_inv_extends [OF assms(1) c(2)] k assms(5) c(3)])
    show "fits run g (tags_of s2 i)" using assms(6) c(4) by (simp add: stack_eq_def)
    show "i \<notin> set (sl_dormant s2 t)" for t
      using new switch_invD(7) [OF assms(1), of i t] c(2) by (auto simp: extends_def)
  qed
  then show ?thesis using None c(1) by (simp add: activateStackStateExactMatch_def)
next
  case (Some i)
  let ?s = "if is_linked s i then unlink i s else s"
  have i: "i < length (sl_states s)" "tags_of s i = st_tags st"
    using Some by (auto simp: find_state_def stack_eq_def dest: find_Some_upt)
  have "\<exists>s1. activateStackState g i T ty ?s = Inr s1 \<and> switch_inv tid0 run 0 s1"
  proof (rule activate_switch)
    show "switch_inv tid0 run 0 ?s" "slicer_inv T ?s"
      using switch_inv_unlink [OF assms(1)] unlink_inv [OF assms(2)] assms(1,2) by simp_all
    show "i \<notin> set (sl_dormant ?s t)" if "tags_of ?s i = [t]" for t
      using that unlink_changes(3) [of s i t] by (auto simp: is_linked_def split: if_splits)
  qed (use assms i in auto)
  then show ?thesis using Some by (simp add: activateStackStateExactMatch_def)
qed

lemma that_contains_switch:
  assumes "switch_inv tid0 run 0 s" "slicer_inv T s" "g < length (sl_active s)" "sl_active s ! g = None"
    and "T \<noteq> kInvalidTimeStamp" "st_tags st = [t]" "run ! g = Some t" "\<not> isAliased tid0 st"
  shows "\<exists>s1. activateStackStateThatContains tid0 g st n T ty s = Inr s1 \<and> switch_inv tid0 run 0 s1"
proof (cases "find (\<lambda>i. stack_contains (ss_stack (sl_states s ! i)) st n) (sl_dormant s t)")
  case None
  with exact_match_switch [OF assms(1-5), of "st\<lparr>st_known := False\<rparr>"] assms(6-8) show ?thesis
    by (simp add: activateStackStateThatContains_def fits_def)
next
  case (Some i)
  then have "i \<in> set (sl_dormant s t)" by (auto simp: find_Some_iff)
  with switch_invD(7) [OF assms(1)] have i: "i < length (sl_states s)" "tags_of s i = [t]" by blast+
  have "\<exists>s1. activateStackState g i T ty (unlink i s) = Inr s1 \<and> switch_inv tid0 run 0 s1"
  proof (rule activate_switch)
    show "switch_inv tid0 run 0 (unlink i s)" "slicer_inv T (unlink i s)"
      using switch_inv_unlink [OF assms(1)] unlink_inv [OF assms(2)] by simp_all
    show "i \<notin> set (sl_dormant (unlink i s) u)" if "tags_of (unlink i s) i = [u]" for u
      using that unlink_changes(3) [of s i u] by simp
  qed (use assms i in \<open>auto simp: fits_def\<close>)
  with Some assms(6,8) show ?thesis by (simp add: activateStackStateThatContains_def)
qed

section \<open>Whole events\<close>

lemma runs_ok_step:
  assumes "runs_ok tid0 run" "step_ok tid0 run d e"
  shows "runs_ok tid0 (run_step e run)"
proof -
  have "x < length run \<Longrightarrow> run[g := None] ! x = Some t \<Longrightarrow> run ! x = Some t" for g x t
    by (cases "x = g") auto
  then have "runs_ok tid0 (run[g := None])" for g
    using assms(1) unfolding runs_ok_def length_list_update by blast
  moreover have "runs_ok tid0 (run[ev_comp e := Some (ev_tag e)])"
    if "shareable tid0 (ev_tag e) \<or> (\<forall>c < length run. c \<noteq> ev_comp e \<longrightarrow> run ! c \<noteq> Some (ev_tag e))"
    unfolding runs_ok_def
  proof (intro allI impI, elim conjE)
    fix g h t
    assume "g < length (run[ev_comp e := Some (ev_tag e)])" "h < length (run[ev_comp e := Some (ev_tag e)])"
      "run[ev_comp e := Some (ev_tag e)] ! g = Some t" "run[ev_comp e := Some (ev_tag e)] ! h = Some t" "g \<noteq> h"
    then show "shareable tid0 t"
      using that assms(1) [unfolded runs_ok_def] by (cases "g = ev_comp e"; cases "h = ev_comp e") auto
  qed
  ultimately show ?thesis
    using assms by (auto simp: run_step_def step_ok_def split: event_type.splits)
qed

lemma run_step_other: "h \<noteq> ev_comp e \<Longrightarrow> run_step e run ! h = run ! h"
  by (auto simp: run_step_def split: event_type.splits)

lemma length_run_step [simp]: "length (run_step e run) = length run"
  by (auto simp: run_step_def split: event_type.splits)

lemma switch_inv_step:
  assumes "switch_inv tid0 run d s" "step_ok tid0 run d e" "sl_active s ! ev_comp e = None"
  shows "switch_inv tid0 (run_step e run) d s"
proof -
  note v = switch_invD [OF assms(1)]
  have "i < length (sl_states s)
      \<and> (tags_of s i = [] \<or> (\<exists>t. tags_of s i = [t] \<and> run_step e run ! g = Some t
              \<and> (shareable tid0 t \<or> i \<notin> set (sl_dormant s t))))"
    if "g < length run" "sl_active s ! g = Some i" for g i
    using v(8) [OF that] that(2) assms(3) run_step_other [of g e run] by (cases "g = ev_comp e") auto
  then show ?thesis
    using assms(1) runs_ok_step [OF v(2) assms(2)] unfolding switch_inv_def length_run_step by blast
qed

lemma run_step_idle: "\<not> isSwitch e \<Longrightarrow> run_step e run = run"
  by (cases "ev_type e") (auto simp: run_step_def isSwitch_def isSwitchOut_def)

lemma handle_out_switch:
  assumes "switch_inv tid0 run 0 s" "slicer_inv (ev_tstamp ev) s" "ev_comp ev < length (sl_active s)"
    and "sl_active s ! ev_comp ev = None" "ev_tstamp ev \<noteq> kInvalidTimeStamp" "ev_level ev = 0"
  shows "\<exists>s1. handle_out ev ty st s = Inr s1 \<and> switch_inv tid0 run 0 s1"
proof -
  have "\<not> out_of_sync ev st" using assms(6) by (auto simp: out_of_sync_def)
  moreover have "copyTruncated (ev_level ev) True st = Inr \<lparr>st_tags = [], st_known = True, st_rest = None\<rparr>"
    using assms(6) by (simp add: copyTruncated_def first_slots_def)
  moreover have "\<exists>s1. activateStackStateExactMatch (ev_comp ev) \<lparr>st_tags = [], st_known = True, st_rest = None\<rparr> (ev_tstamp ev) ty s
      = Inr s1 \<and> switch_inv tid0 run 0 s1"
    by (rule exact_match_switch [OF assms(1-5)]) (simp add: fits_def)
  ultimately show ?thesis by (auto simp: handle_out_def intro: switch_inv_finish)
qed

lemma handle_in_switch:
  assumes "switch_inv tid0 run 0 s" "slicer_inv (ev_tstamp ev) s" "ev_comp ev < length (sl_active s)"
    and "sl_active s ! ev_comp ev = None" "ev_tstamp ev \<noteq> kInvalidTimeStamp" "ev_level ev = 0"
    and "run ! ev_comp ev = Some (ev_tag ev)" "\<not> isPhase ev"
  shows "\<exists>s1. handle_in tid0 ev ty st s = Inr s1 \<and> switch_inv tid0 run 0 s1"
proof (cases "already_active ev st")
  case True
  then show ?thesis using assms(1) by (simp add: handle_in_def switch_inv_reset switch_inv_finish)
next
  case False
  let ?b = "\<lparr>st_tags = [ev_tag ev], st_known = st_known st, st_rest = None\<rparr>"
  have b: "copyFillUpTo (ev_level ev) (ev_tag ev) (st_known st \<or> isPhase ev) st = Inr ?b"
    using assms(6,8) by (simp add: copyFillUpTo_def first_slots_def kMaxNumLevels_def)
  have "\<exists>s1. activateStackStateExactMatch (ev_comp ev) ?b (ev_tstamp ev) ty s = Inr s1 \<and> switch_inv tid0 run 0 s1"
    by (rule exact_match_switch [OF assms(1-5)]) (simp add: fits_def assms(7))
  moreover have "\<exists>s1. activateStackStateThatContains tid0 (ev_comp ev) ?b (ev_level ev + 1) (ev_tstamp ev) ty s = Inr s1
      \<and> switch_inv tid0 run 0 s1" if "\<not> isAliased tid0 ?b"
    by (rule that_contains_switch [OF assms(1-5) _ assms(7) that]) simp
  ultimately show ?thesis
    using False b assms(8) by (cases "isAliased tid0 ?b") (auto simp: handle_in_def intro: switch_inv_finish)
qed

lemma handle_transition_switch:
  assumes "switch_inv tid0 run 0 s" "slicer_inv (ev_tstamp ev) s" "ev_comp ev < length (sl_active s)"
    and "ev_tstamp ev \<noteq> kInvalidTimeStamp" "step_ok tid0 run 0 ev" "isSwitch ev"
  shows "\<exists>s1. handle_transition tid0 ev s = Inr s1 \<and> switch_inv tid0 (run_step ev run) 0 s1"
proof -
  obtain ty where ty: "eventToTransitionType ev = Inr ty" using transition_type [of ev] assms(6) by blast
  from handleLastState_switch [OF assms(1-4), of ty] obtain s1 where
    s1: "handleLastState tid0 ev ty s = Inr s1" "switch_inv tid0 run 0 s1" "keeps (ev_tstamp ev) s s1"
      "sl_active s1 ! ev_comp ev = None" by blast
  have k: "slicer_inv (ev_tstamp ev) s1" "ev_comp ev < length (sl_active s1)" using s1(3) assms(3) by (simp_all add: keeps_def)
  note i = switch_inv_step [OF s1(2) assms(5) s1(4)]
  have lvl: "ev_level ev = 0" and np: "\<not> isPhase ev"
    using assms(5,6) by (auto simp: step_ok_def isSwitch_def isSwitchOut_def isPhase_def)
  have "run_step ev run ! ev_comp ev = Some (ev_tag ev)" if "\<not> isOut ev"
    using that assms(6) k(2) switch_invD(1) [OF s1(2)] by (auto simp: isOut_def isSwitch_def run_step_def)
  with handle_out_switch [OF i k s1(4) assms(4) lvl] handle_in_switch [OF i k s1(4) assms(4) lvl _ np] show ?thesis
    by (simp add: handle_transition_def ty s1(1) Let_def)
qed

lemma of_nat_zero_iff: "d < 2 ^ 32 \<Longrightarrow> (of_nat d :: 32 word) = 0 \<longleftrightarrow> d = 0"
  by (auto simp: word_of_nat_eq_0_iff dest: nat_dvd_not_less)

lemma switch_inv_depth:
  assumes "switch_inv tid0 run d s" "d' < 2 ^ 32" "d' \<noteq> 0 \<Longrightarrow> \<forall>g < length run. sl_active s ! g = None"
  shows "switch_inv tid0 run d' (s\<lparr>sl_write_errors := of_nat d'\<rparr>)"
  using assms by (auto simp: switch_inv_def)

lemma handleWriteErrors_switch:
  assumes "switch_inv tid0 run d s" "step_ok tid0 run d ev" "ev_comp ev < length (sl_active s)"
    and "handleWriteErrors ev s = (True, s1)"
  shows "switch_inv tid0 (run_step ev run) (depth_step ev d) s1"
proof -
  note v = switch_invD [OF assms(1)]
  have f: "switch_inv tid0 run d (count g (finish_event ev s))" for g
    by (intro switch_inv_count switch_inv_finish assms)
  have a: "sl_active (count g (finish_event ev s)) = sl_active s" for g by (simp add: count_def finish_event_def)
  consider "ev_type ev = WriteErrorsEnd" | "ev_type ev = WriteErrorsStart"
    | "ev_type ev \<noteq> WriteErrorsEnd" "ev_type ev \<noteq> WriteErrorsStart" by blast
  then show ?thesis
  proof cases
    case 1
    with assms(2) have d: "0 < d" by (simp add: step_ok_def)
    then have "sl_write_errors s - 1 = of_nat (d - 1)" using v(3) by simp
    moreover have "switch_inv tid0 run (d - 1) ((count g (finish_event ev s))\<lparr>sl_write_errors := of_nat (d - 1)\<rparr>)" for g
      using d v(4,5) a by (intro switch_inv_depth [OF f]) auto
    ultimately show ?thesis
      using assms(4) 1 by (auto simp: handleWriteErrors_def run_step_def depth_step_def)
  next
    case 2
    with assms(2) have d: "d + 1 < 2 ^ 32" by (simp add: step_ok_def)
    have "sl_write_errors s + 1 = of_nat (d + 1)" using v(3) by simp
    moreover have "switch_inv tid0 run (d + 1) ((resetState (count g (finish_event ev s)))\<lparr>sl_write_errors := of_nat (d + 1)\<rparr>)" for g
      using d v(1) a by (intro switch_inv_depth [OF switch_inv_reset [OF f]]) (auto simp: resetState_def)
    ultimately show ?thesis
      using assms(4) 2 by (auto simp: handleWriteErrors_def run_step_def depth_step_def add.commute)
  next
    case 3
    with assms(4) have "sl_write_errors s \<noteq> 0" and
      s1: "s1 = count (\<lambda>st. st\<lparr>n_dropped := n_dropped st + 1\<rparr>) (finish_event ev s)"
      by (auto simp: handleWriteErrors_def split: if_splits)
    with v(1,3,5) assms(3) have "sl_active s1 ! ev_comp ev = None" by (cases "d = 0") (simp_all add: a)
    moreover have "depth_step ev d = d" using 3 by (cases "ev_type ev") (auto simp: depth_step_def)
    ultimately show ?thesis using switch_inv_step [OF f assms(2)] s1 by simp
  qed
qed

lemma process_event_switch:
  assumes "switch_inv tid0 run d s" "slicer_inv (ev_tstamp ev) s" "ev_comp ev < length (sl_active s)"
    and "ev_tstamp ev \<noteq> kInvalidTimeStamp" "step_ok tid0 run d ev"
  shows "\<exists>s1. process_event tid0 ev s = Inr s1 \<and> switch_inv tid0 (run_step ev run) (depth_step ev d) s1"
proof (cases "handleWriteErrors ev s")
  case (Pair b s1)
  show ?thesis
  proof (cases b)
    case True
    with Pair handleWriteErrors_switch [OF assms(1,5,3)] show ?thesis by (simp add: process_event_def)
  next
    case False
    with Pair have s1: "s1 = s" "sl_write_errors s = 0" and ty: "ev_type ev \<noteq> WriteErrorsEnd" "ev_type ev \<noteq> WriteErrorsStart"
      by (auto simp: handleWriteErrors_def split: if_splits)
    have d: "d = 0" using s1(2) switch_invD(3,4) [OF assms(1)] by (simp add: of_nat_zero_iff)
    have dep: "depth_step ev d = 0" using ty d by (cases "ev_type ev") (auto simp: depth_step_def)
    from ty assms(5) have k: "ev_type ev = ThreadDestruction \<or> isSwitch ev"
      by (cases "ev_type ev") (auto simp: step_ok_def isSwitch_def isSwitchOut_def)
    show ?thesis
    proof (cases "isSwitch ev")
      case True
      then have "\<not> isThreadLifetime ev" by (auto simp: isThreadLifetime_def isSwitch_def isSwitchOut_def)
      with handle_transition_switch [OF assms(1) [unfolded d] assms(2-4) assms(5) [unfolded d] True] Pair False s1 True dep
      show ?thesis by (simp add: process_event_def handleThreadLifetime_def)
    next
      case nosw: False
      with k have t: "isThreadLifetime ev" "ev_type ev \<noteq> ThreadCreation" by (auto simp: isThreadLifetime_def)
      have "switch_inv tid0 run 0 (finish_event ev s)" "switch_inv tid0 run 0 (count g (finish_event ev s))" for g
        using assms(1) d by (simp_all add: switch_inv_finish switch_inv_count)
      with Pair False s1 t dep run_step_idle [OF nosw] show ?thesis
        by (simp add: process_event_def handleThreadLifetime_def)
    qed
  qed
qed

lemma processNext_switch:
  assumes "stream_ok s" "switch_inv tid0 run d s" "switches_ok tid0 run d (sl_events s @ future)"
  shows "\<exists>k s1 run1 d1. processNext tid0 m stop s = Inr (k, s1) \<and> switch_inv tid0 run1 d1 s1
    \<and> switches_ok tid0 run1 d1 (sl_events s1 @ future)"
  using assms
proof (induction tid0 m stop s arbitrary: run d rule: processNext.induct)
  case (1 tid0 m stop s)
  show ?case
  proof (cases "m = 0 \<or> prepareNext stop s = None")
    case True
    then have "processNext tid0 m stop s = Inr (0, s)" by (auto simp: processNext.simps [of tid0 m])
    with 1(4,5) show ?thesis by blast
  next
    case False
    then obtain ev es where m: "m \<noteq> 0" and ev: "prepareNext stop s = Some ev" "sl_events s = ev # es"
      using prepareNext_Some by fastforce
    have valid: "ev_tstamp ev \<noteq> kInvalidTimeStamp" "ev_comp ev < length (sl_active s)" "ev_comp ev < length (sl_slices s)"
      and inv: "slicer_inv (sl_last_ts s) s"
      using 1(3) ev(2) by (auto simp: stream_ok_def event_isValid_def slicer_inv_def groups_ok_def)
    note comp = valid(2,3)
    show ?thesis
    proof (cases "ev_tstamp ev < sl_last_ts s")
      case True
      have "stream_ok (out_of_order ev s)"
        using 1(3) out_of_order_inv [OF inv, of ev]
        by (auto simp: stream_ok_def) (auto simp: out_of_order_def resetState_def count_def)
      moreover have "switch_inv tid0 run d (out_of_order ev s)"
        unfolding out_of_order_def
        by (rule switch_inv_same [OF switch_inv_reset [OF switch_inv_count [OF 1(4)]]])
          (use switch_invD(1) [OF 1(4)] in \<open>auto simp: same_stacks_def resetState_def count_def\<close>)
      moreover have "sl_events (out_of_order ev s) = sl_events s"
        by (simp add: out_of_order_def resetState_def count_def)
      ultimately show ?thesis
        using 1(1) [OF m ev(1) _ True, of run d] 1(5) comp m ev(1) True by (simp add: processNext.simps [of tid0 m])
    next
      case False
      then have t: "slicer_inv (ev_tstamp ev) s" by (intro slicer_inv_mono [OF inv]) simp
      have ok: "step_ok tid0 run d ev" "switches_ok tid0 (run_step ev run) (depth_step ev d) (es @ future)"
        using 1(5) ev(2) by simp_all
      from process_event_switch [OF 1(4) t valid(2,1) ok(1)] obtain s1 where
        s1: "process_event tid0 ev s = Inr s1" "switch_inv tid0 (run_step ev run) (depth_step ev d) s1" by blast
      have h: "handled ev s s1" using process_event_deals [OF t valid(2,1), of tid0] s1(1) by (auto simp: deals_def)
      then have "stream_ok s1" "sl_events s1 = es"
        using 1(3) ev(2) by (auto simp: stream_ok_def handled_def)
      with 1(2) [OF m ev(1) _ False _ s1(2)] comp ok(2) obtain k s2 run1 d1 where
        s2: "processNext tid0 (m - 1) stop s1 = Inr (k, s2)"
          "switch_inv tid0 run1 d1 s2" "switches_ok tid0 run1 d1 (sl_events s2 @ future)" by auto
      have "processNext tid0 m stop s = Inr (k + 1, s2)"
        using m ev comp False s1(1) s2(1) by (simp add: processNext.simps [of tid0 m])
      with s2(2,3) show ?thesis by blast
    qed
  qed
qed

lemma switch_inv_feed:
  "switch_inv tid0 run d s \<Longrightarrow> switch_inv tid0 run d (s\<lparr>sl_events := es\<rparr>)"
  by (rule switch_inv_same [where s = s]) (auto simp: same_stacks_def dest: switch_invD(5,7,8))

lemma session_switch:
  assumes "stream_ok s" "switch_inv tid0 run d s" "session_ok (length (sl_active s)) calls"
    and "switches_ok tid0 run d (sl_events s @ concat (map fst calls))"
  shows "\<exists>s1. slicer_session tid0 calls s = Inr s1"
  using assms
proof (induction calls arbitrary: s run d)
  case (Cons call calls)
  obtain events m stop where call: "call = (events, m, stop)" by (cases call) auto
  let ?s = "s\<lparr>sl_events := sl_events s @ events\<rparr>"
  have ok: "stream_ok ?s" using Cons.prems by (intro stream_ok_feed) (auto simp: session_ok_def call)
  have "switches_ok tid0 run d (sl_events ?s @ concat (map fst calls))" using Cons.prems(4) by (simp add: call)
  from processNext_switch [OF ok switch_inv_feed [OF Cons.prems(2)] this, of m stop] obtain k s1 run1 d1 where
    s1: "processNext tid0 m stop ?s = Inr (k, s1)" "switch_inv tid0 run1 d1 s1"
      "switches_ok tid0 run1 d1 (sl_events s1 @ concat (map fst calls))" by blast
  have "stream_ok s1" "length (sl_active s1) = length (sl_active s)"
    using processNext_deals [OF ok, of tid0 m stop] s1(1) by auto
  with Cons.IH [OF _ s1(2) _ s1(3)] Cons.prems(3) s1(1) show ?case by (auto simp: call session_ok_def)
qed simp

section \<open>Property\<close>

text \<open>C16: For a stream of thread switches in which no thread is switched in on one compute unit while it runs
  on another, with thread ends and properly nested write errors anywhere in between, split into batches and
  out of order in time as it may be, the slicer processes every session to its end: no state is ever linked
  twice and no tag read that was never set.\<close>

theorem scheduled_switches_succeed:
  assumes "make_slicer [] n = Inr s0" "session_ok n calls"
    and "switches_ok tid0 (replicate n None) 0 (concat (map fst calls))"
  shows "\<exists>s. slicer_session tid0 calls s0 = Inr s"
proof -
  have s0: "sl_events s0 = []" "switch_inv tid0 (replicate n None) 0 s0"
    using assms(1) by (auto simp: make_slicer_def switch_inv_def runs_ok_def split: if_splits)
  have "\<exists>s1. slicer_session tid0 calls s0 = Inr s1"
    using make_slicer_ok [OF assms(1)] assms(2,3) s0 by (intro session_switch [OF _ s0(2)]) auto
  then show ?thesis .
qed

theorem scheduled_switches_succeed_witness:
  "\<exists>s. slicer_session True one_thread (projr (make_slicer [] 2)) = Inr s"
  by (rule scheduled_switches_succeed [OF _ one_thread_ok])
    (simp_all add: make_slicer_def one_thread_def step_ok_def run_step_def depth_step_def makeSwitchIn_def
      makeSwitchOutYield_def makeSwitchOutPreempt_def numeral_2_eq_2 All_less_Suc)

text \<open>C34: A thread that is switched in on a second compute unit while it still runs on the first makes the
  slicer push its state on a dormant list twice when both switch it out.\<close>

theorem two_units_corrupt:
  assumes "c1 < n" "c2 < n" "c1 \<noteq> c2" "\<not> shareable tid0 tag" "t1 < t2" "t2 < t3" "t3 < t4" "t4 \<le> stop"
    and "t4 < kInvalidTimeStamp"
  shows "rbind (make_slicer [makeSwitchIn t1 0 tag c1, makeSwitchIn t2 0 tag c2, makeSwitchOutYield t3 0 c1,
      makeSwitchOutYield t4 0 c2] n) (processNext tid0 4 stop) = Inl Undefined_Behaviour"
proof -
  have "n \<noteq> 0" "t1 \<le> stop" "t2 \<le> stop" "t3 \<le> stop" "c2 \<noteq> c1" using assms by auto
  with assms show ?thesis
    by (simp add: slicer_run shareable_def)
qed

theorem two_units_corrupt_witness:
  "rbind (make_slicer [makeSwitchIn 1 0 42 0, makeSwitchIn 2 0 42 1, makeSwitchOutYield 3 0 0, makeSwitchOutYield 4 0 1] 2)
    (processNext True 4 100) = Inl Undefined_Behaviour"
  by (rule two_units_corrupt) (simp_all add: shareable_def kNA_def kInvalidTimeStamp_def)

end
