(* ===== verification/HbtStream.thy ===== *)
theory HbtStream
  imports HbtRing TagStack
begin

text \<open>
  Streams of events (\<^verbatim>\<open>src/hbt/src/tagstack/Stream.h\<close>): a ring buffer of events read as a
  stream, the combinator that merges two streams, and the binary tree of combinators.  The template
  parameter of the combinators is the pair of operations of a leaf.  A pointer to an event is the event
  it points to.  The result of each weak exchange of the retry loop is an argument, by the number of the
  attempt.  The debug checks are not part of a release build.
\<close>

section \<open>Events in memory\<close>

text \<open>An event is trivially copyable and 16 bytes long.\<close>

definition type_code :: "event_type \<Rightarrow> nat" where
  "type_code t = (case t of Ev_Start \<Rightarrow> 0 | Ev_End \<Rightarrow> 1 | ThreadCreation \<Rightarrow> 2 | ThreadDestruction \<Rightarrow> 3
     | SwitchIn \<Rightarrow> 4 | SwitchOutPreempt \<Rightarrow> 5 | SwitchOutYield \<Rightarrow> 6 | WriteErrorsStart \<Rightarrow> 7 | WriteErrorsEnd \<Rightarrow> 8)"

definition code_type :: "nat \<Rightarrow> event_type" where
  "code_type n = (if n = 0 then Ev_Start else if n = 1 then Ev_End else if n = 2 then ThreadCreation
     else if n = 3 then ThreadDestruction else if n = 4 then SwitchIn else if n = 5 then SwitchOutPreempt
     else if n = 6 then SwitchOutYield else if n = 7 then WriteErrorsStart else WriteErrorsEnd)"

definition event_size :: nat where
  "event_size = 16"

definition event_bytes :: "event \<Rightarrow> byte list" where
  "event_bytes e = encode_le 8 (ev_tstamp e) @ encode_le 1 (type_code (ev_type e)) @ encode_le 1 (ev_level e)
     @ encode_le 2 (ev_comp e) @ encode_le 4 (ev_tag e)"

definition bytes_event :: "byte list \<Rightarrow> event" where
  "bytes_event bs = \<lparr>ev_tstamp = decode_le (take 8 bs), ev_type = code_type (decode_le (take 1 (drop 8 bs))),
     ev_level = decode_le (take 1 (drop 9 bs)), ev_comp = decode_le (take 2 (drop 10 bs)),
     ev_tag = decode_le (take 4 (drop 12 bs))\<rparr>"

section \<open>A ring buffer as a stream\<close>

record ring_stream =
  rs_ring :: ring_sys
  rs_next :: "event option"

definition max_num_retries :: nat where
  "max_num_retries = 2"

text \<open>The retry loop: a failed exchange and a busy ring are tried again.\<close>

fun retry_read :: "(64 word \<Rightarrow> bool) \<Rightarrow> bool list \<Rightarrow> ring_sys \<Rightarrow> (errno + byte list) \<times> ring_sys" where
  "retry_read mem [] r = (Inl EAGAIN, r)"
| "retry_read mem (cas # attempts) r =
     (case startReadTx mem cas (of_nat event_size) r of
        (Inr bs, r1) \<Rightarrow> (Inr bs, r1)
      | (Inl e, r1) \<Rightarrow>
          if e = EAGAIN \<or> e = EBUSY then (if attempts = [] then (Inl e, r1) else retry_read mem attempts r1)
          else (Inl e, r1))"

definition ring_prepareNext :: "(64 word \<Rightarrow> bool) \<Rightarrow> (nat \<Rightarrow> bool) \<Rightarrow> nat \<Rightarrow> ring_stream
    \<Rightarrow> (event option \<times> ring_stream) result" where
  "ring_prepareNext mem cas stop_ts s =
     (case rs_next s of
        Some ev \<Rightarrow> Inr (if ev_tstamp ev \<le> stop_ts then Some ev else None, s)
      | None \<Rightarrow>
          (case retry_read mem (map cas [0..<max_num_retries + 1]) (rs_ring s) of
             (Inl e, r) \<Rightarrow>
               if e = ENODATA \<or> e = EAGAIN \<or> e = EBUSY then Inr (None, s\<lparr>rs_ring := r\<rparr>)
               else Inl (Runtime_Error ''RingBuffer read failed due to unexpected causes: '')
           | (Inr bs, r) \<Rightarrow>
               let ev = bytes_event bs in
               Inr (if ev_tstamp ev \<le> stop_ts then Some ev else None, s\<lparr>rs_ring := r, rs_next := Some ev\<rparr>)))"

definition ring_complete :: "ring_stream \<Rightarrow> ring_stream result" where
  "ring_complete s = Inr (s\<lparr>rs_ring := snd (commitReadTx (rs_ring s)), rs_next := None\<rparr>)"

section \<open>Combinators\<close>

datatype chosen = NoneChosen | ChoseA | ChoseB

record combinator =
  cb_last_a :: event
  cb_last_b :: event
  cb_empty_a :: nat
  cb_empty_b :: nat
  cb_chosen :: chosen

datatype 'l stream_tree = Source 'l | Combinator "'l stream_tree" "'l stream_tree option" combinator

definition kMaxCompUnit :: nat where
  "kMaxCompUnit = 2 ^ 16 - 1"

definition no_event :: event where
  "no_event = \<lparr>ev_tstamp = kInvalidTimeStamp, ev_type = Ev_Start, ev_level = 0, ev_comp = 0, ev_tag = 0\<rparr>"

definition new_combinator :: combinator where
  "new_combinator = \<lparr>cb_last_a = no_event, cb_last_b = no_event, cb_empty_a = 0, cb_empty_b = 0, cb_chosen = NoneChosen\<rparr>"

text \<open>What is done with each of the two streams: unless an event of it is kept already, or it had none up
  to the stop time, its next event is taken over.\<close>

definition poll :: "(event option \<times> 's) result \<Rightarrow> ('s \<Rightarrow> 's result) \<Rightarrow> nat \<Rightarrow> 's \<Rightarrow> event \<Rightarrow> nat
    \<Rightarrow> ('s \<times> event \<times> nat) result" where
  "poll prepared complete stop_ts s last_event last_empty =
     (if \<not> event_isValid last_event \<and> stop_ts > last_empty then
        rbind prepared (\<lambda>(ev, s1).
          case ev of
            Some e \<Rightarrow> rbind (complete s1) (\<lambda>s2. Inr (s2, e, last_empty))
          | None \<Rightarrow> Inr (s1, last_event, stop_ts))
      else Inr (s, last_event, last_empty))"

definition choose_event :: "event \<Rightarrow> event \<Rightarrow> chosen" where
  "choose_event ev_a ev_b =
     (if event_isValid ev_a \<or> event_isValid ev_b then (if happenedBefore ev_a ev_b then ChoseA else ChoseB)
      else NoneChosen)"

definition chosen_event :: "combinator \<Rightarrow> event option" where
  "chosen_event c = (case cb_chosen c of NoneChosen \<Rightarrow> None | ChoseA \<Rightarrow> Some (cb_last_a c) | ChoseB \<Rightarrow> Some (cb_last_b c))"

definition invalidate :: "event \<Rightarrow> event" where
  "invalidate e = e\<lparr>ev_tstamp := kInvalidTimeStamp, ev_comp := kMaxCompUnit\<rparr>"

fun tree_complete :: "('l \<Rightarrow> 'l result) \<Rightarrow> 'l stream_tree \<Rightarrow> 'l stream_tree result" where
  "tree_complete lcomp (Source l) = rbind (lcomp l) (\<lambda>l1. Inr (Source l1))"
| "tree_complete lcomp (Combinator a b c) =
     (case cb_chosen c of
        NoneChosen \<Rightarrow> Inl Undefined_Behaviour
      | ChoseA \<Rightarrow> Inr (Combinator a b (c\<lparr>cb_last_a := invalidate (cb_last_a c), cb_chosen := NoneChosen\<rparr>))
      | ChoseB \<Rightarrow> Inr (Combinator a b (c\<lparr>cb_last_b := invalidate (cb_last_b c), cb_chosen := NoneChosen\<rparr>)))"

fun tree_prepareNext :: "(nat \<Rightarrow> 'l \<Rightarrow> (event option \<times> 'l) result) \<Rightarrow> ('l \<Rightarrow> 'l result) \<Rightarrow> nat \<Rightarrow> 'l stream_tree
    \<Rightarrow> (event option \<times> 'l stream_tree) result" where
  "tree_prepareNext lprep lcomp stop_ts (Source l) = rbind (lprep stop_ts l) (\<lambda>(ev, l1). Inr (ev, Source l1))"
| "tree_prepareNext lprep lcomp stop_ts (Combinator a b c) =
     (if cb_chosen c \<noteq> NoneChosen then Inr (chosen_event c, Combinator a b c)
      else
        rbind (poll (tree_prepareNext lprep lcomp stop_ts a) (tree_complete lcomp) stop_ts a (cb_last_a c) (cb_empty_a c))
          (\<lambda>(a1, ev_a, empty_a).
        rbind (case b of
                 None \<Rightarrow> Inr (None, cb_last_b c, cb_empty_b c)
               | Some b0 \<Rightarrow>
                   rbind (poll (tree_prepareNext lprep lcomp stop_ts b0) (tree_complete lcomp) stop_ts b0 (cb_last_b c) (cb_empty_b c))
                     (\<lambda>(b1, ev_b, empty_b). Inr (Some b1, ev_b, empty_b)))
          (\<lambda>(b1, ev_b, empty_b).
             let c1 = \<lparr>cb_last_a = ev_a, cb_last_b = ev_b, cb_empty_a = empty_a, cb_empty_b = empty_b,
                   cb_chosen = choose_event ev_a ev_b\<rparr>
             in Inr (chosen_event c1, Combinator a1 b1 c1))))"

fun pair_up :: "'l stream_tree list \<Rightarrow> 'l stream_tree list" where
  "pair_up (a # b # streams) = Combinator a (Some b) new_combinator # pair_up streams"
| "pair_up [a] = [Combinator a None new_combinator]"
| "pair_up [] = []"

text \<open>The number of levels of combinators above the first is fixed by the type of the root.\<close>

fun makeBinaryTree :: "nat \<Rightarrow> 'l stream_tree list \<Rightarrow> 'l stream_tree result" where
  "makeBinaryTree levels streams =
     (if streams = [] then Inl Assert_Failure
      else
        case levels of
          0 \<Rightarrow> if length (pair_up streams) \<noteq> 1 then Inl Assert_Failure else Inr (last (pair_up streams))
        | Suc n \<Rightarrow> makeBinaryTree n (pair_up streams))"

declare makeBinaryTree.simps [simp del]

lemma makeBinaryTree_simps [simp]:
  "makeBinaryTree 0 streams = (if streams = [] \<or> length (pair_up streams) \<noteq> 1 then Inl Assert_Failure
     else Inr (last (pair_up streams)))"
  "makeBinaryTree (Suc n) streams = (if streams = [] then Inl Assert_Failure else makeBinaryTree n (pair_up streams))"
  by (simp_all add: makeBinaryTree.simps)

definition toStopTs :: "nat \<Rightarrow> nat \<Rightarrow> nat" where
  "toStopTs ts lat = (if ts > lat then ts - lat else 0)"

section \<open>Reading a stream\<close>

text \<open>The events a reader takes from a stream, one after the other.\<close>

fun drain :: "(nat \<Rightarrow> 's \<Rightarrow> (event option \<times> 's) result) \<Rightarrow> ('s \<Rightarrow> 's result) \<Rightarrow> nat \<Rightarrow> nat \<Rightarrow> 's
    \<Rightarrow> (event list \<times> 's) result" where
  "drain prep complete 0 stop_ts s = Inr ([], s)"
| "drain prep complete (Suc n) stop_ts s =
     rbind (prep stop_ts s) (\<lambda>(ev, s1).
       case ev of
         None \<Rightarrow> Inr ([], s1)
       | Some e \<Rightarrow>
           rbind (complete s1) (\<lambda>s2.
           rbind (drain prep complete n stop_ts s2) (\<lambda>(es, s3). Inr (e # es, s3))))"

end
