(* ===== verification/EventSources.thy ===== *)
theory EventSources
  imports HbtStream "HOL-Library.Multiset"
begin

text \<open>
  What a reader may rely on when it takes events from a stream, and that the combinators keep it: a tree of
  combinators over sources that give their events in the order of their time stamps gives all of them in
  that order.
\<close>

section \<open>The contract of a stream\<close>

definition in_time :: "event list \<Rightarrow> bool" where
  "in_time es \<longleftrightarrow> sorted_wrt (\<lambda>e f. ev_tstamp e \<le> ev_tstamp f) es
     \<and> (\<forall>e \<in> set es. 0 < ev_tstamp e \<and> ev_tstamp e < kInvalidTimeStamp)"

definition first_upto :: "nat \<Rightarrow> event list \<Rightarrow> event option" where
  "first_upto stop es = (case es of [] \<Rightarrow> None | e # _ \<Rightarrow> if ev_tstamp e \<le> stop then Some e else None)"

lemma in_time_Cons: "in_time (e # es) \<longleftrightarrow>
    0 < ev_tstamp e \<and> ev_tstamp e < kInvalidTimeStamp \<and> (\<forall>f \<in> set es. ev_tstamp e \<le> ev_tstamp f) \<and> in_time es"
  by (auto simp: in_time_def)

lemma in_time_Nil [simp]: "in_time []"
  by (simp add: in_time_def)

lemma first_upto_None:
  assumes "in_time es" "first_upto stop es = None"
  shows "\<forall>e \<in> set es. stop < ev_tstamp e"
  using assms by (cases es) (auto simp: first_upto_def in_time_Cons split: if_splits)

text \<open>The source \<^verbatim>\<open>s\<close> has the events \<^verbatim>\<open>es\<close> left, and has not been asked for events
  past \<^verbatim>\<open>S\<close>; a reader never goes back in time.\<close>

locale event_source =
  fixes prep :: "nat \<Rightarrow> 's \<Rightarrow> (event option \<times> 's) result"
    and complete :: "'s \<Rightarrow> 's result"
    and holds :: "nat \<Rightarrow> 's \<Rightarrow> event list \<Rightarrow> bool"
    and ready :: "'s \<Rightarrow> bool"
  assumes prep_holds: "holds S s es \<Longrightarrow> in_time es \<Longrightarrow> S \<le> stop \<Longrightarrow>
      \<exists>s1. prep stop s = Inr (first_upto stop es, s1) \<and> holds stop s1 es \<and> (first_upto stop es = None \<or> ready s1)"
    and complete_holds: "holds S s (e # es) \<Longrightarrow> in_time (e # es) \<Longrightarrow> ready s \<Longrightarrow>
      \<exists>s1. complete s = Inr s1 \<and> holds S s1 es"
    and holds_mono: "holds S s es \<Longrightarrow> S \<le> T \<Longrightarrow> holds T s es"
begin

lemma drain_takes:
  assumes "holds S s es" "in_time es" "S \<le> stop"
  shows "\<exists>s1. drain prep complete n stop s = Inr (take n (takeWhile (\<lambda>e. ev_tstamp e \<le> stop) es), s1)
    \<and> holds stop s1 (drop (length (take n (takeWhile (\<lambda>e. ev_tstamp e \<le> stop) es))) es)"
  using assms
proof (induction n arbitrary: s es S)
  case 0
  then show ?case using holds_mono by simp
next
  case (Suc n)
  from prep_holds [OF Suc.prems] obtain s1 where
    s1: "prep stop s = Inr (first_upto stop es, s1)" "holds stop s1 es" "first_upto stop es = None \<or> ready s1" by blast
  show ?case
  proof (cases "first_upto stop es")
    case None
    then have "takeWhile (\<lambda>e. ev_tstamp e \<le> stop) es = []"
      by (auto simp: first_upto_def split: list.splits if_splits)
    with None s1 show ?thesis by simp
  next
    case (Some e)
    then obtain es' where es: "es = e # es'" "ev_tstamp e \<le> stop"
      by (auto simp: first_upto_def split: list.splits if_splits)
    from complete_holds [of stop s1 e es'] s1 Some es Suc.prems(2) obtain s2 where
      s2: "complete s1 = Inr s2" "holds stop s2 es'" by auto
    from Suc.IH [OF s2(2)] Suc.prems(2) es Some s1 s2 show ?thesis by (auto simp: in_time_Cons)
  qed
qed

end

section \<open>Merging\<close>

fun merge_events :: "event list \<Rightarrow> event list \<Rightarrow> event list" where
  "merge_events [] bs = bs"
| "merge_events (a # as) [] = a # as"
| "merge_events (a # as) (b # bs) =
     (if happenedBefore a b then a # merge_events as (b # bs) else b # merge_events (a # as) bs)"

lemma merge_Nil [simp]: "merge_events as [] = as"
  by (cases as) auto

lemma mset_merge: "mset (merge_events as bs) = mset as + mset bs"
  by (induction as bs rule: merge_events.induct) auto

lemma set_merge [simp]: "set (merge_events as bs) = set as \<union> set bs"
  using arg_cong [OF mset_merge [of as bs], of set_mset] by simp

lemma happenedBefore_le: "happenedBefore a b \<Longrightarrow> ev_tstamp a \<le> ev_tstamp b"
  "\<not> happenedBefore a b \<Longrightarrow> ev_tstamp b \<le> ev_tstamp a"
  by (auto simp: happenedBefore_def split: if_splits)

lemma in_time_merge: "in_time as \<Longrightarrow> in_time bs \<Longrightarrow> in_time (merge_events as bs)"
proof (induction as bs rule: merge_events.induct)
  case (3 a as b bs)
  note hb = happenedBefore_le [of a b]
  show ?case
  proof (cases "happenedBefore a b")
    case True
    with 3 hb show ?thesis by (auto simp: in_time_Cons intro: order_trans)
  next
    case False
    with 3 hb show ?thesis by (auto simp: in_time_Cons intro: order_trans)
  qed
qed auto

lemma merge_first_a:
  assumes "bs = [] \<or> happenedBefore a (hd bs)"
  shows "merge_events (a # as) bs = a # merge_events as bs"
  using assms by (cases bs) auto

lemma merge_first_b:
  assumes "as = [] \<or> \<not> happenedBefore (hd as) b"
  shows "merge_events as (b # bs) = b # merge_events as bs"
  using assms by (cases as) auto

section \<open>One side of a combinator\<close>

text \<open>The events of a side: the one that is kept, then those the stream has left.\<close>

definition side :: "event \<Rightarrow> event list \<Rightarrow> event list" where
  "side ev es = (if event_isValid ev then ev # es else es)"

definition kept :: "nat \<Rightarrow> event \<Rightarrow> nat \<Rightarrow> event list \<Rightarrow> bool" where
  "kept S ev em es \<longleftrightarrow> (event_isValid ev \<longrightarrow> ev_tstamp ev \<le> S) \<and> em \<le> S \<and> (\<forall>e \<in> set es. em < ev_tstamp e)"

definition polled :: "nat \<Rightarrow> event \<Rightarrow> event list \<Rightarrow> bool" where
  "polled stop ev es \<longleftrightarrow> event_isValid ev \<or> (\<forall>e \<in> set es. stop < ev_tstamp e)"

lemma side_valid [simp]: "event_isValid ev \<Longrightarrow> side ev es = ev # es"
  by (simp add: side_def)

lemma side_invalid [simp]: "\<not> event_isValid ev \<Longrightarrow> side ev es = es"
  by (simp add: side_def)

lemma poll_holds:
  assumes "holds s es" "in_time (side ev es)" "kept S ev em es" "S \<le> stop"
    and prep: "in_time es \<Longrightarrow>
      \<exists>s1. prepared = Inr (first_upto stop es, s1) \<and> holds s1 es \<and> (first_upto stop es = None \<or> ready s1)"
    and complete: "\<And>s e es. holds s (e # es) \<Longrightarrow> in_time (e # es) \<Longrightarrow> ready s \<Longrightarrow>
      \<exists>s1. complete s = Inr s1 \<and> holds s1 es"
  shows "\<exists>s1 ev1 em1 es1. poll prepared complete stop s ev em = Inr (s1, ev1, em1)
    \<and> holds s1 es1 \<and> kept stop ev1 em1 es1 \<and> side ev1 es1 = side ev es \<and> polled stop ev1 es1"
proof (cases "\<not> event_isValid ev \<and> stop > em")
  case False
  then have "polled stop ev es" using assms(3,4) by (auto simp: polled_def kept_def)
  moreover have "kept stop ev em es" using assms(3,4) by (auto simp: kept_def)
  ultimately show ?thesis using False assms(1) by (auto simp: poll_def)
next
  case True
  with assms(2) have t: "in_time es" by simp
  from prep [OF t] obtain s1 where
    s1: "prepared = Inr (first_upto stop es, s1)" "holds s1 es" "first_upto stop es = None \<or> ready s1" by blast
  show ?thesis
  proof (cases "first_upto stop es")
    case None
    with first_upto_None [OF t] have "polled stop ev es" "kept stop ev stop es"
      using True by (auto simp: polled_def kept_def)
    with None True s1 show ?thesis by (auto simp: poll_def)
  next
    case (Some e)
    then obtain es' where es: "es = e # es'" "ev_tstamp e \<le> stop"
      by (auto simp: first_upto_def split: list.splits if_splits)
    from complete [of s1 e es'] s1 Some es t obtain s2 where
      s2: "complete s1 = Inr s2" "holds s2 es'" by auto
    have "event_isValid e" using t es by (auto simp: event_isValid_def in_time_Cons)
    moreover from this have "polled stop e es'" "kept stop e em es'"
      using es assms(3,4) by (auto simp: polled_def kept_def)
    ultimately show ?thesis using True Some s1 s2 es by (auto simp: poll_def)
  qed
qed

text \<open>The choice between two sides that were asked up to the same time is the first event of their merge.\<close>

lemma choose_merge:
  assumes "in_time (side la as)" "in_time (side lb bs)" "polled stop la as" "polled stop lb bs"
    and "kept stop la ea as" "kept stop lb eb bs"
  shows "choose_event la lb = NoneChosen \<Longrightarrow> first_upto stop (merge_events (side la as) (side lb bs)) = None"
    and "choose_event la lb = ChoseA \<Longrightarrow> event_isValid la \<and> ev_tstamp la \<le> stop
      \<and> merge_events (side la as) (side lb bs) = la # merge_events as (side lb bs)"
    and "choose_event la lb = ChoseB \<Longrightarrow> event_isValid lb \<and> ev_tstamp lb \<le> stop
      \<and> merge_events (side la as) (side lb bs) = lb # merge_events (side la as) bs"
proof -
  have ta: "event_isValid la \<Longrightarrow> ev_tstamp la < kInvalidTimeStamp" and tb: "event_isValid lb \<Longrightarrow> ev_tstamp lb < kInvalidTimeStamp"
    using assms(1,2) by (auto simp: in_time_Cons)
  have ka: "event_isValid la \<Longrightarrow> ev_tstamp la \<le> stop" and kb: "event_isValid lb \<Longrightarrow> ev_tstamp lb \<le> stop"
    using assms(5,6) by (auto simp: kept_def)
  {
    assume "choose_event la lb = NoneChosen"
    then have "\<not> event_isValid la" "\<not> event_isValid lb" by (auto simp: choose_event_def split: if_splits)
    with assms(3,4) have "\<forall>e \<in> set (merge_events (side la as) (side lb bs)). stop < ev_tstamp e"
      by (auto simp: polled_def)
    then show "first_upto stop (merge_events (side la as) (side lb bs)) = None"
      by (cases "merge_events (side la as) (side lb bs)") (simp_all add: first_upto_def del: set_merge)
  next
    assume "choose_event la lb = ChoseA"
    then have v: "event_isValid la \<or> event_isValid lb" and hb: "happenedBefore la lb"
      by (auto simp: choose_event_def split: if_splits)
    have va: "event_isValid la"
      using v hb tb by (auto simp: happenedBefore_def event_isValid_def split: if_splits)
    have "side lb bs = [] \<or> happenedBefore la (hd (side lb bs))"
    proof (cases "event_isValid lb")
      case False
      with assms(4) ka [OF va] show ?thesis by (cases bs) (auto simp: polled_def happenedBefore_def)
    qed (simp add: hb)
    with va ka show "event_isValid la \<and> ev_tstamp la \<le> stop
      \<and> merge_events (side la as) (side lb bs) = la # merge_events as (side lb bs)" by (simp add: merge_first_a)
  next
    assume "choose_event la lb = ChoseB"
    then have v: "event_isValid la \<or> event_isValid lb" and hb: "\<not> happenedBefore la lb"
      by (auto simp: choose_event_def split: if_splits)
    have vb: "event_isValid lb"
      using v hb ta by (auto simp: happenedBefore_def event_isValid_def split: if_splits)
    have "side la as = [] \<or> \<not> happenedBefore (hd (side la as)) lb"
    proof (cases "event_isValid la")
      case False
      with assms(3) kb [OF vb] show ?thesis by (cases as) (auto simp: polled_def happenedBefore_def)
    qed (simp add: hb)
    with vb kb show "event_isValid lb \<and> ev_tstamp lb \<le> stop
      \<and> merge_events (side la as) (side lb bs) = lb # merge_events (side la as) bs" by (simp add: merge_first_b)
  }
qed

section \<open>Trees\<close>

lemma length_pair_up: "length (pair_up ts) = (length ts + 1) div 2"
  by (induction ts rule: pair_up.induct) auto


definition chosen_first :: "combinator \<Rightarrow> event list \<Rightarrow> event list \<Rightarrow> event list \<Rightarrow> bool" where
  "chosen_first c as bs es \<longleftrightarrow>
     (case cb_chosen c of
        NoneChosen \<Rightarrow> True
      | ChoseA \<Rightarrow> event_isValid (cb_last_a c) \<and> es = cb_last_a c # merge_events as (side (cb_last_b c) bs)
      | ChoseB \<Rightarrow> event_isValid (cb_last_b c) \<and> es = cb_last_b c # merge_events (side (cb_last_a c) as) bs)"

definition node_holds :: "nat \<Rightarrow> combinator \<Rightarrow> event list \<Rightarrow> event list \<Rightarrow> event list \<Rightarrow> bool" where
  "node_holds S c as bs es \<longleftrightarrow>
     in_time (side (cb_last_a c) as) \<and> in_time (side (cb_last_b c) bs)
     \<and> kept S (cb_last_a c) (cb_empty_a c) as \<and> kept S (cb_last_b c) (cb_empty_b c) bs
     \<and> es = merge_events (side (cb_last_a c) as) (side (cb_last_b c) bs) \<and> chosen_first c as bs es"

fun tree_holds :: "(nat \<Rightarrow> 'l \<Rightarrow> event list \<Rightarrow> bool) \<Rightarrow> nat \<Rightarrow> 'l stream_tree \<Rightarrow> event list \<Rightarrow> bool" where
  "tree_holds H S (Source l) es = H S l es"
| "tree_holds H S (Combinator a b c) es =
     (\<exists>as bs. tree_holds H S a as \<and> (case b of None \<Rightarrow> bs = [] \<and> \<not> event_isValid (cb_last_b c) | Some b0 \<Rightarrow> tree_holds H S b0 bs)
        \<and> node_holds S c as bs es)"

fun tree_ready :: "('l \<Rightarrow> bool) \<Rightarrow> 'l stream_tree \<Rightarrow> bool" where
  "tree_ready R (Source l) = R l"
| "tree_ready R (Combinator a b c) = (cb_chosen c \<noteq> NoneChosen)"

lemma kept_mono: "kept S ev em es \<Longrightarrow> S \<le> T \<Longrightarrow> kept T ev em es"
  by (auto simp: kept_def)

lemma node_holds_mono: "node_holds S c as bs es \<Longrightarrow> S \<le> T \<Longrightarrow> node_holds T c as bs es"
  by (auto simp: node_holds_def dest: kept_mono)

text \<open>Making a choice, and taking the chosen event.\<close>

lemma node_choose:
  assumes "in_time (side la as)" "in_time (side lb bs)" "polled S la as" "polled S lb bs"
    and "kept S la ea as" "kept S lb eb bs"
  defines "c \<equiv> \<lparr>cb_last_a = la, cb_last_b = lb, cb_empty_a = ea, cb_empty_b = eb, cb_chosen = choose_event la lb\<rparr>"
  shows "node_holds S c as bs (merge_events (side la as) (side lb bs))
    \<and> chosen_event c = first_upto S (merge_events (side la as) (side lb bs))"
proof -
  note m = choose_merge [OF assms(1-6)]
  show ?thesis
    using assms m by (cases "choose_event la lb")
      (auto simp: node_holds_def chosen_first_def chosen_event_def first_upto_def)
qed

lemma node_ready:
  assumes "node_holds S c as bs es" "cb_chosen c \<noteq> NoneChosen" "S \<le> stop"
  shows "chosen_event c = first_upto stop es"
  using assms by (cases "cb_chosen c")
    (auto simp: node_holds_def chosen_first_def chosen_event_def first_upto_def kept_def)

lemma invalidate_invalid [simp]: "\<not> event_isValid (invalidate e)"
  by (simp add: invalidate_def event_isValid_def)

lemma node_take:
  assumes "node_holds S c as bs (e # es)"
  shows "cb_chosen c = ChoseA \<Longrightarrow>
      node_holds S (c\<lparr>cb_last_a := invalidate (cb_last_a c), cb_chosen := NoneChosen\<rparr>) as bs es"
    and "cb_chosen c = ChoseB \<Longrightarrow>
      node_holds S (c\<lparr>cb_last_b := invalidate (cb_last_b c), cb_chosen := NoneChosen\<rparr>) as bs es"
  using assms by (auto simp: node_holds_def chosen_first_def kept_def in_time_Cons)

context event_source
begin

lemma tree_holds_mono: "tree_holds holds S t es \<Longrightarrow> S \<le> T \<Longrightarrow> tree_holds holds T t es"
proof (induction t arbitrary: es)
  case (Source l)
  then show ?case using holds_mono by simp
next
  case (Combinator a b c)
  then obtain as bs where n: "tree_holds holds S a as" "node_holds S c as bs es"
    "case b of None \<Rightarrow> bs = [] \<and> \<not> event_isValid (cb_last_b c) | Some b0 \<Rightarrow> tree_holds holds S b0 bs" by auto
  have "case b of None \<Rightarrow> bs = [] \<and> \<not> event_isValid (cb_last_b c) | Some b0 \<Rightarrow> tree_holds holds T b0 bs"
    using n(3) Combinator.IH(2) Combinator.prems(2) by (cases b) auto
  with n(1,2) Combinator.IH(1) Combinator.prems(2) node_holds_mono [of S c as bs es T] show ?case by auto
qed

lemma tree_complete_holds:
  assumes "tree_holds holds S t (e # es)" "in_time (e # es)" "tree_ready ready t"
  shows "\<exists>t1. tree_complete complete t = Inr t1 \<and> tree_holds holds S t1 es"
proof (cases t)
  case (Source l)
  with assms complete_holds [of S l e es] show ?thesis by auto
next
  case (Combinator a b c)
  with assms(1) obtain as bs where n: "tree_holds holds S a as" "node_holds S c as bs (e # es)"
    "case b of None \<Rightarrow> bs = [] \<and> \<not> event_isValid (cb_last_b c) | Some b0 \<Rightarrow> tree_holds holds S b0 bs" by auto
  show ?thesis
  proof (cases "cb_chosen c")
    case NoneChosen
    with assms(3) Combinator show ?thesis by simp
  next
    case ChoseA
    with node_take(1) [OF n(2)] n(1,3) Combinator show ?thesis by (auto split: option.splits)
  next
    case ChoseB
    with node_take(2) [OF n(2)] n(1,3) Combinator show ?thesis by (auto split: option.splits)
  qed
qed

lemma tree_poll:
  assumes "tree_holds holds S t es" "in_time (side ev es)" "kept S ev em es" "S \<le> stop"
    and "in_time es \<Longrightarrow> \<exists>t1. tree_prepareNext prep complete stop t = Inr (first_upto stop es, t1)
      \<and> tree_holds holds stop t1 es \<and> (first_upto stop es = None \<or> tree_ready ready t1)"
  shows "\<exists>t1 ev1 em1 es1. poll (tree_prepareNext prep complete stop t) (tree_complete complete) stop t ev em = Inr (t1, ev1, em1)
    \<and> tree_holds holds stop t1 es1 \<and> kept stop ev1 em1 es1 \<and> side ev1 es1 = side ev es \<and> polled stop ev1 es1"
  by (rule poll_holds [where holds = "tree_holds holds stop" and ready = "tree_ready ready", OF
        tree_holds_mono [OF assms(1,4)] assms(2-5) tree_complete_holds])

lemma tree_prep:
  assumes "tree_holds holds S t es" "in_time es" "S \<le> stop"
  shows "\<exists>t1. tree_prepareNext prep complete stop t = Inr (first_upto stop es, t1) \<and> tree_holds holds stop t1 es
    \<and> (first_upto stop es = None \<or> tree_ready ready t1)"
  using assms
proof (induction t arbitrary: es)
  case (Source l)
  with prep_holds [of S l es stop] show ?case by auto
next
  case (Combinator a b c)
  from Combinator.prems(1) obtain as bs where n: "tree_holds holds S a as" "node_holds S c as bs es"
    "case b of None \<Rightarrow> bs = [] \<and> \<not> event_isValid (cb_last_b c) | Some b0 \<Rightarrow> tree_holds holds S b0 bs" by auto
  note k = n(2) [unfolded node_holds_def]
  show ?case
  proof (cases "cb_chosen c = NoneChosen")
    case False
    with node_ready [OF n(2) False Combinator.prems(3)] tree_holds_mono [OF Combinator.prems(1,3)] show ?thesis by simp
  next
    case True
    let ?poll = "\<lambda>x. poll (tree_prepareNext prep complete stop x) (tree_complete complete) stop x"
    obtain a1 la ea as1 where A: "?poll a (cb_last_a c) (cb_empty_a c) = Inr (a1, la, ea)"
      "tree_holds holds stop a1 as1" "kept stop la ea as1" "side la as1 = side (cb_last_a c) as" "polled stop la as1"
      using tree_poll [OF n(1) _ _ Combinator.prems(3) Combinator.IH(1) [OF n(1) _ Combinator.prems(3)]] k by blast
    have "\<exists>b1 lb eb bs1. (case b of None \<Rightarrow> Inr (None, cb_last_b c, cb_empty_b c)
               | Some b0 \<Rightarrow> rbind (?poll b0 (cb_last_b c) (cb_empty_b c)) (\<lambda>(b1, ev_b, empty_b). Inr (Some b1, ev_b, empty_b)))
        = Inr (b1, lb, eb) \<and> (case b1 of None \<Rightarrow> bs1 = [] \<and> \<not> event_isValid lb | Some b0 \<Rightarrow> tree_holds holds stop b0 bs1)
        \<and> kept stop lb eb bs1 \<and> side lb bs1 = side (cb_last_b c) bs \<and> polled stop lb bs1"
    proof (cases b)
      case None
      with n(3) k kept_mono [OF _ Combinator.prems(3)] show ?thesis by (auto simp: polled_def)
    next
      case (Some b0)
      with n(3) have h: "tree_holds holds S b0 bs" by simp
      have "b0 \<in> set_option b" using Some by simp
      from tree_poll [OF h _ _ Combinator.prems(3) Combinator.IH(2) [OF this h _ Combinator.prems(3)]] k
      obtain b1 lb eb bs1 where "?poll b0 (cb_last_b c) (cb_empty_b c) = Inr (b1, lb, eb)"
        "tree_holds holds stop b1 bs1" "kept stop lb eb bs1" "side lb bs1 = side (cb_last_b c) bs" "polled stop lb bs1"
        by blast
      with Some show ?thesis by auto
    qed
    then obtain b1 lb eb bs1 where B: "(case b of None \<Rightarrow> Inr (None, cb_last_b c, cb_empty_b c)
               | Some b0 \<Rightarrow> rbind (?poll b0 (cb_last_b c) (cb_empty_b c)) (\<lambda>(b1, ev_b, empty_b). Inr (Some b1, ev_b, empty_b)))
        = Inr (b1, lb, eb)" "case b1 of None \<Rightarrow> bs1 = [] \<and> \<not> event_isValid lb | Some b0 \<Rightarrow> tree_holds holds stop b0 bs1"
        "kept stop lb eb bs1" "side lb bs1 = side (cb_last_b c) bs" "polled stop lb bs1" by blast
    let ?c = "\<lparr>cb_last_a = la, cb_last_b = lb, cb_empty_a = ea, cb_empty_b = eb, cb_chosen = choose_event la lb\<rparr>"
    have es: "es = merge_events (side la as1) (side lb bs1)" using k A(4) B(4) by simp
    have nc: "node_holds stop ?c as1 bs1 es \<and> chosen_event ?c = first_upto stop es"
      unfolding es using k A B by (intro node_choose) auto
    have "tree_prepareNext prep complete stop (Combinator a b c) = Inr (first_upto stop es, Combinator a1 b1 ?c)"
      using True A(1) B(1) nc by (simp add: Let_def)
    moreover have "tree_holds holds stop (Combinator a1 b1 ?c) es"
      unfolding tree_holds.simps using A(2) B(2) nc
      by (intro exI [of _ as1] exI [of _ bs1] conjI) (simp_all cong: option.case_cong)
    moreover have "first_upto stop es = None \<or> tree_ready ready (Combinator a1 b1 ?c)"
      using nc by (auto simp: chosen_event_def)
    ultimately show ?thesis by blast
  qed
qed

lemma tree_source: "event_source (tree_prepareNext prep complete) (tree_complete complete) (tree_holds holds) (tree_ready ready)"
  by (rule event_source.intro) (fact tree_prep, fact tree_complete_holds, fact tree_holds_mono)

text \<open>The tree over a list of sources.\<close>

lemma new_combinator_holds:
  assumes "in_time as" "in_time bs"
  shows "node_holds 0 new_combinator as bs (merge_events as bs)"
  using assms by (auto simp: node_holds_def new_combinator_def no_event_def event_isValid_def side_def kept_def
      chosen_first_def in_time_def)

lemma pair_up_holds:
  assumes "list_all2 (tree_holds holds 0) ts ess" "list_all in_time ess"
  shows "\<exists>ess1. list_all2 (tree_holds holds 0) (pair_up ts) ess1 \<and> list_all in_time ess1
    \<and> sum_list (map mset ess1) = sum_list (map mset ess)"
  using assms
proof (induction ts arbitrary: ess rule: pair_up.induct)
  case (1 a b ts)
  then obtain as bs ess' where ess: "ess = as # bs # ess'" "tree_holds holds 0 a as" "tree_holds holds 0 b bs"
    "list_all2 (tree_holds holds 0) ts ess'" by (auto simp: list_all2_Cons1)
  with 1 obtain ess1 where ess1: "list_all2 (tree_holds holds 0) (pair_up ts) ess1" "list_all in_time ess1"
    "sum_list (map mset ess1) = sum_list (map mset ess')" by auto
  have "tree_holds holds 0 (Combinator a (Some b) new_combinator) (merge_events as bs)"
    using ess 1(3) new_combinator_holds by auto
  with ess ess1 1(3) show ?case
    by (intro exI [of _ "merge_events as bs # ess1"]) (simp add: in_time_merge mset_merge add.assoc)
next
  case (2 a)
  then obtain as where ess: "ess = [as]" "tree_holds holds 0 a as" by (auto simp: list_all2_Cons1)
  have "\<not> event_isValid (cb_last_b new_combinator)"
    by (simp add: new_combinator_def no_event_def event_isValid_def)
  then have "tree_holds holds 0 (Combinator a None new_combinator) as"
    using ess 2 new_combinator_holds [of as "[]"] by auto
  with ess 2 show ?case by (intro exI [of _ "[as]"]) simp
qed simp

lemma makeBinaryTree_holds:
  assumes "list_all2 (tree_holds holds 0) ts ess" "list_all in_time ess" "ts \<noteq> []" "length ts \<le> 2 ^ (levels + 1)"
  shows "\<exists>t es. makeBinaryTree levels ts = Inr t \<and> tree_holds holds 0 t es \<and> in_time es
    \<and> mset es = sum_list (map mset ess)"
  using assms
proof (induction levels arbitrary: ts ess)
  case 0
  from pair_up_holds [OF 0(1,2)] obtain ess1 where p: "list_all2 (tree_holds holds 0) (pair_up ts) ess1"
    "list_all in_time ess1" "sum_list (map mset ess1) = sum_list (map mset ess)" by blast
  have "0 < length ts" using 0(3) by simp
  moreover have "length ts \<le> 2" using 0(4) by simp
  ultimately have "length ts = 1 \<or> length ts = 2" by linarith
  then have "length (pair_up ts) = 1" unfolding length_pair_up by auto
  then obtain t where "pair_up ts = [t]" by (auto simp: length_Suc_conv)
  with p 0(3) show ?case by (auto simp: list_all2_Cons1)
next
  case (Suc levels)
  from pair_up_holds [OF Suc.prems(1,2)] obtain ess1 where p: "list_all2 (tree_holds holds 0) (pair_up ts) ess1"
    "list_all in_time ess1" "sum_list (map mset ess1) = sum_list (map mset ess)" by blast
  have l: "length (pair_up ts) \<le> 2 ^ (levels + 1)"
    using Suc.prems(4) by (simp add: length_pair_up)
  have "pair_up ts \<noteq> []" using Suc.prems(3) by (cases ts rule: pair_up.cases) auto
  from Suc.IH [OF p(1,2) this l] p(3) Suc.prems(3) show ?case by simp
qed

end

text \<open>More streams than the tree has leaves for, or none at all, are refused.\<close>

lemma makeBinaryTree_refuses:
  assumes "ts = [] \<or> 2 ^ (levels + 1) < length ts"
  shows "makeBinaryTree levels ts = Inl Assert_Failure"
  using assms
proof (induction levels arbitrary: ts)
  case 0
  then show ?case by (cases "ts = []") (auto simp: length_pair_up)
next
  case (Suc levels)
  have "2 ^ (levels + 1) < length (pair_up ts)" if "ts \<noteq> []"
    using Suc.prems that unfolding length_pair_up by simp
  with Suc.IH [of "pair_up ts"] show ?case by simp
qed

end
