(* ===== verification/RingStream.thy ===== *)
theory RingStream
  imports EventSources HbtChunks
begin

text \<open>
  A ring buffer of events meets the contract of a source, so a tree of combinators over ring buffers does,
  and gives the events of all of them in the order of their time stamps.
\<close>

section \<open>Events as bytes\<close>

definition event_fits :: "event \<Rightarrow> bool" where
  "event_fits e \<longleftrightarrow> ev_tstamp e < 2 ^ 64 \<and> ev_level e < 2 ^ 8 \<and> ev_comp e < 2 ^ 16 \<and> ev_tag e < 2 ^ 32"

lemma code_type_code [simp]: "code_type (type_code t) = t"
  by (cases t) (simp_all add: code_type_def type_code_def)

lemma type_code_less: "type_code t < 256"
  by (cases t) (simp_all add: type_code_def)

lemma length_event_bytes [simp]: "length (event_bytes e) = event_size"
  by (simp add: event_bytes_def event_size_def)

lemma bytes_event_bytes:
  assumes "event_fits e"
  shows "bytes_event (event_bytes e) = e"
proof -
  have "decode_le (encode_le 8 (ev_tstamp e)) = ev_tstamp e" "decode_le (encode_le 1 (type_code (ev_type e))) = type_code (ev_type e)"
    "decode_le (encode_le 1 (ev_level e)) = ev_level e" "decode_le (encode_le 2 (ev_comp e)) = ev_comp e"
    "decode_le (encode_le 4 (ev_tag e)) = ev_tag e"
    using assms type_code_less [of "ev_type e"] by (intro decode_encode_le; simp add: event_fits_def)+
  then show ?thesis by (simp add: bytes_event_def event_bytes_def)
qed

section \<open>One read of an event\<close>

definition q_begin_read :: "bool \<Rightarrow> nat \<Rightarrow> byte_queue \<Rightarrow> (errno + byte list) \<times> byte_queue" where
  "q_begin_read cas n q =
     (if q_cap q < n then (Inl EINVAL, q)
      else
        case q_start_read cas q of
          (Inl e, q1) \<Rightarrow> (Inl e, q1)
        | (Inr _, q1) \<Rightarrow>
            (case q_take n q1 of
               (Inl e, q2) \<Rightarrow> (Inl e, snd (q_cancel_read q2))
             | (Inr bs, q2) \<Rightarrow> (Inr bs, q2)))"

lemma startReadTx_agrees:
  assumes "ring_inv s"
  shows "agrees (answer (\<lambda>bs. (0, bs)) (startReadTx (\<lambda>_. True) cas n s))
    (answer (\<lambda>bs. (0, bs)) (q_begin_read cas (unat n) (queue_of s)))"
proof (cases "n > hr_size s")
  case big: True
  with assms have "length (hr_data s) < unat n" by (elim ring_invE) (simp add: word_less_nat_alt)
  with big assms show ?thesis by (simp add: startReadTx_def q_begin_read_def agrees_answer queue_of_def)
next
  case small: False
  with assms have c: "\<not> length (hr_data s) < unat n" by (elim ring_invE) (simp add: word_less_nat_alt)
  have "agrees (answer (\<lambda>bs. (0, bs)) (case startReadTransaction cas s of
          (Inl e, s1) \<Rightarrow> (Inl e, s1)
        | (Inr _, s1) \<Rightarrow>
            (case readInTx (\<lambda>_. True) n s1 of
               (Inl e, s2) \<Rightarrow> (Inl e, snd (cancelReadTx s2))
             | (Inr bs, s2) \<Rightarrow> (Inr bs, s2))))
    (answer (\<lambda>bs. (0, bs)) (case q_start_read cas (queue_of s) of
          (Inl e, q1) \<Rightarrow> (Inl e, q1)
        | (Inr _, q1) \<Rightarrow>
            (case q_take (unat n) q1 of
               (Inl e, q2) \<Rightarrow> (Inl e, snd (q_cancel_read q2))
             | (Inr bs, q2) \<Rightarrow> (Inr bs, q2))))"
  proof (rule agrees_bind [OF start_read_agrees [OF assms, of "\<lambda>_. (0, [])"]])
    fix x s1 y q1 assume "queue_of s1 = q1" "ring_inv s1"
    with take_agrees(1) [of s1 "\<lambda>bs. (0, bs)" n] show "agrees
      (answer (\<lambda>bs. (0, bs)) (case readInTx (\<lambda>_. True) n s1 of (Inl e, s2) \<Rightarrow> (Inl e, snd (cancelReadTx s2)) | (Inr bs, s2) \<Rightarrow> (Inr bs, s2)))
      (answer (\<lambda>bs. (0, bs)) (case q_take (unat n) q1 of (Inl e, q2) \<Rightarrow> (Inl e, snd (q_cancel_read q2)) | (Inr bs, q2) \<Rightarrow> (Inr bs, q2)))"
      using state_of_cancel_read
      by (cases "readInTx (\<lambda>_. True) n s1"; cases "q_take (unat n) q1"; cases "fst (readInTx (\<lambda>_. True) n s1)";
          cases "fst (q_take (unat n) q1)") (auto simp: agrees_answer)
  qed
  with small c show ?thesis by (simp add: startReadTx_def q_begin_read_def queue_of_def)
qed

section \<open>The contract\<close>

definition ring_events :: "ring_stream \<Rightarrow> event list \<Rightarrow> bool" where
  "ring_events s es \<longleftrightarrow>
     ring_inv (rs_ring s) \<and> event_size \<le> length (hr_data (rs_ring s))
     \<and> contents (rs_ring s) = concat (map event_bytes es) \<and> list_all event_fits es
     \<and> (case rs_next s of
          None \<Rightarrow> \<not> hr_rtx (rs_ring s)
        | Some e \<Rightarrow> hr_rtx (rs_ring s) \<and> unat (co_tx (rs_ring s)) = event_size \<and> (\<exists>es1. es = e # es1))"

definition ring_ready :: "ring_stream \<Rightarrow> bool" where
  "ring_ready s \<longleftrightarrow> rs_next s \<noteq> None"

lemma startReadTx_event:
  assumes "ring_events s es" "rs_next s = None"
  shows "\<exists>r. startReadTx (\<lambda>_. True) True (of_nat event_size) (rs_ring s) =
      (case es of [] \<Rightarrow> Inl ENODATA | e # _ \<Rightarrow> Inr (event_bytes e), r)
    \<and> ring_events \<lparr>rs_ring = r, rs_next = (case es of [] \<Rightarrow> None | e # _ \<Rightarrow> Some e)\<rparr> es"
proof -
  let ?r = "rs_ring s"
  note h = assms(1) [unfolded ring_events_def assms(2), simplified]
  have sz: "unat (of_nat event_size :: 64 word) = event_size" "0 < event_size" by (simp_all add: event_size_def)
  note a = startReadTx_agrees [of ?r True "of_nat event_size", unfolded sz(1)]
  have q: "queue_of ?r = \<lparr>q_cap = length (hr_data ?r), q_bytes = concat (map event_bytes es),
      q_write = (if hr_wtx ?r then Some (pending ?r) else None), q_read = None\<rparr>"
    using h by (simp add: queue_of_def)
  obtain x r where r: "startReadTx (\<lambda>_. True) True (of_nat event_size) ?r = (x, r)" by (metis prod.exhaust)
  from a r h have x: "map_sum id (\<lambda>bs. (0, bs)) x = map_sum id (\<lambda>bs. (0 :: nat, bs)) (fst (q_begin_read True event_size (queue_of ?r)))"
    and s: "queue_of r = snd (q_begin_read True event_size (queue_of ?r))" "ring_inv r" by (simp_all add: agrees_answer)
  show ?thesis
  proof (cases es)
    case Nil
    with x s h sz(2) have "x = Inl ENODATA" "queue_of r = queue_of ?r"
      by (cases x; simp add: q_begin_read_def q_start_read_def q_take_def q_cancel_read_def q)+
    with Nil r s(2) h show ?thesis
      by (auto simp: ring_events_def queue_of_def split: if_splits)
  next
    case (Cons e es1)
    with x s h sz(2) have "x = Inr (event_bytes e)" "queue_of r = (queue_of ?r)\<lparr>q_read := Some event_size\<rparr>"
      by (cases x; simp add: q_begin_read_def q_start_read_def q_take_def q_cancel_read_def q)+
    with Cons r s(2) h show ?thesis
      by (auto simp: ring_events_def queue_of_def split: if_splits)
  qed
qed

text \<open>A weak exchange that fails is tried again with the ring unchanged.\<close>

lemma retry_read_event:
  assumes "ring_events s es" "rs_next s = None" "True \<in> set attempts"
  shows "retry_read (\<lambda>_. True) attempts (rs_ring s) = startReadTx (\<lambda>_. True) True (of_nat event_size) (rs_ring s)"
  using assms(3)
proof (induction attempts)
  case (Cons cas attempts)
  from startReadTx_event [OF assms(1,2)] obtain r where
    r: "startReadTx (\<lambda>_. True) True (of_nat event_size) (rs_ring s) =
      (case es of [] \<Rightarrow> Inl ENODATA | e # _ \<Rightarrow> Inr (event_bytes e), r)" by blast
  have "\<not> of_nat event_size > hr_size (rs_ring s)" "\<not> hr_rtx (rs_ring s)"
    using assms(1,2) by (auto simp: ring_events_def word_less_nat_alt event_size_def elim!: ring_invE)
  then have "startReadTx (\<lambda>_. True) False (of_nat event_size) (rs_ring s) = (Inl EAGAIN, rs_ring s)"
    by (simp add: startReadTx_def startReadTransaction_def)
  with Cons r show ?case by (cases cas; cases "attempts = []"; cases es) auto
qed simp

lemma ring_prep:
  assumes "ring_events s es" "\<exists>i \<le> max_num_retries. cas i"
  shows "\<exists>s1. ring_prepareNext (\<lambda>_. True) cas stop s = Inr (first_upto stop es, s1) \<and> ring_events s1 es
    \<and> (first_upto stop es = None \<or> ring_ready s1)"
proof (cases "rs_next s")
  case (Some e)
  with assms(1) obtain es1 where "es = e # es1" by (auto simp: ring_events_def)
  with Some assms(1) show ?thesis by (auto simp: ring_prepareNext_def first_upto_def ring_ready_def)
next
  case None
  from assms(2) have "True \<in> set (map cas [0..<max_num_retries + 1])" by force
  note rt = retry_read_event [OF assms(1) None this]
  from startReadTx_event [OF assms(1) None] obtain r where
    r: "startReadTx (\<lambda>_. True) True (of_nat event_size) (rs_ring s) =
      (case es of [] \<Rightarrow> Inl ENODATA | e # _ \<Rightarrow> Inr (event_bytes e), r)"
    "ring_events \<lparr>rs_ring = r, rs_next = (case es of [] \<Rightarrow> None | e # _ \<Rightarrow> Some e)\<rparr> es" by blast
  have upd: "s\<lparr>rs_ring := r\<rparr> = \<lparr>rs_ring = r, rs_next = None\<rparr>" "s\<lparr>rs_ring := r, rs_next := x\<rparr> = \<lparr>rs_ring = r, rs_next = x\<rparr>" for x
    using None by (cases s; simp)+
  show ?thesis
  proof (cases es)
    case Nil
    with None rt r show ?thesis by (simp add: ring_prepareNext_def first_upto_def upd)
  next
    case (Cons e es1)
    then have "bytes_event (event_bytes e) = e"
      using assms(1) by (intro bytes_event_bytes) (simp add: ring_events_def)
    with Cons None rt r show ?thesis by (simp add: ring_prepareNext_def first_upto_def upd ring_ready_def)
  qed
qed

lemma ring_complete_events:
  assumes "ring_events s (e # es)" "ring_ready s"
  shows "\<exists>s1. ring_complete s = Inr s1 \<and> ring_events s1 es"
proof -
  let ?r = "rs_ring s"
  have h: "ring_inv ?r" "hr_rtx ?r" "unat (co_tx ?r) = event_size" "event_size \<le> length (hr_data ?r)"
      "contents ?r = event_bytes e @ concat (map event_bytes es)" "list_all event_fits es"
    using assms by (auto simp: ring_events_def ring_ready_def)
  from commit_read_agrees [OF h(1), of "\<lambda>_. (0, [])"] h have
    "queue_of (snd (commitReadTx ?r)) = (queue_of ?r)\<lparr>q_bytes := concat (map event_bytes es), q_read := None\<rparr>"
    "ring_inv (snd (commitReadTx ?r))"
    by (auto simp: agrees_answer q_commit_read_def queue_of_def)
  then have "ring_events (s\<lparr>rs_ring := snd (commitReadTx ?r), rs_next := None\<rparr>) es"
    using h by (auto simp: ring_events_def queue_of_def split: if_splits)
  then show ?thesis by (simp add: ring_complete_def)
qed

interpretation ring: event_source "ring_prepareNext (\<lambda>_. True) cas" ring_complete
    "\<lambda>S s es. ring_events s es \<and> (\<exists>i \<le> max_num_retries. cas i)" ring_ready for cas
proof unfold_locales
  show "\<exists>s1. ring_prepareNext (\<lambda>_. True) cas stop s = Inr (first_upto stop es, s1)
      \<and> (ring_events s1 es \<and> (\<exists>i \<le> max_num_retries. cas i)) \<and> (first_upto stop es = None \<or> ring_ready s1)"
    if "ring_events s es \<and> (\<exists>i \<le> max_num_retries. cas i)" for s es stop
    using ring_prep [of s es cas stop] that by blast
  show "\<exists>s1. ring_complete s = Inr s1 \<and> ring_events s1 es \<and> (\<exists>i \<le> max_num_retries. cas i)"
    if "ring_events s (e # es) \<and> (\<exists>i \<le> max_num_retries. cas i)" "ring_ready s" for s e es
    using ring_complete_events [of s e es] that by blast
qed

interpretation rings: event_source "tree_prepareNext (ring_prepareNext (\<lambda>_. True) cas) ring_complete"
    "tree_complete ring_complete" "tree_holds (\<lambda>S s es. ring_events s es \<and> (\<exists>i \<le> max_num_retries. cas i))"
    "tree_ready ring_ready" for cas
  by (rule ring.tree_source)

section \<open>Properties\<close>

abbreviation drain_rings :: "(nat \<Rightarrow> bool) \<Rightarrow> nat \<Rightarrow> nat \<Rightarrow> ring_stream stream_tree
    \<Rightarrow> (event list \<times> ring_stream stream_tree) result" where
  "drain_rings cas \<equiv> drain (tree_prepareNext (ring_prepareNext (\<lambda>_. True) cas) ring_complete) (tree_complete ring_complete)"

lemma rings_tree:
  assumes "list_all2 ring_events rings ess" "list_all in_time ess" "rings \<noteq> []" "length rings \<le> 2 ^ (levels + 1)"
    and "\<exists>i \<le> max_num_retries. cas i"
  shows "\<exists>t es. makeBinaryTree levels (map Source rings) = Inr t
    \<and> tree_holds (\<lambda>S s es. ring_events s es \<and> (\<exists>i \<le> max_num_retries. cas i)) 0 t es \<and> in_time es
    \<and> mset es = sum_list (map mset ess)"
proof (rule ring.makeBinaryTree_holds)
  show "list_all2 (tree_holds (\<lambda>S s es. ring_events s es \<and> (\<exists>i \<le> max_num_retries. cas i)) 0) (map Source rings) ess"
    using assms(1,5) by (auto simp: list_all2_map1 elim: list_all2_mono)
qed (use assms(2-4) in auto)

lemma rings_merge:
  assumes "list_all2 ring_events rings ess" "list_all in_time ess" "rings \<noteq> []" "length rings \<le> 2 ^ (levels + 1)"
    and "\<exists>i \<le> max_num_retries. cas i"
  shows "\<exists>t es. makeBinaryTree levels (map Source rings) = Inr t \<and> in_time es \<and> mset es = sum_list (map mset ess)
    \<and> map_sum id fst (drain_rings cas n stop t) = Inr (take n (takeWhile (\<lambda>e. ev_tstamp e \<le> stop) es))"
proof -
  from rings_tree [OF assms] obtain t es where t: "makeBinaryTree levels (map Source rings) = Inr t"
    "tree_holds (\<lambda>S s es. ring_events s es \<and> (\<exists>i \<le> max_num_retries. cas i)) 0 t es" "in_time es"
    "mset es = sum_list (map mset ess)" by blast
  from rings.drain_takes [OF t(2,3), of stop n] t show ?thesis by (intro exI [of _ t] exI [of _ es]) auto
qed

text \<open>C17: Reading through the binary tree of combinators over ring buffers, whose events are each in the order of
  their time stamps, gives the events of all the rings merged in that order: the reader gets the first ones
  of them up to its stop time, as many as it asks for, whatever the number of rings the tree has leaves for
  and although a weak exchange may fail twice before it succeeds.\<close>

theorem combined_rings_merge:
  assumes "list_all2 ring_events rings ess" "list_all in_time ess" "rings \<noteq> []" "length rings \<le> 2 ^ (levels + 1)"
    and "\<exists>i \<le> max_num_retries. cas i"
  shows "\<exists>t es. makeBinaryTree levels (map Source rings) = Inr t \<and> in_time es \<and> mset es = sum_list (map mset ess)
    \<and> map_sum id fst (drain_rings cas n stop t) = Inr (take n (takeWhile (\<lambda>e. ev_tstamp e \<le> stop) es))"
  by (rule rings_merge [OF assms])

text \<open>Two rings of 32 and 16 bytes, filled by their producers.\<close>

definition two_rings :: "ring_stream list" where
  "two_rings =
     [\<lparr>rs_ring = snd (send_record (event_bytes (makeSwitchIn 9 0 3 0))
        (snd (send_record (event_bytes (makeSwitchIn 5 0 7 0)) (new_ring 32 (replicate 32 0))))), rs_next = None\<rparr>,
      \<lparr>rs_ring = snd (send_record (event_bytes (makeSwitchIn 6 0 8 1)) (new_ring 16 (replicate 16 0))), rs_next = None\<rparr>]"

definition two_rings_events :: "event list list" where
  "two_rings_events = [[makeSwitchIn 5 0 7 0, makeSwitchIn 9 0 3 0], [makeSwitchIn 6 0 8 1]]"

lemma ring_holds_events:
  assumes "ring_holds id (record_ok event_size) r (map event_bytes es)" "list_all event_fits es"
    and "event_size \<le> length (hr_data r)"
  shows "ring_events \<lparr>rs_ring = r, rs_next = None\<rparr> es"
  using assms by (simp add: ring_events_def ring_holds_def)

lemma new_ring_record:
  assumes "ring_holds id (record_ok event_size) r cs" "fst (send_record (event_bytes e) r)"
  shows "ring_holds id (record_ok event_size) (snd (send_record (event_bytes e) r)) (cs @ [event_bytes e])"
  using fixed.send_holds [OF assms(1), of "event_bytes e"] assms(2)
  by (simp add: record_ok_def) (simp add: event_size_def)

lemma two_rings_hold: "list_all2 ring_events two_rings two_rings_events"
proof -
  let ?e = "makeSwitchIn 5 0 7 0" and ?f = "makeSwitchIn 9 0 3 0" and ?g = "makeSwitchIn 6 0 8 1"
  let ?r = "new_ring 32 (replicate 32 0)" and ?q = "new_ring 16 (replicate 16 0)"
  have sizes: "unat (nextPow2 32) = 32" "unat (nextPow2 16) = 16" by code_simp+
  have sent: "fst (send_record (event_bytes ?e) ?r)" "fst (send_record (event_bytes ?f) (snd (send_record (event_bytes ?e) ?r)))"
    "fst (send_record (event_bytes ?g) ?q)" by code_simp+
  have len: "length (hr_data (snd (send_record (event_bytes ?f) (snd (send_record (event_bytes ?e) ?r))))) = 32"
    "length (hr_data (snd (send_record (event_bytes ?g) ?q))) = 16" by code_simp+
  have fits: "event_fits ?e" "event_fits ?f" "event_fits ?g"
    by (simp_all add: event_fits_def makeSwitchIn_def)
  have "ring_holds id (record_ok event_size) ?r []" "ring_holds id (record_ok event_size) ?q []"
    using sizes by (intro new_ring_holds; simp)+
  from new_ring_record [OF new_ring_record [OF this(1) sent(1)] sent(2)] new_ring_record [OF this(2) sent(3)]
  show ?thesis using fits len unfolding two_rings_def two_rings_events_def
    by (simp add: event_size_def ring_holds_events [unfolded event_size_def])
qed

lemma two_rings_in_time: "list_all in_time two_rings_events"
  by (simp add: two_rings_events_def in_time_def makeSwitchIn_def kInvalidTimeStamp_def)

theorem combined_rings_merge_witness:
  "\<exists>t es. makeBinaryTree 0 (map Source two_rings) = Inr t \<and> in_time es \<and> mset es = sum_list (map mset two_rings_events)
    \<and> map_sum id fst (drain_rings (\<lambda>i. i = 2) 3 8 t) = Inr (take 3 (takeWhile (\<lambda>e. ev_tstamp e \<le> 8) es))"
  by (rule combined_rings_merge [OF two_rings_hold two_rings_in_time])
    (simp_all add: two_rings_def max_num_retries_def)

end
