(* ===== verification/SlicedStreams.thy ===== *)
theory SlicedStreams
  imports RingStream SlicerClaims
begin

text \<open>
  The slicer behind a tree of combinators: it reads its events as every reader of a stream does, and the order
  the combinators keep is the order it needs.
\<close>

lemma prepareNext_first: "prepareNext stop s = first_upto stop (sl_events s)"
  by (simp add: prepareNext_def first_upto_def)

section \<open>Streams in order\<close>

lemma processNext_in_order:
  assumes "stream_ok s" "in_time (sl_events s @ future)" "\<forall>e \<in> set (sl_events s @ future). sl_last_ts s \<le> ev_tstamp e"
    and "processNext tid0 m stop s = Inr (k, s1)"
  shows "n_out_of_order (sl_stats s1) = n_out_of_order (sl_stats s)
    \<and> in_time (sl_events s1 @ future) \<and> (\<forall>e \<in> set (sl_events s1 @ future). sl_last_ts s1 \<le> ev_tstamp e)"
  using assms
proof (induction tid0 m stop s arbitrary: k s1 rule: processNext.induct)
  case (1 tid0 m stop s)
  show ?case
  proof (cases "m = 0 \<or> prepareNext stop s = None")
    case True
    then have "processNext tid0 m stop s = Inr (0, s)" by (auto simp: processNext.simps [of tid0 m])
    with 1(4,5,6) show ?thesis by simp
  next
    case False
    then obtain ev es where m: "m \<noteq> 0" and ev: "prepareNext stop s = Some ev" "sl_events s = ev # es"
      using prepareNext_Some by fastforce
    have valid: "ev_tstamp ev \<noteq> kInvalidTimeStamp" "ev_comp ev < length (sl_active s)" "ev_comp ev < length (sl_slices s)"
      and inv: "slicer_inv (sl_last_ts s) s"
      using 1(3) ev(2) by (auto simp: stream_ok_def event_isValid_def slicer_inv_def groups_ok_def)
    have le: "\<not> ev_tstamp ev < sl_last_ts s" using 1(5) ev(2) by auto
    with valid ev(1) m 1(6) obtain s2 k2 where s2: "process_event tid0 ev s = Inr s2"
      "processNext tid0 (m - 1) stop s2 = Inr (k2, s1)"
      by (auto simp: processNext.simps [of tid0 m] rbind_eq_Inr_iff)
    have "slicer_inv (ev_tstamp ev) s" using le by (intro slicer_inv_mono [OF inv]) simp
    from process_event_deals [OF this valid(2,1), of tid0] s2(1) have h: "handled ev s s2" by (auto simp: deals_def)
    then have ok: "stream_ok s2" "sl_events s2 = es" using 1(3) ev(2) by (auto simp: stream_ok_def handled_def)
    have fut: "in_time (sl_events s2 @ future)" "\<forall>e \<in> set (sl_events s2 @ future). sl_last_ts s2 \<le> ev_tstamp e"
      using 1(4) ev(2) h ok(2) by (auto simp: in_time_Cons handled_def)
    from 1(2) [OF m ev(1) _ le ok(1) fut s2(2)] valid h show ?thesis by (simp add: handled_def)
  qed
qed

lemma session_in_order:
  assumes "stream_ok s" "session_ok (length (sl_active s)) calls" "in_time (sl_events s @ concat (map fst calls))"
    and "\<forall>e \<in> set (sl_events s @ concat (map fst calls)). sl_last_ts s \<le> ev_tstamp e"
    and "slicer_session tid0 calls s = Inr s1"
  shows "n_out_of_order (sl_stats s1) = n_out_of_order (sl_stats s)"
  using assms
proof (induction calls arbitrary: s)
  case (Cons call calls)
  obtain events m stop where call: "call = (events, m, stop)" by (cases call) auto
  let ?s = "s\<lparr>sl_events := sl_events s @ events\<rparr>"
  have ok: "stream_ok ?s" using Cons.prems by (intro stream_ok_feed) (auto simp: session_ok_def call)
  obtain k s2 where s2: "processNext tid0 m stop ?s = Inr (k, s2)" "slicer_session tid0 calls s2 = Inr s1"
    using Cons.prems(5) by (auto simp: call rbind_eq_Inr_iff)
  have o: "n_out_of_order (sl_stats s2) = n_out_of_order (sl_stats s)"
    "in_time (sl_events s2 @ concat (map fst calls))" "\<forall>e \<in> set (sl_events s2 @ concat (map fst calls)). sl_last_ts s2 \<le> ev_tstamp e"
    using processNext_in_order [OF ok _ _ s2(1), of "concat (map fst calls)"] Cons.prems(3,4) by (simp_all add: call)
  have "stream_ok s2" "session_ok (length (sl_active s2)) calls"
    using processNext_deals [OF ok, of tid0 m stop] s2(1) Cons.prems(2) by (auto simp: session_ok_def)
  from Cons.IH [OF this o(2,3) s2(2)] o(1) show ?case by simp
qed simp

lemma in_time_take: "in_time es \<Longrightarrow> in_time (take n (takeWhile P es))"
  unfolding in_time_def by (auto simp: sorted_wrt_take sorted_wrt_takeWhile dest!: in_set_takeD set_takeWhileD)

section \<open>Property\<close>

text \<open>C18: When the events of every ring are in the order of their time stamps, the rings are filled before they are
  drained up to one stop time, and an exchange succeeds within its retries, slicing the events that come out of the
  tree of combinators over the rings, however they are split into batches, meets no event out of order; so the
  slices of each compute unit follow one another without overlap.\<close>

theorem combined_slices_in_order:
  assumes "list_all2 ring_events rings ess" "list_all in_time ess" "length rings \<le> 2 ^ (levels + 1)"
    and "\<exists>i \<le> max_num_retries. cas i" "makeBinaryTree levels (map Source rings) = Inr t"
    and "drain_rings cas m stop t = Inr (events, t1)" "concat (map fst calls) = events"
    and "\<forall>e \<in> set (concat ess). ev_comp e < n"
    and "make_slicer [] n = Inr s0" "slicer_session tid0 calls s0 = Inr s" "g < n"
  shows "n_out_of_order (sl_stats s) = 0 \<and> in_sequence (sl_slices s ! g)"
proof -
  have ne: "rings \<noteq> []" using assms(5) makeBinaryTree_refuses [of "map Source rings" levels] by auto
  from rings_merge [OF assms(1,2) ne assms(3,4), of m stop] assms(5,6) obtain es where
    es: "in_time es" "mset es = sum_list (map mset ess)" "events = take m (takeWhile (\<lambda>e. ev_tstamp e \<le> stop) es)"
    by auto
  have "set es = set (concat ess)"
    using arg_cong [OF es(2), of set_mset] by (induction ess) auto
  then have units: "\<forall>e \<in> set events. ev_comp e < n"
    using assms(8) es(3) by (auto dest!: in_set_takeD set_takeWhileD)
  have "in_time events" using es(1,3) in_time_take by simp
  then have sess: "session_ok n calls"
    using units unfolding assms(7) [symmetric] by (fastforce simp: session_ok_def in_time_def event_isValid_def)
  have ok: "stream_ok s0" "length (sl_active s0) = n" using make_slicer_ok [OF assms(9)] by simp_all
  have s0: "sl_events s0 = []" "sl_last_ts s0 = 0" "n_out_of_order (sl_stats s0) = 0"
    using assms(9) by (auto simp: make_slicer_def zero_stats_def split: if_splits)
  have "n_out_of_order (sl_stats s) = 0"
    using session_in_order [OF ok(1) _ _ _ assms(10)] sess ok(2) \<open>in_time events\<close> s0 assms(7) by simp
  with slices_in_order_group [OF assms(9) sess assms(10) this assms(11)] show ?thesis by simp
qed

text \<open>The events of the two rings in their order.\<close>

lemma two_rings_order:
  assumes "in_time es" "mset es = sum_list (map mset two_rings_events)"
  shows "es = [makeSwitchIn 5 0 7 0, makeSwitchIn 6 0 8 1, makeSwitchIn 9 0 3 0]"
proof -
  let ?xs = "[makeSwitchIn 5 0 7 0, makeSwitchIn 6 0 8 1, makeSwitchIn 9 0 3 0]"
  have m: "mset es = mset ?xs" using assms(2) by (simp add: two_rings_events_def)
  have st: "set es = set ?xs" using arg_cong [OF m, of set_mset] by simp
  have "mset (map ev_tstamp es) = mset (map ev_tstamp ?xs)" using m by simp
  from mset_eq_imp_distinct_iff [OF this] have d: "distinct (map ev_tstamp es)" by (simp add: makeSwitchIn_def)
  show ?thesis
  proof (rule map_sorted_distinct_set_unique [OF _ _ d _ _ st])
    show "sorted (map ev_tstamp es)" using assms(1) by (simp add: in_time_def sorted_map)
  qed (simp_all add: st, simp_all add: makeSwitchIn_def)
qed

theorem combined_slices_in_order_witness:
  "\<exists>t t1 s. makeBinaryTree 0 (map Source two_rings) = Inr t
    \<and> drain_rings (\<lambda>i. i = 2) 3 8 t = Inr ([makeSwitchIn 5 0 7 0, makeSwitchIn 6 0 8 1], t1)
    \<and> slicer_session True [([makeSwitchIn 5 0 7 0], 10, 100), ([makeSwitchIn 6 0 8 1], 10, 100)] (projr (make_slicer [] 2)) = Inr s
    \<and> n_out_of_order (sl_stats s) = 0 \<and> in_sequence (sl_slices s ! 1)"
proof -
  have r: "two_rings \<noteq> []" "length two_rings \<le> 2 ^ (0 + 1)" "\<exists>i \<le> max_num_retries. i = 2"
    by (simp_all add: two_rings_def max_num_retries_def)
  from rings_merge [OF two_rings_hold two_rings_in_time r, of 3 8] obtain t es where
    t: "makeBinaryTree 0 (map Source two_rings) = Inr t" "in_time es" "mset es = sum_list (map mset two_rings_events)"
      "map_sum id fst (drain_rings (\<lambda>i. i = 2) 3 8 t) = Inr (take 3 (takeWhile (\<lambda>e. ev_tstamp e \<le> 8) es))" by blast
  have "take 3 (takeWhile (\<lambda>e. ev_tstamp e \<le> 8) es) = [makeSwitchIn 5 0 7 0, makeSwitchIn 6 0 8 1]"
    unfolding two_rings_order [OF t(2,3)] by (simp add: makeSwitchIn_def)
  with t(4) obtain t1 where t1: "drain_rings (\<lambda>i. i = 2) 3 8 t = Inr ([makeSwitchIn 5 0 7 0, makeSwitchIn 6 0 8 1], t1)"
    by (cases "drain_rings (\<lambda>i. i = 2) 3 8 t") auto
  have "\<exists>s. slicer_session True [([makeSwitchIn 5 0 7 0], 10, 100), ([makeSwitchIn 6 0 8 1], 10, 100)] (projr (make_slicer [] 2)) = Inr s"
    by (simp add: slicer_run)
  then obtain s where s: "slicer_session True [([makeSwitchIn 5 0 7 0], 10, 100), ([makeSwitchIn 6 0 8 1], 10, 100)]
      (projr (make_slicer [] 2)) = Inr s" by blast
  have "n_out_of_order (sl_stats s) = 0 \<and> in_sequence (sl_slices s ! 1)"
    by (rule combined_slices_in_order [OF two_rings_hold two_rings_in_time r(2,3) t(1) t1 _ _ _ s, where n = 2])
      (simp_all add: two_rings_events_def make_slicer_def, simp_all add: makeSwitchIn_def)
  with t(1) t1 s show ?thesis by blast
qed

end
