(* ===== verification/IntervalSlicer.thy ===== *)
theory IntervalSlicer
  imports HbtRing Slicer
begin

text \<open>
  Slices by interval of time (\<^verbatim>\<open>src/hbt/src/tagstack/IntervalSlicer.h\<close>,
  \<^verbatim>\<open>IntervalSlicer.cpp\<close>): a ring buffer of slices with marks for its consumers, and the slices
  that intersect an interval.  An operation that throws leaves its transaction open, so its state is a result
  too.  A read within a transaction goes on until there is no slice left; the number of bytes of the ring bounds
  the number of reads.  The name of a consumer is a string, the marks are a list of pairs.
\<close>

section \<open>Slices in memory\<close>

definition slice_size :: nat where
  "slice_size = 32"

definition transition_code :: "transition_type \<Rightarrow> nat" where
  "transition_code t = (case t of NA \<Rightarrow> 0 | Analysis \<Rightarrow> 1 | ThreadPreempted \<Rightarrow> 2 | ThreadYield \<Rightarrow> 3 | PhaseChange \<Rightarrow> 4)"

definition code_transition :: "nat \<Rightarrow> transition_type" where
  "code_transition n = (if n = 0 then NA else if n = 1 then Analysis else if n = 2 then ThreadPreempted
     else if n = 3 then ThreadYield else PhaseChange)"

text \<open>The six bytes of padding are zero here.\<close>

definition slice_bytes :: "slice \<Rightarrow> byte list" where
  "slice_bytes s = encode_le 8 (sc_tstamp s) @ encode_le 8 (sc_duration s) @ encode_le 8 (sc_stack_id s)
     @ encode_le 1 (transition_code (sc_swin s)) @ encode_le 1 (transition_code (sc_swout s)) @ replicate 6 0"

definition bytes_slice :: "byte list \<Rightarrow> slice" where
  "bytes_slice bs = \<lparr>sc_tstamp = decode_le (take 8 bs), sc_duration = decode_le (take 8 (drop 8 bs)),
     sc_stack_id = decode_le (take 8 (drop 16 bs)), sc_swin = code_transition (decode_le (take 1 (drop 24 bs))),
     sc_swout = code_transition (decode_le (take 1 (drop 25 bs)))\<rparr>"

section \<open>Slices of several intervals\<close>

definition countSlices :: "slice list list \<Rightarrow> nat" where
  "countSlices pis = foldl (\<lambda>cumm s. cumm + length s) 0 pis"

text \<open>Selecting a slice that an interval does not have reads past its end.\<close>

definition filter_slices :: "bool list list \<Rightarrow> slice list list \<Rightarrow> slice list list result" where
  "filter_slices sel pis =
     (if length sel \<noteq> length pis then Inl Invalid_Argument
      else if \<exists>c < length sel. \<exists>s < length (sel ! c). sel ! c ! s \<and> length (pis ! c) \<le> s then Inl Undefined_Behaviour
      else Inr (map (\<lambda>(b, s). map fst (filter snd (zip s b))) (zip sel pis)))"

definition getTimeStampRange :: "slice list list \<Rightarrow> (nat \<times> nat) option" where
  "getTimeStampRange pis =
     (case find (\<lambda>s. s \<noteq> []) pis of
        None \<Rightarrow> None
      | Some first \<Rightarrow>
          (case find (\<lambda>s. s \<noteq> []) (rev pis) of
             None \<Rightarrow> None
           | Some final \<Rightarrow> Some (sc_tstamp (hd first), sc_tstamp (last final) + sc_duration (last final))))"

section \<open>State\<close>

record interval_slicer =
  is_ring :: ring_sys
  is_drop :: "64 word"                       \<comment> \<open>\<^verbatim>\<open>kBytesDropIfFull\<close>\<close>
  is_processed :: "64 word"                  \<comment> \<open>\<^verbatim>\<open>num_processed_slices_\<close>\<close>
  is_marks :: "(string \<times> 64 word) list"      \<comment> \<open>\<^verbatim>\<open>consumer_marks_\<close>\<close>

definition kMaxNumRetries :: nat where
  "kMaxNumRetries = 2"

definition make_interval_slicer :: "64 word \<Rightarrow> 64 word \<Rightarrow> byte list \<Rightarrow> interval_slicer result" where
  "make_interval_slicer min_num_slices num_slices_drop_if_full memory =
     (if min_num_slices = 0 then Inl Invalid_Argument
      else Inr \<lparr>is_ring = new_ring (min_num_slices * of_nat slice_size) memory,
        is_drop = num_slices_drop_if_full * of_nat slice_size, is_processed = 0, is_marks = []\<rparr>)"

text \<open>The outcome of the weak exchange of each write and of each drop is an argument.\<close>

fun write_retries :: "(bool \<times> bool) list \<Rightarrow> byte list \<Rightarrow> 64 word \<Rightarrow> errno + 64 word \<Rightarrow> ring_sys
    \<Rightarrow> (errno + 64 word) \<times> ring_sys" where
  "write_retries [] bytes drop_bytes ret r = (ret, r)"
| "write_retries ((cas, cas_drop) # retries) bytes drop_bytes ret r =
     (case ring_put cas bytes r of
        (Inr n, r1) \<Rightarrow>
          if 0 < n then (Inr n, r1) else write_retries retries bytes drop_bytes (Inr n) r1
      | (Inl e, r1) \<Rightarrow>
          write_retries retries bytes drop_bytes (Inl e)
            (if drop_bytes > 0 \<and> e = ENOSPC then snd (producer_dropN cas_drop drop_bytes r1) else r1))"

definition write_slice :: "(nat \<Rightarrow> bool \<times> bool) \<Rightarrow> slice \<Rightarrow> interval_slicer
    \<Rightarrow> ((errno + 64 word) \<times> interval_slicer) result" where
  "write_slice cas s st =
     (if sc_tstamp s = kInvalidTimeStamp then Inl Invalid_Argument
      else
        let (ret, r) = write_retries (map cas [0..<kMaxNumRetries]) (slice_bytes s) (is_drop st) (Inr 0) (is_ring st)
        in Inr (ret, st\<lparr>is_ring := r\<rparr>))"

section \<open>Marks\<close>

definition registerConsumerMark :: "string \<Rightarrow> interval_slicer \<Rightarrow> interval_slicer result" where
  "registerConsumerMark key st =
     (if map_of (is_marks st) key \<noteq> None then Inl Invalid_Argument
      else Inr (st\<lparr>is_marks := (key, is_processed st) # is_marks st\<rparr>))"

definition set_mark :: "string \<Rightarrow> 64 word \<Rightarrow> (string \<times> 64 word) list \<Rightarrow> (string \<times> 64 word) list" where
  "set_mark key v marks = map (\<lambda>(k, m). if k = key then (k, v) else (k, m)) marks"

definition updateConsumerMark :: "string \<Rightarrow> 64 word \<Rightarrow> interval_slicer \<Rightarrow> interval_slicer result" where
  "updateConsumerMark key new_offset st =
     (if map_of (is_marks st) key = None then Inl Invalid_Argument
      else Inr (st\<lparr>is_marks := set_mark key new_offset (is_marks st)\<rparr>))"

definition removeConsumerMark :: "string \<Rightarrow> interval_slicer \<Rightarrow> interval_slicer" where
  "removeConsumerMark key st = st\<lparr>is_marks := filter (\<lambda>(k, _). k \<noteq> key) (is_marks st)\<rparr>"

definition getMark :: "string \<Rightarrow> interval_slicer \<Rightarrow> (64 word) result" where
  "getMark key st = (case map_of (is_marks st) key of None \<Rightarrow> Inl Invalid_Argument | Some m \<Rightarrow> Inr m)"

definition numActiveSlices :: "interval_slicer \<Rightarrow> 64 word" where
  "numActiveSlices st = usedSizeWeak (is_ring st) div of_nat slice_size"

text \<open>Everything that all consumers are done with is dropped.\<close>

definition discardConsumed :: "bool \<Rightarrow> interval_slicer \<Rightarrow> interval_slicer result" where
  "discardConsumed cas st =
     (if is_marks st = [] then Inr st
      else
        let min_discarded = foldl min (- 1) (map snd (is_marks st));
            delta = min_discarded - is_processed st
        in case consumer_dropN cas (delta * of_nat slice_size) (is_ring st) of
             (Inl e, _) \<Rightarrow> Inl (Runtime_Error ''Error dropping'')
           | (Inr _, r) \<Rightarrow> Inr (st\<lparr>is_ring := r, is_processed := min_discarded\<rparr>))"

section \<open>Intervals\<close>

text \<open>An operation on the ring that may throw.\<close>

type_synonym 'a ring_action = "ring_sys \<Rightarrow> 'a result \<times> ring_sys"

definition abind :: "'a ring_action \<Rightarrow> ('a \<Rightarrow> 'b ring_action) \<Rightarrow> 'b ring_action" where
  "abind m f r = (case m r of (Inl e, r1) \<Rightarrow> (Inl e, r1) | (Inr x, r1) \<Rightarrow> f x r1)"

definition asserting :: "'a rop \<Rightarrow> 'a ring_action" where
  "asserting op r = (case op r of (Inl e, r1) \<Rightarrow> (Inl Assert_Failure, r1) | (Inr x, r1) \<Rightarrow> (Inr x, r1))"

definition seek_action :: "64 word \<Rightarrow> 64 word ring_action" where
  "seek_action pos r =
     (case seekInTx pos r of
        Inl e \<Rightarrow> (Inl e, r)
      | Inr (Inl e, r1) \<Rightarrow> (Inl Assert_Failure, r1)
      | Inr (Inr n, r1) \<Rightarrow> (Inr n, r1))"

definition nextSlice :: "(64 word \<Rightarrow> bool) \<Rightarrow> slice option ring_action" where
  "nextSlice mem r =
     (case readInTx mem (of_nat slice_size) r of
        (Inl e, r1) \<Rightarrow> (if e = ENODATA then Inr None else Inl Assert_Failure, r1)
      | (Inr bs, r1) \<Rightarrow> (Inr (Some (bytes_slice bs)), r1))"

text \<open>Moving to the first slice that does not end before the interval.\<close>

fun skip_before :: "nat \<Rightarrow> (64 word \<Rightarrow> bool) \<Rightarrow> nat \<Rightarrow> slice option \<Rightarrow> nat \<Rightarrow> (slice option \<times> nat) ring_action" where
  "skip_before 0 mem tstamp cur num_consumed r = (Inl Undefined_Behaviour, r)"
| "skip_before (Suc reads) mem tstamp cur num_consumed r =
     (case cur of
        None \<Rightarrow> (Inr (None, num_consumed), r)
      | Some s \<Rightarrow>
          if \<not> tstampEnd s < tstamp then (Inr (Some s, num_consumed), r)
          else if sc_duration s = 0 then (Inl Assert_Failure, r)
          else abind (nextSlice mem) (\<lambda>cur1. skip_before reads mem tstamp cur1 (num_consumed + 1)) r)"

text \<open>Adding slices up to the end of the interval; \<^term>\<open>None\<close> when there is a hole.\<close>

fun collect_slices :: "nat \<Rightarrow> (64 word \<Rightarrow> bool) \<Rightarrow> nat \<Rightarrow> bool \<Rightarrow> bool \<Rightarrow> slice option \<Rightarrow> nat \<Rightarrow> slice list \<Rightarrow> nat \<Rightarrow> nat
    \<Rightarrow> (slice list \<times> nat \<times> nat) option ring_action" where
  "collect_slices 0 mem tstamp_end trim abort cur last_end partitioned slices_duration num_consumed r =
     (Inl Undefined_Behaviour, r)"
| "collect_slices (Suc reads) mem tstamp_end trim abort cur last_end partitioned slices_duration num_consumed r =
     (case cur of
        None \<Rightarrow> (Inr (Some (partitioned, slices_duration, num_consumed)), r)
      | Some s \<Rightarrow>
          if \<not> sc_tstamp s < tstamp_end then (Inr (Some (partitioned, slices_duration, num_consumed)), r)
          else if abort \<and> last_end \<noteq> sc_tstamp s then (Inr None, r)
          else if \<not> trim \<and> tstampEnd s > tstamp_end then (Inr (Some (partitioned, slices_duration, num_consumed)), r)
          else
            abind (nextSlice mem) (\<lambda>cur1.
              collect_slices reads mem tstamp_end trim abort cur1 (tstampEnd s) (partitioned @ [s])
                (slices_duration + sc_duration s) (num_consumed + 1)) r)"

definition trim_first :: "nat \<Rightarrow> slice \<Rightarrow> slice" where
  "trim_first tstamp f =
     (if sc_tstamp f < tstamp
      then f\<lparr>sc_duration := tstampEnd f - tstamp, sc_tstamp := tstamp, sc_swin := Analysis\<rparr> else f)"

definition trim_last :: "nat \<Rightarrow> nat \<Rightarrow> slice \<Rightarrow> slice" where
  "trim_last tstamp_end last_end l =
     (if last_end > tstamp_end then l\<lparr>sc_duration := sc_duration l - (last_end - tstamp_end), sc_swout := Analysis\<rparr> else l)"

definition map_hd :: "('a \<Rightarrow> 'a) \<Rightarrow> 'a list \<Rightarrow> 'a list" where
  "map_hd f xs = (case xs of [] \<Rightarrow> [] | x # rest \<Rightarrow> f x # rest)"

definition map_last :: "('a \<Rightarrow> 'a) \<Rightarrow> 'a list \<Rightarrow> 'a list" where
  "map_last f xs = (if xs = [] then [] else butlast xs @ [f (last xs)])"

text \<open>What is done with the slices found: the checks, trimming, and whether the last one is consumed.\<close>

definition finish_interval :: "nat \<Rightarrow> nat \<Rightarrow> bool \<Rightarrow> bool \<Rightarrow> slice list \<Rightarrow> nat \<Rightarrow> nat
    \<Rightarrow> (slice list option \<times> nat) ring_action" where
  "finish_interval tstamp duration trim abort partitioned slices_duration num_consumed r =
     (if partitioned = [] then abind (asserting cancelReadTx) (\<lambda>_ r1. (Inr (None, 0), r1)) r
      else
        let tstamp_end = tstamp + duration; last_slice_end = tstampEnd (last partitioned) in
        if abort \<and> last_slice_end < tstamp_end then abind (asserting cancelReadTx) (\<lambda>_ r1. (Inr (None, 0), r1)) r
        else
          let cut_first = (if trim \<and> sc_tstamp (hd partitioned) < tstamp
                then sc_duration (hd partitioned) - (tstampEnd (hd partitioned) - tstamp) else 0);
              slices1 = (if trim then map_hd (trim_first tstamp) partitioned else partitioned);
              num_consumed1 = (if last_slice_end > tstamp_end then num_consumed - 1 else num_consumed);
              cut_last = (if trim \<and> last_slice_end > tstamp_end then last_slice_end - tstamp_end else 0);
              slices2 = (if trim then map_last (trim_last tstamp_end last_slice_end) slices1 else slices1);
              total = slices_duration - cut_first - cut_last
          in if total > duration \<or> trim \<and> abort \<and> total \<noteq> duration then (Inl Assert_Failure, r)
             else abind (asserting cancelReadTx) (\<lambda>_ r1. (Inr (Some slices2, num_consumed1), r1)) r)"

definition makeIntervalIntersectingSlices :: "(64 word \<Rightarrow> bool) \<Rightarrow> bool \<Rightarrow> 64 word \<Rightarrow> nat \<Rightarrow> nat \<Rightarrow> bool \<Rightarrow> bool
    \<Rightarrow> (slice list option \<times> nat) ring_action" where
  "makeIntervalIntersectingSlices mem cas num_slices_offset tstamp duration trim abort r =
     (let reads = unat (hr_size r) + 1; give_up = abind (asserting cancelReadTx) (\<lambda>_ r1. (Inr (None, 0), r1)) in
      if duration = 0 then (Inl Invalid_Argument, r)
      else
        abind (asserting (startReadTransaction cas)) (\<lambda>_.
        abind (seek_action (num_slices_offset * of_nat slice_size)) (\<lambda>_.
        abind (nextSlice mem) (\<lambda>s.
        abind (skip_before reads mem tstamp s 0) (\<lambda>(s1, n).
          case s1 of
            None \<Rightarrow> give_up
          | Some sl \<Rightarrow>
              if abort \<and> sc_tstamp sl > tstamp then give_up
              else
                abind (collect_slices reads mem (tstamp + duration) trim abort (Some sl) (sc_tstamp sl) [] 0 n) (\<lambda>found.
                  case found of
                    None \<Rightarrow> give_up
                  | Some (partitioned, dur, n1) \<Rightarrow> finish_interval tstamp duration trim abort partitioned dur n1))))) r)"

definition consumeSlices :: "(64 word \<Rightarrow> bool) \<Rightarrow> bool \<Rightarrow> bool \<Rightarrow> string \<Rightarrow> nat \<Rightarrow> nat \<Rightarrow> bool \<Rightarrow> bool \<Rightarrow> interval_slicer
    \<Rightarrow> slice list list result \<times> interval_slicer" where
  "consumeSlices mem cas cas_drop key tstamp duration trim abort st =
     (case getMark key st of
        Inl e \<Rightarrow> (Inl e, st)
      | Inr offset \<Rightarrow>
          (case makeIntervalIntersectingSlices mem cas offset tstamp duration trim abort (is_ring st) of
             (Inl e, r) \<Rightarrow> (Inl e, st\<lparr>is_ring := r\<rparr>)
           | (Inr (slices, num_consumed), r) \<Rightarrow>
               let st1 = st\<lparr>is_ring := r, is_marks := set_mark key (offset + of_nat num_consumed) (is_marks st)\<rparr>;
                   found = [case slices of None \<Rightarrow> [] | Some ss \<Rightarrow> ss]
               in case discardConsumed cas_drop st1 of Inl e \<Rightarrow> (Inl e, st1) | Inr st2 \<Rightarrow> (Inr found, st2)))"

text \<open>Printing reads all slices; the text of a slice is an argument.\<close>

fun print_slices :: "nat \<Rightarrow> (64 word \<Rightarrow> bool) \<Rightarrow> (slice \<Rightarrow> string) \<Rightarrow> nat \<Rightarrow> string \<Rightarrow> (nat \<times> string) ring_action" where
  "print_slices 0 mem show_slice n out r = (Inl Undefined_Behaviour, r)"
| "print_slices (Suc reads) mem show_slice n out r =
     abind (nextSlice mem) (\<lambda>s.
       case s of
         None \<Rightarrow> (\<lambda>r1. (Inr (n, out), r1))
       | Some sl \<Rightarrow> print_slices reads mem show_slice (n + 1) (out @ show_slice sl @ '' '' @ [newline])) r"

definition toStream :: "(64 word \<Rightarrow> bool) \<Rightarrow> bool \<Rightarrow> (slice \<Rightarrow> string) \<Rightarrow> string ring_action" where
  "toStream mem cas show_slice r =
     abind (asserting (startReadTransaction cas)) (\<lambda>_.
     abind (print_slices (unat (hr_size r) + 1) mem show_slice 0 []) (\<lambda>(n, out) r1.
       (Inr (''slices ['' @ show_nat n @ '']'' @ [newline] @ out), r1))) r"

end
