(* ===== verification/IntervalProofs.thy ===== *)
theory IntervalProofs
  imports IntervalSlicer SlicerProofs HbtChunks
begin

text \<open>
  Reading a ring of slices in a transaction, the two loops of an interval as functions of the slices that are left,
  and trimming as cutting each slice to the interval.
\<close>

section \<open>A ring of slices\<close>

definition slices_in :: "ring_sys \<Rightarrow> slice list \<Rightarrow> bool" where
  "slices_in r sls \<longleftrightarrow> ring_inv r \<and> slice_size \<le> length (hr_data r)
     \<and> (\<exists>bs. contents r = concat bs \<and> list_all2 (\<lambda>b s. length b = slice_size \<and> bytes_slice b = s) bs sls)"

text \<open>Positions and contents are as before.\<close>

definition same_ring :: "ring_sys \<Rightarrow> ring_sys \<Rightarrow> bool" where
  "same_ring r r1 \<longleftrightarrow> hr_head r1 = hr_head r \<and> hr_tail r1 = hr_tail r \<and> hr_size r1 = hr_size r
     \<and> (queue_of r1)\<lparr>q_read := None\<rparr> = (queue_of r)\<lparr>q_read := None\<rparr>"

text \<open>A transaction that has read the first slices, and the next one read in it.\<close>

definition reading :: "ring_sys \<Rightarrow> slice list \<Rightarrow> nat \<Rightarrow> bool" where
  "reading r sls k \<longleftrightarrow> slices_in r sls \<and> hr_rtx r \<and> unat (co_tx r) = slice_size * k \<and> k \<le> length sls"

definition read_at :: "ring_sys \<Rightarrow> slice list \<Rightarrow> slice option \<Rightarrow> slice list \<Rightarrow> bool" where
  "read_at r sls cur remaining \<longleftrightarrow> (\<exists>k. reading r sls k
     \<and> (case cur of None \<Rightarrow> remaining = [] | Some s \<Rightarrow> remaining = s # drop k sls))"

lemma same_ring_refl [simp]: "same_ring r r"
  by (simp add: same_ring_def)

lemma same_ring_trans: "same_ring r r1 \<Longrightarrow> same_ring r1 r2 \<Longrightarrow> same_ring r r2"
  by (simp add: same_ring_def)

lemma length_contents_slices:
  assumes "list_all2 (\<lambda>b s. length b = n \<and> P b s) bs sls"
  shows "length (concat bs) = n * length sls"
    and "k < length sls \<Longrightarrow> take n (drop (n * k) (concat bs)) = bs ! k"
  using assms
proof (induction arbitrary: k rule: list_all2_induct)
  case (Cons b bs s sls)
  {
    case 1
    then show ?case using Cons by simp
  next
    case 2
    then show ?case using Cons by (cases k) auto
  }
qed auto

lemma readInTx_same:
  "hr_head (snd (readInTx mem n r)) = hr_head r" "hr_tail (snd (readInTx mem n r)) = hr_tail r"
  "hr_size (snd (readInTx mem n r)) = hr_size r"
  by (auto simp: readInTx_def read_ptr_def readFromRingBuffer_def Let_def split: prod.splits option.splits)

lemma nextSlice_reads:
  assumes "reading r sls k"
  shows "\<exists>r1. nextSlice (\<lambda>_. True) r = (Inr (if k < length sls then Some (sls ! k) else None), r1)
    \<and> reading r1 sls (if k < length sls then k + 1 else k) \<and> same_ring r r1"
proof -
  note h = assms [unfolded reading_def slices_in_def]
  obtain bs where bs: "contents r = concat bs" "list_all2 (\<lambda>b s. length b = slice_size \<and> bytes_slice b = s) bs sls"
    using h by blast
  have sz: "unat (of_nat slice_size :: 64 word) = slice_size" "slice_size \<noteq> 0" by (simp_all add: slice_size_def)
  obtain x r1 where r1: "readInTx (\<lambda>_. True) (of_nat slice_size) r = (x, r1)" by (metis prod.exhaust)
  have pos: "hr_head r1 = hr_head r" "hr_tail r1 = hr_tail r" "hr_size r1 = hr_size r"
    using readInTx_same [of "\<lambda>_. True" "of_nat slice_size" r] r1 by simp_all
  let ?q = "q_take slice_size (queue_of r)"
  have fits: "(slice_size * length sls < slice_size * k + slice_size) = (\<not> k < length sls)"
    by (simp add: slice_size_def; linarith)
  have q: "?q = (if k < length sls then (Inr (bs ! k), (queue_of r)\<lparr>q_read := Some (slice_size * (k + 1))\<rparr>)
      else (Inl ENODATA, queue_of r))"
    using h bs(1) length_contents_slices [OF bs(2)] fits sz(2) by (simp add: q_take_def queue_of_def)
  have "agrees (answer (\<lambda>bs. (0, bs)) (x, r1)) (answer (\<lambda>bs. (0, bs)) ?q)"
    using take_agrees(1) [of r "\<lambda>bs. (0, bs)" "of_nat slice_size"] h r1 sz(1) by simp
  then have a: "map_sum id (\<lambda>bs. (0 :: nat, bs)) x = map_sum id (\<lambda>bs. (0, bs)) (fst ?q)" "queue_of r1 = snd ?q" "ring_inv r1"
    by (simp_all add: agrees_answer)
  from a(2) q pos have same: "same_ring r r1" by (simp add: same_ring_def)
  show ?thesis
  proof (cases "k < length sls")
    case True
    with a q have x: "x = Inr (bs ! k)" and qr: "queue_of r1 = (queue_of r)\<lparr>q_read := Some (slice_size * (k + 1))\<rparr>"
      by (cases x; simp)+
    have "bytes_slice (bs ! k) = sls ! k" using bs(2) True by (simp add: list_all2_conv_all_nth)
    moreover have "contents r1 = contents r" "length (hr_data r1) = length (hr_data r)" "hr_rtx r1"
      "unat (co_tx r1) = slice_size * (k + 1)"
      using qr by (auto simp: queue_of_def split: if_splits)
    ultimately show ?thesis using True x r1 same h a(3) bs
      by (auto simp: nextSlice_def reading_def slices_in_def)
  next
    case False
    with a q have x: "x = Inl ENODATA" and qr: "queue_of r1 = queue_of r" by (cases x; simp)+
    have "contents r1 = contents r" "length (hr_data r1) = length (hr_data r)" "hr_rtx r1" "unat (co_tx r1) = unat (co_tx r)"
      using qr h by (auto simp: queue_of_def split: if_splits)
    then show ?thesis using False x r1 same h a(3) bs
      by (auto simp: nextSlice_def reading_def slices_in_def)
  qed
qed

lemma nextSlice_first:
  assumes "reading r sls k"
  shows "\<exists>cur r1. nextSlice (\<lambda>_. True) r = (Inr cur, r1) \<and> read_at r1 sls cur (drop k sls) \<and> same_ring r r1"
proof -
  from nextSlice_reads [OF assms] obtain r1 where
    r1: "nextSlice (\<lambda>_. True) r = (Inr (if k < length sls then Some (sls ! k) else None), r1)"
      "reading r1 sls (if k < length sls then k + 1 else k)" "same_ring r r1" by blast
  have "read_at r1 sls (if k < length sls then Some (sls ! k) else None) (drop k sls)"
  proof (cases "k < length sls")
    case True
    with r1(2) show ?thesis by (auto simp: read_at_def Cons_nth_drop_Suc intro!: exI [of _ "Suc k"])
  next
    case False
    with r1(2) show ?thesis by (auto simp: read_at_def intro!: exI [of _ k])
  qed
  with r1 show ?thesis by blast
qed

lemma nextSlice_at:
  assumes "read_at r sls (Some s) (s # remaining)"
  shows "\<exists>cur r1. nextSlice (\<lambda>_. True) r = (Inr cur, r1) \<and> read_at r1 sls cur remaining \<and> same_ring r r1"
proof -
  obtain k where k: "reading r sls k" "remaining = drop k sls" using assms by (auto simp: read_at_def)
  from nextSlice_first [OF k(1)] k(2) show ?thesis by blast
qed

lemma read_at_cases: "read_at r sls cur remaining \<Longrightarrow> cur = (case remaining of [] \<Rightarrow> None | s # _ \<Rightarrow> Some s)"
  by (auto simp: read_at_def split: option.splits)

section \<open>The loops\<close>

lemma skip_before_eq:
  assumes "read_at r sls cur remaining" "\<forall>s \<in> set remaining. 0 < sc_duration s" "length remaining < reads"
  shows "\<exists>cur1 r1. skip_before reads (\<lambda>_. True) t cur n r =
      (Inr (cur1, n + length (takeWhile (\<lambda>s. tstampEnd s < t) remaining)), r1)
    \<and> read_at r1 sls cur1 (dropWhile (\<lambda>s. tstampEnd s < t) remaining) \<and> same_ring r r1"
  using assms
proof (induction remaining arbitrary: reads cur n r)
  case Nil
  with read_at_cases [OF Nil(1)] show ?case by (cases reads) auto
next
  case (Cons s remaining)
  obtain m where m: "reads = Suc m" using Cons.prems(3) by (cases reads) auto
  have cur: "cur = Some s" using read_at_cases [OF Cons.prems(1)] by simp
  show ?case
  proof (cases "tstampEnd s < t")
    case False
    with Cons.prems(1) m cur show ?thesis by auto
  next
    case True
    from nextSlice_at [OF Cons.prems(1) [unfolded cur]] obtain cur1 r1 where
      n: "nextSlice (\<lambda>_. True) r = (Inr cur1, r1)" "read_at r1 sls cur1 remaining" "same_ring r r1" by blast
    from Cons.IH [OF n(2), of m "n + 1"] Cons.prems(2,3) m obtain cur2 r2 where
      "skip_before m (\<lambda>_. True) t cur1 (n + 1) r1 = (Inr (cur2, n + 1 + length (takeWhile (\<lambda>s. tstampEnd s < t) remaining)), r2)"
      "read_at r2 sls cur2 (dropWhile (\<lambda>s. tstampEnd s < t) remaining)" "same_ring r1 r2" by auto
    with True m cur n Cons.prems(2) show ?thesis by (auto simp: abind_def intro: same_ring_trans)
  qed
qed

text \<open>Each slice begins where the one before it ends.\<close>

fun chained :: "nat \<Rightarrow> slice list \<Rightarrow> bool" where
  "chained e [] = True"
| "chained e (s # sls) = (sc_tstamp s = e \<and> chained (tstampEnd s) sls)"

lemma collect_slices_eq:
  assumes "read_at r sls cur remaining" "length remaining < reads"
    "\<not> abort \<or> trim"
  shows "\<exists>r1 k. collect_slices reads (\<lambda>_. True) e trim abort cur last_end acc dur n r =
      (Inr (if abort \<and> \<not> chained last_end (takeWhile (\<lambda>s. sc_tstamp s < e \<and> (trim \<or> tstampEnd s \<le> e)) remaining) then None
            else Some (acc @ takeWhile (\<lambda>s. sc_tstamp s < e \<and> (trim \<or> tstampEnd s \<le> e)) remaining, dur + sum_list (map sc_duration (takeWhile (\<lambda>s. sc_tstamp s < e \<and> (trim \<or> tstampEnd s \<le> e)) remaining)), n + length (takeWhile (\<lambda>s. sc_tstamp s < e \<and> (trim \<or> tstampEnd s \<le> e)) remaining))), r1)
    \<and> reading r1 sls k \<and> same_ring r r1"
  using assms
proof (induction remaining arbitrary: reads cur last_end acc dur n r)
  case Nil
  then show ?case by (cases reads) (auto simp: read_at_def split: option.splits)
next
  case (Cons s remaining)
  obtain m where m: "reads = Suc m" using Cons.prems(2) by (cases reads) auto
  have cur: "cur = Some s" using read_at_cases [OF Cons.prems(1)] by simp
  obtain k where k: "reading r sls k" using Cons.prems(1) by (auto simp: read_at_def)
  show ?case
  proof (cases "sc_tstamp s < e \<and> (trim \<or> tstampEnd s \<le> e) \<and> (\<not> abort \<or> last_end = sc_tstamp s)")
    case False
    with m cur k Cons.prems(3) show ?thesis by auto
  next
    case True
    from nextSlice_at [OF Cons.prems(1) [unfolded cur]] obtain cur1 r1 where
      n: "nextSlice (\<lambda>_. True) r = (Inr cur1, r1)" "read_at r1 sls cur1 remaining" "same_ring r r1" by blast
    from Cons.IH [OF n(2), of m "tstampEnd s" "acc @ [s]" "dur + sc_duration s" "n + 1"] Cons.prems(2,3) m
    show ?thesis using True m cur n by (auto simp: abind_def intro: same_ring_trans split: if_splits)
  qed
qed

section \<open>Trimming\<close>

text \<open>The part of a slice in an interval.\<close>

definition clip :: "nat \<Rightarrow> nat \<Rightarrow> slice \<Rightarrow> slice" where
  "clip t e s = s\<lparr>sc_tstamp := max t (sc_tstamp s), sc_duration := min e (tstampEnd s) - max t (sc_tstamp s),
     sc_swin := (if sc_tstamp s < t then Analysis else sc_swin s),
     sc_swout := (if e < tstampEnd s then Analysis else sc_swout s)\<rparr>"

definition touches :: "nat \<Rightarrow> nat \<Rightarrow> slice \<Rightarrow> bool" where
  "touches t e s \<longleftrightarrow> t \<le> tstampEnd s \<and> sc_tstamp s < e"

definition covers :: "nat \<Rightarrow> nat \<Rightarrow> slice list \<Rightarrow> bool" where
  "covers t e sls \<longleftrightarrow> sc_tstamp (hd sls) \<le> t \<and> chained (sc_tstamp (hd sls)) sls \<and> e \<le> tstampEnd (last sls)"

lemma clip_inside: "t \<le> sc_tstamp s \<Longrightarrow> tstampEnd s \<le> e \<Longrightarrow> clip t e s = s"
  by (cases s) (auto simp: clip_def tstampEnd_def max_def min_def)

lemma in_sequence_Cons: "in_sequence (s # sls) \<longleftrightarrow> (\<forall>x \<in> set sls. tstampEnd s \<le> sc_tstamp x) \<and> in_sequence sls"
  by (simp add: in_sequence_def)

lemma in_sequence_append: "in_sequence (xs @ ys) \<longleftrightarrow> in_sequence xs \<and> in_sequence ys
    \<and> (\<forall>x \<in> set xs. \<forall>y \<in> set ys. tstampEnd x \<le> sc_tstamp y)"
  by (auto simp: in_sequence_def sorted_wrt_append)

lemma cut_sum: "(a :: nat) \<le> f \<Longrightarrow> b \<le> l \<Longrightarrow> f - a = f1 \<Longrightarrow> l - b = l1 \<Longrightarrow> f + (m + l) - a - b = f1 + (m + l1)"
  by arith

lemma trimmed_slices:
  assumes "xs \<noteq> []" "in_sequence xs" "\<forall>s \<in> set xs. 0 < sc_duration s \<and> touches t e s" "t < e"
  shows "map_last (trim_last e (tstampEnd (last xs))) (map_hd (trim_first t) xs) = map (clip t e) xs"
    and "sum_list (map sc_duration xs)
        - (if sc_tstamp (hd xs) < t then sc_duration (hd xs) - (tstampEnd (hd xs) - t) else 0)
        - (if tstampEnd (last xs) > e then tstampEnd (last xs) - e else 0)
      = sum_list (map (\<lambda>s. sc_duration (clip t e s)) xs)"
proof -
  have "map_last (trim_last e (tstampEnd (last xs))) (map_hd (trim_first t) xs) = map (clip t e) xs
    \<and> sum_list (map sc_duration xs)
        - (if sc_tstamp (hd xs) < t then sc_duration (hd xs) - (tstampEnd (hd xs) - t) else 0)
        - (if tstampEnd (last xs) > e then tstampEnd (last xs) - e else 0)
      = sum_list (map (\<lambda>s. sc_duration (clip t e s)) xs)"
  proof (cases "\<exists>s. xs = [s]")
    case True
    with assms show ?thesis
      by (auto simp: map_last_def map_hd_def trim_last_def trim_first_def clip_def touches_def tstampEnd_def)
  next
    case False
    with assms(1) obtain f mid l where xs: "xs = f # mid @ [l]"
      by (metis append_butlast_last_id list.exhaust)
    have mid: "\<forall>s \<in> set mid. t \<le> sc_tstamp s \<and> tstampEnd s \<le> e" "t \<le> sc_tstamp l" "tstampEnd f \<le> e"
      using assms(2,3) xs by (auto simp: in_sequence_Cons in_sequence_append touches_def intro: order_trans less_imp_le
          dest: le_less_trans)
    have same: "map (clip t e) mid = mid" using mid(1) by (intro map_idI) (simp add: clip_inside)
    then have sum: "sum_list (map (\<lambda>s. sc_duration (clip t e s)) mid) = sum_list (map sc_duration mid)"
      by (metis (no_types, lifting) map_map o_def map_eq_conv)
    have f: "trim_first t f = clip t e f" "sc_duration f - (if sc_tstamp f < t then sc_duration f - (tstampEnd f - t) else 0)
        = sc_duration (clip t e f)" "(if sc_tstamp f < t then sc_duration f - (tstampEnd f - t) else 0) \<le> sc_duration f"
      using mid(3) assms(3) xs by (auto simp: trim_first_def clip_def tstampEnd_def)
    have l: "trim_last e (tstampEnd l) l = clip t e l" "sc_duration l - (if tstampEnd l > e then tstampEnd l - e else 0)
        = sc_duration (clip t e l)" "(if tstampEnd l > e then tstampEnd l - e else 0) \<le> sc_duration l"
      using mid(2) assms(3) xs by (auto simp: trim_last_def clip_def tstampEnd_def touches_def)
    have ends: "hd xs = f" "last xs = l" using xs by simp_all
    have trims: "map_last (trim_last e (tstampEnd l)) (map_hd (trim_first t) xs) = map (clip t e) xs"
      using same f l xs by (simp add: map_last_def map_hd_def butlast_append)
    have sums: "sum_list (map sc_duration xs) = sc_duration f + (sum_list (map sc_duration mid) + sc_duration l)"
      "sum_list (map (\<lambda>s. sc_duration (clip t e s)) xs)
        = sc_duration (clip t e f) + (sum_list (map sc_duration mid) + sc_duration (clip t e l))"
      using sum xs by simp_all
    show ?thesis unfolding ends sums
      using trims cut_sum [OF f(3) l(3) f(2) l(2), of "sum_list (map sc_duration mid)"] by blast
  qed
  then show "map_last (trim_last e (tstampEnd (last xs))) (map_hd (trim_first t) xs) = map (clip t e) xs"
    and "sum_list (map sc_duration xs)
        - (if sc_tstamp (hd xs) < t then sc_duration (hd xs) - (tstampEnd (hd xs) - t) else 0)
        - (if tstampEnd (last xs) > e then tstampEnd (last xs) - e else 0)
      = sum_list (map (\<lambda>s. sc_duration (clip t e s)) xs)" by blast+
qed

lemma clipped_le:
  assumes "in_sequence xs" "\<forall>s \<in> set xs. touches t e s \<and> b \<le> max t (sc_tstamp s)" "b \<le> e" "t < e"
  shows "sum_list (map (\<lambda>s. sc_duration (clip t e s)) xs) \<le> e - b"
  using assms
proof (induction xs arbitrary: b)
  case (Cons s xs)
  let ?m = "min e (tstampEnd s)"
  have m: "b \<le> max t (sc_tstamp s)" "max t (sc_tstamp s) \<le> ?m" "?m \<le> e"
    using Cons.prems by (auto simp: touches_def tstampEnd_def)
  have "\<forall>x \<in> set xs. touches t e x \<and> ?m \<le> max t (sc_tstamp x)"
    using Cons.prems(1,2) by (auto simp: in_sequence_Cons intro: le_max_iff_disj [THEN iffD2] min.coboundedI2)
  with Cons.IH [of ?m] Cons.prems m
  have "sum_list (map (\<lambda>s. sc_duration (clip t e s)) xs) \<le> e - ?m" by (simp add: in_sequence_Cons)
  with m show ?case by (simp add: clip_def)
qed simp

lemma clipped_eq:
  assumes "in_sequence xs" "\<forall>s \<in> set xs. touches t e s" "xs \<noteq> []" "chained (sc_tstamp (hd xs)) xs"
    "e \<le> tstampEnd (last xs)" "t < e"
  shows "sum_list (map (\<lambda>s. sc_duration (clip t e s)) xs) = e - max t (sc_tstamp (hd xs))"
  using assms
proof (induction xs)
  case (Cons s xs)
  show ?case
  proof (cases xs)
    case Nil
    with Cons.prems show ?thesis by (simp add: clip_def)
  next
    case (Cons y ys)
    have eq: "sc_tstamp y = tstampEnd s" "sc_tstamp y < e" "t \<le> tstampEnd s"
      using Cons.prems Cons by (auto simp: touches_def)
    have "sum_list (map (\<lambda>s. sc_duration (clip t e s)) xs) = e - tstampEnd s"
      using Cons.IH Cons.prems Cons eq by (simp add: in_sequence_Cons max_def)
    moreover have "max t (sc_tstamp s) \<le> tstampEnd s" using eq by (simp add: tstampEnd_def)
    ultimately show ?thesis using eq by (simp add: clip_def)
  qed
qed simp

end
