(* ===== verification/IntervalClaims.thy ===== *)
theory IntervalClaims
  imports IntervalProofs
begin

text \<open>
  The whole operation: what an interval of a ring of slices is, and what consuming it and discarding leave to
  each consumer.
\<close>

section \<open>Closing the transaction\<close>

definition closed :: "ring_sys \<Rightarrow> ring_sys" where
  "closed r = r\<lparr>co_tx := 0, hr_rtx := False\<rparr>"

lemma give_up_eq: "hr_rtx r \<Longrightarrow> abind (asserting cancelReadTx) (\<lambda>_ r1. (Inr y, r1)) r = (Inr y, closed r)"
  by (simp add: abind_def asserting_def cancelReadTx_def closed_def)

lemma closed_queue:
  assumes "reading r sls k" "same_ring r0 r" "\<not> hr_rtx r0"
  shows "queue_of (closed r) = queue_of r0 \<and> ring_inv (closed r) \<and> hr_tail (closed r) = hr_tail r0"
proof -
  have inv: "ring_inv r" using assms(1) by (simp add: reading_def slices_in_def)
  have "queue_of (closed r) = (queue_of r)\<lparr>q_read := None\<rparr>"
    by (simp add: closed_def queue_of_def)
  also have "\<dots> = queue_of r0" using assms(2,3) by (simp add: same_ring_def) (simp add: queue_of_def)
  finally show ?thesis using inv_updates(4) [OF inv] assms(2) by (simp add: closed_def same_ring_def)
qed

lemma finish_interval_eq:
  assumes "hr_rtx r" "in_sequence xs" "\<forall>s \<in> set xs. 0 < sc_duration s \<and> touches t (t + d) s" "0 < d"
    and "abort \<and> xs \<noteq> [] \<Longrightarrow> sc_tstamp (hd xs) \<le> t \<and> chained (sc_tstamp (hd xs)) xs"
  shows "finish_interval t d True abort xs (sum_list (map sc_duration xs)) n r =
    (Inr (if xs = [] \<or> abort \<and> \<not> covers t (t + d) xs then (None, 0)
          else (Some (map (clip t (t + d)) xs), if t + d < tstampEnd (last xs) then n - 1 else n)), closed r)"
proof (cases "xs = [] \<or> abort \<and> tstampEnd (last xs) < t + d")
  case True
  then show ?thesis using give_up_eq [OF assms(1)] assms(5) by (auto simp: finish_interval_def covers_def)
next
  case False
  let ?total = "sum_list (map (\<lambda>s. sc_duration (clip t (t + d) s)) xs)"
  have lt: "t < t + d" and ne: "xs \<noteq> []" using assms(4) False by auto
  note trimmed = trimmed_slices [OF ne assms(2,3) lt]
  have le: "?total \<le> d" using clipped_le [OF assms(2), of t "t + d" t] assms(3,4) by auto
  have eq: "?total = d" if abort
    using clipped_eq [OF assms(2), of t "t + d"] that ne lt assms(3,5) False by auto
  have cov: "abort \<longrightarrow> covers t (t + d) xs" using False assms(5) ne by (auto simp: covers_def)
  show ?thesis
    using False ne le eq cov give_up_eq [OF assms(1)] trimmed [simplified]
    by (auto simp: finish_interval_def Let_def)
qed

section \<open>The slices of an interval\<close>

lemma take_drop_filter:
  "sorted_wrt (\<lambda>a b. P b \<longrightarrow> P a) xs \<Longrightarrow> takeWhile P xs = filter P xs \<and> dropWhile P xs = filter (\<lambda>x. \<not> P x) xs"
  by (induction xs) (auto simp: filter_empty_conv filter_id_conv)

lemma in_sequence_filter: "in_sequence xs \<Longrightarrow> in_sequence (filter P xs)"
  by (simp add: in_sequence_def sorted_wrt_filter)

lemma in_sequence_drop: "in_sequence xs \<Longrightarrow> in_sequence (drop n xs)"
  by (simp add: in_sequence_def sorted_wrt_drop)

lemma touched_filter:
  assumes "in_sequence xs"
  shows "takeWhile (\<lambda>s. tstampEnd s < t) xs = filter (\<lambda>s. tstampEnd s < t) xs"
    and "takeWhile (\<lambda>s. sc_tstamp s < e) (dropWhile (\<lambda>s. tstampEnd s < t) xs) = filter (touches t e) xs"
proof -
  have ends: "sorted_wrt (\<lambda>a b. tstampEnd b < t \<longrightarrow> tstampEnd a < t) xs"
    using assms unfolding in_sequence_def by (rule sorted_wrt_mono_rel [rotated]) (simp add: tstampEnd_def)
  show "takeWhile (\<lambda>s. tstampEnd s < t) xs = filter (\<lambda>s. tstampEnd s < t) xs"
    using take_drop_filter [OF ends] by blast
  let ?rest = "filter (\<lambda>s. \<not> tstampEnd s < t) xs"
  have starts: "sorted_wrt (\<lambda>a b. sc_tstamp b < e \<longrightarrow> sc_tstamp a < e) ?rest"
    using in_sequence_filter [OF assms, of "\<lambda>s. \<not> tstampEnd s < t"] unfolding in_sequence_def
    by (rule sorted_wrt_mono_rel [rotated]) (simp add: tstampEnd_def)
  show "takeWhile (\<lambda>s. sc_tstamp s < e) (dropWhile (\<lambda>s. tstampEnd s < t) xs) = filter (touches t e) xs"
    using take_drop_filter [OF ends] take_drop_filter [OF starts]
    by (simp add: touches_def not_less conj_commute cong: filter_cong)
qed

text \<open>Consumed are the slices that end in the interval or before it.\<close>

lemma consumed_count:
  assumes "in_sequence xs" "\<forall>s \<in> set xs. 0 < sc_duration s" "t < e" "filter (touches t e) xs \<noteq> []"
  shows "(let n = length (filter (\<lambda>s. tstampEnd s < t) xs) + length (filter (touches t e) xs)
      in if e < tstampEnd (last (filter (touches t e) xs)) then n - 1 else n)
    = length (filter (\<lambda>s. tstampEnd s \<le> e) xs)"
proof -
  let ?ts = "filter (touches t e) xs"
  have split: "length (filter (\<lambda>s. tstampEnd s \<le> e) ys)
      = length (filter (\<lambda>s. tstampEnd s < t) ys) + length (filter (\<lambda>s. tstampEnd s \<le> e) (filter (touches t e) ys))"
    if "\<forall>s \<in> set ys. 0 < sc_duration s" for ys
    using that assms(3) by (induction ys) (auto simp: touches_def tstampEnd_def)
  obtain ys y where ys: "?ts = ys @ [y]" using assms(4) by (metis append_butlast_last_id)
  have "in_sequence (ys @ [y])" using in_sequence_filter [OF assms(1), of "touches t e"] ys by simp
  moreover have "y \<in> set ?ts" using ys by simp
  then have "sc_tstamp y < e" by (simp add: touches_def)
  ultimately have "\<forall>s \<in> set ys. tstampEnd s \<le> e" by (auto simp: in_sequence_append)
  then have "filter (\<lambda>s. tstampEnd s \<le> e) ys = ys" by (simp add: filter_id_conv)
  with split [OF assms(2)] ys show ?thesis by (simp add: Let_def)
qed

text \<open>Seeking to a slice.\<close>

lemma seek_slice:
  assumes "slices_in r sls" "\<not> hr_rtx r" "unat (hr_tail r) = slice_size * p"
    "slice_size * (p + length sls) < 2 ^ 64" "slice_size * unat offset < 2 ^ 64"
  shows "\<exists>n r1. seek_action (offset * of_nat slice_size) (r\<lparr>hr_rtx := True\<rparr>) = (Inr n, r1)
    \<and> reading r1 sls (min (unat offset - p) (length sls)) \<and> same_ring r r1"
proof -
  define k where "k = min (unat offset - p) (length sls)"
  obtain bs where bs: "contents r = concat bs" "list_all2 (\<lambda>b s. length b = slice_size \<and> bytes_slice b = s) bs sls"
    using assms(1) unfolding slices_in_def by blast
  have inv: "ring_inv r" using assms(1) by (simp add: slices_in_def)
  have used: "used r = slice_size * length sls"
    using length_contents [OF inv] bs length_contents_slices(1) [OF bs(2)] by simp
  have sum: "unat (hr_tail r) + used r = slice_size * (p + length sls)" by (simp add: assms(3) used distrib_left)
  have "unat (hr_tail r + (hr_head r - hr_tail r)) = (unat (hr_tail r) + used r) mod 2 ^ 64"
    unfolding used_def by (simp only: unat_word_ariths) simp
  then have head: "unat (hr_head r) = slice_size * (p + length sls)" using sum assms(4) by simp
  have off: "unat (offset * of_nat slice_size) = slice_size * unat offset"
  proof -
    have "unat (of_nat slice_size :: 64 word) = slice_size" by (simp add: slice_size_def)
    then show ?thesis using assms(5) by (simp only: unat_word_ariths) (simp add: mult.commute)
  qed
  let ?n = "max (hr_tail r) (min (offset * of_nat slice_size) (hr_head r)) - hr_tail r"
  have m: "unat (max (hr_tail r) (min (offset * of_nat slice_size) (hr_head r)))
      = max (slice_size * p) (min (slice_size * unat offset) (slice_size * (p + length sls)))"
    using off head assms(3) by (simp add: max_def min_def word_le_nat_alt)
  have n: "unat ?n = slice_size * k"
  proof -
    have "hr_tail r \<le> max (hr_tail r) (min (offset * of_nat slice_size) (hr_head r))" by simp
    from unat_sub [OF this] have "unat ?n = max (slice_size * p) (min (slice_size * unat offset) (slice_size * (p + length sls)))
        - slice_size * p" by (simp only: m assms(3))
    also have "\<dots> = slice_size * (max p (min (unat offset) (p + length sls)) - p)"
      by (simp only: nat_mult_max_right nat_mult_min_right diff_mult_distrib2)
    also have "max p (min (unat offset) (p + length sls)) - p = k" unfolding k_def by linarith
    finally show ?thesis .
  qed
  let ?r = "r\<lparr>hr_rtx := True, co_tx := ?n\<rparr>"
  have "\<not> hr_head r < hr_tail r" using head assms(3) by (simp add: word_less_nat_alt)
  then have seek: "seek_action (offset * of_nat slice_size) (r\<lparr>hr_rtx := True\<rparr>) = (Inr ?n, ?r)"
    by (simp add: seek_action_def seekInTx_def Let_def)
  have le: "slice_size * k \<le> used r" using used by (simp add: k_def)
  have "ring_inv ?r" using inv n le by (simp add: ring_inv_def used_def)
  moreover have "contents ?r = contents r" by simp
  ultimately have "reading ?r sls k" using assms(1) n unfolding reading_def slices_in_def
    by (simp add: k_def)
  moreover have "same_ring r ?r" using assms(2) by (simp add: same_ring_def) (simp add: queue_of_def)
  ultimately show ?thesis using seek unfolding k_def by blast
qed

definition interval_of :: "nat \<Rightarrow> nat \<Rightarrow> bool \<Rightarrow> slice list \<Rightarrow> slice list option \<times> nat" where
  "interval_of t e abort sls =
     (let touched = filter (touches t e) sls
      in if touched = [] \<or> abort \<and> \<not> covers t e touched then (None, 0)
         else (Some (map (clip t e) touched), length (filter (\<lambda>s. tstampEnd s \<le> e) sls)))"

lemma abind_ok: "m r = (Inr x, r1) \<Longrightarrow> abind m f r = f x r1"
  by (simp add: abind_def)

lemma intersecting_slices:
  assumes "reading r sls k" "in_sequence sls" "\<forall>s \<in> set sls. 0 < sc_duration s" "0 < d" "length sls < reads"
    and "same_ring r0 r" "\<not> hr_rtx r0"
  defines "give_up \<equiv> abind (asserting cancelReadTx) (\<lambda>_ r1. (Inr (None, 0), r1))"
  shows "\<exists>r1. abind (nextSlice (\<lambda>_. True)) (\<lambda>s. abind (skip_before reads (\<lambda>_. True) t s 0) (\<lambda>(s1, n).
          case s1 of
            None \<Rightarrow> give_up
          | Some sl \<Rightarrow>
              if abort \<and> sc_tstamp sl > t then give_up
              else
                abind (collect_slices reads (\<lambda>_. True) (t + d) True abort (Some sl) (sc_tstamp sl) [] 0 n) (\<lambda>found.
                  case found of
                    None \<Rightarrow> give_up
                  | Some (partitioned, dur, n1) \<Rightarrow> finish_interval t d True abort partitioned dur n1))) r
      = (Inr (interval_of t (t + d) abort (drop k sls)), r1)
    \<and> queue_of r1 = queue_of r0 \<and> ring_inv r1 \<and> hr_tail r1 = hr_tail r0"
proof -
  let ?rem = "drop k sls" and ?e = "t + d"
  let ?ts = "filter (touches t ?e) ?rem"
  have seq: "in_sequence ?rem" "\<forall>s \<in> set ?rem. 0 < sc_duration s" "length ?rem < reads"
    using assms(2,3,5) in_sequence_drop by (auto dest: in_set_dropD)
  note tf = touched_filter [OF seq(1), where t = t]
  from nextSlice_first [OF assms(1)] obtain cur r1 where n: "nextSlice (\<lambda>_. True) r = (Inr cur, r1)"
    "read_at r1 sls cur ?rem" "same_ring r r1" by blast
  from skip_before_eq [OF n(2) seq(2,3), of t 0] obtain cur1 r2 where
    sk: "skip_before reads (\<lambda>_. True) t cur 0 r1 = (Inr (cur1, length (filter (\<lambda>s. tstampEnd s < t) ?rem)), r2)"
      "read_at r2 sls cur1 (dropWhile (\<lambda>s. tstampEnd s < t) ?rem)" "same_ring r1 r2" using tf(1) by auto
  have s2: "same_ring r0 r2" using assms(6) n(3) sk(3) by (blast intro: same_ring_trans)
  obtain k2 where k2: "reading r2 sls k2" using sk(2) by (auto simp: read_at_def)
  have up: "give_up r3 = (Inr (None, 0), closed r3) \<and> queue_of (closed r3) = queue_of r0 \<and> ring_inv (closed r3)
      \<and> hr_tail (closed r3) = hr_tail r0"
    if "reading r3 sls k3" "same_ring r0 r3" for r3 k3
    using give_up_eq [of r3] closed_queue [OF that assms(7)] that(1) unfolding give_up_def by (simp add: reading_def)
  show ?thesis
  proof (cases cur1)
    case None
    then have "dropWhile (\<lambda>s. tstampEnd s < t) ?rem = []" using read_at_cases [OF sk(2)] by (simp split: list.splits)
    then have "?ts = []" by (auto simp: filter_empty_conv touches_def not_less)
    then have "interval_of t ?e abort ?rem = (None, 0)" by (simp add: interval_of_def Let_def)
    with None up [OF k2 s2] show ?thesis using n(1) sk(1) by (simp add: abind_ok)
  next
    case (Some sl)
    then obtain rest where rest: "dropWhile (\<lambda>s. tstampEnd s < t) ?rem = sl # rest"
      using read_at_cases [OF sk(2)] by (auto split: list.splits)
    have hd: "sc_tstamp (hd ?ts) = sc_tstamp sl" if "?ts \<noteq> []"
      using tf(2) [of ?e, symmetric] that rest by (auto split: if_splits)
    show ?thesis
    proof (cases "abort \<and> sc_tstamp sl > t")
      case True
      then have "interval_of t ?e abort ?rem = (None, 0)" using hd by (auto simp: interval_of_def covers_def Let_def)
      with Some True up [OF k2 s2] show ?thesis using n(1) sk(1) by (simp add: abind_ok)
    next
      case False
      have len: "length (dropWhile (\<lambda>s. tstampEnd s < t) ?rem) < reads" using seq(3) length_dropWhile_le le_less_trans by blast
      have tw: "takeWhile (\<lambda>s. sc_tstamp s < ?e \<and> (True \<or> tstampEnd s \<le> ?e)) (dropWhile (\<lambda>s. tstampEnd s < t) ?rem) = ?ts"
        using tf(2) [of ?e] by simp
      note found = collect_slices_eq [OF sk(2) len, where e = ?e and trim = True and abort = abort and acc = "[]" and dur = 0
          and last_end = "sc_tstamp sl" and n = "length (filter (\<lambda>s. tstampEnd s < t) ?rem)", unfolded tw]
      from found Some obtain r3 k3 where col: "collect_slices reads (\<lambda>_. True) ?e True abort (Some sl) (sc_tstamp sl) [] 0
            (length (filter (\<lambda>s. tstampEnd s < t) ?rem)) r2 =
          (Inr (if abort \<and> \<not> chained (sc_tstamp sl) ?ts then None else Some (?ts, sum_list (map sc_duration ?ts),
            length (filter (\<lambda>s. tstampEnd s < t) ?rem) + length ?ts)), r3)"
        "reading r3 sls k3" "same_ring r2 r3" by auto
      note u = up [OF col(2) same_ring_trans [OF s2 col(3)]]
      show ?thesis
      proof (cases "abort \<and> \<not> chained (sc_tstamp sl) ?ts")
        case True
        then have "interval_of t ?e abort ?rem = (None, 0)" using hd by (auto simp: interval_of_def covers_def Let_def)
        with Some False True u show ?thesis using n(1) sk(1) col(1) by (simp add: abind_ok)
      next
        case False2: False
        have "finish_interval t d True abort ?ts (sum_list (map sc_duration ?ts))
            (length (filter (\<lambda>s. tstampEnd s < t) ?rem) + length ?ts) r3 = (Inr (interval_of t ?e abort ?rem), closed r3)"
          using consumed_count [OF seq(1,2), of t ?e] assms(4) hd False False2 col(2) seq
          by (subst finish_interval_eq) (auto simp: interval_of_def Let_def reading_def in_sequence_filter)
        with Some False False2 u show ?thesis using n(1) sk(1) col(1) by (auto simp: abind_ok)
      qed
    qed
  qed
qed

lemma slices_fit:
  assumes "slices_in r sls"
  shows "length sls < unat (hr_size r) + 1"
proof -
  obtain bs where bs: "contents r = concat bs" "list_all2 (\<lambda>b s. length b = slice_size \<and> bytes_slice b = s) bs sls"
    and inv: "ring_inv r" using assms unfolding slices_in_def by blast
  have "slice_size * length sls \<le> length (hr_data r)"
    using length_contents [OF inv] bs length_contents_slices(1) [OF bs(2)] used_le [OF inv] by simp
  then show ?thesis using inv by (elim ring_invE) (simp add: slice_size_def)
qed

lemma interval_read:
  assumes "slices_in r sls" "\<not> hr_rtx r" "unat (hr_tail r) = slice_size * p" "slice_size * (p + length sls) < 2 ^ 64"
    "slice_size * unat offset < 2 ^ 64" "in_sequence sls" "\<forall>s \<in> set sls. 0 < sc_duration s" "0 < d"
  shows "\<exists>r1. makeIntervalIntersectingSlices (\<lambda>_. True) True offset t d True abort r
      = (Inr (interval_of t (t + d) abort (drop (unat offset - p) sls)), r1)
    \<and> queue_of r1 = queue_of r \<and> ring_inv r1 \<and> hr_tail r1 = hr_tail r"
proof -
  from seek_slice [OF assms(1-5)] obtain n r2 where
    r2: "seek_action (offset * of_nat slice_size) (r\<lparr>hr_rtx := True\<rparr>) = (Inr n, r2)"
      "reading r2 sls (min (unat offset - p) (length sls))" "same_ring r r2" by blast
  note found = intersecting_slices [OF r2(2) assms(6,7,8) slices_fit [OF assms(1)] r2(3) assms(2), of t abort]
  have start: "asserting (startReadTransaction True) r = (Inr (), r\<lparr>hr_rtx := True\<rparr>)"
    using assms(2) by (simp add: asserting_def startReadTransaction_def)
  have rest: "drop (min (unat offset - p) (length sls)) sls = drop (unat offset - p) sls" by (simp add: min_def)
  have "d \<noteq> 0" using assms(8) by simp
  then show ?thesis unfolding makeIntervalIntersectingSlices_def Let_def
    by (simp only: if_False abind_ok [where m = "asserting (startReadTransaction True)", OF start]
        abind_ok [where m = "seek_action (offset * of_nat slice_size)", OF r2(1)]) (rule found [unfolded rest])
qed

section \<open>Consumers\<close>

text \<open>The positions of the ring and of the marks agree: every mark is at a slice of the ring or after the last.\<close>

definition in_step :: "interval_slicer \<Rightarrow> slice list \<Rightarrow> bool" where
  "in_step st sls \<longleftrightarrow> slices_in (is_ring st) sls \<and> \<not> hr_rtx (is_ring st)
     \<and> unat (hr_tail (is_ring st)) = slice_size * unat (is_processed st)
     \<and> slice_size * (unat (is_processed st) + length sls) < 2 ^ 64
     \<and> (\<forall>m \<in> snd ` set (is_marks st). unat (is_processed st) \<le> unat m \<and> unat m \<le> unat (is_processed st) + length sls)"

text \<open>The slices that a consumer has not yet consumed.\<close>

definition unconsumed :: "interval_slicer \<Rightarrow> slice list \<Rightarrow> string \<Rightarrow> slice list option" where
  "unconsumed st sls key =
     map_option (\<lambda>m. drop (unat m - unat (is_processed st)) sls) (map_of (is_marks st) key)"

lemma map_of_set_mark: "map_of (set_mark key v marks) k =
    (if k = key \<and> map_of marks key \<noteq> None then Some v else map_of marks k)"
  by (induction marks) (auto simp: set_mark_def)

lemma set_set_mark: "map_of marks key = Some m \<Longrightarrow> x \<in> snd ` set (set_mark key v marks) \<Longrightarrow> x = v \<or> x \<in> snd ` set marks"
  by (force simp: set_mark_def split: if_splits)

lemma foldl_min: "foldl min (a :: 64 word) xs = Min (insert a (set xs))"
proof -
  have "(\<lambda>x s. min s x) = (min :: 64 word \<Rightarrow> _)" by (simp add: fun_eq_iff min.commute)
  then have "foldl min a xs = Min (set (a # xs))" by (simp only: foldl_conv_fold Min.set_eq_fold)
  then show ?thesis by simp
qed

lemma drop_slices:
  assumes "slices_in r sls" "\<not> hr_rtx r" "j \<le> length sls" "unat n = slice_size * j"
    "unat (hr_tail r) + slice_size * length sls < 2 ^ 64"
  shows "\<exists>r1. consumer_dropN True n r = (Inr (), r1) \<and> slices_in r1 (drop j sls) \<and> \<not> hr_rtx r1
    \<and> unat (hr_tail r1) = unat (hr_tail r) + slice_size * j"
proof -
  obtain bs where bs: "contents r = concat bs" "list_all2 (\<lambda>b s. length b = slice_size \<and> bytes_slice b = s) bs sls"
    and inv: "ring_inv r" "slice_size \<le> length (hr_data r)" using assms(1) unfolding slices_in_def by blast
  obtain x r1 where x: "consumer_dropN True n r = (x, r1)" by (metis prod.exhaust)
  have a: "x = Inr ()" "queue_of r1 = (queue_of r)\<lparr>q_bytes := drop (slice_size * j) (contents r)\<rparr>" "ring_inv r1"
    using drop_n_agrees [OF inv(1), of "\<lambda>_. (0, [])" True n] assms(2,4) x
    by (cases x; simp add: agrees_answer q_drop_n_def queue_of_def)+
  have split: "drop (slice_size * k) (concat ys) = concat (drop k ys)" if "\<forall>y \<in> set ys. length y = slice_size" for k and ys :: "byte list list"
    using that
  proof (induction ys arbitrary: k)
    case (Cons y ys)
    then show ?case by (cases k) simp_all
  qed simp
  have "\<forall>y \<in> set bs. length y = slice_size" using bs(2) by (auto simp: list_all2_conv_all_nth in_set_conv_nth)
  from split [OF this] have "contents r1 = concat (drop j bs)" "length (hr_data r1) = length (hr_data r)" "\<not> hr_rtx r1"
    using a(2) bs(1) assms(2) by (auto simp: queue_of_def split: if_splits)
  moreover have "list_all2 (\<lambda>b s. length b = slice_size \<and> bytes_slice b = s) (drop j bs) (drop j sls)"
    using bs(2) by (rule list_all2_dropI)
  ultimately have "slices_in r1 (drop j sls)" "\<not> hr_rtx r1" using a(3) inv(2) unfolding slices_in_def by auto
  moreover have used: "used r = slice_size * length sls"
    using length_contents [OF inv(1)] bs length_contents_slices(1) [OF bs(2)] by simp
  have "unat (min (hr_head r - hr_tail r) n) = slice_size * j"
    using used assms(3,4) by (simp add: used_def min_def word_le_nat_alt slice_size_def)
  then have "unat (hr_tail r1) = unat (hr_tail r) + slice_size * j"
    using x assms(2,3,5) by (auto simp: consumer_dropN_def startReadTransaction_def header_dropN_def usedSizeWeak_def
        unat_word_ariths slice_size_def)
  ultimately show ?thesis using x a(1) by blast
qed

text \<open>Dropping what all consumers are done with loses nothing that one of them still waits for.\<close>

lemma map_of_mark: "map_of marks k = Some m \<Longrightarrow> m \<in> snd ` set marks"
  by (force dest: map_of_SomeD)

lemma discard_drops:
  assumes "slices_in (is_ring st) sls" "\<not> hr_rtx (is_ring st)" "is_marks st \<noteq> []" "q = Min (snd ` set (is_marks st))"
    "unat (hr_tail (is_ring st)) + slice_size * length sls < 2 ^ 64"
    "unat (is_processed st) \<le> unat q" "unat q \<le> unat (is_processed st) + length sls"
  shows "\<exists>r1. discardConsumed True st = Inr (st\<lparr>is_ring := r1, is_processed := q\<rparr>)
    \<and> slices_in r1 (drop (unat q - unat (is_processed st)) sls) \<and> \<not> hr_rtx r1
    \<and> unat (hr_tail r1) = unat (hr_tail (is_ring st)) + slice_size * (unat q - unat (is_processed st))"
proof -
  let ?p = "is_processed st"
  have fold: "foldl min (- 1) (map snd (is_marks st)) = q"
    using assms(3) by (simp add: assms(4) foldl_min min_absorb2)
  define j where "j = unat q - unat ?p"
  have j: "j \<le> length sls" using assms(7) unfolding j_def by linarith
  have "unat (q - ?p) = j" using assms(6) by (simp add: j_def unat_sub word_le_nat_alt)
  moreover have "unat (of_nat slice_size :: 64 word) = slice_size" by (simp add: slice_size_def)
  moreover have lt: "slice_size * j < 2 ^ 64" using assms(5) j by (simp add: slice_size_def)
  ultimately have n: "unat ((q - ?p) * of_nat slice_size) = slice_size * j"
    by (simp only: unat_word_ariths(2)) (simp add: mult.commute)
  from drop_slices [OF assms(1,2) j n assms(5)] obtain r1 where
    r1: "consumer_dropN True ((q - ?p) * of_nat slice_size) (is_ring st) = (Inr (), r1)" "slices_in r1 (drop j sls)"
      "\<not> hr_rtx r1" "unat (hr_tail r1) = unat (hr_tail (is_ring st)) + slice_size * j" by blast
  then show ?thesis using assms(3) fold unfolding j_def by (auto simp: discardConsumed_def Let_def)
qed

lemma discard_eq:
  assumes "in_step st sls"
  shows "\<exists>st1 sls1. discardConsumed True st = Inr st1 \<and> in_step st1 sls1 \<and> is_marks st1 = is_marks st
    \<and> unconsumed st1 sls1 = unconsumed st sls
    \<and> (is_marks st \<noteq> [] \<longrightarrow> is_processed st1 = Min (snd ` set (is_marks st)))"
proof (cases "is_marks st = []")
  case True
  with assms show ?thesis by (auto simp: discardConsumed_def)
next
  case False
  let ?p = "is_processed st"
  define q where "q = Min (snd ` set (is_marks st))"
  note h = assms [unfolded in_step_def]
  have qm: "q \<in> snd ` set (is_marks st)" "\<forall>m \<in> snd ` set (is_marks st). q \<le> m" using False by (auto simp: q_def intro: Min_in)
  have qp: "unat ?p \<le> unat q" "unat q \<le> unat ?p + length sls" using h qm(1) by blast+
  define j where "j = unat q - unat ?p"
  have qj: "unat q = unat ?p + j" "j \<le> length sls" using qp unfolding j_def by linarith+
  have "unat (hr_tail (is_ring st)) + slice_size * length sls < 2 ^ 64" using h by (simp add: distrib_left)
  from discard_drops [OF _ _ False q_def this qp] h obtain r1 where
    r1: "discardConsumed True st = Inr (st\<lparr>is_ring := r1, is_processed := q\<rparr>)" "slices_in r1 (drop j sls)"
      "\<not> hr_rtx r1" "unat (hr_tail r1) = unat (hr_tail (is_ring st)) + slice_size * j" unfolding j_def by blast
  let ?st = "st\<lparr>is_ring := r1, is_processed := q\<rparr>"
  have "in_step ?st (drop j sls)"
    using r1 h qj qm(2) by (auto simp: in_step_def distrib_left word_le_nat_alt)
  moreover have "unconsumed ?st (drop j sls) = unconsumed st sls"
  proof
    fix k
    show "unconsumed ?st (drop j sls) k = unconsumed st sls k"
    proof (cases "map_of (is_marks st) k")
      case (Some m)
      then have "unat q \<le> unat m" using qm(2) map_of_mark [of "is_marks st" k m] word_le_nat_alt by blast
      with Some qj(1) show ?thesis by (simp add: unconsumed_def)
    qed (simp add: unconsumed_def)
  qed
  ultimately show ?thesis using r1(1) by (intro exI [of _ ?st] exI [of _ "drop j sls"]) (simp add: q_def)
qed

lemma queue_slices: "slices_in r sls \<Longrightarrow> queue_of r1 = queue_of r \<Longrightarrow> ring_inv r1 \<Longrightarrow> slices_in r1 sls \<and> hr_rtx r1 = hr_rtx r"
  by (auto simp: slices_in_def queue_of_def split: if_splits)

lemma consume_interval_step:
  assumes "in_step st sls" "in_sequence sls" "\<forall>s \<in> set sls. 0 < sc_duration s" "0 < d"
    "unconsumed st sls key = Some rest" "interval_of t (t + d) abort rest = (found, n)"
  shows "\<exists>st1 sls1. consumeSlices (\<lambda>_. True) True True key t d True abort st
        = (Inr [case found of None \<Rightarrow> [] | Some ss \<Rightarrow> ss], st1)
    \<and> in_step st1 sls1 \<and> unconsumed st1 sls1 = (unconsumed st sls)(key \<mapsto> drop n rest)
    \<and> is_processed st1 = Min (snd ` set (is_marks st1))"
proof -
  note h = assms(1) [unfolded in_step_def]
  obtain m where m: "map_of (is_marks st) key = Some m" "rest = drop (unat m - unat (is_processed st)) sls"
    using assms(5) by (auto simp: unconsumed_def)
  have mark: "m \<in> snd ` set (is_marks st)" using map_of_mark [OF m(1)] .
  with h have le: "unat (is_processed st) \<le> unat m" "unat m \<le> unat (is_processed st) + length sls" by blast+
  then have "slice_size * unat m < 2 ^ 64" using h by (simp add: slice_size_def)
  from interval_read [of "is_ring st" sls "unat (is_processed st)" m d t abort, OF _ _ _ _ this assms(2-4)] h
  obtain r1 where r1: "makeIntervalIntersectingSlices (\<lambda>_. True) True m t d True abort (is_ring st) = (Inr (found, n), r1)"
    "queue_of r1 = queue_of (is_ring st)" "ring_inv r1" "hr_tail r1 = hr_tail (is_ring st)"
    using assms(6) m(2) by auto
  have n: "n \<le> length rest" using assms(6) by (auto simp: interval_of_def Let_def split: if_splits)
  moreover have "slice_size * (unat (is_processed st) + length sls) < 2 ^ 64" using h by blast
  ultimately have "unat m + n < 2 ^ 64" using le m(2) by (simp add: slice_size_def)
  then have add: "unat (m + of_nat n) = unat m + n" by (simp add: unat_word_ariths unsigned_of_nat take_bit_nat_def)
  let ?st = "st\<lparr>is_ring := r1, is_marks := set_mark key (m + of_nat n) (is_marks st)\<rparr>"
  have "in_step ?st sls" using h queue_slices [OF _ r1(2,3)] r1(4) set_set_mark [OF m(1)] add le n m(2)
    by (fastforce simp: in_step_def)
  from discard_eq [OF this] obtain st1 sls1 where st1: "discardConsumed True ?st = Inr st1" "in_step st1 sls1"
    "is_marks st1 = is_marks ?st" "unconsumed st1 sls1 = unconsumed ?st sls"
    "is_marks ?st \<noteq> [] \<longrightarrow> is_processed st1 = Min (snd ` set (is_marks ?st))" by blast
  have "is_marks ?st \<noteq> []" using mark by (auto simp: set_mark_def)
  moreover have "unconsumed ?st sls = (unconsumed st sls)(key \<mapsto> drop n rest)"
    using m le add by (auto simp: unconsumed_def map_of_set_mark fun_eq_iff add.commute)
  ultimately have "in_step st1 sls1 \<and> unconsumed st1 sls1 = (unconsumed st sls)(key \<mapsto> drop n rest)
      \<and> is_processed st1 = Min (snd ` set (is_marks st1))" using st1 by simp
  then show ?thesis using st1(1) r1(1) m(1) by (auto simp: consumeSlices_def getMark_def Let_def)
qed

end
