(* ===== verification/IntervalWrite.thy ===== *)
theory IntervalWrite
  imports IntervalClaims
begin

text \<open>
  Writing slices, registering consumers, and the rings of slices on which the operations of the slicer by interval are tried.
\<close>

section \<open>Writing\<close>

definition slice_ok :: "slice \<Rightarrow> bool" where
  "slice_ok s \<longleftrightarrow> sc_tstamp s < kInvalidTimeStamp \<and> sc_duration s < 2 ^ 64 \<and> sc_stack_id s < 2 ^ 64"

lemma length_slice_bytes: "length (slice_bytes s) = slice_size"
  by (simp add: slice_bytes_def slice_size_def)

lemma code_transition_code: "code_transition (transition_code t) = t"
  by (cases t) (simp_all add: code_transition_def transition_code_def)

lemma bytes_slice_bytes: "slice_ok s \<Longrightarrow> bytes_slice (slice_bytes s) = s"
proof -
  assume "slice_ok s"
  then have b: "sc_tstamp s < 256 ^ 8" "sc_duration s < 256 ^ 8" "sc_stack_id s < 256 ^ 8"
    by (simp_all add: slice_ok_def kInvalidTimeStamp_def)
  have c: "transition_code t < 256 ^ 1" for t by (cases t) (simp_all add: transition_code_def)
  have d: "decode_le (encode_le 1 (transition_code t)) = transition_code t" for t
    using decode_encode_le [OF c] .
  show ?thesis using decode_encode_le [OF b(1)] decode_encode_le [OF b(2)] decode_encode_le [OF b(3)] d
    by (simp add: bytes_slice_def slice_bytes_def code_transition_code)
qed

lemma ring_put_tail: "hr_tail (snd (ring_put cas d r)) = hr_tail r"
  by (auto simp: ring_put_def write_tx_def startWriteTx_def writeInTx_def copyToRingBuffer_def Let_def
      cancelWriteTx_def commitWriteTx_def incHead_def split: prod.splits sum.splits)

lemma put_slice:
  assumes "slices_in r sls" "\<not> hr_wtx r" "\<not> hr_rtx r" "slice_ok s" "slice_size * (length sls + 1) \<le> length (hr_data r)"
  shows "\<exists>r1. ring_put True (slice_bytes s) r = (Inr (of_nat slice_size), r1) \<and> slices_in r1 (sls @ [s])
    \<and> \<not> hr_wtx r1 \<and> \<not> hr_rtx r1 \<and> hr_tail r1 = hr_tail r \<and> length (hr_data r1) = length (hr_data r)"
proof -
  obtain bs where bs: "contents r = concat bs" "list_all2 (\<lambda>b s. length b = slice_size \<and> bytes_slice b = s) bs sls"
    and inv: "ring_inv r" "slice_size \<le> length (hr_data r)" using assms(1) unfolding slices_in_def by blast
  have len: "length (contents r) = slice_size * length sls" "length (slice_bytes s) < 2 ^ 63" "slice_bytes s \<noteq> []"
    using bs(1) length_contents_slices(1) [OF bs(2)] length_slice_bytes [of s] by (auto simp: slice_size_def)
  obtain x r1 where x: "ring_put True (slice_bytes s) r = (x, r1)" by (metis prod.exhaust)
  have "q_write_tx True (q_append (slice_bytes s)) (queue_of r) =
    (Inr slice_size, (queue_of r)\<lparr>q_bytes := contents r @ slice_bytes s\<rparr>)"
    using assms(2,5) len inv(2) length_slice_bytes [of s]
    by (simp add: q_write_tx_def q_start_write_def q_append_def q_commit_write_def queue_of_def)
  with put_agrees [OF inv(1) len(2), of True] x have a: "map_sum id (\<lambda>n. (unat n, [])) x = Inr (slice_size, [] :: byte list)"
    "queue_of r1 = (queue_of r)\<lparr>q_bytes := contents r @ slice_bytes s\<rparr>" "ring_inv r1" by (simp_all add: agrees_answer)
  have "x = Inr (of_nat slice_size)"
  proof (cases x)
    case (Inr n)
    with a(1) have "unat n = slice_size" by simp
    then have "n = of_nat slice_size" by (metis of_nat_unat ucast_id)
    with Inr show ?thesis by simp
  qed (use a(1) in simp)
  moreover have "contents r1 = concat (bs @ [slice_bytes s])" "length (hr_data r1) = length (hr_data r)"
    "\<not> hr_wtx r1" "\<not> hr_rtx r1" using a(2) bs(1) assms(2,3) by (auto simp: queue_of_def split: if_splits)
  moreover have "list_all2 (\<lambda>b s. length b = slice_size \<and> bytes_slice b = s) (bs @ [slice_bytes s]) (sls @ [s])"
    using bs(2) bytes_slice_bytes [OF assms(4)] length_slice_bytes by (simp add: list_all2_appendI)
  ultimately have "slices_in r1 (sls @ [s]) \<and> x = Inr (of_nat slice_size) \<and> length (hr_data r1) = length (hr_data r)
    \<and> \<not> hr_wtx r1 \<and> \<not> hr_rtx r1"
    using a(3) inv(2) unfolding slices_in_def by (intro conjI exI [of _ "bs @ [slice_bytes s]"]) simp_all
  then show ?thesis using ring_put_tail [of True "slice_bytes s" r] x by auto
qed

lemma write_slice_appends:
  assumes "in_step st sls" "\<not> hr_wtx (is_ring st)" "slice_ok s"
    "slice_size * (length sls + 1) \<le> length (hr_data (is_ring st))"
    "slice_size * (unat (is_processed st) + length sls + 1) < 2 ^ 64"
  shows "\<exists>st1. write_slice (\<lambda>_. (True, True)) s st = Inr (Inr (of_nat slice_size), st1) \<and> in_step st1 (sls @ [s])
    \<and> unconsumed st1 (sls @ [s]) = (\<lambda>key. map_option (\<lambda>l. l @ [s]) (unconsumed st sls key))
    \<and> \<not> hr_wtx (is_ring st1) \<and> is_processed st1 = is_processed st \<and> is_marks st1 = is_marks st
    \<and> length (hr_data (is_ring st1)) = length (hr_data (is_ring st))"
proof -
  note h = assms(1) [unfolded in_step_def]
  have tries: "[0..<kMaxNumRetries] = [0, 1]" by (simp add: kMaxNumRetries_def upt_rec)
  from put_slice [of "is_ring st" sls s] h assms(2-4) obtain r1 where
    r1: "ring_put True (slice_bytes s) (is_ring st) = (Inr (of_nat slice_size), r1)" "slices_in r1 (sls @ [s])"
      "\<not> hr_wtx r1" "\<not> hr_rtx r1" "hr_tail r1 = hr_tail (is_ring st)" "length (hr_data r1) = length (hr_data (is_ring st))"
    by blast
  have "write_slice (\<lambda>_. (True, True)) s st = Inr (Inr (of_nat slice_size), st\<lparr>is_ring := r1\<rparr>)"
    using assms(3) r1(1) by (simp add: write_slice_def slice_ok_def tries slice_size_def)
  moreover have "in_step (st\<lparr>is_ring := r1\<rparr>) (sls @ [s])"
    using h r1 assms(5) by (auto simp: in_step_def)
  moreover have "unconsumed (st\<lparr>is_ring := r1\<rparr>) (sls @ [s]) = (\<lambda>key. map_option (\<lambda>l. l @ [s]) (unconsumed st sls key))"
  proof
    fix k
    show "unconsumed (st\<lparr>is_ring := r1\<rparr>) (sls @ [s]) k = map_option (\<lambda>l. l @ [s]) (unconsumed st sls k)"
    proof (cases "map_of (is_marks st) k")
      case (Some m)
      then have "m \<in> snd ` set (is_marks st)" by (rule map_of_mark)
      with h have "unat m \<le> unat (is_processed st) + length sls" by blast
      with Some show ?thesis by (simp add: unconsumed_def)
    qed (simp add: unconsumed_def)
  qed
  ultimately show ?thesis using r1 by auto
qed

section \<open>Consumers\<close>

text \<open>A new consumer gets everything that is still there.\<close>

lemma register_consumer:
  assumes "in_step st sls" "unconsumed st sls key = None"
  shows "\<exists>st1. registerConsumerMark key st = Inr st1 \<and> in_step st1 sls
    \<and> unconsumed st1 sls = (unconsumed st sls)(key \<mapsto> sls)"
  using assms by (auto simp: registerConsumerMark_def in_step_def unconsumed_def fun_eq_iff)

lemma remove_consumer:
  assumes "in_step st sls"
  shows "in_step (removeConsumerMark key st) sls
    \<and> unconsumed (removeConsumerMark key st) sls = (unconsumed st sls)(key := None)"
proof -
  have "map_of (filter (\<lambda>(k, _). k \<noteq> key) marks) k = (if k = key then None else map_of marks k)" for marks :: "(string \<times> 64 word) list" and k
    by (induction marks) auto
  with assms show ?thesis by (fastforce simp: removeConsumerMark_def in_step_def unconsumed_def fun_eq_iff)
qed

end
