(* ===== verification/IntervalErrors.thy ===== *)
theory IntervalErrors
  imports IntervalWrite
begin

text \<open>
  What the slicer by interval promises its consumers, and the cases in which it does not keep it: printing
  and an interval without trimming that leave the transaction open, and slices dropped for room.
\<close>

section \<open>An example ring\<close>

definition two_slices :: "slice \<Rightarrow> slice \<Rightarrow> ring_sys" where
  "two_slices a b = \<lparr>hr_size = 64, hr_mask = 63, hr_head = 64, hr_tail = 0, hr_wtx = False, hr_rtx = False,
     hr_data = slice_bytes a @ slice_bytes b, pr_tx = 0, co_tx = 0, co_aux = 0\<rparr>"

definition example_slice :: "nat \<Rightarrow> nat \<Rightarrow> slice" where
  "example_slice t d = \<lparr>sc_tstamp = t, sc_duration = d, sc_stack_id = 7, sc_swin = ThreadYield, sc_swout = ThreadYield\<rparr>"

lemma two_slices_in:
  assumes "slice_ok a" "slice_ok b"
  shows "slices_in (two_slices a b) [a, b]"
proof -
  have len: "length (hr_data (two_slices a b)) = 64"
    by (simp add: two_slices_def length_slice_bytes slice_size_def)
  then have "ring_inv (two_slices a b)"
    by (auto simp: ring_inv_def two_slices_def used_def mask_eq_decr_exp intro!: exI [of _ 6])
  moreover have "contents (two_slices a b) = concat [slice_bytes a, slice_bytes b]"
    using len by (simp add: contents_def ring_view_def used_def two_slices_def)
  ultimately show ?thesis using assms len unfolding slices_in_def
    by (intro conjI exI [of _ "[slice_bytes a, slice_bytes b]"])
      (simp_all add: bytes_slice_bytes length_slice_bytes slice_size_def)
qed

lemma two_slices_ring: "\<not> hr_rtx (two_slices a b)" "\<not> hr_wtx (two_slices a b)" "unat (hr_tail (two_slices a b)) = 0"
  by (simp_all add: two_slices_def)

definition example_slicer :: "interval_slicer" where
  "example_slicer = \<lparr>is_ring = two_slices (example_slice 0 10) (example_slice 10 10), is_drop = 0, is_processed = 0,
     is_marks = [(''a'', 0)]\<rparr>"

lemma example_slice_ok: "t < 1000 \<Longrightarrow> d < 1000 \<Longrightarrow> slice_ok (example_slice t d)"
  by (simp add: slice_ok_def example_slice_def kInvalidTimeStamp_def)

lemma example_in_step: "in_step example_slicer [example_slice 0 10, example_slice 10 10]"
  using two_slices_in [OF example_slice_ok example_slice_ok, of 0 10 10 10]
  by (simp add: in_step_def example_slicer_def two_slices_ring slice_size_def)

lemma example_sequence: "in_sequence [example_slice 0 10, example_slice 10 10]"
  by (simp add: in_sequence_def tstampEnd_def example_slice_def)

section \<open>Consumers\<close>

text \<open>C22: As long as no slice was dropped for want of room, so that the marks of the consumers and the ring are in
  step, a trimming consumer gets, of its own slices not yet consumed, exactly those that touch the interval, cut
  to it, and none when they leave a hole and holes are refused; consumed are those that end by the end of the
  interval.  All other consumers still get what they were waiting for, and the ring drops what none waits for.
  (A slice that ends exactly at the beginning of the interval touches it and is given with the length zero.)\<close>

theorem consume_interval:
  assumes "in_step st sls" "in_sequence sls" "list_all (\<lambda>s. 0 < sc_duration s) sls" "0 < d"
    "unconsumed st sls key = Some rest" "interval_of t (t + d) abort rest = (found, n)"
  shows "\<exists>st1 sls1. consumeSlices (\<lambda>_. True) True True key t d True abort st
        = (Inr [case found of None \<Rightarrow> [] | Some ss \<Rightarrow> ss], st1)
    \<and> in_step st1 sls1 \<and> unconsumed st1 sls1 = (unconsumed st sls)(key \<mapsto> drop n rest)
    \<and> is_processed st1 = Min (snd ` set (is_marks st1))"
  using assms by (intro consume_interval_step) (simp_all add: list_all_iff)

theorem consume_interval_witness:
  "fst (consumeSlices (\<lambda>_. True) True True ''a'' 5 10 True True example_slicer)
    = Inr [[(example_slice 5 5)\<lparr>sc_swin := Analysis\<rparr>, (example_slice 10 5)\<lparr>sc_swout := Analysis\<rparr>]]"
proof -
  let ?sls = "[example_slice 0 10, example_slice 10 10]"
  have "unconsumed example_slicer ?sls ''a'' = Some ?sls" by (simp add: unconsumed_def example_slicer_def)
  moreover have "interval_of 5 (5 + 10) True ?sls
      = (Some [(example_slice 5 5)\<lparr>sc_swin := Analysis\<rparr>, (example_slice 10 5)\<lparr>sc_swout := Analysis\<rparr>], 1)"
    by (simp add: interval_of_def touches_def covers_def clip_def example_slice_def tstampEnd_def)
  moreover have "list_all (\<lambda>s. 0 < sc_duration s) ?sls" by (simp add: example_slice_def)
  ultimately show ?thesis using consume_interval [OF example_in_step example_sequence, of 10 "''a''" ?sls 5 True] by auto
qed

text \<open>A consumer is given a slice of zero duration, which the code calls invalid elsewhere.\<close>

lemma zero_length_slice:
  "fst (consumeSlices (\<lambda>_. True) True True ''a'' 10 10 True True example_slicer)
    = Inr [[(example_slice 10 0)\<lparr>sc_swin := Analysis\<rparr>, example_slice 10 10]]"
proof -
  let ?sls = "[example_slice 0 10, example_slice 10 10]"
  have "unconsumed example_slicer ?sls ''a'' = Some ?sls" by (simp add: unconsumed_def example_slicer_def)
  moreover have "interval_of 10 (10 + 10) True ?sls
      = (Some [(example_slice 10 0)\<lparr>sc_swin := Analysis\<rparr>, example_slice 10 10], 2)"
    by (simp add: interval_of_def touches_def covers_def clip_def example_slice_def tstampEnd_def)
  moreover have "\<forall>s \<in> set ?sls. 0 < sc_duration s" by (simp add: example_slice_def)
  ultimately show ?thesis
    using consume_interval_step [OF example_in_step example_sequence, of 10 "''a''" ?sls 10 True] by auto
qed

lemma covered_clips:
  assumes "in_sequence xs" "\<forall>s \<in> set xs. touches t e s" "xs \<noteq> []" "covers t e xs" "t < e"
  shows "chained t (map (clip t e) xs) \<and> tstampEnd (last (map (clip t e) xs)) = e"
proof -
  have step: "chained b (map (clip t e) ys) \<and> tstampEnd (last (map (clip t e) ys)) = e"
    if "chained c ys" "e \<le> tstampEnd (last ys)" "ys \<noteq> []" "\<forall>s \<in> set ys. touches t e s" "b = max t c" for b c ys
    using that
  proof (induction ys arbitrary: b c)
    case (Cons s ys)
    show ?case
    proof (cases ys)
      case Nil
      with Cons.prems assms(5) show ?thesis by (auto simp: clip_def touches_def tstampEnd_def)
    next
      case (Cons y zs)
      have y: "sc_tstamp y = tstampEnd s" "sc_tstamp y < e" "t \<le> tstampEnd s"
        using Cons.prems Cons by (auto simp: touches_def)
      then have "tstampEnd (clip t e s) = tstampEnd s" "max t (tstampEnd s) = tstampEnd s"
        by (auto simp: clip_def tstampEnd_def)
      with Cons.IH [of "tstampEnd s" "tstampEnd s"] Cons.prems Cons show ?thesis by (simp add: clip_def)
    qed
  qed simp
  have "sc_tstamp (hd xs) \<le> t" using assms(4) by (simp add: covers_def)
  then show ?thesis using step [of "sc_tstamp (hd xs)" xs t] assms(2-4) by (simp add: covers_def max_def)
qed

text \<open>C23: When holes are refused, the slices of an interval follow one another from its beginning to its end and their
  durations add up to it.\<close>

theorem covered_interval_exact:
  assumes "slices_in r sls" "\<not> hr_rtx r" "unat (hr_tail r) = slice_size * p" "slice_size * (p + length sls) < 2 ^ 64"
    "slice_size * unat offset < 2 ^ 64" "in_sequence sls" "list_all (\<lambda>s. 0 < sc_duration s) sls" "0 < d"
    "makeIntervalIntersectingSlices (\<lambda>_. True) True offset t d True True r = (Inr (Some xs, n), r1)"
  shows "chained t xs \<and> tstampEnd (last xs) = t + d \<and> sum_list (map sc_duration xs) = d"
proof -
  let ?ts = "filter (touches t (t + d)) (drop (unat offset - p) sls)"
  have "\<forall>s \<in> set sls. 0 < sc_duration s" using assms(7) by (simp add: list_all_iff)
  from interval_read [OF assms(1-6) this assms(8), of t True] assms(9)
  have "interval_of t (t + d) True (drop (unat offset - p) sls) = (Some xs, n)" by auto
  then have xs: "?ts \<noteq> []" "covers t (t + d) ?ts" "xs = map (clip t (t + d)) ?ts"
    by (auto simp: interval_of_def Let_def split: if_splits)
  have seq: "in_sequence ?ts" by (intro in_sequence_filter in_sequence_drop assms(6))
  have "sum_list (map (\<lambda>s. sc_duration (clip t (t + d) s)) ?ts) = t + d - max t (sc_tstamp (hd ?ts))"
    using xs assms(8) by (intro clipped_eq [OF seq]) (auto simp: covers_def)
  moreover have "map (\<lambda>s. sc_duration (clip t (t + d) s)) ?ts = map sc_duration xs" by (simp add: xs(3) o_def)
  ultimately have "sum_list (map sc_duration xs) = d" using xs(2) by (simp add: covers_def max_absorb1)
  then show ?thesis using covered_clips [OF seq _ xs(1,2)] assms(8) xs(3) by simp
qed

lemma example_covered: "\<exists>n r1. makeIntervalIntersectingSlices (\<lambda>_. True) True 0 5 10 True True
    (two_slices (example_slice 0 10) (example_slice 10 10))
  = (Inr (Some [(example_slice 5 5)\<lparr>sc_swin := Analysis\<rparr>, (example_slice 10 5)\<lparr>sc_swout := Analysis\<rparr>], n), r1)"
proof -
  have "interval_of 5 (5 + 10) True (drop (unat (0 :: 64 word) - 0) [example_slice 0 10, example_slice 10 10])
      = (Some [(example_slice 5 5)\<lparr>sc_swin := Analysis\<rparr>, (example_slice 10 5)\<lparr>sc_swout := Analysis\<rparr>], 1)"
    by (simp add: interval_of_def touches_def covers_def clip_def example_slice_def tstampEnd_def)
  then show ?thesis
    using interval_read [OF two_slices_in [OF example_slice_ok example_slice_ok] two_slices_ring(1), of 0 10 10 10 0 0 10 5 True]
      two_slices_ring(3) example_sequence by (auto simp: slice_size_def example_slice_def)
qed

theorem covered_interval_exact_witness:
  "\<exists>xs n r1. makeIntervalIntersectingSlices (\<lambda>_. True) True 0 5 10 True True
      (two_slices (example_slice 0 10) (example_slice 10 10)) = (Inr (Some xs, n), r1)
    \<and> chained 5 xs \<and> tstampEnd (last xs) = 15 \<and> sum_list (map sc_duration xs) = 10"
proof -
  let ?r = "two_slices (example_slice 0 10) (example_slice 10 10)"
  obtain xs n r1 where x: "makeIntervalIntersectingSlices (\<lambda>_. True) True 0 5 10 True True ?r = (Inr (Some xs, n), r1)"
    using example_covered by blast
  have "chained 5 xs \<and> tstampEnd (last xs) = 5 + 10 \<and> sum_list (map sc_duration xs) = 10"
    by (rule covered_interval_exact [OF two_slices_in [OF example_slice_ok example_slice_ok] two_slices_ring(1) _ _ _
        example_sequence _ _ x, of 0]) (simp_all add: slice_size_def example_slice_def two_slices_ring)
  with x show ?thesis by auto
qed

section \<open>Printing\<close>

lemma print_slices_eq:
  assumes "reading r sls k" "length sls - k < reads"
  shows "\<exists>r1. print_slices reads (\<lambda>_. True) show_slice n out r =
      (Inr (n + (length sls - k), out @ concat (map (\<lambda>s. show_slice s @ '' '' @ [newline]) (drop k sls))), r1)
    \<and> hr_rtx r1"
  using assms
proof (induction reads arbitrary: k n out r)
  case (Suc reads)
  from nextSlice_reads [OF Suc.prems(1)] obtain r1 where
    r1: "nextSlice (\<lambda>_. True) r = (Inr (if k < length sls then Some (sls ! k) else None), r1)"
      "reading r1 sls (if k < length sls then k + 1 else k)" by blast
  show ?case
  proof (cases "k < length sls")
    case False
    with r1 show ?thesis by (simp add: abind_def reading_def)
  next
    case True
    with r1 have "reading r1 sls (k + 1)" "length sls - (k + 1) < reads" using Suc.prems(2) by simp_all
    from Suc.IH [OF this, of "n + 1" "out @ show_slice (sls ! k) @ '' '' @ [newline]"] True r1(1)
    show ?thesis by (auto simp: abind_def simp flip: Cons_nth_drop_Suc)
  qed
qed simp

text \<open>C36: Printing gives the text of every slice of the ring and leaves its transaction open: afterwards no interval can
  be read and nothing can be printed.\<close>

theorem printing_blocks_reading:
  assumes "slices_in r sls" "\<not> hr_rtx r"
  shows "\<exists>r1. toStream (\<lambda>_. True) True show_slice r =
      (Inr (''slices ['' @ show_nat (length sls) @ '']'' @ [newline]
        @ concat (map (\<lambda>s. show_slice s @ '' '' @ [newline]) sls)), r1)
    \<and> toStream mem cas show_slice r1 = (Inl Assert_Failure, r1)
    \<and> makeIntervalIntersectingSlices mem cas offset t (Suc d) trim abort r1 = (Inl Assert_Failure, r1)"
proof -
  let ?r = "r\<lparr>hr_rtx := True\<rparr>"
  have len: "length sls - 0 < unat (hr_size r) + 1" using slices_fit [OF assms(1)] by simp
  have inv: "ring_inv r" using assms(1) by (simp add: slices_in_def)
  have "co_tx r = 0" using inv assms(2) by (simp add: ring_inv_def)
  then have "reading ?r sls 0" using assms inv_updates(2) [OF inv] by (simp add: reading_def slices_in_def)
  from print_slices_eq [OF this len, of show_slice 0 "[]"] obtain r1 where
    r1: "print_slices (unat (hr_size r) + 1) (\<lambda>_. True) show_slice 0 [] ?r =
      (Inr (length sls, concat (map (\<lambda>s. show_slice s @ '' '' @ [newline]) sls)), r1)" "hr_rtx r1" by auto
  have start: "asserting (startReadTransaction True) r = (Inr (), ?r)"
    using assms(2) by (simp add: asserting_def startReadTransaction_def)
  have busy: "asserting (startReadTransaction cas) r1 = (Inl Assert_Failure, r1)"
    using r1(2) by (simp add: asserting_def startReadTransaction_def)
  have "toStream (\<lambda>_. True) True show_slice r =
      (Inr (''slices ['' @ show_nat (length sls) @ '']'' @ [newline]
        @ concat (map (\<lambda>s. show_slice s @ '' '' @ [newline]) sls)), r1)"
    using r1(1) start by (simp add: toStream_def abind_def)
  moreover have "toStream mem cas show_slice r1 = (Inl Assert_Failure, r1)"
    "makeIntervalIntersectingSlices mem cas offset t (Suc d) trim abort r1 = (Inl Assert_Failure, r1)"
    using busy by (simp_all add: toStream_def makeIntervalIntersectingSlices_def Let_def abind_def)
  ultimately show ?thesis by blast
qed

theorem printing_blocks_reading_witness:
  "\<exists>r1. toStream (\<lambda>_. True) True (\<lambda>_. ''slice'') (two_slices (example_slice 0 10) (example_slice 10 10)) =
      (Inr (''slices ['' @ show_nat 2 @ '']'' @ [newline] @ ''slice '' @ [newline] @ ''slice '' @ [newline]), r1)
    \<and> toStream (\<lambda>_. True) True (\<lambda>_. ''slice'') r1 = (Inl Assert_Failure, r1)
    \<and> makeIntervalIntersectingSlices (\<lambda>_. True) True 0 5 (Suc 9) True True r1 = (Inl Assert_Failure, r1)"
  using printing_blocks_reading [OF two_slices_in [OF example_slice_ok example_slice_ok] two_slices_ring(1),
      of 0 10 10 10 "\<lambda>_. ''slice''" "\<lambda>_. True" True 0 5 9 True True] by (simp add: numeral_2_eq_2)

section \<open>Intervals without trimming\<close>

lemma untrimmed_slices:
  fixes t d :: nat
  assumes "reading r sls k" "\<forall>s \<in> set sls. 0 < sc_duration s" "0 < d" "length sls < reads"
    and "same_ring r0 r" "\<not> hr_rtx r0"
  defines "give_up \<equiv> abind (asserting cancelReadTx) (\<lambda>_ r1. (Inr (None, 0), r1))"
    and "skipped \<equiv> takeWhile (\<lambda>s. tstampEnd s < t) (drop k sls)"
    and "whole \<equiv> takeWhile (\<lambda>s. sc_tstamp s < t + d \<and> tstampEnd s \<le> t + d) (dropWhile (\<lambda>s. tstampEnd s < t) (drop k sls))"
  shows "\<exists>r1. abind (nextSlice (\<lambda>_. True)) (\<lambda>s. abind (skip_before reads (\<lambda>_. True) t s 0) (\<lambda>(s1, n).
          case s1 of
            None \<Rightarrow> give_up
          | Some sl \<Rightarrow>
              if False \<and> sc_tstamp sl > t then give_up
              else
                abind (collect_slices reads (\<lambda>_. True) (t + d) False False (Some sl) (sc_tstamp sl) [] 0 n) (\<lambda>found.
                  case found of
                    None \<Rightarrow> give_up
                  | Some (partitioned, dur, n1) \<Rightarrow> finish_interval t d False False partitioned dur n1))) r
      = (if whole = [] then Inr (None, 0)
         else if d < sum_list (map sc_duration whole) then Inl Assert_Failure
         else Inr (Some whole, length skipped + length whole), r1)
    \<and> hr_rtx r1 = (d < sum_list (map sc_duration whole))"
proof -
  let ?rem = "drop k sls"
  have "\<forall>s \<in> set ?rem. 0 < sc_duration s" "length ?rem < reads"
    using assms(2,4) by (auto dest: in_set_dropD)
  note seq = this
  from nextSlice_first [OF assms(1)] obtain cur r1 where n: "nextSlice (\<lambda>_. True) r = (Inr cur, r1)"
    "read_at r1 sls cur ?rem" by blast
  from skip_before_eq [OF n(2) seq, of t 0] obtain cur1 r2 where
    sk: "skip_before reads (\<lambda>_. True) t cur 0 r1 = (Inr (cur1, length skipped), r2)"
      "read_at r2 sls cur1 (dropWhile (\<lambda>s. tstampEnd s < t) ?rem)" by (auto simp: skipped_def)
  have up: "give_up r3 = (Inr (None, 0), closed r3)" "\<not> hr_rtx (closed r3)" if "hr_rtx r3" for r3
    using give_up_eq [OF that] unfolding give_up_def by (simp_all add: closed_def)
  have r2: "hr_rtx r2" using sk(2) by (auto simp: read_at_def reading_def)
  show ?thesis
  proof (cases cur1)
    case None
    then have "dropWhile (\<lambda>s. tstampEnd s < t) ?rem = []" using read_at_cases [OF sk(2)] by (simp split: list.splits)
    then have "whole = []" unfolding whole_def by (simp only: takeWhile.simps)
    with None up [OF r2] show ?thesis using n(1) sk(1) by (simp add: abind_ok)
  next
    case (Some sl)
    have len: "length (dropWhile (\<lambda>s. tstampEnd s < t) ?rem) < reads" using seq(2) length_dropWhile_le le_less_trans by blast
    have tw: "takeWhile (\<lambda>s. sc_tstamp s < t + d \<and> (False \<or> tstampEnd s \<le> t + d)) (dropWhile (\<lambda>s. tstampEnd s < t) ?rem)
        = whole" by (simp add: whole_def)
    note found = collect_slices_eq [OF sk(2) len, where e = "t + d" and trim = False and abort = False and acc = "[]" and dur = 0
        and last_end = "sc_tstamp sl" and n = "length skipped", unfolded tw]
    from found Some obtain r3 k3 where col: "collect_slices reads (\<lambda>_. True) (t + d) False False (Some sl) (sc_tstamp sl) [] 0
          (length skipped) r2 = (Inr (Some (whole, sum_list (map sc_duration whole), length skipped + length whole)), r3)"
      "reading r3 sls k3" by auto
    have r3: "hr_rtx r3" using col(2) by (simp add: reading_def)
    have "tstampEnd (last whole) \<le> t + d" if "whole \<noteq> []"
      using last_in_set [OF that] unfolding whole_def by (auto dest: set_takeWhileD)
    then have "\<exists>r4. finish_interval t d False False whole (sum_list (map sc_duration whole)) (length skipped + length whole) r3
        = (if whole = [] then Inr (None, 0)
         else if d < sum_list (map sc_duration whole) then Inl Assert_Failure
         else Inr (Some whole, length skipped + length whole), r4)
      \<and> hr_rtx r4 = (d < sum_list (map sc_duration whole))"
      using r3 by (auto simp: finish_interval_def Let_def closed_def give_up_eq [OF r3])
    with Some show ?thesis using n(1) sk(1) col(1) by (simp add: abind_ok)
  qed
qed

text \<open>C37: Without trimming, and with holes not refused, the slices of an interval are those that end in it, a slice that
  only ends in the interval included; when they are longer together than the interval the operation throws and its
  transaction stays open.\<close>

theorem untrimmed_interval:
  fixes t d :: nat
  assumes "slices_in r sls" "\<not> hr_rtx r" "unat (hr_tail r) = slice_size * p" "slice_size * (p + length sls) < 2 ^ 64"
    "slice_size * unat offset < 2 ^ 64" "list_all (\<lambda>s. 0 < sc_duration s) sls" "0 < d"
    and "rest = drop (unat offset - p) sls"
    and "whole = takeWhile (\<lambda>s. sc_tstamp s < t + d \<and> tstampEnd s \<le> t + d) (dropWhile (\<lambda>s. tstampEnd s < t) rest)"
  shows "\<exists>r1. makeIntervalIntersectingSlices (\<lambda>_. True) True offset t d False False r
      = (if whole = [] then Inr (None, 0)
         else if d < sum_list (map sc_duration whole) then Inl Assert_Failure
         else Inr (Some whole, length (takeWhile (\<lambda>s. tstampEnd s < t) rest) + length whole), r1)
    \<and> hr_rtx r1 = (d < sum_list (map sc_duration whole))"
proof -
  from seek_slice [OF assms(1-5)] obtain n r2 where
    r2: "seek_action (offset * of_nat slice_size) (r\<lparr>hr_rtx := True\<rparr>) = (Inr n, r2)"
      "reading r2 sls (min (unat offset - p) (length sls))" "same_ring r r2" by blast
  have pos: "\<forall>s \<in> set sls. 0 < sc_duration s" using assms(6) by (simp add: list_all_iff)
  note found = untrimmed_slices [OF r2(2) pos assms(7) slices_fit [OF assms(1)] r2(3) assms(2), of t]
  have start: "asserting (startReadTransaction True) r = (Inr (), r\<lparr>hr_rtx := True\<rparr>)"
    using assms(2) by (simp add: asserting_def startReadTransaction_def)
  have drops: "drop (min (unat offset - p) (length sls)) sls = rest" by (simp add: min_def assms(8))
  have "d \<noteq> 0" using assms(7) by simp
  then show ?thesis unfolding makeIntervalIntersectingSlices_def Let_def
    by (simp only: if_False abind_ok [where m = "asserting (startReadTransaction True)", OF start]
        abind_ok [where m = "seek_action (offset * of_nat slice_size)", OF r2(1)])
      (rule found [unfolded drops, folded assms(9)])
qed

theorem untrimmed_interval_witness:
  "\<exists>r1. makeIntervalIntersectingSlices (\<lambda>_. True) True 0 10 10 False False
      (two_slices (example_slice 0 10) (example_slice 10 10)) = (Inl Assert_Failure, r1) \<and> hr_rtx r1"
proof -
  let ?sls = "[example_slice 0 10, example_slice 10 10]"
  have whole: "?sls = takeWhile (\<lambda>s. sc_tstamp s < 10 + 10 \<and> tstampEnd s \<le> 10 + 10)
      (dropWhile (\<lambda>s. tstampEnd s < 10) (drop (unat (0 :: 64 word) - 0) ?sls))"
    by (simp add: example_slice_def tstampEnd_def)
  have "\<exists>r1. makeIntervalIntersectingSlices (\<lambda>_. True) True 0 10 10 False False
      (two_slices (example_slice 0 10) (example_slice 10 10))
      = (if ?sls = [] then Inr (None, 0)
         else if 10 < sum_list (map sc_duration ?sls) then Inl Assert_Failure
         else Inr (Some ?sls, length (takeWhile (\<lambda>s. tstampEnd s < 10) (drop (unat (0 :: 64 word) - 0) ?sls)) + length ?sls), r1)
    \<and> hr_rtx r1 = (10 < sum_list (map sc_duration ?sls))"
    by (rule untrimmed_interval [OF two_slices_in [OF example_slice_ok example_slice_ok] two_slices_ring(1) _ _ _ _ _ refl whole])
      (simp_all add: two_slices_ring slice_size_def example_slice_def)
  then show ?thesis by (simp add: example_slice_def)
qed

section \<open>Writing\<close>

definition one_slice_slicer :: "interval_slicer" where
  "one_slice_slicer = \<lparr>is_ring = (two_slices (example_slice 0 10) (example_slice 0 0))\<lparr>hr_head := 32\<rparr>, is_drop = 0,
     is_processed = 0, is_marks = [(''a'', 0), (''b'', 1)]\<rparr>"

text \<open>A slice that fits is written: every consumer gets it, after the slices it was waiting for.\<close>

theorem write_reaches_consumers:
  assumes "in_step st sls" "\<not> hr_wtx (is_ring st)" "slice_ok s"
    "slice_size * (length sls + 1) \<le> length (hr_data (is_ring st))"
    "slice_size * (unat (is_processed st) + length sls + 1) < 2 ^ 64"
  shows "\<exists>st1. write_slice (\<lambda>_. (True, True)) s st = Inr (Inr (of_nat slice_size), st1) \<and> in_step st1 (sls @ [s])
    \<and> unconsumed st1 (sls @ [s]) = (\<lambda>key. map_option (\<lambda>l. l @ [s]) (unconsumed st sls key))"
  using write_slice_appends [OF assms] by blast

lemma one_slice_in_step: "in_step one_slice_slicer [example_slice 0 10]"
proof -
  let ?r = "(two_slices (example_slice 0 10) (example_slice 0 0))\<lparr>hr_head := 32\<rparr>"
  have len: "length (hr_data ?r) = 64" by (simp add: two_slices_def length_slice_bytes slice_size_def)
  then have "ring_inv ?r" by (auto simp: ring_inv_def two_slices_def used_def mask_eq_decr_exp intro!: exI [of _ 6])
  moreover have "contents ?r = concat [slice_bytes (example_slice 0 10)]"
    using length_slice_bytes [of "example_slice 0 10"]
    by (simp add: contents_def ring_view_def used_def two_slices_def slice_size_def)
  moreover have "slice_ok (example_slice 0 10)" by (simp add: example_slice_ok)
  ultimately have "slices_in ?r [example_slice 0 10]" using len unfolding slices_in_def
    by (intro conjI exI [of _ "[slice_bytes (example_slice 0 10)]"])
      (simp_all add: bytes_slice_bytes length_slice_bytes slice_size_def)
  then show ?thesis by (auto simp: in_step_def one_slice_slicer_def two_slices_def slice_size_def)
qed

theorem write_reaches_consumers_witness:
  "\<exists>st1. write_slice (\<lambda>_. (True, True)) (example_slice 10 10) one_slice_slicer = Inr (Inr 32, st1)
    \<and> unconsumed st1 [example_slice 0 10, example_slice 10 10] ''a'' = Some [example_slice 0 10, example_slice 10 10]
    \<and> unconsumed st1 [example_slice 0 10, example_slice 10 10] ''b'' = Some [example_slice 10 10]"
proof -
  have "unconsumed one_slice_slicer [example_slice 0 10] ''a'' = Some [example_slice 0 10]"
    "unconsumed one_slice_slicer [example_slice 0 10] ''b'' = Some []"
    by (simp_all add: unconsumed_def one_slice_slicer_def)
  then show ?thesis
    using write_reaches_consumers [OF one_slice_in_step, of "example_slice 10 10"]
    by (auto simp: one_slice_slicer_def two_slices_def length_slice_bytes slice_size_def example_slice_ok)
qed

section \<open>Slices dropped for room\<close>

text \<open>C38: The slices that a writer drops for room are not counted as processed: when consumers have moved on after such a
  drop, discarding releases slices that the slowest of them has still to read.\<close>

theorem discard_after_drop_loses:
  assumes "slices_in (is_ring st) sls" "\<not> hr_rtx (is_ring st)" "q = Min (snd ` set (is_marks st))" "is_marks st \<noteq> []"
    "unat (hr_tail (is_ring st)) = slice_size * (unat (is_processed st) + dropped)"
    "slice_size * (unat (is_processed st) + dropped + length sls) < 2 ^ 64"
    "0 < dropped" "unat (is_processed st) < unat q" "unat q \<le> unat (is_processed st) + length sls"
    and "in_sequence sls" "list_all (\<lambda>s. 0 < sc_duration s) sls" "0 < d"
  shows "\<exists>r1 r2 st1. makeIntervalIntersectingSlices (\<lambda>_. True) True q t d True abort (is_ring st)
        = (Inr (interval_of t (t + d) abort (drop (unat q - (unat (is_processed st) + dropped)) sls)), r1)
    \<and> discardConsumed True st = Inr st1
    \<and> makeIntervalIntersectingSlices (\<lambda>_. True) True q t d True abort (is_ring st1)
        = (Inr (interval_of t (t + d) abort (drop (unat q - unat (is_processed st)) sls)), r2)
    \<and> unat q - (unat (is_processed st) + dropped) < unat q - unat (is_processed st)"
proof -
  let ?p = "unat (is_processed st)"
  have pos: "\<forall>s \<in> set sls. 0 < sc_duration s" using assms(11) by (simp add: list_all_iff)
  have q: "slice_size * unat q < 2 ^ 64" using assms(6,9) by (simp add: slice_size_def)
  from interval_read [OF assms(1,2,5,6) q assms(10) pos assms(12), of t abort] obtain r1 where
    r1: "makeIntervalIntersectingSlices (\<lambda>_. True) True q t d True abort (is_ring st)
      = (Inr (interval_of t (t + d) abort (drop (unat q - (?p + dropped)) sls)), r1)" by blast
  have room: "unat (hr_tail (is_ring st)) + slice_size * length sls < 2 ^ 64" using assms(5,6) by (simp add: distrib_left)
  have le: "?p \<le> unat q" using assms(8) by simp
  from discard_drops [OF assms(1,2,4,3) room le assms(9)] obtain r2 where
    r2: "discardConsumed True st = Inr (st\<lparr>is_ring := r2, is_processed := q\<rparr>)" "slices_in r2 (drop (unat q - ?p) sls)"
      "\<not> hr_rtx r2" "unat (hr_tail r2) = slice_size * (unat q + dropped)"
    using assms(5) le by (fastforce simp flip: distrib_left)
  have fits: "slice_size * (unat q + dropped + length (drop (unat q - ?p) sls)) < 2 ^ 64"
    using assms(6,9) le by (simp add: slice_size_def)
  have "\<forall>s \<in> set (drop (unat q - ?p) sls). 0 < sc_duration s" using pos by (auto dest: in_set_dropD)
  from interval_read [OF r2(2,3,4) fits q in_sequence_drop [OF assms(10)] this assms(12), of t abort] obtain r3 where
    "makeIntervalIntersectingSlices (\<lambda>_. True) True q t d True abort r2
      = (Inr (interval_of t (t + d) abort (drop (unat q - ?p) sls)), r3)" by auto
  with r1 r2(1) assms(7,8) show ?thesis by auto
qed

definition dropped_slicer :: "interval_slicer" where
  "dropped_slicer = \<lparr>is_ring = (two_slices (example_slice 20 10) (example_slice 10 10))\<lparr>hr_head := 96, hr_tail := 32\<rparr>,
     is_drop = 32, is_processed = 0, is_marks = [(''a'', 1), (''b'', 1)]\<rparr>"

lemma dropped_in: "slices_in (is_ring dropped_slicer) [example_slice 10 10, example_slice 20 10]"
proof -
  let ?r = "(two_slices (example_slice 20 10) (example_slice 10 10))\<lparr>hr_head := 96, hr_tail := 32\<rparr>"
  let ?bs = "[slice_bytes (example_slice 10 10), slice_bytes (example_slice 20 10)]"
  have len: "length (hr_data ?r) = 64" by (simp add: two_slices_def length_slice_bytes slice_size_def)
  then have "ring_inv ?r" by (auto simp: ring_inv_def two_slices_def used_def mask_eq_decr_exp intro!: exI [of _ 6])
  moreover have "contents ?r = concat ?bs"
    by (simp add: contents_def ring_view_def used_def two_slices_def rotate_drop_take length_slice_bytes slice_size_def)
  moreover have "slice_ok (example_slice 10 10)" "slice_ok (example_slice 20 10)" by (simp_all add: example_slice_ok)
  ultimately show ?thesis using len unfolding slices_in_def dropped_slicer_def
    by (intro conjI exI [of _ ?bs]) (simp_all add: bytes_slice_bytes length_slice_bytes slice_size_def)
qed

theorem discard_after_drop_loses_witness:
  "\<exists>r1 r2 st1. makeIntervalIntersectingSlices (\<lambda>_. True) True 1 10 10 True False (is_ring dropped_slicer)
        = (Inr (Some [example_slice 10 10], 1), r1)
    \<and> discardConsumed True dropped_slicer = Inr st1
    \<and> makeIntervalIntersectingSlices (\<lambda>_. True) True 1 10 10 True False (is_ring st1) = (Inr (None, 0), r2)"
proof -
  let ?sls = "[example_slice 10 10, example_slice 20 10]"
  have found: "interval_of 10 (10 + 10) False (drop (unat (1 :: 64 word) - (0 + 1)) ?sls) = (Some [example_slice 10 10], 1)"
    "interval_of 10 (10 + 10) False (drop (unat (1 :: 64 word) - 0) ?sls) = (None, 0)"
    by (simp_all add: interval_of_def touches_def clip_def example_slice_def tstampEnd_def)
  have "in_sequence ?sls" by (simp add: in_sequence_def tstampEnd_def example_slice_def)
  then show ?thesis using found discard_after_drop_loses [OF dropped_in, of 1 1 10 10 False]
    by (fastforce simp: dropped_slicer_def two_slices_def slice_size_def example_slice_def)
qed

end
