(* ===== verification/MetricSeries.thy ===== *)
theory MetricSeries
  imports RingBuffer
begin

text \<open>
  The series of samples of the monitoring daemon (\<^verbatim>\<open>src/dynolog/src/metric_frame/MetricSeries.h\<close>): a
  ring of samples with its iterators and the aggregations over them.  What the element type does (adding, subtracting,
  dividing) is an argument, as it is a template parameter there; the rounding of a percentile to an index is
  floating-point arithmetic and an argument too.  A range whose end lies before its beginning is undefined behaviour.
\<close>

section \<open>The series\<close>

record 'a metric_series =
  ms_data :: "'a list"
  ms_head :: nat
  ms_tail :: nat
  ms_size :: nat
  ms_name :: string
  ms_description :: string

definition make_series :: "'a \<Rightarrow> nat \<Rightarrow> string \<Rightarrow> string \<Rightarrow> 'a metric_series" where
  "make_series zero bufferLen name description =
     \<lparr>ms_data = replicate bufferLen zero, ms_head = 0, ms_tail = 0, ms_size = 0, ms_name = name,
      ms_description = description\<rparr>"

text \<open>Conversion to a 32-bit \<^verbatim>\<open>int\<close>, the type of an index here and the difference type of the iterators.\<close>

definition size_to_int :: "int \<Rightarrow> int" where
  "size_to_int i = (i + 2 ^ 31) mod 2 ^ 32 - 2 ^ 31"

text \<open>The index is passed and returned as an \<^verbatim>\<open>int\<close>; the remainder is taken in 64 bits without sign.\<close>

definition idxNext :: "'a metric_series \<Rightarrow> nat \<Rightarrow> nat" where
  "idxNext s idx =
     nat (size_to_int ((size_to_int (int idx) + 1) mod 2 ^ 64 mod int (length (ms_data s))) mod 2 ^ 64)"

lemma idxNext_small:
  assumes "idx < length (ms_data s)" "length (ms_data s) < 2 ^ 31"
  shows "idxNext s idx = (idx + 1) mod length (ms_data s)"
proof -
  define n where "n = length (ms_data s)"
  have i: "size_to_int (int idx) = int idx" using assms by (simp add: size_to_int_def)
  have "(int idx + 1) mod 2 ^ 64 = int idx + 1" using assms by simp
  moreover have "(int idx + 1) mod int n = int ((idx + 1) mod n)" by (simp add: zmod_int add.commute)
  moreover have "int ((idx + 1) mod n) < 2 ^ 31"
  proof -
    have "(idx + 1) mod n < n" using assms by (intro mod_less_divisor) (auto simp: n_def)
    then have "(idx + 1) mod n < 2 ^ 31" using assms(2) unfolding n_def by (rule less_trans)
    then show ?thesis by (metis of_nat_less_iff of_nat_numeral of_nat_power)
  qed
  ultimately show ?thesis unfolding idxNext_def i n_def [symmetric] by (simp add: size_to_int_def)
qed

definition series_addSample :: "'a \<Rightarrow> 'a metric_series \<Rightarrow> 'a metric_series result" where
  "series_addSample x s =
     (if \<not> ms_tail s < length (ms_data s) then Inl Undefined_Behaviour
      else if ms_size s = length (ms_data s) then
        Inr (s\<lparr>ms_data := (ms_data s)[ms_tail s := x], ms_tail := idxNext s (ms_tail s), ms_head := idxNext s (ms_head s)\<rparr>)
      else
        Inr (s\<lparr>ms_data := (ms_data s)[ms_tail s := x], ms_tail := idxNext s (ms_tail s), ms_size := ms_size s + 1\<rparr>))"

section \<open>Iterators\<close>

text \<open>The pointer to the data is the series the iterator is used with.\<close>

record series_iter =
  it_size :: nat
  it_head :: nat      \<comment> \<open>\<^verbatim>\<open>headIdx_\<close>\<close>
  it_dis :: nat       \<comment> \<open>\<^verbatim>\<open>headDis_\<close>\<close>

definition it_plus :: "series_iter \<Rightarrow> int \<Rightarrow> series_iter" where
  "it_plus it d = it\<lparr>it_dis := nat ((int (it_dis it) + d) mod 2 ^ 64)\<rparr>"

definition it_minus :: "series_iter \<Rightarrow> int \<Rightarrow> series_iter" where
  "it_minus it d = it\<lparr>it_dis := nat ((int (it_dis it) - d) mod 2 ^ 64)\<rparr>"

definition it_inc :: "series_iter \<Rightarrow> series_iter" where
  "it_inc it = it\<lparr>it_dis := (it_dis it + 1) mod 2 ^ 64\<rparr>"

definition it_dec :: "series_iter \<Rightarrow> series_iter" where
  "it_dec it = it\<lparr>it_dis := size_sub (it_dis it) 1\<rparr>"

definition it_plus_assign :: "series_iter \<Rightarrow> int \<Rightarrow> series_iter" where
  "it_plus_assign it d = it\<lparr>it_dis := nat ((int (it_dis it) + d) mod 2 ^ 64)\<rparr>"

text \<open>As in the source, \<^verbatim>\<open>-=\<close> adds.\<close>

definition it_minus_assign :: "series_iter \<Rightarrow> int \<Rightarrow> series_iter" where
  "it_minus_assign it d = it\<lparr>it_dis := nat ((int (it_dis it) + d) mod 2 ^ 64)\<rparr>"

definition it_diff :: "series_iter \<Rightarrow> series_iter \<Rightarrow> int" where
  "it_diff a b = size_to_int (int (it_dis a) - int (it_dis b))"

definition it_eq :: "series_iter \<Rightarrow> series_iter \<Rightarrow> bool" where
  "it_eq a b \<longleftrightarrow> it_dis a = it_dis b"

definition it_deref :: "'a metric_series \<Rightarrow> series_iter \<Rightarrow> 'a result" where
  "it_deref s it =
     (if it_size it = 0 then Inl Undefined_Behaviour
      else
        let i = (it_head it + it_dis it) mod 2 ^ 64 mod it_size it
        in if i < length (ms_data s) then Inr (ms_data s ! i) else Inl Out_Of_Range)"

definition series_begin :: "'a metric_series \<Rightarrow> series_iter" where
  "series_begin s = \<lparr>it_size = ms_size s, it_head = ms_head s, it_dis = 0\<rparr>"

definition series_end :: "'a metric_series \<Rightarrow> series_iter" where
  "series_end s = \<lparr>it_size = ms_size s, it_head = ms_head s, it_dis = ms_size s\<rparr>"

definition series_at :: "'a metric_series \<Rightarrow> nat \<Rightarrow> 'a result" where
  "series_at s idx = it_deref s (it_plus (series_begin s) (size_to_int (int idx)))"

definition series_inc :: "'a \<Rightarrow> ('a \<Rightarrow> 'a \<Rightarrow> 'a result) \<Rightarrow> 'a \<Rightarrow> 'a metric_series \<Rightarrow> 'a metric_series result" where
  "series_inc zero add delta s =
     rbind (if ms_size s > 0 then series_at s (ms_size s - 1) else Inr zero) (\<lambda>lastSample.
     rbind (add lastSample delta) (\<lambda>x. series_addSample x s))"

section \<open>Aggregation\<close>

fun deref_all :: "'a metric_series \<Rightarrow> series_iter \<Rightarrow> nat \<Rightarrow> 'a list result" where
  "deref_all s it 0 = Inr []"
| "deref_all s it (Suc n) =
     rbind (it_deref s it) (\<lambda>x. rbind (deref_all s (it_inc it) n) (\<lambda>xs. Inr (x # xs)))"

definition it_range :: "'a metric_series \<Rightarrow> series_iter \<Rightarrow> series_iter \<Rightarrow> 'a list result" where
  "it_range s b e = (if it_dis e < it_dis b then Inl Undefined_Behaviour else deref_all s b (it_dis e - it_dis b))"

definition begin_or :: "'a metric_series \<Rightarrow> series_iter option \<Rightarrow> series_iter" where
  "begin_or s b = (case b of None \<Rightarrow> series_begin s | Some it \<Rightarrow> it)"

definition end_or :: "'a metric_series \<Rightarrow> series_iter option \<Rightarrow> series_iter" where
  "end_or s e = (case e of None \<Rightarrow> series_end s | Some it \<Rightarrow> it)"

definition series_raw :: "'a metric_series \<Rightarrow> series_iter option \<Rightarrow> series_iter option \<Rightarrow> 'a list result" where
  "series_raw s b e = it_range s (begin_or s b) (end_or s e)"

definition series_diff :: "('a \<Rightarrow> 'a \<Rightarrow> 'a result) \<Rightarrow> 'a metric_series \<Rightarrow> series_iter option \<Rightarrow> series_iter option
    \<Rightarrow> 'a result" where
  "series_diff sub s b e =
     rbind (it_deref s (it_minus (end_or s e) 1)) (\<lambda>l. rbind (it_deref s (begin_or s b)) (\<lambda>f. sub l f))"

definition series_avg :: "'r \<Rightarrow> ('r \<Rightarrow> 'a \<Rightarrow> 'r result) \<Rightarrow> ('r \<Rightarrow> int \<Rightarrow> 'r result) \<Rightarrow> 'a metric_series
    \<Rightarrow> series_iter option \<Rightarrow> series_iter option \<Rightarrow> 'r result" where
  "series_avg zero add over s b e =
     rbind (it_range s (begin_or s b) (end_or s e)) (\<lambda>xs.
     rbind (foldl (\<lambda>acc x. rbind acc (\<lambda>r. add r x)) (Inr zero) xs) (\<lambda>total.
       over total (it_diff (end_or s e) (begin_or s b))))"

text \<open>\<^verbatim>\<open>lround(percentage * (n - 1))\<close> is a function of \<^verbatim>\<open>n\<close>.\<close>

definition series_percentile :: "(nat \<Rightarrow> nat) \<Rightarrow> ('a :: linorder) metric_series \<Rightarrow> series_iter option \<Rightarrow> series_iter option
    \<Rightarrow> 'a result" where
  "series_percentile nth_index s b e =
     rbind (it_range s (begin_or s b) (end_or s e)) (\<lambda>xs.
       if nth_index (length xs) < length xs then Inr (sort xs ! nth_index (length xs)) else Inl Undefined_Behaviour)"

text \<open>Division of integers rounds to zero; a duration is a number of nanoseconds.\<close>

definition quot_int :: "int \<Rightarrow> int \<Rightarrow> int" where
  "quot_int a b = sgn a * sgn b * (\<bar>a\<bar> div \<bar>b\<bar>)"

text \<open>A product or a quotient outside of 64 bits is undefined behaviour.\<close>

definition checked_int64 :: "int \<Rightarrow> int result" where
  "checked_int64 i = (if in_int64 i then Inr i else Inl Undefined_Behaviour)"

definition checked_quot :: "int \<Rightarrow> int \<Rightarrow> int result" where
  "checked_quot a b = (if b = 0 then Inl Undefined_Behaviour else checked_int64 (quot_int a b))"

definition rate_integral :: "int \<Rightarrow> int \<Rightarrow> int \<Rightarrow> int result" where
  "rate_integral value period duration =
     (if period > duration then rbind (checked_quot period duration) (\<lambda>q. checked_int64 (value * q))
      else rbind (checked_quot duration period) (\<lambda>q. checked_quot value q))"

definition series_rate :: "(int \<Rightarrow> int \<Rightarrow> int result) \<Rightarrow> int metric_series \<Rightarrow> int \<Rightarrow> int \<Rightarrow> series_iter option
    \<Rightarrow> series_iter option \<Rightarrow> int result" where
  "series_rate sub s period duration b e =
     rbind (series_diff sub s b e) (\<lambda>value. rate_integral value period duration)"

section \<open>The series as a ring buffer\<close>

text \<open>A series is a ring buffer that is never popped, so its head moves only when it is full.\<close>

definition as_ring :: "'a metric_series \<Rightarrow> 'a ring_buffer" where
  "as_ring s = \<lparr>rb_capacity = length (ms_data s), rb_sz = ms_size s, rb_first = ms_head s, rb_pos = ms_tail s,
     rb_data = ms_data s\<rparr>"

definition series_ok :: "'a metric_series \<Rightarrow> bool" where
  "series_ok s \<longleftrightarrow> rb_ok (as_ring s) \<and> (ms_size s < length (ms_data s) \<longrightarrow> ms_head s = 0) \<and> length (ms_data s) < 2 ^ 31"

definition series_values :: "'a metric_series \<Rightarrow> 'a list" where
  "series_values s = rb_to_vector (as_ring s)"

definition series_push :: "'a \<Rightarrow> 'a metric_series \<Rightarrow> 'a metric_series" where
  "series_push x s = (case series_addSample x s of Inr s1 \<Rightarrow> s1 | Inl _ \<Rightarrow> s)"

lemma length_series_values [simp]: "length (series_values s) = ms_size s"
  by (simp add: series_values_def rb_to_vector_def as_ring_def)

lemma series_add_ring:
  assumes "ms_tail s < length (ms_data s)" "ms_head s < length (ms_data s)" "length (ms_data s) < 2 ^ 31"
  shows "map_sum id as_ring (series_addSample x s) = rb_push_back x (as_ring s)"
  using assms by (auto simp: series_addSample_def rb_push_back_def as_ring_def idxNext_small)

lemma series_ok_ring: "series_ok s \<Longrightarrow> rb_ok (as_ring s)"
  by (simp add: series_ok_def)

lemma series_add_ok:
  assumes "series_ok s"
  shows "series_addSample x s = Inr (series_push x s)" "as_ring (series_push x s) = rb_push x (as_ring s)"
    "ms_name (series_push x s) = ms_name s" "length (ms_data (series_push x s)) = length (ms_data s)"
    "ms_size (series_push x s) = (if ms_size s = length (ms_data s) then ms_size s else ms_size s + 1)"
proof -
  have tail: "ms_tail s < length (ms_data s)" "0 < length (ms_data s)"
    using rb_pos_less [OF series_ok_ring [OF assms]] by (auto simp: as_ring_def)
  then show add: "series_addSample x s = Inr (series_push x s)"
    by (simp add: series_push_def series_addSample_def)
  have "ms_head s < length (ms_data s)" "length (ms_data s) < 2 ^ 31"
    using assms by (auto simp: series_ok_def rb_ok_def as_ring_def)
  from series_add_ring [OF tail(1) this, of x] rb_push_back_ok [OF series_ok_ring [OF assms], of x]
  show "as_ring (series_push x s) = rb_push x (as_ring s)" by (simp add: add)
  show "ms_name (series_push x s) = ms_name s" "length (ms_data (series_push x s)) = length (ms_data s)"
    "ms_size (series_push x s) = (if ms_size s = length (ms_data s) then ms_size s else ms_size s + 1)"
    using tail by (simp_all add: series_push_def series_addSample_def)
qed

interpretation series: bounded_history series_ok series_values series_push "\<lambda>s. length (ms_data s)"
proof
  fix s :: "'a metric_series" and x
  let ?n = "length (ms_data s)"
  show "series_ok (series_push x s)" if ok: "series_ok s"
  proof -
    note r = series_ok_ring [OF ok] and a = series_add_ok [OF ok, of x]
    have "rb_ok (as_ring (series_push x s))" using rb_push_ok [OF r] a(2) by metis
    moreover have "ms_head (series_push x s) = 0" if "ms_size (series_push x s) < ?n"
      using that ok by (auto simp: series_push_def series_addSample_def series_ok_def split: if_splits)
    ultimately show ?thesis using ok a(4) by (simp add: series_ok_def)
  qed
  show "length (ms_data (series_push x s)) = ?n"
    by (auto simp: series_push_def series_addSample_def)
  show "length (series_values s) \<le> ?n" "0 < ?n" if "series_ok s"
    using series_ok_ring [OF that] by (auto simp: rb_ok_def as_ring_def)
  show "series_values (series_push x s) =
      (if length (series_values s) = ?n then tl (series_values s) else series_values s) @ [x]" if ok: "series_ok s"
    using ring.contents_push [OF series_ok_ring [OF ok], of x] series_add_ok(2) [OF ok, of x]
    by (simp add: series_values_def) (simp add: as_ring_def)
qed

lemma make_series_ok: "0 < n \<Longrightarrow> n < 2 ^ 31 \<Longrightarrow> series_ok (make_series z n name desc)"
  by (simp add: series_ok_def make_series_def as_ring_def rb_ok_def)

lemma make_series_values [simp]: "series_values (make_series z n name desc) = []"
  by (simp add: series_values_def make_series_def as_ring_def rb_to_vector_def)

end
