(* ===== verification/MetricTime.thy ===== *)
theory MetricTime
  imports Complex_Main MetricSeries
begin

text \<open>
  The time axis of a metric frame (\<^verbatim>\<open>src/dynolog/src/metric_frame/MetricFrameTsUnit.cpp\<close>): the series of the time
  points of the samples and the search for the sample nearest to a time, and the axis with a fixed interval, which
  keeps only the last time and a count.  Time points are numbers of nanoseconds, intervals of microseconds.  The binary
  searches of the standard library give the partition point of the range they are called on, which they do
  for every range in which the elements that meet the condition come first.
\<close>

section \<open>Reading a series\<close>

lemma size_to_int_small: "0 \<le> i \<Longrightarrow> i < 2 ^ 31 \<Longrightarrow> size_to_int i = i"
  by (simp add: size_to_int_def)

lemma it_plus_begin:
  assumes "series_ok s" "i \<le> ms_size s"
  shows "it_plus (series_begin s) (int i) = \<lparr>it_size = ms_size s, it_head = ms_head s, it_dis = i\<rparr>"
proof -
  have "i < 2 ^ 31" using assms by (auto simp: series_ok_def rb_ok_def as_ring_def)
  then show ?thesis by (simp add: it_plus_def series_begin_def)
qed

lemma it_deref_values:
  assumes "series_ok s" "i < ms_size s"
  shows "it_deref s \<lparr>it_size = ms_size s, it_head = ms_head s, it_dis = i\<rparr> = Inr (series_values s ! i)"
proof -
  let ?n = "length (ms_data s)"
  have r: "ms_size s \<le> ?n" "ms_head s < ?n" "?n < 2 ^ 31" "ms_size s < ?n \<longrightarrow> ms_head s = 0"
    using assms(1) by (auto simp: series_ok_def rb_ok_def as_ring_def)
  have "(ms_head s + i) mod 2 ^ 64 mod ms_size s = (ms_head s + i) mod ?n"
    using r assms(2) by (cases "ms_size s < ?n") simp_all
  moreover have "(ms_head s + i) mod ?n < ?n" using r(2) by (intro mod_less_divisor) linarith
  moreover have "series_values s ! i = ms_data s ! ((ms_head s + i) mod ?n)"
    using assms(2) by (simp add: series_values_def rb_to_vector_def as_ring_def)
  ultimately show ?thesis using assms(2) by (simp add: it_deref_def Let_def)
qed

lemma series_at_values:
  assumes "series_ok s" "i < ms_size s"
  shows "series_at s i = Inr (series_values s ! i)"
proof -
  have "int i < 2 ^ 31" using assms by (auto simp: series_ok_def rb_ok_def as_ring_def)
  then show ?thesis using assms by (simp add: series_at_def size_to_int_small it_plus_begin it_deref_values)
qed

lemma deref_all_values:
  assumes "series_ok s" "i + n \<le> ms_size s"
  shows "deref_all s \<lparr>it_size = ms_size s, it_head = ms_head s, it_dis = i\<rparr> n = Inr (take n (drop i (series_values s)))"
  using assms(2)
proof (induction n arbitrary: i)
  case (Suc n)
  have "i + 1 < 2 ^ 64" using Suc.prems assms(1) by (auto simp: series_ok_def rb_ok_def as_ring_def)
  moreover have "take (Suc n) (drop i (series_values s)) = series_values s ! i # take n (drop (Suc i) (series_values s))"
    using Suc.prems by (simp flip: Cons_nth_drop_Suc)
  ultimately show ?case using Suc.IH [of "Suc i"] Suc.prems by (simp add: it_deref_values [OF assms(1)] it_inc_def)
qed simp

lemma it_range_values:
  assumes "series_ok s" "i \<le> j" "j \<le> ms_size s"
  shows "it_range s \<lparr>it_size = ms_size s, it_head = ms_head s, it_dis = i\<rparr> \<lparr>it_size = ms_size s, it_head = ms_head s, it_dis = j\<rparr>
    = Inr (take (j - i) (drop i (series_values s)))"
  using assms deref_all_values [OF assms(1), of i "j - i"] by (simp add: it_range_def)

lemma series_all_values: "series_ok s \<Longrightarrow> it_range s (series_begin s) (series_end s) = Inr (series_values s)"
  using it_range_values [of s 0 "ms_size s"] by (simp add: series_begin_def series_end_def)

lemma series_raw_slice:
  assumes "series_ok s" "i \<le> j" "j < ms_size s"
  shows "series_raw s (Some (it_plus (series_begin s) (int i))) (Some (it_plus (series_begin s) (int j + 1)))
    = Inr (take (j + 1 - i) (drop i (series_values s)))"
  using assms it_range_values [OF assms(1), of i "j + 1"] it_plus_begin [OF assms(1), of i] it_plus_begin [OF assms(1), of "j + 1"]
  by (simp add: series_raw_def begin_or_def end_or_def add.commute)

section \<open>Samples with their times\<close>

datatype match_policy = CLOSEST | PREV_CLOSEST | NEXT_CLOSEST

record frame_offset =
  fo_offset :: nat
  fo_time :: int

record frame_range =
  fr_start :: frame_offset
  fr_end :: frame_offset

definition time_addSample :: "int \<Rightarrow> int metric_series \<Rightarrow> int metric_series result" where
  "time_addSample time s =
     (if ms_size s = 0 then series_addSample time s
      else
        rbind (series_at s (ms_size s - 1)) (\<lambda>l.
          if time \<le> l then Inl Invalid_Argument else series_addSample time s))"

definition time_first :: "int metric_series \<Rightarrow> int option result" where
  "time_first s = (if ms_size s = 0 then Inr None else rbind (it_deref s (series_begin s)) (\<lambda>t. Inr (Some t)))"

definition time_last :: "int metric_series \<Rightarrow> int option result" where
  "time_last s = (if ms_size s = 0 then Inr None else rbind (it_deref s (it_minus (series_end s) 1)) (\<lambda>t. Inr (Some t)))"

definition getTimeVector :: "int metric_series \<Rightarrow> int list result" where
  "getTimeVector s = it_range s (series_begin s) (series_end s)"

text \<open>\<^verbatim>\<open>std::upper_bound\<close> and \<^verbatim>\<open>std::lower_bound\<close> over the whole series.\<close>

definition partition_point :: "('a \<Rightarrow> bool) \<Rightarrow> 'a metric_series \<Rightarrow> series_iter result" where
  "partition_point P s =
     rbind (it_range s (series_begin s) (series_end s)) (\<lambda>xs. Inr (it_plus (series_begin s) (int (length (takeWhile P xs)))))"

definition upper_bound :: "int \<Rightarrow> int metric_series \<Rightarrow> series_iter result" where
  "upper_bound time = partition_point (\<lambda>x. \<not> time < x)"

definition lower_bound :: "int \<Rightarrow> int metric_series \<Rightarrow> series_iter result" where
  "lower_bound time = partition_point (\<lambda>x. x < time)"

definition int_to_size :: "int \<Rightarrow> nat" where
  "int_to_size i = nat (i mod 2 ^ 64)"

definition prevClosestPolicy :: "int \<Rightarrow> int metric_series \<Rightarrow> frame_offset option result" where
  "prevClosestPolicy time s =
     rbind (upper_bound time s) (\<lambda>it.
       if ms_size s = 0 \<or> it_eq it (series_begin s) then Inr None
       else
         rbind (it_deref s (it_minus it 1)) (\<lambda>t.
           Inr (Some \<lparr>fo_offset = int_to_size (it_diff (it_minus it 1) (series_begin s)), fo_time = t\<rparr>)))"

definition nextClosestPolicy :: "int \<Rightarrow> int metric_series \<Rightarrow> frame_offset option result" where
  "nextClosestPolicy time s =
     rbind (lower_bound time s) (\<lambda>it.
       if it_eq it (series_end s) then Inr None
       else
         rbind (it_deref s it) (\<lambda>t.
           Inr (Some \<lparr>fo_offset = int_to_size (it_diff it (series_begin s)), fo_time = t\<rparr>)))"

definition closestPolicy :: "int \<Rightarrow> int metric_series \<Rightarrow> frame_offset option result" where
  "closestPolicy time s =
     rbind (prevClosestPolicy time s) (\<lambda>p. rbind (nextClosestPolicy time s) (\<lambda>n.
       case (p, n) of
         (None, None) \<Rightarrow> Inr None
       | (None, Some n1) \<Rightarrow> Inr (Some n1)
       | (Some p1, None) \<Rightarrow> Inr (Some p1)
       | (Some p1, Some n1) \<Rightarrow> Inr (Some (if time - fo_time p1 < fo_time n1 - time then p1 else n1))))"

definition findMatchingOffset :: "int \<Rightarrow> match_policy \<Rightarrow> int metric_series \<Rightarrow> frame_offset option result" where
  "findMatchingOffset time policy s =
     (case policy of
        CLOSEST \<Rightarrow> closestPolicy time s
      | PREV_CLOSEST \<Rightarrow> prevClosestPolicy time s
      | NEXT_CLOSEST \<Rightarrow> nextClosestPolicy time s)"

definition getRange :: "int \<Rightarrow> int \<Rightarrow> match_policy \<Rightarrow> match_policy \<Rightarrow> int metric_series \<Rightarrow> frame_range option result" where
  "getRange startTime endTime startPolicy endPolicy s =
     rbind (findMatchingOffset startTime startPolicy s) (\<lambda>a.
     rbind (findMatchingOffset endTime endPolicy s) (\<lambda>b.
       case (a, b) of (Some x, Some y) \<Rightarrow> Inr (Some \<lparr>fr_start = x, fr_end = y\<rparr>) | _ \<Rightarrow> Inr None))"

section \<open>What the search finds\<close>

definition offset_at :: "int list \<Rightarrow> nat \<Rightarrow> frame_offset" where
  "offset_at ts i = \<lparr>fo_offset = i, fo_time = ts ! i\<rparr>"

lemma partition_point_eq:
  assumes "series_ok s"
  shows "partition_point P s = Inr \<lparr>it_size = ms_size s, it_head = ms_head s, it_dis = length (takeWhile P (series_values s))\<rparr>"
  using length_takeWhile_le [of P "series_values s"]
  by (simp add: partition_point_def series_all_values [OF assms] it_plus_begin [OF assms])

lemma offset_of_iter:
  assumes "series_ok s" "i < ms_size s"
  shows "int_to_size (it_diff \<lparr>it_size = n, it_head = h, it_dis = i\<rparr> (series_begin s)) = i"
proof -
  have "int i < 2 ^ 31" using assms by (auto simp: series_ok_def rb_ok_def as_ring_def)
  then show ?thesis by (simp add: int_to_size_def it_diff_def series_begin_def size_to_int_small)
qed

lemma prev_closest_eq:
  assumes "series_ok s"
  shows "prevClosestPolicy time s =
    (let k = length (takeWhile (\<lambda>x. x \<le> time) (series_values s))
     in Inr (if k = 0 then None else Some (offset_at (series_values s) (k - 1))))"
proof -
  let ?k = "length (takeWhile (\<lambda>x. x \<le> time) (series_values s))"
  have le: "?k \<le> ms_size s" using length_takeWhile_le [of _ "series_values s"] by simp
  show ?thesis
  proof (cases "?k = 0")
    case True
    then show ?thesis
      by (simp add: prevClosestPolicy_def upper_bound_def not_less partition_point_eq [OF assms] it_eq_def series_begin_def)
  next
    case False
    have lt: "?k - Suc 0 < ms_size s" using False le by linarith
    have "ms_size s < 2 ^ 31" using assms by (auto simp: series_ok_def rb_ok_def as_ring_def)
    then have k: "int ?k < 2 ^ 31" using le by simp
    have before: "it_minus \<lparr>it_size = ms_size s, it_head = ms_head s, it_dis = ?k\<rparr> 1
        = \<lparr>it_size = ms_size s, it_head = ms_head s, it_dis = ?k - Suc 0\<rparr>"
      using False k by (simp add: it_minus_def nat_diff_distrib)
    have "ms_size s \<noteq> 0" using lt by simp
    with False show ?thesis
      by (simp add: prevClosestPolicy_def upper_bound_def not_less partition_point_eq [OF assms] it_eq_def
          before it_deref_values [OF assms lt] offset_of_iter [OF assms lt] offset_at_def Let_def)
        (simp add: series_begin_def)
  qed
qed

lemma next_closest_eq:
  assumes "series_ok s"
  shows "nextClosestPolicy time s =
    (let k = length (takeWhile (\<lambda>x. x < time) (series_values s))
     in Inr (if k = ms_size s then None else Some (offset_at (series_values s) k)))"
proof -
  let ?k = "length (takeWhile (\<lambda>x. x < time) (series_values s))"
  have le: "?k \<le> ms_size s" using length_takeWhile_le [of _ "series_values s"] by simp
  show ?thesis
  proof (cases "?k = ms_size s")
    case True
    then show ?thesis
      by (simp add: nextClosestPolicy_def lower_bound_def partition_point_eq [OF assms] it_eq_def series_end_def)
  next
    case False
    then have lt: "?k < ms_size s" using le by simp
    with False show ?thesis
      by (simp add: nextClosestPolicy_def lower_bound_def partition_point_eq [OF assms] it_eq_def series_end_def
          it_deref_values [OF assms lt] offset_of_iter [OF assms lt] offset_at_def Let_def)
  qed
qed

text \<open>The times of a series grow.\<close>

definition times_ok :: "int metric_series \<Rightarrow> bool" where
  "times_ok s \<longleftrightarrow> series_ok s \<and> sorted_wrt (<) (series_values s)"

lemma prefix_iff:
  assumes "sorted_wrt (<) (xs :: int list)" "\<And>x y. x < y \<Longrightarrow> P y \<Longrightarrow> P x" "i < length xs"
  shows "P (xs ! i) \<longleftrightarrow> i < length (takeWhile P xs)"
proof
  assume "i < length (takeWhile P xs)"
  then show "P (xs ! i)" by (metis nth_mem set_takeWhileD takeWhile_nth)
next
  assume P: "P (xs ! i)"
  show "i < length (takeWhile P xs)"
  proof (rule ccontr)
    let ?k = "length (takeWhile P xs)"
    assume "\<not> i < ?k"
    then have k: "?k \<le> i" "?k < length xs" using assms(3) by simp_all
    have "\<not> P (xs ! ?k)" using nth_length_takeWhile [OF k(2)] .
    moreover have "P (xs ! ?k)"
    proof (cases "?k = i")
      case False
      with k assms(3) have "xs ! ?k < xs ! i" using sorted_wrt_nth_less [OF assms(1), of ?k i] by simp
      then show ?thesis using assms(2) P by blast
    qed (use P in simp)
    ultimately show False by blast
  qed
qed

definition candidate :: "match_policy \<Rightarrow> int \<Rightarrow> int \<Rightarrow> bool" where
  "candidate policy time x = (case policy of CLOSEST \<Rightarrow> True | PREV_CLOSEST \<Rightarrow> x \<le> time | NEXT_CLOSEST \<Rightarrow> time \<le> x)"

definition best_offset :: "match_policy \<Rightarrow> int \<Rightarrow> int list \<Rightarrow> frame_offset option \<Rightarrow> bool" where
  "best_offset policy time ts r \<longleftrightarrow>
     (case r of
        None \<Rightarrow> list_all (\<lambda>x. \<not> candidate policy time x) ts
      | Some b \<Rightarrow> fo_offset b < length ts \<and> fo_time b = ts ! fo_offset b \<and> candidate policy time (fo_time b)
          \<and> list_all (\<lambda>x. candidate policy time x \<longrightarrow> \<bar>time - fo_time b\<bar> \<le> \<bar>time - x\<bar>) ts)"

lemma le_nth:
  assumes "sorted_wrt (<) (ts :: int list)" "i \<le> j" "j < length ts"
  shows "ts ! i \<le> ts ! j"
proof (cases "i = j")
  case False
  with assms(2,3) have "ts ! i < ts ! j" using sorted_wrt_nth_less [OF assms(1), of i j] by simp
  then show ?thesis by simp
qed simp

lemma prev_best:
  assumes "times_ok s"
  shows "\<exists>r. prevClosestPolicy time s = Inr r \<and> best_offset PREV_CLOSEST time (series_values s) r
    \<and> (\<forall>x \<in> set (series_values s). x \<le> time \<longrightarrow> r \<noteq> None \<and> x \<le> fo_time (the r))"
proof -
  let ?ts = "series_values s" and ?k = "length (takeWhile (\<lambda>x. x \<le> time) (series_values s))"
  have ok: "series_ok s" "sorted_wrt (<) ?ts" using assms by (simp_all add: times_ok_def)
  have pre: "?ts ! i \<le> time \<longleftrightarrow> i < ?k" if "i < length ?ts" for i
    using prefix_iff [OF ok(2) _ that, of "\<lambda>x. x \<le> time"] by simp
  have le: "?k \<le> length ?ts" by (rule length_takeWhile_le)
  have below: "0 < ?k \<and> x \<le> ?ts ! (?k - 1)" if "x \<in> set ?ts" "x \<le> time" for x
  proof -
    from that(1) obtain i where i: "i < length ?ts" "?ts ! i = x" by (auto simp only: in_set_conv_nth)
    have "i < ?k" using pre [OF i(1)] that(2) by (simp only: i(2))
    moreover have "?ts ! i \<le> ?ts ! (?k - 1)" by (rule le_nth [OF ok(2)]) (use \<open>i < ?k\<close> le in linarith)+
    ultimately show ?thesis using i(2) by linarith
  qed
  show ?thesis
  proof (cases "?k = 0")
    case True
    then show ?thesis using below
      by (auto simp: prev_closest_eq [OF ok(1)] best_offset_def candidate_def list_all_iff)
  next
    case False
    have lt: "?k - 1 < length ?ts" using False le by linarith
    have at: "?ts ! (?k - 1) \<le> time" using pre [OF lt] False by linarith
    have "list_all (\<lambda>x. x \<le> time \<longrightarrow> \<bar>time - ?ts ! (?k - 1)\<bar> \<le> \<bar>time - x\<bar>) ?ts"
      unfolding list_all_iff using below at by force
    with False lt at below show ?thesis
      by (auto simp: prev_closest_eq [OF ok(1)] best_offset_def candidate_def offset_at_def Let_def)
  qed
qed

lemma next_best:
  assumes "times_ok s"
  shows "\<exists>r. nextClosestPolicy time s = Inr r \<and> best_offset NEXT_CLOSEST time (series_values s) r
    \<and> (\<forall>x \<in> set (series_values s). time \<le> x \<longrightarrow> r \<noteq> None \<and> fo_time (the r) \<le> x)"
proof -
  let ?ts = "series_values s" and ?k = "length (takeWhile (\<lambda>x. x < time) (series_values s))"
  have ok: "series_ok s" "sorted_wrt (<) ?ts" using assms by (simp_all add: times_ok_def)
  have pre: "?ts ! i < time \<longleftrightarrow> i < ?k" if "i < length ?ts" for i
    using prefix_iff [OF ok(2) _ that, of "\<lambda>x. x < time"] by simp
  have le: "?k \<le> length ?ts" by (rule length_takeWhile_le)
  have above: "?k < length ?ts \<and> ?ts ! ?k \<le> x" if "x \<in> set ?ts" "time \<le> x" for x
  proof -
    from that(1) obtain i where i: "i < length ?ts" "?ts ! i = x" by (auto simp only: in_set_conv_nth)
    have "?k \<le> i" using pre [OF i(1)] that(2) by (simp only: i(2) not_less) linarith
    moreover have "?ts ! ?k \<le> ?ts ! i" by (rule le_nth [OF ok(2) \<open>?k \<le> i\<close> i(1)])
    ultimately show ?thesis using i by linarith
  qed
  show ?thesis
  proof (cases "?k = length ?ts")
    case True
    then show ?thesis using above
      by (auto simp: next_closest_eq [OF ok(1)] best_offset_def candidate_def list_all_iff)
  next
    case False
    have lt: "?k < length ?ts" using False le by linarith
    have at: "time \<le> ?ts ! ?k" using pre [OF lt] by linarith
    have "list_all (\<lambda>x. time \<le> x \<longrightarrow> \<bar>time - ?ts ! ?k\<bar> \<le> \<bar>time - x\<bar>) ?ts"
      unfolding list_all_iff using above at by force
    with False lt at above show ?thesis
      by (auto simp: next_closest_eq [OF ok(1)] best_offset_def candidate_def offset_at_def Let_def)
  qed
qed

text \<open>C26: For every policy the search finds, among the samples the policy admits, one that is nearest to the time, with
  its true offset, and finds none only when the policy admits none.\<close>

theorem matching_offset_nearest:
  assumes "times_ok s"
  shows "\<exists>r. findMatchingOffset time policy s = Inr r \<and> best_offset policy time (series_values s) r"
proof -
  let ?ts = "series_values s"
  obtain p where p: "prevClosestPolicy time s = Inr p" "best_offset PREV_CLOSEST time ?ts p"
    "\<forall>x \<in> set ?ts. x \<le> time \<longrightarrow> p \<noteq> None \<and> x \<le> fo_time (the p)"
    using prev_best [OF assms, of time] by (elim exE conjE)
  obtain n where n: "nextClosestPolicy time s = Inr n" "best_offset NEXT_CLOSEST time ?ts n"
    "\<forall>x \<in> set ?ts. time \<le> x \<longrightarrow> n \<noteq> None \<and> fo_time (the n) \<le> x"
    using next_best [OF assms, of time] by (elim exE conjE)
  show ?thesis
  proof (cases policy)
    case CLOSEST
    let ?r = "case (p, n) of (None, None) \<Rightarrow> None | (None, Some n1) \<Rightarrow> Some n1 | (Some p1, None) \<Rightarrow> Some p1
      | (Some p1, Some n1) \<Rightarrow> Some (if time - fo_time p1 < fo_time n1 - time then p1 else n1)"
    have side: "x \<le> time \<or> time \<le> x" for x by linarith
    have "closestPolicy time s = Inr ?r" unfolding closestPolicy_def p(1) n(1) by (cases p; cases n) simp_all
    moreover have "best_offset CLOSEST time ?ts ?r"
    proof (cases p; cases n)
      fix p1 n1 assume some: "p = Some p1" "n = Some n1"
      have "\<bar>time - (if time - fo_time p1 < fo_time n1 - time then fo_time p1 else fo_time n1)\<bar> \<le> \<bar>time - x\<bar>" if "x \<in> set ?ts" for x
      proof -
        have "fo_time p1 \<le> time" "time \<le> fo_time n1" using p(2) n(2) some by (simp_all add: best_offset_def candidate_def)
        moreover have "x \<le> time \<longrightarrow> x \<le> fo_time p1" "time \<le> x \<longrightarrow> fo_time n1 \<le> x" using p(3) n(3) that some by auto
        ultimately show ?thesis using side [of x] by (simp split: if_splits) linarith
      qed
      with p(2) n(2) some show ?thesis by (auto simp: best_offset_def candidate_def list_all_iff)
    next
      assume none: "p = None" "n = None"
      with p(3) n(3) side have "?ts = []" by (metis list.set_intros(1) neq_Nil_conv)
      with none show ?thesis by (simp add: best_offset_def)
    next
      fix n1 assume some: "p = None" "n = Some n1"
      then have "\<forall>x \<in> set ?ts. time \<le> x \<and> fo_time n1 \<le> x" using p(3) n(3) side by fastforce
      with n(2) some show ?thesis by (fastforce simp: best_offset_def candidate_def list_all_iff)
    next
      fix p1 assume some: "p = Some p1" "n = None"
      then have "\<forall>x \<in> set ?ts. x \<le> time \<and> x \<le> fo_time p1" using p(3) n(3) side by fastforce
      with p(2) some show ?thesis by (fastforce simp: best_offset_def candidate_def list_all_iff)
    qed
    ultimately show ?thesis using CLOSEST by (auto simp: findMatchingOffset_def)
  qed (use p n in \<open>auto simp: findMatchingOffset_def\<close>)
qed

text \<open>The example: a series of three that has taken four times.\<close>

definition four_times :: "int metric_series" where
  "four_times = \<lparr>ms_data = [40, 20, 30], ms_head = 1, ms_tail = 1, ms_size = 3, ms_name = ''t'', ms_description = []\<rparr>"

lemma four_times_ok: "times_ok four_times" "series_values four_times = [20, 30, 40]"
  by (simp_all add: times_ok_def series_ok_def rb_ok_def as_ring_def four_times_def series_values_def rb_to_vector_def upt_rec)

theorem matching_offset_nearest_witness:
  "findMatchingOffset 26 CLOSEST four_times = Inr (Some \<lparr>fo_offset = 1, fo_time = 30\<rparr>)"
proof -
  from matching_offset_nearest [OF four_times_ok(1), of 26 CLOSEST] obtain r where
    r: "findMatchingOffset 26 CLOSEST four_times = Inr r" "best_offset CLOSEST 26 [20, 30, 40] r"
    by (auto simp: four_times_ok(2))
  then obtain b where b: "r = Some b" "fo_offset b < 3" "fo_time b = [20, 30, 40] ! fo_offset b" "\<bar>26 - fo_time b\<bar> \<le> 4"
    by (cases r) (auto simp: best_offset_def candidate_def)
  have "fo_offset b = 0 \<or> fo_offset b = 1 \<or> fo_offset b = 2" using b(2) by linarith
  with b(3,4) have "fo_offset b = 1" "fo_time b = 30" by auto
  with r(1) b(1) show ?thesis by (cases b) simp
qed

section \<open>A fixed interval\<close>

text \<open>\<^verbatim>\<open>offset_float n d i\<close> is the \<^verbatim>\<open>double\<close> \<^verbatim>\<open>n - 1 + d / i\<close> for a distance and an interval in microseconds.\<close>

record fix_times =
  fx_interval :: int
  fx_frameLength :: nat
  fx_sampleCount :: nat
  fx_last :: int

definition make_fix_times :: "int \<Rightarrow> nat \<Rightarrow> fix_times result" where
  "make_fix_times interval frameLength =
     (if interval = 0 then Inl Invalid_Argument
      else Inr \<lparr>fx_interval = interval, fx_frameLength = frameLength, fx_sampleCount = 0, fx_last = 0\<rparr>)"

definition fix_addSample :: "int \<Rightarrow> fix_times \<Rightarrow> fix_times" where
  "fix_addSample time f = f\<lparr>fx_sampleCount := min (fx_frameLength f) (fx_sampleCount f + 1), fx_last := time\<rparr>"

definition fix_offsetToTime :: "fix_times \<Rightarrow> nat \<Rightarrow> int" where
  "fix_offsetToTime f offset = fx_last f - (int (fx_sampleCount f) - int offset - 1) * (fx_interval f * 1000)"

definition fix_first :: "fix_times \<Rightarrow> int option" where
  "fix_first f = (if fx_sampleCount f = 0 then None
     else Some (fx_last f - (int (fx_sampleCount f) - 1) * (fx_interval f * 1000)))"

definition fix_last_time :: "fix_times \<Rightarrow> int option" where
  "fix_last_time f = (if fx_sampleCount f = 0 then None else Some (fx_last f))"

definition fix_getTimeVector :: "fix_times \<Rightarrow> int list" where
  "fix_getTimeVector f =
     map (\<lambda>i. fx_last f - (int (fx_sampleCount f) - int i - 1) * (fx_interval f * 1000)) [0..<fx_sampleCount f]"

definition fix_closest :: "fix_times \<Rightarrow> rat \<Rightarrow> nat option" where
  "fix_closest f x =
     (if x < 0 then Some 0 else if x > of_nat (fx_sampleCount f - 1) then Some (fx_sampleCount f - 1)
      else Some (nat \<lfloor>x + 1 / 2\<rfloor>))"

definition fix_prevClosest :: "fix_times \<Rightarrow> rat \<Rightarrow> nat option" where
  "fix_prevClosest f x =
     (if x < 0 then None else if x > of_nat (fx_sampleCount f - 1) then Some (fx_sampleCount f - 1)
      else Some (nat \<lfloor>x\<rfloor>))"

definition fix_nextClosest :: "fix_times \<Rightarrow> rat \<Rightarrow> nat option" where
  "fix_nextClosest f x =
     (if x < 0 then Some 0 else if x > of_nat (fx_sampleCount f - 1) then None else Some (nat \<lceil>x\<rceil>))"

definition fix_findMatchingOffset :: "(nat \<Rightarrow> int \<Rightarrow> int \<Rightarrow> rat) \<Rightarrow> int \<Rightarrow> match_policy \<Rightarrow> fix_times
    \<Rightarrow> frame_offset option" where
  "fix_findMatchingOffset offset_float requested policy f =
     (if fx_sampleCount f = 0 then None
      else
        let x = offset_float (fx_sampleCount f) (quot_int (requested - fx_last f) 1000) (fx_interval f);
            offset = (case policy of CLOSEST \<Rightarrow> fix_closest f x | PREV_CLOSEST \<Rightarrow> fix_prevClosest f x
              | NEXT_CLOSEST \<Rightarrow> fix_nextClosest f x)
        in map_option (\<lambda>i. \<lparr>fo_offset = i, fo_time = fix_offsetToTime f i\<rparr>) offset)"

text \<open>On the points of the grid all policies agree when the quotient is exact.\<close>

lemma fix_find_grid:
  assumes "i < fx_sampleCount f" "0 < fx_interval f"
    and "\<And>n d. offset_float n (d * fx_interval f) (fx_interval f) = of_nat n - 1 + of_int d"
  shows "fix_findMatchingOffset offset_float (fix_offsetToTime f i) policy f
    = Some \<lparr>fo_offset = i, fo_time = fix_offsetToTime f i\<rparr>"
proof -
  have q: "quot_int (k * 1000) 1000 = k" for k by (simp add: quot_int_def abs_mult sgn_mult mult_sgn_abs)
  have "fix_offsetToTime f i - fx_last f = ((int i + 1 - int (fx_sampleCount f)) * fx_interval f) * 1000"
    by (simp add: fix_offsetToTime_def algebra_simps)
  then have "quot_int (fix_offsetToTime f i - fx_last f) 1000 = (int i + 1 - int (fx_sampleCount f)) * fx_interval f"
    by (simp only: q)
  then have x: "offset_float (fx_sampleCount f) (quot_int (fix_offsetToTime f i - fx_last f) 1000) (fx_interval f) = of_nat i"
    by (simp add: assms(3))
  have "(of_nat i :: rat) \<le> of_nat (fx_sampleCount f - 1)" using assms(1) by simp
  moreover have "\<lfloor>(of_nat i :: rat) + 1 / 2\<rfloor> = int i" by (simp add: floor_unique)
  ultimately show ?thesis using assms(1) x
    by (cases policy) (simp_all add: fix_findMatchingOffset_def Let_def fix_closest_def fix_prevClosest_def
        fix_nextClosest_def not_less)
qed

end
