(* ===== verification/MetricFrame.thy ===== *)
theory MetricFrame
  imports MetricTime "HOL-Library.List_Lexorder" "HOL-Library.Char_ord"
begin

text \<open>
  Metric frames (\<^verbatim>\<open>src/dynolog/src/metric_frame/MetricFrame.cpp\<close>, \<^verbatim>\<open>MetricFrameBase.h\<close>): series of
  samples of four types that share a time axis, kept in a vector or by name, and slices of them.  Every series and axis
  belongs to one frame.  An operation that throws leaves what it has changed until then, so the frame is
  a result too.  The arithmetic of \<^verbatim>\<open>double\<close> is an argument.
\<close>

section \<open>Samples\<close>

record perf_values =
  pv_timeEnabled :: nat
  pv_timeRunning :: nat
  pv_count :: nat

definition perf_sub :: "perf_values \<Rightarrow> perf_values \<Rightarrow> perf_values result" where
  "perf_sub a b =
     (if pv_timeRunning b > pv_timeRunning a \<or> pv_timeEnabled b > pv_timeEnabled a \<or> pv_count b > pv_count a
      then Inl (Runtime_Error ''lhs value is smaller than rhs value'')
      else Inr \<lparr>pv_timeEnabled = pv_timeEnabled a - pv_timeEnabled b, pv_timeRunning = pv_timeRunning a - pv_timeRunning b,
        pv_count = pv_count a - pv_count b\<rparr>)"

definition perf_add :: "perf_values \<Rightarrow> perf_values \<Rightarrow> perf_values" where
  "perf_add a b = \<lparr>pv_timeEnabled = (pv_timeEnabled a + pv_timeEnabled b) mod 2 ^ 64,
     pv_timeRunning = (pv_timeRunning a + pv_timeRunning b) mod 2 ^ 64, pv_count = (pv_count a + pv_count b) mod 2 ^ 64\<rparr>"

datatype 'd sample_var = V_Int64 int | V_Uint64 nat | V_Double 'd | V_Perf perf_values

datatype 'd series_var =
    S_Int64 "int metric_series"
  | S_Uint64 "nat metric_series"
  | S_Double "'d metric_series"
  | S_Perf "perf_values metric_series"

text \<open>\<^verbatim>\<open>std::get\<close> on the wrong alternative throws.\<close>

definition bad_variant :: cpp_failure where
  "bad_variant = Runtime_Error ''std::get: wrong index for variant''"

definition rmap :: "('a \<Rightarrow> 'b) \<Rightarrow> 'a result \<Rightarrow> 'b result" where
  "rmap f r = rbind r (\<lambda>x. Inr (f x))"

fun var_addSample :: "'d sample_var \<Rightarrow> 'd series_var \<Rightarrow> 'd series_var result" where
  "var_addSample (V_Int64 x) (S_Int64 s) = rmap S_Int64 (series_addSample x s)"
| "var_addSample (V_Uint64 x) (S_Uint64 s) = rmap S_Uint64 (series_addSample x s)"
| "var_addSample (V_Double x) (S_Double s) = rmap S_Double (series_addSample x s)"
| "var_addSample (V_Perf x) (S_Perf s) = rmap S_Perf (series_addSample x s)"
| "var_addSample _ _ = Inl bad_variant"

definition int64_add :: "int \<Rightarrow> int \<Rightarrow> int result" where
  "int64_add a b = (if - (2 ^ 63) \<le> a + b \<and> a + b < 2 ^ 63 then Inr (a + b) else Inl Undefined_Behaviour)"

fun var_incFromLastSample :: "'d \<Rightarrow> ('d \<Rightarrow> 'd \<Rightarrow> 'd) \<Rightarrow> 'd sample_var \<Rightarrow> 'd series_var \<Rightarrow> 'd series_var result" where
  "var_incFromLastSample z add (V_Int64 x) (S_Int64 s) = rmap S_Int64 (series_inc 0 int64_add x s)"
| "var_incFromLastSample z add (V_Uint64 x) (S_Uint64 s) =
     rmap S_Uint64 (series_inc 0 (\<lambda>a b. Inr ((a + b) mod 2 ^ 64)) x s)"
| "var_incFromLastSample z add (V_Double x) (S_Double s) = rmap S_Double (series_inc z (\<lambda>a b. Inr (add a b)) x s)"
| "var_incFromLastSample z add (V_Perf x) (S_Perf s) =
     rmap S_Perf (series_inc \<lparr>pv_timeEnabled = 0, pv_timeRunning = 0, pv_count = 0\<rparr> (\<lambda>a b. Inr (perf_add a b)) x s)"
| "var_incFromLastSample z add _ _ = Inl bad_variant"

section \<open>The time axis\<close>

datatype time_axis = Axis_Series "int metric_series" | Axis_Fixed fix_times

fun axis_addSample :: "int \<Rightarrow> time_axis \<Rightarrow> time_axis result" where
  "axis_addSample time (Axis_Series s) = rmap Axis_Series (time_addSample time s)"
| "axis_addSample time (Axis_Fixed f) = Inr (Axis_Fixed (fix_addSample time f))"

fun axis_length :: "time_axis \<Rightarrow> nat" where
  "axis_length (Axis_Series s) = ms_size s"
| "axis_length (Axis_Fixed f) = fx_sampleCount f"

fun axis_maxLength :: "time_axis \<Rightarrow> nat" where
  "axis_maxLength (Axis_Series s) = length (ms_data s)"
| "axis_maxLength (Axis_Fixed f) = fx_frameLength f"

fun axis_getRange :: "(nat \<Rightarrow> int \<Rightarrow> int \<Rightarrow> rat) \<Rightarrow> int \<Rightarrow> int \<Rightarrow> match_policy \<Rightarrow> match_policy \<Rightarrow> time_axis
    \<Rightarrow> frame_range option result" where
  "axis_getRange fl startTime endTime startPolicy endPolicy (Axis_Series s) =
     getRange startTime endTime startPolicy endPolicy s"
| "axis_getRange fl startTime endTime startPolicy endPolicy (Axis_Fixed f) =
     Inr (case (fix_findMatchingOffset fl startTime startPolicy f, fix_findMatchingOffset fl endTime endPolicy f) of
            (Some x, Some y) \<Rightarrow> Some \<lparr>fr_start = x, fr_end = y\<rparr>
          | _ \<Rightarrow> None)"

section \<open>Frames\<close>

record 'd frame_vector =
  fv_name :: string
  fv_description :: string
  fv_ts :: time_axis
  fv_series :: "'d series_var list"

fun add_each :: "('x \<Rightarrow> 'v \<Rightarrow> 'v result) \<Rightarrow> 'x list \<Rightarrow> 'v list \<Rightarrow> unit result \<times> 'v list" where
  "add_each add (x # xs) (v # vs) =
     (case add x v of
        Inl e \<Rightarrow> (Inl e, v # vs)
      | Inr v1 \<Rightarrow> (let (r, vs1) = add_each add xs vs in (r, v1 # vs1)))"
| "add_each add _ vs = (Inr (), vs)"

definition vector_add :: "('d sample_var \<Rightarrow> 'd series_var \<Rightarrow> 'd series_var result) \<Rightarrow> 'd sample_var list \<Rightarrow> int
    \<Rightarrow> 'd frame_vector \<Rightarrow> bool result \<times> 'd frame_vector" where
  "vector_add add samples time f =
     (if length samples \<noteq> length (fv_series f) then (Inr False, f)
      else
        case add_each add samples (fv_series f) of
          (Inl e, vs) \<Rightarrow> (Inl e, f\<lparr>fv_series := vs\<rparr>)
        | (Inr _, vs) \<Rightarrow>
            (case axis_addSample time (fv_ts f) of
               Inl e \<Rightarrow> (Inl e, f\<lparr>fv_series := vs\<rparr>)
             | Inr ts \<Rightarrow> (Inr True, f\<lparr>fv_series := vs, fv_ts := ts\<rparr>)))"

definition vector_addSamples :: "'d sample_var list \<Rightarrow> int \<Rightarrow> 'd frame_vector \<Rightarrow> bool result \<times> 'd frame_vector" where
  "vector_addSamples = vector_add var_addSample"

definition vector_incFromLastSample :: "'d \<Rightarrow> ('d \<Rightarrow> 'd \<Rightarrow> 'd) \<Rightarrow> 'd sample_var list \<Rightarrow> int \<Rightarrow> 'd frame_vector
    \<Rightarrow> bool result \<times> 'd frame_vector" where
  "vector_incFromLastSample z add = vector_add (var_incFromLastSample z add)"

definition vector_series :: "int \<Rightarrow> 'd frame_vector \<Rightarrow> 'd series_var option" where
  "vector_series idx f =
     (if int_to_size idx \<ge> length (fv_series f) then None else Some (fv_series f ! int_to_size idx))"

record 'd frame_map =
  fm_name :: string
  fm_description :: string
  fm_ts :: time_axis
  fm_series :: "(string \<times> 'd series_var) list"     \<comment> \<open>in the order of the keys\<close>

definition make_frame_map :: "nat \<Rightarrow> string \<Rightarrow> string \<Rightarrow> time_axis \<Rightarrow> 'd frame_map result" where
  "make_frame_map maxLength name description ts =
     (if axis_maxLength ts \<noteq> maxLength then Inl Invalid_Argument
      else Inr \<lparr>fm_name = name, fm_description = description, fm_ts = ts, fm_series = []\<rparr>)"

definition map_addSeries :: "string \<Rightarrow> 'd series_var \<Rightarrow> 'd frame_map \<Rightarrow> bool \<times> 'd frame_map" where
  "map_addSeries key s f =
     (if map_of (fm_series f) key \<noteq> None then (False, f)
      else (True, f\<lparr>fm_series := insort_key fst (key, s) (fm_series f)\<rparr>))"

definition map_eraseSeries :: "string \<Rightarrow> 'd frame_map \<Rightarrow> bool \<times> 'd frame_map" where
  "map_eraseSeries key f =
     (map_of (fm_series f) key \<noteq> None, f\<lparr>fm_series := filter (\<lambda>(k, _). k \<noteq> key) (fm_series f)\<rparr>)"

fun add_named :: "('x \<Rightarrow> 'v \<Rightarrow> 'v result) \<Rightarrow> (string \<times> 'x) list \<Rightarrow> (string \<times> 'v) list
    \<Rightarrow> unit result \<times> (string \<times> 'v) list" where
  "add_named add [] vs = (Inr (), vs)"
| "add_named add ((name, x) # xs) vs =
     (case map_of vs name of
        None \<Rightarrow> (Inl Undefined_Behaviour, vs)
      | Some v \<Rightarrow>
          (case add x v of
             Inl e \<Rightarrow> (Inl e, vs)
           | Inr v1 \<Rightarrow> add_named add xs (map (\<lambda>(k, w). if k = name then (k, v1) else (k, w)) vs)))"

definition map_add :: "('d sample_var \<Rightarrow> 'd series_var \<Rightarrow> 'd series_var result) \<Rightarrow> (string \<times> 'd sample_var) list \<Rightarrow> int
    \<Rightarrow> 'd frame_map \<Rightarrow> bool result \<times> 'd frame_map" where
  "map_add add samples time f =
     (if \<exists>(name, _) \<in> set samples. map_of (fm_series f) name = None then (Inr False, f)
      else
        case add_named add samples (fm_series f) of
          (Inl e, vs) \<Rightarrow> (Inl e, f\<lparr>fm_series := vs\<rparr>)
        | (Inr _, vs) \<Rightarrow>
            (case axis_addSample time (fm_ts f) of
               Inl e \<Rightarrow> (Inl e, f\<lparr>fm_series := vs\<rparr>)
             | Inr ts \<Rightarrow> (Inr True, f\<lparr>fm_series := vs, fm_ts := ts\<rparr>)))"

definition map_addSamples :: "(string \<times> 'd sample_var) list \<Rightarrow> int \<Rightarrow> 'd frame_map \<Rightarrow> bool result \<times> 'd frame_map" where
  "map_addSamples = map_add var_addSample"

definition map_incFromLastSample :: "'d \<Rightarrow> ('d \<Rightarrow> 'd \<Rightarrow> 'd) \<Rightarrow> (string \<times> 'd sample_var) list \<Rightarrow> int \<Rightarrow> 'd frame_map
    \<Rightarrow> bool result \<times> 'd frame_map" where
  "map_incFromLastSample z add = map_add (var_incFromLastSample z add)"

definition map_series :: "string \<Rightarrow> 'd frame_map \<Rightarrow> 'd series_var option" where
  "map_series name f = map_of (fm_series f) name"

section \<open>Slices\<close>

definition slice_begin :: "'a metric_series \<Rightarrow> frame_range \<Rightarrow> series_iter" where
  "slice_begin s rg = it_plus (series_begin s) (size_to_int (int (fo_offset (fr_start rg))))"

definition slice_end :: "'a metric_series \<Rightarrow> frame_range \<Rightarrow> series_iter" where
  "slice_end s rg = it_plus (it_plus (series_begin s) (size_to_int (int (fo_offset (fr_end rg))))) 1"

definition slice_raw :: "frame_range \<Rightarrow> 'a metric_series \<Rightarrow> 'a list result" where
  "slice_raw rg s = series_raw s (Some (slice_begin s rg)) (Some (slice_end s rg))"

definition slice_diff :: "('a \<Rightarrow> 'a \<Rightarrow> 'a result) \<Rightarrow> frame_range \<Rightarrow> 'a metric_series \<Rightarrow> 'a result" where
  "slice_diff sub rg s = series_diff sub s (Some (slice_begin s rg)) (Some (slice_end s rg))"

definition slice_rate :: "(int \<Rightarrow> int \<Rightarrow> int result) \<Rightarrow> int \<Rightarrow> frame_range \<Rightarrow> int metric_series \<Rightarrow> int result" where
  "slice_rate sub period rg s =
     series_rate sub s period (fo_time (fr_end rg) - fo_time (fr_start rg)) (Some (slice_begin s rg)) (Some (slice_end s rg))"

definition slice_avg :: "'r \<Rightarrow> ('r \<Rightarrow> 'a \<Rightarrow> 'r result) \<Rightarrow> ('r \<Rightarrow> int \<Rightarrow> 'r result) \<Rightarrow> frame_range
    \<Rightarrow> 'a metric_series \<Rightarrow> 'r result" where
  "slice_avg zero add over rg s = series_avg zero add over s (Some (slice_begin s rg)) (Some (slice_end s rg))"

definition slice_percentile :: "(nat \<Rightarrow> nat) \<Rightarrow> frame_range \<Rightarrow> ('a :: linorder) metric_series \<Rightarrow> 'a result" where
  "slice_percentile nth_index rg s = series_percentile nth_index s (Some (slice_begin s rg)) (Some (slice_end s rg))"

text \<open>The size of the slice of a series is that of the whole series.\<close>

definition series_slice_size :: "frame_range \<Rightarrow> 'a metric_series \<Rightarrow> nat" where
  "series_slice_size rg s = ms_size s"

definition slice_length :: "frame_range \<Rightarrow> nat" where
  "slice_length rg = (size_sub (fo_offset (fr_end rg)) (fo_offset (fr_start rg)) + 1) mod 2 ^ 64"

definition slice_duration :: "frame_range \<Rightarrow> int" where
  "slice_duration rg = fo_time (fr_end rg) - fo_time (fr_start rg)"

end
