(* ===== verification/MetricProofs.thy ===== *)
theory MetricProofs
  imports MetricFrame
begin

text \<open>
  A metric frame is a table: the last samples of every series, row by row, with the times of the rows.  Adding a row
  refines appending to the table and dropping its first row when it is full; a slice by time selects rows; and
  a row with a time that is refused leaves the table torn.
\<close>

section \<open>The table\<close>

fun var_values :: "'d series_var \<Rightarrow> 'd sample_var list" where
  "var_values (S_Int64 s) = map V_Int64 (series_values s)"
| "var_values (S_Uint64 s) = map V_Uint64 (series_values s)"
| "var_values (S_Double s) = map V_Double (series_values s)"
| "var_values (S_Perf s) = map V_Perf (series_values s)"

fun var_ok :: "nat \<Rightarrow> 'd series_var \<Rightarrow> bool" where
  "var_ok cap (S_Int64 s) = (series_ok s \<and> length (ms_data s) = cap)"
| "var_ok cap (S_Uint64 s) = (series_ok s \<and> length (ms_data s) = cap)"
| "var_ok cap (S_Double s) = (series_ok s \<and> length (ms_data s) = cap)"
| "var_ok cap (S_Perf s) = (series_ok s \<and> length (ms_data s) = cap)"

fun sample_kind :: "'d sample_var \<Rightarrow> nat" where
  "sample_kind (V_Int64 _) = 0"
| "sample_kind (V_Uint64 _) = 1"
| "sample_kind (V_Double _) = 2"
| "sample_kind (V_Perf _) = 3"

fun var_kind :: "'d series_var \<Rightarrow> nat" where
  "var_kind (S_Int64 _) = 0"
| "var_kind (S_Uint64 _) = 1"
| "var_kind (S_Double _) = 2"
| "var_kind (S_Perf _) = 3"

text \<open>The samples of a row have the types of the series.\<close>

definition row_fits :: "'d sample_var list \<Rightarrow> 'd series_var list \<Rightarrow> bool" where
  "row_fits xs vs \<longleftrightarrow> map sample_kind xs = map var_kind vs"

definition last_n :: "nat \<Rightarrow> 'a list \<Rightarrow> 'a list" where
  "last_n n xs = drop (length xs - n) xs"

lemma series_push_last:
  assumes "series_ok s"
  shows "series_ok (series_push x s)" "length (ms_data (series_push x s)) = length (ms_data s)"
    "series_values (series_push x s) = last_n (length (ms_data s)) (series_values s @ [x])"
  using series.push_good [OF assms] series.push_cap [of x s] series.contents_push_last [OF assms, of x]
  by (simp_all add: last_n_def)

lemma series_add_last:
  assumes "series_ok s" "length (ms_data s) = cap"
  shows "series_addSample y s = Inr (series_push y s) \<and> series_ok (series_push y s)
    \<and> length (ms_data (series_push y s)) = cap \<and> series_values (series_push y s) = last_n cap (series_values s @ [y])"
  using series_add_ok(1) [OF assms(1)] series_push_last [OF assms(1)] assms(2) by simp

lemma map_last_n: "map f (last_n n xs) = last_n n (map f xs)"
  by (simp add: last_n_def drop_map)

lemma var_add_ok:
  assumes "var_ok cap v" "sample_kind x = var_kind v"
  shows "\<exists>v1. var_addSample x v = Inr v1 \<and> var_ok cap v1 \<and> var_values v1 = last_n cap (var_values v @ [x])
    \<and> var_kind v1 = var_kind v"
  using assms by (cases x; cases v) (simp_all add: rmap_def series_add_last map_last_n)

lemma row_fits_Cons: "row_fits (x # xs) (v # vs) \<longleftrightarrow> sample_kind x = var_kind v \<and> row_fits xs vs"
  by (simp add: row_fits_def)

lemma row_fits_length: "row_fits xs vs \<Longrightarrow> length xs = length vs"
  unfolding row_fits_def by (metis length_map)

lemma add_each_ok:
  assumes "row_fits xs vs" "list_all (var_ok cap) vs"
  shows "\<exists>vs1. add_each var_addSample xs vs = (Inr (), vs1) \<and> list_all (var_ok cap) vs1
    \<and> map var_values vs1 = map2 (\<lambda>v x. last_n cap (var_values v @ [x])) vs xs \<and> map var_kind vs1 = map var_kind vs"
  using row_fits_length [OF assms(1)] assms
proof (induction xs vs rule: list_induct2)
  case (Cons x xs v vs)
  from var_add_ok [of cap v x] Cons.prems obtain v1 where
    "var_addSample x v = Inr v1" "var_ok cap v1" "var_values v1 = last_n cap (var_values v @ [x])" "var_kind v1 = var_kind v"
    by (auto simp: row_fits_Cons)
  with Cons show ?case by (auto simp: row_fits_Cons)
qed simp

text \<open>A frame whose series and axis are in step.\<close>

definition frame_ok :: "'d frame_vector \<Rightarrow> bool" where
  "frame_ok f \<longleftrightarrow>
     (case fv_ts f of
        Axis_Fixed _ \<Rightarrow> False
      | Axis_Series ts \<Rightarrow> times_ok ts \<and> list_all (var_ok (length (ms_data ts))) (fv_series f)
          \<and> list_all (\<lambda>v. length (var_values v) = ms_size ts) (fv_series f))"

fun axis_times :: "time_axis \<Rightarrow> int list" where
  "axis_times (Axis_Series s) = series_values s"
| "axis_times (Axis_Fixed f) = fix_getTimeVector f"

definition frame_columns :: "'d frame_vector \<Rightarrow> 'd sample_var list list" where
  "frame_columns f = map var_values (fv_series f)"

lemma time_add_eq:
  assumes "times_ok s"
  shows "time_addSample t s =
    (if series_values s \<noteq> [] \<and> t \<le> last (series_values s) then Inl Invalid_Argument else Inr (series_push t s))"
proof (cases "ms_size s = 0")
  case True
  then have "series_values s = []" by (metis length_0_conv length_series_values)
  with True assms show ?thesis by (simp add: time_addSample_def times_ok_def series_add_ok(1))
next
  case False
  then have "series_values s \<noteq> []" by (metis length_0_conv length_series_values)
  then have "last (series_values s) = series_values s ! (ms_size s - 1)" by (simp add: last_conv_nth)
  with False assms \<open>series_values s \<noteq> []\<close> show ?thesis
    by (simp add: time_addSample_def times_ok_def series_at_values series_add_ok(1))
qed

lemma times_push_ok:
  assumes "times_ok s" "series_values s = [] \<or> last (series_values s) < t"
  shows "times_ok (series_push t s)"
proof -
  have ok: "series_ok s" "sorted_wrt (<) (series_values s)" using assms(1) by (simp_all add: times_ok_def)
  have "x < t" if "x \<in> set (series_values s)" for x
  proof -
    from that obtain i where i: "i < length (series_values s)" "series_values s ! i = x" by (auto simp only: in_set_conv_nth)
    have ne: "series_values s \<noteq> []" using that by (cases "series_values s") simp_all
    have "series_values s ! i \<le> series_values s ! (length (series_values s) - 1)"
      using i(1) by (intro le_nth [OF ok(2)]) linarith+
    with i ne assms(2) show ?thesis by (simp add: last_conv_nth)
  qed
  then have "sorted_wrt (<) (series_values s @ [t])" using ok(2) by (simp add: sorted_wrt_append)
  then have "sorted_wrt (<) (last_n (length (ms_data s)) (series_values s @ [t]))"
    unfolding last_n_def by (rule sorted_wrt_drop)
  then show ?thesis using series_push_last [OF ok(1), of t] by (simp add: times_ok_def)
qed

lemma length_last_n: "length (last_n n xs) = min n (length xs)"
  by (simp add: last_n_def)

lemma vector_add_row:
  assumes "frame_ok f" "row_fits samples (fv_series f)"
    "axis_times (fv_ts f) = [] \<or> last (axis_times (fv_ts f)) < time"
  shows "\<exists>f1. vector_addSamples samples time f = (Inr True, f1) \<and> frame_ok f1
    \<and> map var_kind (fv_series f1) = map var_kind (fv_series f)
    \<and> axis_maxLength (fv_ts f1) = axis_maxLength (fv_ts f)
    \<and> axis_times (fv_ts f1) = last_n (axis_maxLength (fv_ts f)) (axis_times (fv_ts f) @ [time])
    \<and> frame_columns f1 = map2 (\<lambda>c x. last_n (axis_maxLength (fv_ts f)) (c @ [x])) (frame_columns f) samples"
proof -
  obtain ts where ts: "fv_ts f = Axis_Series ts" using assms(1) by (auto simp: frame_ok_def split: time_axis.splits)
  let ?n = "length (ms_data ts)"
  have ok: "times_ok ts" "list_all (var_ok ?n) (fv_series f)" "list_all (\<lambda>v. length (var_values v) = ms_size ts) (fv_series f)"
    using assms(1) ts by (simp_all add: frame_ok_def)
  from add_each_ok [OF assms(2) ok(2)] obtain vs where
    vs: "add_each var_addSample samples (fv_series f) = (Inr (), vs)" "list_all (var_ok ?n) vs"
      "map var_values vs = map2 (\<lambda>v x. last_n ?n (var_values v @ [x])) (fv_series f) samples"
      "map var_kind vs = map var_kind (fv_series f)" by blast
  have time: "time_addSample time ts = Inr (series_push time ts)" "times_ok (series_push time ts)"
    using time_add_eq [OF ok(1)] times_push_ok [OF ok(1)] assms(3) ts by auto
  have sok: "series_ok ts" using ok(1) by (simp add: times_ok_def)
  note push = series_push_last [OF sok, of time]
  have len: "length samples = length (fv_series f)" using assms(2) by (rule row_fits_length)
  have sizes: "list_all (\<lambda>c. length c = ms_size (series_push time ts)) (map var_values vs)"
  proof -
    have "ms_size (series_push time ts) = min ?n (ms_size ts + 1)"
      using push(3) by (metis length_append_singleton length_last_n length_series_values Suc_eq_plus1)
    then show ?thesis using ok(3) unfolding vs(3)
      by (auto simp: list_all_iff length_last_n dest!: set_zip_leftD)
  qed
  let ?f = "f\<lparr>fv_series := vs, fv_ts := Axis_Series (series_push time ts)\<rparr>"
  have "vector_addSamples samples time f = (Inr True, ?f)"
    using len vs(1) time(1) ts by (simp add: vector_addSamples_def vector_add_def rmap_def)
  moreover have "frame_ok ?f" using time(2) vs(2) sizes push(2) by (simp add: frame_ok_def list.pred_map o_def)
  moreover have "frame_columns ?f = map2 (\<lambda>c x. last_n ?n (c @ [x])) (frame_columns f) samples"
    using vs(3) by (simp add: frame_columns_def zip_map1 o_def case_prod_unfold)
  ultimately show ?thesis using ts push vs(4) by auto
qed

section \<open>Rows\<close>

fun add_rows :: "(int \<times> 'd sample_var list) list \<Rightarrow> 'd frame_vector \<Rightarrow> bool result list \<times> 'd frame_vector" where
  "add_rows [] f = ([], f)"
| "add_rows ((time, samples) # rows) f =
     (let (r, f1) = vector_addSamples samples time f; (rs, f2) = add_rows rows f1 in (r # rs, f2))"

lemma last_n_append: "last_n n (last_n n xs @ ys) = last_n n (xs @ ys)"
  by (cases "n \<le> length xs") (simp_all add: last_n_def add.commute)

lemma last_n_before: "last_n n xs @ ys = drop (length xs - n) (xs @ ys)"
  by (simp add: last_n_def)

lemma add_rows_table:
  assumes "frame_ok f" "sorted_wrt (<) (axis_times (fv_ts f) @ map fst rows)"
    "list_all (\<lambda>r. row_fits (snd r) (fv_series f)) rows"
  shows "\<exists>f1. add_rows rows f = (replicate (length rows) (Inr True), f1) \<and> frame_ok f1
    \<and> axis_times (fv_ts f1) = last_n (axis_maxLength (fv_ts f)) (axis_times (fv_ts f) @ map fst rows)
    \<and> frame_columns f1 = map (\<lambda>i. last_n (axis_maxLength (fv_ts f)) (frame_columns f ! i @ map (\<lambda>r. snd r ! i) rows))
        [0..<length (fv_series f)]"
  using assms
proof (induction rows arbitrary: f)
  case Nil
  obtain ts where ts: "fv_ts f = Axis_Series ts" using Nil.prems(1) by (auto simp: frame_ok_def split: time_axis.splits)
  have "series_ok ts" "list_all (\<lambda>v. length (var_values v) = ms_size ts) (fv_series f)"
    using Nil.prems(1) ts by (simp_all add: frame_ok_def times_ok_def)
  moreover from this(1) have "ms_size ts \<le> length (ms_data ts)" using series.contents_le by fastforce
  ultimately show ?case using ts Nil.prems(1)
    by (auto simp: last_n_def frame_columns_def list_all_iff intro!: nth_equalityI)
next
  case (Cons row rows)
  obtain time samples where row: "row = (time, samples)" by (cases row)
  let ?n = "axis_maxLength (fv_ts f)"
  have fits: "row_fits samples (fv_series f)" using Cons.prems(3) row by simp
  have "axis_times (fv_ts f) = [] \<or> last (axis_times (fv_ts f)) < time"
    using Cons.prems(2) row last_in_set by (fastforce simp: sorted_wrt_append)
  from vector_add_row [OF Cons.prems(1) fits this] obtain f1 where
    f1: "vector_addSamples samples time f = (Inr True, f1)" "frame_ok f1" "map var_kind (fv_series f1) = map var_kind (fv_series f)"
      "axis_maxLength (fv_ts f1) = ?n" "axis_times (fv_ts f1) = last_n ?n (axis_times (fv_ts f) @ [time])"
      "frame_columns f1 = map2 (\<lambda>c x. last_n ?n (c @ [x])) (frame_columns f) samples" by blast
  have len: "length samples = length (fv_series f)" "length (fv_series f1) = length (fv_series f)"
    using row_fits_length [OF fits] f1(3) by (auto dest: map_eq_imp_length_eq)
  have "sorted_wrt (<) (axis_times (fv_ts f1) @ map fst rows)"
    unfolding f1(5) last_n_before using Cons.prems(2) row by (intro sorted_wrt_drop) simp
  moreover have "list_all (\<lambda>r. row_fits (snd r) (fv_series f1)) rows"
    using Cons.prems(3) f1(3) by (simp add: row_fits_def)
  ultimately obtain f2 where
    f2: "add_rows rows f1 = (replicate (length rows) (Inr True), f2)" "frame_ok f2"
      "axis_times (fv_ts f2) = last_n ?n (axis_times (fv_ts f1) @ map fst rows)"
      "frame_columns f2 = map (\<lambda>i. last_n ?n (frame_columns f1 ! i @ map (\<lambda>r. snd r ! i) rows)) [0..<length (fv_series f)]"
    using Cons.IH [OF f1(2)] f1(4) len(2) by auto
  have "frame_columns f2 = map (\<lambda>i. last_n ?n (frame_columns f ! i @ map (\<lambda>r. snd r ! i) (row # rows))) [0..<length (fv_series f)]"
    unfolding f2(4) f1(6) using len(1) row
    by (intro map_cong refl) (simp add: frame_columns_def last_n_append)
  moreover have "axis_times (fv_ts f2) = last_n ?n (axis_times (fv_ts f) @ map fst (row # rows))"
    unfolding f2(3) f1(5) using row by (simp add: last_n_append)
  ultimately show ?case using row f1(1) f2(1,2) by simp
qed

end
