(* ===== verification/MetricClaims.thy ===== *)
theory MetricClaims
  imports MetricProofs
begin

text \<open>
  The properties of metric frames: rows in, slices out, and the row that is refused after it has been written.
\<close>

section \<open>Rows\<close>

text \<open>C24: A frame of series by position with a stored time axis (not the axis of fixed intervals, and not the frame by
  name), in step, that is given rows of the right types with growing times takes all of them, and then
  holds the last rows, as many as fit: every series the last samples and the axis the last times, still in step.\<close>

theorem frame_holds_last_rows:
  assumes "frame_ok f" "sorted_wrt (<) (axis_times (fv_ts f) @ map fst rows)"
    "list_all (\<lambda>r. row_fits (snd r) (fv_series f)) rows"
  shows "\<exists>f1. add_rows rows f = (replicate (length rows) (Inr True), f1) \<and> frame_ok f1
    \<and> axis_times (fv_ts f1) = last_n (axis_maxLength (fv_ts f)) (axis_times (fv_ts f) @ map fst rows)
    \<and> frame_columns f1 = map (\<lambda>i. last_n (axis_maxLength (fv_ts f)) (frame_columns f ! i @ map (\<lambda>r. snd r ! i) rows))
        [0..<length (fv_series f)]"
  using add_rows_table [OF assms] .

definition example_frame :: "unit frame_vector" where
  "example_frame = \<lparr>fv_name = ''f'', fv_description = [], fv_ts = Axis_Series (make_series 0 2 ''t'' []),
     fv_series = [S_Int64 (make_series 0 2 ''a'' []), S_Uint64 (make_series 0 2 ''b'' [])]\<rparr>"

lemma example_frame_ok: "frame_ok example_frame"
  by (simp add: frame_ok_def example_frame_def times_ok_def make_series_ok) (simp add: make_series_def)

theorem frame_holds_last_rows_witness:
  "\<exists>f1. add_rows [(10, [V_Int64 1, V_Uint64 5]), (20, [V_Int64 2, V_Uint64 6]), (30, [V_Int64 (- 3), V_Uint64 7])] example_frame
      = ([Inr True, Inr True, Inr True], f1)
    \<and> axis_times (fv_ts f1) = [20, 30]
    \<and> frame_columns f1 = [[V_Int64 2, V_Int64 (- 3)], [V_Uint64 6, V_Uint64 7]]"
proof -
  let ?rows = "[(10, [V_Int64 1, V_Uint64 5]), (20, [V_Int64 2, V_Uint64 6]), (30, [V_Int64 (- 3), V_Uint64 7])]
    :: (int \<times> unit sample_var list) list"
  have "sorted_wrt (<) (axis_times (fv_ts example_frame) @ map fst ?rows)" by (simp add: example_frame_def)
  moreover have "list_all (\<lambda>r. row_fits (snd r) (fv_series example_frame)) ?rows"
    by (simp add: row_fits_def example_frame_def)
  ultimately obtain f1 where
    "add_rows ?rows example_frame = (replicate (length ?rows) (Inr True), f1)"
    "axis_times (fv_ts f1) = last_n (axis_maxLength (fv_ts example_frame)) (axis_times (fv_ts example_frame) @ map fst ?rows)"
    "frame_columns f1 = map (\<lambda>i. last_n (axis_maxLength (fv_ts example_frame))
      (frame_columns example_frame ! i @ map (\<lambda>r. snd r ! i) ?rows)) [0..<length (fv_series example_frame)]"
    using frame_holds_last_rows [OF example_frame_ok] by blast
  then show ?thesis
    by (intro exI [of _ f1])
      (simp add: last_n_def example_frame_def frame_columns_def upt_rec make_series_def [of 0 2 "''t''"])
qed

section \<open>Slices\<close>

lemma filter_run:
  assumes "\<And>i. i < length xs \<Longrightarrow> P (xs ! i) \<longleftrightarrow> k \<le> i \<and> i < m"
  shows "filter P xs = take (m - k) (drop k xs)"
  using assms
proof (induction xs arbitrary: k m)
  case (Cons x xs)
  have step: "P (xs ! i) \<longleftrightarrow> k - 1 \<le> i \<and> i < m - 1" if "i < length xs" for i
    using Cons.prems [of "Suc i"] that by auto
  have x: "P x \<longleftrightarrow> k = 0 \<and> 0 < m" using Cons.prems [of 0] by simp
  show ?case
  proof (cases k)
    case 0
    with x Cons.IH [of 0 "m - 1"] step show ?thesis by (cases m) auto
  next
    case (Suc j)
    with x Cons.IH [of j "m - 1"] step show ?thesis by simp
  qed
qed simp

lemma zip_run: "length xs = length ts \<Longrightarrow> map snd (take n (drop k (zip ts xs))) = take n (drop k xs)"
  by (simp flip: take_map drop_map)

text \<open>C25: The slice of a frame with a stored time axis from a time to a time not before it, with the next sample as its beginning and the previous one as
  its end, holds of every series in step the samples taken between the two times, and its length is
  their number; there is no slice only when there is no such sample.\<close>

theorem slice_selects_interval:
  assumes "times_ok ts" "series_ok s" "ms_size s = ms_size ts" "a \<le> b"
  shows "\<exists>r. getRange a b NEXT_CLOSEST PREV_CLOSEST ts = Inr r
    \<and> (let selected = filter (\<lambda>(t, x). a \<le> t \<and> t \<le> b) (zip (series_values ts) (series_values s)) in
       case r of
         None \<Rightarrow> selected = []
       | Some rg \<Rightarrow> slice_raw rg s = Inr (map snd selected) \<and> slice_length rg = length selected)"
proof -
  let ?ts = "series_values ts" and ?xs = "series_values s"
  let ?k = "length (takeWhile (\<lambda>x. x < a) ?ts)" and ?m = "length (takeWhile (\<lambda>x. x \<le> b) ?ts)"
  have ok: "series_ok ts" "sorted_wrt (<) ?ts" using assms(1) by (simp_all add: times_ok_def)
  have lo: "?ts ! i < a \<longleftrightarrow> i < ?k" if "i < length ?ts" for i
    using prefix_iff [OF ok(2) _ that, of "\<lambda>x. x < a"] by simp
  have hi: "?ts ! i \<le> b \<longleftrightarrow> i < ?m" if "i < length ?ts" for i
    using prefix_iff [OF ok(2) _ that, of "\<lambda>x. x \<le> b"] by simp
  define k m where "k = ?k" and "m = ?m"
  have le: "k \<le> ms_size ts" "m \<le> ms_size ts"
    using length_takeWhile_le [of _ ?ts] by (simp_all add: k_def m_def)
  have km: "k \<le> m"
  proof (rule ccontr)
    assume "\<not> k \<le> m"
    then have m: "m < length ?ts" "m < k" using le by simp_all
    then have "?ts ! m < a" using lo [OF m(1)] by (simp only: k_def)
    with assms(4) have "?ts ! m \<le> b" by linarith
    then show False using hi [OF m(1)] by (simp add: m_def)
  qed
  have "filter (\<lambda>(t, x). a \<le> t \<and> t \<le> b) (zip ?ts ?xs) = take (m - k) (drop k (zip ?ts ?xs))"
  proof (rule filter_run)
    fix i assume "i < length (zip ?ts ?xs)"
    then have i: "i < length ?ts" "i < length ?xs" by simp_all
    show "(case zip ?ts ?xs ! i of (t, x) \<Rightarrow> a \<le> t \<and> t \<le> b) \<longleftrightarrow> k \<le> i \<and> i < m"
      using lo [OF i(1)] hi [OF i(1)] i by (simp add: k_def m_def not_less [symmetric])
  qed
  then have sel: "map snd (filter (\<lambda>(t, x). a \<le> t \<and> t \<le> b) (zip ?ts ?xs)) = take (m - k) (drop k ?xs)"
    "length (filter (\<lambda>(t, x). a \<le> t \<and> t \<le> b) (zip ?ts ?xs)) = m - k"
    using zip_run [of ?xs ?ts] assms(3) le by simp_all
  let ?r = "if k = ms_size ts \<or> m = 0 then None
    else Some \<lparr>fr_start = offset_at ?ts k, fr_end = offset_at ?ts (m - 1)\<rparr>"
  have range: "getRange a b NEXT_CLOSEST PREV_CLOSEST ts = Inr ?r"
    by (simp add: getRange_def findMatchingOffset_def prev_closest_eq [OF ok(1)] next_closest_eq [OF ok(1)] Let_def
        flip: k_def m_def)
  show ?thesis
  proof (cases "k = ms_size ts \<or> m = 0")
    case True
    then have "m - k = 0" using le km by auto
    with sel(2) True range show ?thesis by (simp add: Let_def)
  next
    case False
    let ?rg = "\<lparr>fr_start = offset_at ?ts k, fr_end = offset_at ?ts (m - 1)\<rparr>"
    have big: "ms_size ts < 2 ^ 31" using ok(1) by (auto simp: series_ok_def rb_ok_def as_ring_def)
    have small: "k < 2 ^ 31" "m < 2 ^ 31" "0 < m" using big le False by auto
    have b: "slice_begin s ?rg = \<lparr>it_size = ms_size s, it_head = ms_head s, it_dis = k\<rparr>"
      using small it_plus_begin [OF assms(2), of k] le assms(3)
      by (simp add: slice_begin_def offset_at_def size_to_int_small)
    have e: "slice_end s ?rg = \<lparr>it_size = ms_size s, it_head = ms_head s, it_dis = m\<rparr>"
      using small it_plus_begin [OF assms(2), of "m - 1"] le assms(3)
      by (simp add: slice_end_def offset_at_def size_to_int_small) (simp add: it_plus_def)
    have "slice_raw ?rg s = Inr (take (m - k) (drop k ?xs))"
      unfolding slice_raw_def series_raw_def begin_or_def end_or_def option.case b e
      using it_range_values [OF assms(2) km] le assms(3) by simp
    moreover have "slice_length ?rg = m - k"
    proof (cases "k = m")
      case True
      then show ?thesis using small(3) by (simp add: slice_length_def offset_at_def size_sub_def)
    next
      case False
      then have "k \<le> m - 1" "m - 1 - k + 1 = m - k" "m - k < 2 ^ 64" using km small by simp_all
      then show ?thesis by (simp add: slice_length_def offset_at_def)
    qed
    ultimately show ?thesis using sel range False by (simp add: Let_def)
  qed
qed

lemma four_times_slice:
  "filter (\<lambda>(t, x). 25 \<le> t \<and> t \<le> (47 :: int)) (zip (series_values four_times) (series_values four_times)) = [(30, 30), (40, 40)]"
  by (simp add: four_times_ok(2))

theorem slice_selects_interval_witness:
  "\<exists>rg. getRange 25 47 NEXT_CLOSEST PREV_CLOSEST four_times = Inr (Some rg) \<and> slice_raw rg four_times = Inr [30, 40]
    \<and> slice_length rg = 2"
proof -
  have "series_ok four_times" using four_times_ok(1) by (simp add: times_ok_def)
  from slice_selects_interval [OF four_times_ok(1) this refl, of 25 47] four_times_slice show ?thesis
    by (auto simp: Let_def split: option.splits)
qed

text \<open>Two slips of the series: \<^verbatim>\<open>-=\<close> moves an iterator forward, and a rate over an integral type uses the
  quotient of the durations rounded to zero, here 10 in two units of time as 10 in three.\<close>

lemma minus_assign_moves_forward: "it_dis (it_minus_assign \<lparr>it_size = 9, it_head = 0, it_dis = 5\<rparr> 2) = 7"
  by (simp add: it_minus_assign_def)

lemma rate_integral_rounds: "rate_integral 10 3 2 = Inr 10"
  by (simp add: rate_integral_def checked_quot_def checked_int64_def in_int64_def quot_int_def)

section \<open>A row that is refused\<close>

text \<open>C39: A row with a time that does not come after the last one is refused with an exception, but its samples have
  been added to every series by then: the frame is out of step, or when it was full every sample stands
  at the time of the one before it.\<close>

theorem refused_row_tears_frame:
  assumes "frame_ok f" "row_fits samples (fv_series f)"
    "axis_times (fv_ts f) \<noteq> []" "time \<le> last (axis_times (fv_ts f))"
  shows "\<exists>f1. vector_addSamples samples time f = (Inl Invalid_Argument, f1)
    \<and> axis_times (fv_ts f1) = axis_times (fv_ts f)
    \<and> frame_columns f1 = map2 (\<lambda>c x. last_n (axis_maxLength (fv_ts f)) (c @ [x])) (frame_columns f) samples
    \<and> (fv_series f = [] \<or> axis_maxLength (fv_ts f) = axis_length (fv_ts f) \<or> \<not> frame_ok f1)"
proof -
  obtain ts where ts: "fv_ts f = Axis_Series ts" using assms(1) by (auto simp: frame_ok_def split: time_axis.splits)
  let ?n = "length (ms_data ts)"
  have ok: "times_ok ts" "list_all (var_ok ?n) (fv_series f)" "list_all (\<lambda>v. length (var_values v) = ms_size ts) (fv_series f)"
    using assms(1) ts by (simp_all add: frame_ok_def)
  from add_each_ok [OF assms(2) ok(2)] obtain vs where
    vs: "add_each var_addSample samples (fv_series f) = (Inr (), vs)"
      "map var_values vs = map2 (\<lambda>v x. last_n ?n (var_values v @ [x])) (fv_series f) samples" by blast
  have len: "length samples = length (fv_series f)" using assms(2) by (rule row_fits_length)
  have "time_addSample time ts = Inl Invalid_Argument"
    using time_add_eq [OF ok(1), of time] assms(3,4) ts by simp
  then have add: "vector_addSamples samples time f = (Inl Invalid_Argument, f\<lparr>fv_series := vs\<rparr>)"
    using len vs(1) ts by (simp add: vector_addSamples_def vector_add_def rmap_def)
  have "\<not> frame_ok (f\<lparr>fv_series := vs\<rparr>)" if "fv_series f \<noteq> []" "?n \<noteq> ms_size ts"
  proof -
    from that(1) obtain v us where v: "fv_series f = v # us" by (cases "fv_series f") auto
    with len obtain x xs where x: "samples = x # xs" by (cases samples) auto
    with vs(2) v obtain w ws where w: "vs = w # ws" "var_values w = last_n ?n (var_values v @ [x])" by auto
    have "ms_size ts \<le> ?n" using ok(1) series.contents_le by (fastforce simp: times_ok_def)
    then have "length (var_values w) = ms_size ts + 1" using w(2) v ok(3) that(2) by (simp add: length_last_n)
    with w(1) ts show ?thesis by (simp add: frame_ok_def)
  qed
  moreover have "frame_columns (f\<lparr>fv_series := vs\<rparr>) = map2 (\<lambda>c x. last_n ?n (c @ [x])) (frame_columns f) samples"
    using vs(2) by (simp add: frame_columns_def zip_map1 o_def case_prod_unfold)
  ultimately show ?thesis using add ts by auto
qed

definition torn_frame :: "unit frame_vector" where
  "torn_frame = \<lparr>fv_name = ''f'', fv_description = [],
     fv_ts = Axis_Series (series_push 10 (make_series 0 2 ''t'' [])),
     fv_series = [S_Int64 (series_push 1 (make_series 0 2 ''a'' []))]\<rparr>"

theorem refused_row_tears_frame_witness:
  "\<exists>f1. vector_addSamples [V_Int64 2] 5 torn_frame = (Inl Invalid_Argument, f1)
    \<and> axis_times (fv_ts f1) = [10] \<and> frame_columns f1 = [[V_Int64 1, V_Int64 2]] \<and> \<not> frame_ok f1"
proof -
  have s: "series_ok (make_series (0 :: int) 2 n [])" for n by (simp add: make_series_ok)
  note p = series_push_last [OF s]
  have cap: "length (ms_data (make_series (0 :: int) 2 n [])) = 2" for n by (simp add: make_series_def)
  have v: "series_values (series_push x (make_series 0 2 n [])) = [x]" for x :: int and n
    using p(3) [of x n] cap [of n] by (simp add: last_n_def)
  have l: "length (ms_data (series_push x (make_series 0 2 n []))) = 2" for x :: int and n
    using p(2) [of x n] cap [of n] by simp
  have z: "ms_size (series_push x (make_series 0 2 n [])) = 1" for x :: int and n
    using v [of x n] by (metis length_series_values length_Cons list.size(3) One_nat_def)
  have "frame_ok torn_frame" by (simp add: frame_ok_def torn_frame_def times_ok_def p(1) v l z)
  then show ?thesis using refused_row_tears_frame [of torn_frame "[V_Int64 2]" 5]
    by (auto simp: torn_frame_def row_fits_def v l z frame_columns_def last_n_def)
qed

end
