(* ===== verification/Spec2Isabelle.thy ===== *)
theory Spec2Isabelle
  imports Cpp_Prelude StrParser Console MultiEditText Menu OutputParser Readline World ModelManager
    ShellExec KvCache Transitions KvSlot KvInvariant RingBuffer CommonString LacMain LacProofs
    Utf8 GrammarParser GrammarShape Grammar GrammarLang GrammarTerm GrammarMask
    HbtRing HbtQueue HbtRefine HbtChunks TagStack Slicer SlicerProofs SlicerClaims
    SlicerSwitch HbtStream EventSources RingStream SlicedStreams IntervalSlicer IntervalProofs
    IntervalClaims IntervalWrite IntervalErrors MetricSeries MetricTime MetricFrame MetricProofs
    MetricClaims
begin

text \<open>
  A verification library for IntegratedCLI: the command line tool \<^verbatim>\<open>lac\<close> that asks a local language model for shell
  commands (\<^verbatim>\<open>src/lac.cpp\<close>, \<^verbatim>\<open>src/lang-cli-src\<close>), the parts of the inference library it rests on whose logic is
  its own (\<^verbatim>\<open>src/common\<close>, the key/value cache of \<^verbatim>\<open>src/src/llama.cpp\<close>, the grammars of
  \<^verbatim>\<open>src/src/llama-grammar.cpp\<close>), and the performance monitor in the same repository, from its ring buffers to the
  slices of time it reports (\<^verbatim>\<open>src/hbt/src\<close>), with the
  tables of metrics its daemon keeps (\<^verbatim>\<open>src/dynolog/src/metric_frame\<close>).

  \<^bold>\<open>How the program works.\<close>  \<^verbatim>\<open>main\<close> checks its options, chooses and downloads a model with the model manager, reads
  a prompt, and runs the generation loop: decode the pending tokens into the cache (shifting the context when it is
  full), sample one under the optional grammar, print, until the budget is used up.  The output parser takes suggested
  commands from the text, and the shell executor lets the user choose, edit and run one.  The monitor is a program
  of its own: producers write events into byte ring buffers, streams read and merge them by time, the slicer turns them
  into slices of time for each tag stack, and the slicer by interval hands the slices to its consumers.

  \<^bold>\<open>Conventions\<close> (\<open>Cpp_Prelude\<close>, \<open>Transitions\<close>, \<open>World\<close>).  A struct is a record, an enum a datatype.  A result is
  \<^typ>\<open>'a result\<close>: \<open>Inl\<close> an exception, a failed assertion or undefined behaviour, \<open>Inr\<close> a value.  Debug-only checks are
  left out, as in a release build.  Text is a list of bytes.  Numbers are \<^typ>\<open>nat\<close> or \<^typ>\<open>int\<close> with the wrap-around
  written out where the code can reach it, and words in the ring buffers.  Files, keyboard, screen and child processes
  are a world that is passed on; a computation that never returns is \<^const>\<open>None\<close>.  \<open>Transitions\<close> has the interfaces
  for step relations with an invariant and for operations that answer as their specification does.

  \<^bold>\<open>Theories and code.\<close>

  \<^item> \<open>StrParser\<close>, \<open>Console\<close>, \<open>MultiEdit\<close>, \<open>MultiEditText\<close>, \<open>Menu\<close>, \<open>OutputParser\<close>, \<open>ModelManager\<close>,
    \<open>ShellExec\<close>: the files of \<^verbatim>\<open>lang-cli-src\<close>, function by function; \<open>Readline\<close>: the line input of \<^verbatim>\<open>common/console.cpp\<close>; \<open>CommonString\<close>:
    the string helpers of \<^verbatim>\<open>common/common.cpp\<close>; \<open>RingBuffer\<close>: the token history of \<^verbatim>\<open>common/sampling.cpp\<close>.
    Shown: suggestions are well formed, only confirmed commands run, the configuration is read back as it was saved,
    the line input is an editor over code points, the multi-line editor is an editor of one text with a cursor (up to
    the final redraw, which fails when lines were joined), the menus behave as specified on every key, and where they
    read past the end of a vector.
  \<^item> \<open>KvCache\<close>, \<open>KvSlot\<close>, \<open>KvInvariant\<close>: the cells of the cache and all operations on sequences.  Shown, for Transformer caches: the counters
    agree with the cells in every reachable state, the operations refine a view from sequences and cells to positions,
    the slot search returns and is complete.
  \<^item> \<open>Utf8\<close>, \<open>GrammarParser\<close>, \<open>GrammarShape\<close>, \<open>Grammar\<close>, \<open>GrammarLang\<close>, \<open>GrammarTerm\<close>, \<open>GrammarMask\<close>:
    \<^verbatim>\<open>llama-grammar.cpp\<close>.  Shown: the parser returns and gives rules in the shape the automaton needs, the stacks
    accept the language of the grammar, loading, masking and accepting end (or exactly how the check for left recursion
    fails), a token that is not masked is accepted.  These rest on the rules being \<open>visibly_empty\<close>: every rule that
    can derive the empty text has an alternate without elements, which is what the check looks for.
  \<^item> \<open>LacMain\<close>, \<open>LacProofs\<close>: \<^verbatim>\<open>main\<close> from the checks to the code after the loop.  Shown: the loop with a
    budget ends within it, the context shift keeps the cache contiguous, a session is reused exactly as far as it agrees.
  \<^item> \<open>HbtRing\<close>, \<open>HbtQueue\<close>, \<open>HbtRefine\<close>, \<open>HbtChunks\<close>: \<^verbatim>\<open>ringbuffer/RingBuffer.h\<close>, \<^verbatim>\<open>Producer.h\<close>,
    \<^verbatim>\<open>Consumer.h\<close>.  Shown: any interleaving of the transactional and the atomic operations of one producer and one
    consumer (all but \<^verbatim>\<open>Producer::dropN\<close>, the seeks and the chunks without a size) answers as a bounded queue of bytes;
    chunks come out as they went in; two ways in which the code leaves this contract.
  \<^item> \<open>TagStack\<close>, \<open>Slicer\<close>, \<open>SlicerProofs\<close>, \<open>SlicerClaims\<close>, \<open>SlicerSwitch\<close>: \<^verbatim>\<open>tagstack/TagStack.h\<close>, \<^verbatim>\<open>Event.h\<close>,
    \<^verbatim>\<open>Slicer.h\<close>.  Shown: no check fails on valid events, time and slices agree, slices do not overlap, and every
    stream of switches a scheduler can produce is processed to its end.
  \<^item> \<open>HbtStream\<close>, \<open>EventSources\<close>, \<open>RingStream\<close>, \<open>SlicedStreams\<close>: \<^verbatim>\<open>tagstack/Stream.h\<close>.  Shown: a tree of
    combinators over ring buffers gives the events of all of them in their order, which is the order the slicer needs.
  \<^item> \<open>IntervalSlicer\<close>, \<open>IntervalProofs\<close>, \<open>IntervalClaims\<close>, \<open>IntervalWrite\<close>, \<open>IntervalErrors\<close>:
    \<^verbatim>\<open>tagstack/IntervalSlicer.h\<close> and \<^verbatim>\<open>IntervalSlicer.cpp\<close>.  Shown: as long as no slice was dropped for room a trimming
    consumer gets exactly the slices of its interval, cut to it, without taking anything from another consumer; and four
    ways in which the code breaks this.
  \<^item> \<open>MetricSeries\<close>, \<open>MetricTime\<close>, \<open>MetricFrame\<close>, \<open>MetricProofs\<close>, \<open>MetricClaims\<close>: \<^verbatim>\<open>dynolog/src/metric_frame\<close>,
    the tables of samples of the daemon.  A series is the ring buffer of \<open>RingBuffer\<close> seen through its iterators and
    meets the same contract.  Shown: a frame with a stored time axis is the table of its last rows, the search by time
    finds a nearest sample, a slice from the next to the previous sample holds the samples of its interval, and how a row
    that is refused tears the table.

  \<^bold>\<open>Bounds and fuel.\<close>  The recursive descent of the grammar parser gets fuel \<open>3 * n + 3\<close> for a text of \<open>n\<close> bytes; that it
  is enough is proved (\<open>parse_returns\<close>).  The automaton recurses to a depth that is an argument; for every grammar whose empty
  rules the check sees and every text there is a depth that is enough, which may grow with the text
  (\<open>grammar_never_hangs\<close>, \<open>automaton_language\<close>), and for other grammars there may be none (\<open>hidden_left_recursion\<close>).  Loops over keys end with the keyboard.  A cache has fewer than \<open>2 ^ 30\<close> cells, a ring at
  most \<open>2 ^ 62\<close> bytes and its positions wrap at \<open>2 ^ 64\<close>.  Reading an interval takes at most one more read than the ring
  has bytes, which is enough because a slice has 32.  Time stamps of slices are natural numbers: a stamp plus a duration
  does not reach \<open>2 ^ 64\<close>.

  \<^bold>\<open>Simplifications.\<close>  A file that could be opened can be written in full.  The width of a character that \<^verbatim>\<open>wcwidth\<close> does not
  know, which the line input measures by the cursor, is a function of the character alone (so a tab has one width).  The
  loop counters of the slot search for recurrent caches are integers.

  \<^bold>\<open>Parameters.\<close>  The model (tokenizer, decoder, sampler), the JSON library, \<^verbatim>\<open>wcwidth\<close> and codecvt, libcurl and
  \<^verbatim>\<open>popen\<close>, floating-point arithmetic, and whether a weak exchange of an atomic succeeds, are arguments; what is assumed of them is a hypothesis of
  the theorem that needs it.

  \<^bold>\<open>Not modelled.\<close>  The tensor library, graph building and file formats of the inference library (numerical, vendored);
  the vocabulary and the samplers; Windows code; the logging thread; threads that race on one side of a ring; the
  tables of performance events a generator writes; the monitors over \<^verbatim>\<open>perf_event_open\<close> and the rest of
  the daemon \<^verbatim>\<open>dynolog\<close> (kernel and network interfaces, threads); examples and tests.
\<close>

end
